(* ===== verification/Chiron_Prelude.thy ===== *)
theory Chiron_Prelude
  imports Main "HOL-Library.Word" "HOL-Library.Signed_Division"
begin

text \<open>
  Shared vocabulary of the development: the machine-integer types of the C and C++ sources,
  the collections of rewrite rules the components feed, and the generic facts on words,
  masks, disjoint bit fields, lists and sums that more than one component needs.
\<close>

unbundle bit_operations_syntax

type_synonym u8 = "8 word"
type_synonym u16 = "16 word"
type_synonym u32 = "32 word"
type_synonym u64 = "64 word"
type_synonym u128 = "128 word"

named_theorems word_mask \<open>masks written as hexadecimal literals, as \<open>take_bit\<close>\<close>
named_theorems exec_simps \<open>definitions unfolded when a step of the hart is evaluated\<close>
named_theorems frame_simps \<open>what an operation leaves unchanged\<close>

subsection \<open>Literal masks\<close>

lemma and_lit_1 [word_mask]: "(x :: 'a::len word) AND 1 = take_bit 1 x"
  by (simp add: and_one_eq take_bit_eq_mod)

lemma and_lit_masks [word_mask]:
  fixes x :: "'a::len word"
  shows "x AND 3 = take_bit 2 x" "x AND 7 = take_bit 3 x" "x AND 15 = take_bit 4 x"
    "x AND 31 = take_bit 5 x" "x AND 63 = take_bit 6 x" "x AND 127 = take_bit 7 x"
    "x AND 0xFF = take_bit 8 x" "x AND 0xFFF = take_bit 12 x" "x AND 0xFFFF = take_bit 16 x"
    "x AND 0xFFFFF = take_bit 20 x" "x AND 0xFFFFFFFF = take_bit 32 x"
    "x AND 0xFFFFFFFFFFFFFFFF = take_bit 64 x"
  by (simp_all add: take_bit_eq_mask mask_eq_exp_minus_1)

lemma unat_take_bit_less: "n < LENGTH('a) \<Longrightarrow> unat (take_bit n (x :: 'a::len word)) < 2 ^ n"
  by (simp add: unsigned_take_bit_eq)

lemma unat_and_31_less [simp]: "unat ((x :: u64) AND 31) < 32"
  using unat_take_bit_less [of 5 x] by (simp add: word_mask)

lemma unat_and_63_less [simp]: "unat ((x :: u64) AND 63) < 64"
  using unat_take_bit_less [of 6 x] by (simp add: word_mask)

lemma and_1_cases: "(x :: 'a::len word) AND 1 = 0 \<or> x AND 1 = 1"
  by (simp add: and_one_eq mod_2_eq_odd)

lemma unat_and_7: "unat ((x :: u64) AND 7) = unat x mod 8"
  by (simp only: word_mask unsigned_take_bit_eq) (simp add: take_bit_eq_mod)

lemma and_7_eq_iff: "(x :: u64) AND 7 = 0 \<longleftrightarrow> unat x mod 8 = 0"
    "(x :: u64) AND 7 = 4 \<longleftrightarrow> unat x mod 8 = 4"
proof -
  have "y = 0 \<longleftrightarrow> unat y = 0" "y = 4 \<longleftrightarrow> unat y = 4" for y :: u64
    using word_unat_eq_iff [of y 0] word_unat_eq_iff [of y 4] by simp_all
  then show "(x :: u64) AND 7 = 0 \<longleftrightarrow> unat x mod 8 = 0"
    "(x :: u64) AND 7 = 4 \<longleftrightarrow> unat x mod 8 = 4"
    by (simp_all only: unat_and_7)
qed

lemma unat_ucast_8_64 [simp]: "unat (ucast (x :: u8) :: u64) = unat x"
  using unsigned_less [of x, where 'a = nat] by (simp add: unsigned_ucast_eq take_bit_nat_eq_self)

subsection \<open>Narrowing casts\<close>

lemma ucast_word_of_int_down:
  assumes "LENGTH('b::len) \<le> LENGTH('a::len)"
  shows "(ucast (word_of_int k :: 'a word) :: 'b word) = word_of_int k"
  using assms by (intro bit_word_eqI) (simp add: bit_simps)

lemma ucast_down_ring:
  fixes x y :: "'a::len word"
  assumes "LENGTH('b::len) \<le> LENGTH('a)"
  shows "(ucast (x + y) :: 'b word) = ucast x + ucast y"
    "(ucast (x - y) :: 'b word) = ucast x - ucast y"
    "(ucast (x * y) :: 'b word) = ucast x * ucast y"
proof -
  have u: "(ucast (word_of_int k :: 'a word) :: 'b word) = word_of_int k" for k
    using assms by (rule ucast_word_of_int_down)
  obtain k l where xy: "x = word_of_int k" "y = word_of_int l"
    by (metis word_of_int_uint)
  show "(ucast (x + y) :: 'b word) = ucast x + ucast y"
    by (simp only: xy wi_homs u)
  show "(ucast (x - y) :: 'b word) = ucast x - ucast y"
    by (simp only: xy wi_homs u)
  show "(ucast (x * y) :: 'b word) = ucast x * ucast y"
    by (simp only: xy wi_homs u)
qed

lemma ucast_ucast_up_down [simp]:
  assumes "LENGTH('a::len) \<le> LENGTH('b::len)"
  shows "(ucast (ucast x :: 'b word) :: 'a word) = (x :: 'a word)"
  using assms by (intro bit_word_eqI) (simp add: bit_simps)

end
