(* ===== verification/Csr_Regs.thy ===== *)
theory Csr_Regs
  imports Chiron_Prelude
begin

text \<open>
  The control and status registers of \<^verbatim>\<open>src/sim/emulator/hart_csr.inc\<close>, one record per
  struct of the source, with its constructor, \<open>read_reg\<close> and \<open>write_reg\<close>. The byte fields
  hold one or two bits each; the sums of shifted fields are computed at 64 bits (the source
  adds some of them as \<open>int\<close>, which agrees while the fields stay in range). The lemmas give
  the value read back after a write: each register keeps exactly the bits of its mask.
\<close>

unbundle bit_operations_syntax

subsection \<open>satp\<close>

record satp_t =
  PPN :: u64
  ASID :: u16
  satp_MODE :: u8

definition satp_init :: satp_t where
  "satp_init = \<lparr>PPN = 0, ASID = 0, satp_MODE = 0\<rparr>"

definition satp_read_reg :: "satp_t \<Rightarrow> u64" where
  "satp_read_reg s = push_bit 60 (ucast (satp_MODE s AND 0xF)) + push_bit 44 (ucast (ASID s)) +
     (PPN s AND 0xFFFFFFFFFFF)"

definition satp_write_reg :: "u64 \<Rightarrow> satp_t \<Rightarrow> satp_t" where
  "satp_write_reg val s =
     (let mode = ucast (drop_bit 60 val AND 0xF) in
      s\<lparr>PPN := val AND 0xFFFFFFFFFFF, ASID := 0,
        satp_MODE := (if mode \<noteq> 8 then 0 else mode)\<rparr>)"

subsection \<open>mstatus and ustatus\<close>

record mstatus_t =
  ms_uie :: u8
  ms_sie :: u8
  ms_mie :: u8
  ms_upie :: u8
  ms_spie :: u8
  ms_mpie :: u8
  ms_spp :: u8
  ms_mpp :: u8
  ms_fs :: u8
  ms_xs :: u8
  ms_mprv :: u8
  ms_sum :: u8
  ms_mxr :: u8
  ms_tvm :: u8
  ms_tw :: u8
  ms_tsr :: u8
  ms_uxl :: u8
  ms_sxl :: u8
  ms_sd :: u8

definition mstatus_init :: mstatus_t where
  "mstatus_init = \<lparr>ms_uie = 0, ms_sie = 0, ms_mie = 0, ms_upie = 0, ms_spie = 0, ms_mpie = 0, ms_spp = 0, ms_mpp = 0, ms_fs = 0, ms_xs = 0, ms_mprv = 0, ms_sum = 0, ms_mxr = 0, ms_tvm = 0, ms_tw = 0, ms_tsr = 0, ms_uxl = 2, ms_sxl = 2, ms_sd = 0\<rparr>"

definition mstatus_read_reg :: "mstatus_t \<Rightarrow> u64" where
  "mstatus_read_reg s =
     push_bit 63 (ucast (ms_sd s)) +
      push_bit 34 (ucast (ms_sxl s)) +
      push_bit 32 (ucast (ms_uxl s)) +
      push_bit 22 (ucast (ms_tsr s)) +
      push_bit 21 (ucast (ms_tw s)) +
      push_bit 20 (ucast (ms_tvm s)) +
      push_bit 19 (ucast (ms_mxr s)) +
      push_bit 18 (ucast (ms_sum s)) +
      push_bit 17 (ucast (ms_mprv s)) +
      push_bit 15 (ucast (ms_xs s)) +
      push_bit 13 (ucast (ms_fs s)) +
      push_bit 11 (ucast (ms_mpp s)) +
      push_bit 8 (ucast (ms_spp s)) +
      push_bit 7 (ucast (ms_mpie s)) +
      push_bit 5 (ucast (ms_spie s)) +
      push_bit 4 (ucast (ms_upie s)) +
      push_bit 3 (ucast (ms_mie s)) +
      push_bit 1 (ucast (ms_sie s)) +
      ucast (ms_uie s)"

definition mstatus_write_reg :: "u64 \<Rightarrow> mstatus_t \<Rightarrow> mstatus_t" where
  "mstatus_write_reg val s = s\<lparr>
      ms_uie := ucast (val AND 1),
      ms_sie := ucast (drop_bit 1 val AND 1),
      ms_mie := ucast (drop_bit 3 val AND 1),
      ms_upie := ucast (drop_bit 4 val AND 1),
      ms_spie := ucast (drop_bit 5 val AND 1),
      ms_mpie := ucast (drop_bit 7 val AND 1),
      ms_spp := ucast (drop_bit 8 val AND 1),
      ms_mpp := ucast (drop_bit 11 val AND 3),
      ms_fs := ucast (drop_bit 13 val AND 3),
      ms_xs := ucast (drop_bit 15 val AND 3),
      ms_mprv := ucast (drop_bit 17 val AND 1),
      ms_sum := ucast (drop_bit 18 val AND 1),
      ms_mxr := ucast (drop_bit 19 val AND 1),
      ms_tvm := ucast (drop_bit 20 val AND 1),
      ms_tw := ucast (drop_bit 21 val AND 1),
      ms_tsr := ucast (drop_bit 22 val AND 1),
      ms_sd := ucast (drop_bit 63 val AND 1)\<rparr>"

record ustatus_t =
  us_uie :: u8
  us_upie :: u8
  us_fs :: u8
  us_xs :: u8
  us_sum :: u8
  us_mxr :: u8
  us_uxl :: u8
  us_sd :: u8

definition ustatus_init :: ustatus_t where
  "ustatus_init = \<lparr>us_uie = 0, us_upie = 0, us_fs = 0, us_xs = 0, us_sum = 0, us_mxr = 0, us_uxl = 2, us_sd = 0\<rparr>"

definition ustatus_read_reg :: "ustatus_t \<Rightarrow> u64" where
  "ustatus_read_reg s =
     push_bit 63 (ucast (us_sd s)) +
      push_bit 32 (ucast (us_uxl s)) +
      push_bit 19 (ucast (us_mxr s)) +
      push_bit 18 (ucast (us_sum s)) +
      push_bit 15 (ucast (us_xs s)) +
      push_bit 13 (ucast (us_fs s)) +
      push_bit 4 (ucast (us_upie s)) +
      ucast (us_uie s)"

definition ustatus_write_reg :: "u64 \<Rightarrow> ustatus_t \<Rightarrow> ustatus_t" where
  "ustatus_write_reg val s = s\<lparr>
      us_uie := ucast (val AND 1),
      us_upie := ucast (drop_bit 5 val AND 1),
      us_fs := ucast (drop_bit 13 val AND 3),
      us_xs := ucast (drop_bit 15 val AND 3),
      us_sum := ucast (drop_bit 18 val AND 1),
      us_mxr := ucast (drop_bit 19 val AND 1),
      us_uxl := ucast (drop_bit 32 val AND 3),
      us_sd := ucast (drop_bit 63 val AND 1)\<rparr>"

subsection \<open>mie and mip\<close>

record mie_t =
  MEIE :: u8
  SEIE :: u8
  UEIE :: u8
  MTIE :: u8
  STIE :: u8
  UTIE :: u8
  MSIE :: u8
  SSIE :: u8
  USIE :: u8

definition mie_init :: mie_t where
  "mie_init = \<lparr>MEIE = 0, SEIE = 0, UEIE = 0, MTIE = 0, STIE = 0, UTIE = 0, MSIE = 0, SSIE = 0, USIE = 0\<rparr>"

definition mie_read_reg :: "mie_t \<Rightarrow> u64" where
  "mie_read_reg r =
     push_bit 11 (ucast (MEIE r AND 1)) +
      push_bit 9 (ucast (SEIE r AND 1)) +
      push_bit 8 (ucast (UEIE r AND 1)) +
      push_bit 7 (ucast (MTIE r AND 1)) +
      push_bit 5 (ucast (STIE r AND 1)) +
      push_bit 4 (ucast (UTIE r AND 1)) +
      push_bit 3 (ucast (MSIE r AND 1)) +
      push_bit 1 (ucast (SSIE r AND 1)) +
      ucast (USIE r AND 1)"

definition mie_write_reg :: "u64 \<Rightarrow> mie_t \<Rightarrow> mie_t" where
  "mie_write_reg val r = r\<lparr>
      MEIE := ucast (drop_bit 11 val AND 1),
      SEIE := ucast (drop_bit 9 val AND 1),
      UEIE := ucast (drop_bit 8 val AND 1),
      MTIE := ucast (drop_bit 7 val AND 1),
      STIE := ucast (drop_bit 5 val AND 1),
      UTIE := ucast (drop_bit 4 val AND 1),
      MSIE := ucast (drop_bit 3 val AND 1),
      SSIE := ucast (drop_bit 1 val AND 1),
      USIE := ucast (val AND 1)\<rparr>"

record mip_t =
  MEIP :: u8
  SEIP :: u8
  UEIP :: u8
  MTIP :: u8
  STIP :: u8
  UTIP :: u8
  MSIP :: u8
  SSIP :: u8
  USIP :: u8

definition mip_init :: mip_t where
  "mip_init = \<lparr>MEIP = 0, SEIP = 0, UEIP = 0, MTIP = 0, STIP = 0, UTIP = 0, MSIP = 0, SSIP = 0, USIP = 0\<rparr>"

definition mip_read_reg :: "mip_t \<Rightarrow> u64" where
  "mip_read_reg r =
     push_bit 11 (ucast (MEIP r AND 1)) +
      push_bit 9 (ucast (SEIP r AND 1)) +
      push_bit 8 (ucast (UEIP r AND 1)) +
      push_bit 7 (ucast (MTIP r AND 1)) +
      push_bit 5 (ucast (STIP r AND 1)) +
      push_bit 4 (ucast (UTIP r AND 1)) +
      push_bit 3 (ucast (MSIP r AND 1)) +
      push_bit 1 (ucast (SSIP r AND 1)) +
      ucast (USIP r AND 1)"

definition mip_write_reg :: "u64 \<Rightarrow> mip_t \<Rightarrow> mip_t" where
  "mip_write_reg val r = r\<lparr>
      MEIP := ucast (drop_bit 11 val AND 1),
      SEIP := ucast (drop_bit 9 val AND 1),
      UEIP := ucast (drop_bit 8 val AND 1),
      MTIP := ucast (drop_bit 7 val AND 1),
      STIP := ucast (drop_bit 5 val AND 1),
      UTIP := ucast (drop_bit 4 val AND 1),
      MSIP := ucast (drop_bit 3 val AND 1),
      SSIP := ucast (drop_bit 1 val AND 1),
      USIP := ucast (val AND 1)\<rparr>"

subsection \<open>Trap vectors and causes\<close>

record mtvec_t =
  mtv_mode :: u8
  mtv_base :: u64

definition mtvec_read_reg :: "mtvec_t \<Rightarrow> u64" where
  "mtvec_read_reg r = ucast (mtv_mode r AND 3) + (mtv_base r AND (0xFFFFFFFFFFFFFFFF - 3))"

definition mtvec_write_reg :: "u64 \<Rightarrow> mtvec_t \<Rightarrow> mtvec_t" where
  "mtvec_write_reg val r =
     r\<lparr>mtv_mode := ucast (val AND 3), mtv_base := val AND (0xFFFFFFFFFFFFFFFF - 3)\<rparr>"

record utvec_t =
  utv_mode :: u8
  utv_base :: u64

definition utvec_read_reg :: "utvec_t \<Rightarrow> u64" where
  "utvec_read_reg r = ucast (utv_mode r AND 3) + (utv_base r AND (0xFFFFFFFFFFFFFFFF - 3))"

definition utvec_write_reg :: "u64 \<Rightarrow> utvec_t \<Rightarrow> utvec_t" where
  "utvec_write_reg val r =
     r\<lparr>utv_mode := ucast (val AND 3), utv_base := val AND (0xFFFFFFFFFFFFFFFF - 3)\<rparr>"

record mcause_t =
  mc_interrupt :: u8
  mc_ecode :: u64

definition mcause_read_reg :: "mcause_t \<Rightarrow> u64" where
  "mcause_read_reg r = ((push_bit 63 1 - 1) AND mc_ecode r) + push_bit 63 (ucast (mc_interrupt r))"

definition mcause_write_reg :: "u64 \<Rightarrow> mcause_t \<Rightarrow> mcause_t" where
  "mcause_write_reg val r =
     r\<lparr>mc_ecode := val AND (push_bit 63 1 - 1), mc_interrupt := ucast (drop_bit 63 val AND 1)\<rparr>"

record ucause_t =
  uc_interrupt :: u8
  uc_ecode :: u64

definition ucause_read_reg :: "ucause_t \<Rightarrow> u64" where
  "ucause_read_reg r = ((push_bit 63 1 - 1) AND uc_ecode r) + push_bit 63 (ucast (uc_interrupt r))"

definition ucause_write_reg :: "u64 \<Rightarrow> ucause_t \<Rightarrow> ucause_t" where
  "ucause_write_reg val r =
     r\<lparr>uc_ecode := val AND (push_bit 63 1 - 1), uc_interrupt := ucast (drop_bit 63 val AND 1)\<rparr>"

subsection \<open>Field extraction and merging\<close>

lemma field_roundtrip:
  assumes "m AND 0xFF = m"
  shows "push_bit k (ucast (ucast (drop_bit k v AND m) :: u8)) = (v :: u64) AND push_bit k m"
proof -
  have "bit m i \<Longrightarrow> i < 8" for i
    by (metis assms and_lit_masks(7) bit_take_bit_iff)
  then show ?thesis
    by (intro bit_word_eqI) (auto simp: bit_simps)
qed

lemma field_roundtrips:
  fixes v :: u64
  shows "(ucast (ucast (v AND 1) :: u8) :: u64) = v AND 1"
    "(ucast (ucast (v AND 3) :: u8) :: u64) = v AND 3"
    "push_bit k (drop_bit k v AND 1) = v AND 2 ^ k"
    "push_bit k (drop_bit k v AND 3) = v AND (3 * 2 ^ k)"
proof -
  show u: "(ucast (ucast (v AND 1) :: u8) :: u64) = v AND 1"
    "(ucast (ucast (v AND 3) :: u8) :: u64) = v AND 3" for v :: u64
    using field_roundtrip [of 1 0 v] field_roundtrip [of 3 0 v] by simp_all
  show "push_bit k (drop_bit k v AND 1) = v AND 2 ^ k"
    "push_bit k (drop_bit k v AND 3) = v AND (3 * 2 ^ k)"
    using field_roundtrip [of 1 k v] field_roundtrip [of 3 k v]
    by (simp_all only: push_bit_eq_mult u) simp_all
qed

lemma field_masked:
  fixes x :: u64
  shows "(ucast (x AND 1) :: u8) AND 1 = ucast (x AND 1)" "(ucast (x AND 3) :: u8) AND 3 = ucast (x AND 3)"
proof -
  show "(ucast (x AND 1) :: u8) AND 1 = ucast (x AND 1)"
    using and_1_cases [of x] by auto
  show "(ucast (x AND 3) :: u8) AND 3 = ucast (x AND 3)"
    unfolding and_lit_masks by (rule bit_word_eqI) (auto simp: bit_simps)
qed

lemma and_add_merge:
  fixes x :: "'a::len word"
  assumes "m1 AND m2 = 0"
  shows "(x AND m1) + (x AND m2) = x AND (m1 OR m2)"
proof -
  have "(x AND m1) AND (x AND m2) = 0"
    using assms by (metis and.assoc and.left_commute and_zero_eq)
  then show ?thesis by (simp add: disjunctive_add_eq_or bit.conj_disj_distrib)
qed

lemma add_numeral_last:
  fixes x :: "'a::len word"
  shows "y + numeral c + (x AND numeral m) = y + (x AND numeral m) + numeral c"
    "y + numeral c + (x AND 1) = y + (x AND 1) + numeral c"
  by (simp_all add: ac_simps)

lemmas csr_rec_simps = mie_t.simps mip_t.simps mstatus_t.simps mtvec_t.simps mcause_t.simps
  field_masked field_roundtrips

subsection \<open>What a register reads after a write\<close>

lemma mie_read_write: "mie_read_reg (mie_write_reg v r) = v AND 0xBBB"
  by (cases r, simp only: mie_read_reg_def mie_write_reg_def csr_rec_simps) (simp add: and_add_merge)

lemma mip_read_write: "mip_read_reg (mip_write_reg v r) = v AND 0xBBB"
  by (cases r, simp only: mip_read_reg_def mip_write_reg_def csr_rec_simps) (simp add: and_add_merge)

lemma mstatus_read_write:
  assumes "ms_uxl s = 2" "ms_sxl s = 2"
  shows "mstatus_read_reg (mstatus_write_reg v s) = (v AND 0x80000000007FF9BB) + 0xA00000000"
  using assms
  by (cases s, simp only: mstatus_read_reg_def mstatus_write_reg_def csr_rec_simps)
    (simp add: and_add_merge add_numeral_last)

lemma and_all_ones: "(v :: u64) AND 0xFFFFFFFFFFFFFFFF = v"
  by (rule bit_word_eqI) (simp add: word_mask bit_simps)

lemma mtvec_read_write: "mtvec_read_reg (mtvec_write_reg v r) = v"
proof -
  have "mtvec_read_reg (mtvec_write_reg v r) = (v AND 3) + (v AND 0xFFFFFFFFFFFFFFFC)"
    by (cases r, simp only: mtvec_read_reg_def mtvec_write_reg_def csr_rec_simps) (simp add: and.assoc)
  then show ?thesis by (simp add: and_add_merge and_all_ones)
qed

lemma mcause_read_write: "mcause_read_reg (mcause_write_reg v r) = v"
proof -
  have "mcause_read_reg (mcause_write_reg v r) = (v AND 0x7FFFFFFFFFFFFFFF) + (v AND 0x8000000000000000)"
    by (cases r, simp only: mcause_read_reg_def mcause_write_reg_def csr_rec_simps)
      (simp add: and.left_commute and.commute [of _ v])
  then show ?thesis by (simp add: and_add_merge and_all_ones)
qed

lemma satp_read_write:
  "satp_read_reg (satp_write_reg v s) =
     (if drop_bit 60 v = 8 then 0x8000000000000000 else 0) + (v AND 0xFFFFFFFFFFF)"
proof -
  have "(ucast (drop_bit 60 v AND 0xF) :: u8) = 8 \<longleftrightarrow> drop_bit 60 v = 8"
  proof -
    have "drop_bit 60 v AND 0xF = drop_bit 60 v"
      by (rule bit_word_eqI) (auto simp: word_mask bit_simps dest: bit_imp_le_length)
    moreover have "unat (drop_bit 60 v) < 16"
      using unsigned_less [of v, where 'a = nat]
      by (simp only: unsigned_drop_bit_eq)
        (simp add: take_bit_nat_eq_self drop_bit_eq_div less_mult_imp_div_less)
    ultimately show ?thesis
      by (simp add: word_unat_eq_iff unsigned_ucast_eq take_bit_nat_eq_self)
  qed
  then show ?thesis
    by (simp add: satp_read_reg_def satp_write_reg_def Let_def and.assoc)
qed

end
