(* ===== verification/Interfaces.thy ===== *)
theory Interfaces
  imports Chiron_Prelude
begin

text \<open>
  The contracts that components of the simulator share, as locales. A register bank is an
  indexed set of cells behind a read and a write operation; the CLINT's software-interrupt
  words, its timer compare registers and a hart's integer register file are all used as one.
  Client lemmas about sequences of writes are proved here once and reach the components by
  interpretation.
\<close>

locale reg_bank =
  fixes rd :: "'s \<Rightarrow> nat \<Rightarrow> 'v"
    and wr :: "nat \<Rightarrow> 'v \<Rightarrow> 's \<Rightarrow> 's"
    and ok :: "'s \<Rightarrow> nat \<Rightarrow> bool"
    and inv :: "'s \<Rightarrow> bool"
    and norm :: "'v \<Rightarrow> 'v"
  assumes wr_inv: "inv s \<Longrightarrow> ok s i \<Longrightarrow> inv (wr i v s)"
    and wr_ok: "inv s \<Longrightarrow> ok s i \<Longrightarrow> ok (wr i v s) j = ok s j"
    and rd_wr: "inv s \<Longrightarrow> ok s i \<Longrightarrow> ok s j \<Longrightarrow>
      rd (wr i v s) j = (if i = j then norm v else rd s j)"
begin

lemma writes_inv:
  "inv s \<Longrightarrow> \<forall>(i, v) \<in> set ws. ok s i \<Longrightarrow>
     inv (fold (\<lambda>(i, v). wr i v) ws s) \<and> (\<forall>j. ok (fold (\<lambda>(i, v). wr i v) ws s) j = ok s j)"
  by (induction ws arbitrary: s) (auto simp: wr_inv wr_ok)

lemma rd_writes:
  assumes "inv s" "\<forall>(i, v) \<in> set ws. ok s i" "ok s j"
  shows "rd (fold (\<lambda>(i, v). wr i v) ws s) j =
    (case map_of (rev ws) j of None \<Rightarrow> rd s j | Some v \<Rightarrow> norm v)"
  using assms(2)
proof (induction ws rule: rev_induct)
  case (snoc w ws)
  obtain i v where w: "w = (i, v)" by fastforce
  let ?s = "fold (\<lambda>(i, v). wr i v) ws s"
  have inv: "inv ?s \<and> (\<forall>j. ok ?s j = ok s j)"
    using assms(1) snoc.prems by (intro writes_inv) auto
  then have "rd (wr i v ?s) j = (if i = j then norm v else rd ?s j)"
    using snoc.prems w assms(3) by (intro rd_wr) auto
  then show ?case using snoc w by auto
qed simp

lemma writes_last_wins:
  assumes "inv s" "\<forall>(i, v) \<in> set ws. ok s i" "ok s j"
  shows "rd (fold (\<lambda>(i, v). wr i v) (ws @ [(j, v)]) s) j = norm v"
  using assms by (subst rd_writes) auto

lemma writes_frame:
  assumes "inv s" "\<forall>(i, v) \<in> set ws. ok s i" "ok s j" "j \<notin> fst ` set ws"
  shows "rd (fold (\<lambda>(i, v). wr i v) ws s) j = rd s j"
proof -
  have "map_of (rev ws) j = None" using assms(4) by (simp add: map_of_eq_None_iff)
  then show ?thesis using rd_writes [OF assms(1-3)] by simp
qed

end

end
