(* ===== verification/Clint.thy ===== *)
theory Clint
  imports Interfaces
begin

text \<open>
  The core-local interruptor of the golden model, \<^verbatim>\<open>src/sim/emulator/clint.h\<close>: one software
  interrupt bit and one timer compare value per hart, and the shared time counter, behind a
  memory-mapped window. The member \<open>hart\<close> of the class is a scratch index that every use
  assigns first; it is a local of the model. Under the build flag \<open>LOCKSTEP\<close> a store to an
  MSIP word is ignored, so the flag is a parameter of \<open>clint_write\<close>.
\<close>

unbundle bit_operations_syntax

subsection \<open>State and address map\<close>

record clint =
  msip :: "u32 list"
  mtimecmp :: "u64 list"
  mtime :: u64
  tv_sec :: int
  tv_usec :: int
  num_harts :: u8

definition CLINT_BASE_ADDR :: u64 where "CLINT_BASE_ADDR = 0x2000000"
definition MSIP_BASE :: u64 where "MSIP_BASE = 0x0000"
definition MTIMECMP_BASE :: u64 where "MTIMECMP_BASE = 0x4000"
definition MTIME_OFFSET :: u64 where "MTIME_OFFSET = 0xBFF8"
definition freq_hz :: u64 where "freq_hz = 50000000"

lemmas clint_consts = CLINT_BASE_ADDR_def MSIP_BASE_def MTIMECMP_BASE_def MTIME_OFFSET_def

definition clint_init :: "u8 \<Rightarrow> int \<Rightarrow> int \<Rightarrow> clint" where
  "clint_init n now_sec now_usec =
     \<lparr>msip = replicate (unat n) 0, mtimecmp = replicate (unat n) (NOT 0), mtime = 0,
      tv_sec = now_sec, tv_usec = now_usec, num_harts = n\<rparr>"

subsection \<open>Direct accessors used by the lock-step harness\<close>

definition set_msip :: "u32 \<Rightarrow> u32 \<Rightarrow> clint \<Rightarrow> clint" where
  "set_msip h val c =
     (if h < ucast (num_harts c) then c\<lparr>msip := (msip c)[unat h := val AND 1]\<rparr> else c)"

definition get_msip :: "clint \<Rightarrow> u32 \<Rightarrow> u32" where
  "get_msip c h = (if h < ucast (num_harts c) then msip c ! unat h AND 1 else 0)"

definition set_mtime :: "u64 \<Rightarrow> clint \<Rightarrow> clint" where
  "set_mtime val c = c\<lparr>mtime := val\<rparr>"

definition get_mtime :: "clint \<Rightarrow> u64" where
  "get_mtime c = mtime c"

definition set_mtimecmp :: "u32 \<Rightarrow> u64 \<Rightarrow> clint \<Rightarrow> clint" where
  "set_mtimecmp h val c =
     (if h < ucast (num_harts c) then c\<lparr>mtimecmp := (mtimecmp c)[unat h := val]\<rparr> else c)"

definition get_mtimecmp :: "clint \<Rightarrow> u32 \<Rightarrow> u64" where
  "get_mtimecmp c h = (if h < ucast (num_harts c) then mtimecmp c ! unat h else NOT 0)"

subsection \<open>Memory-mapped access\<close>

text \<open>The three windows, and the half-word merge of a 32-bit store to a 64-bit register.\<close>

definition in_msip :: "clint \<Rightarrow> u64 \<Rightarrow> bool" where
  "in_msip c addr \<longleftrightarrow> CLINT_BASE_ADDR + MSIP_BASE \<le> addr \<and>
     addr < CLINT_BASE_ADDR + MSIP_BASE + 4 * ucast (num_harts c)"

definition in_mtimecmp :: "clint \<Rightarrow> u64 \<Rightarrow> bool" where
  "in_mtimecmp c addr \<longleftrightarrow> CLINT_BASE_ADDR + MTIMECMP_BASE \<le> addr \<and>
     addr < CLINT_BASE_ADDR + MTIMECMP_BASE + 8 * ucast (num_harts c)"

definition in_mtime :: "u64 \<Rightarrow> bool" where
  "in_mtime addr \<longleftrightarrow> CLINT_BASE_ADDR + MTIME_OFFSET \<le> addr \<and>
     addr < CLINT_BASE_ADDR + MTIME_OFFSET + 8"

definition merge_store :: "u64 \<Rightarrow> u64 \<Rightarrow> u64 \<Rightarrow> nat \<Rightarrow> u64" where
  "merge_store old addr val sz =
     (if 8 \<le> sz then val
      else if sz = 4 then
        (let data = val AND 0xFFFFFFFF in
         if addr AND 7 = 0 then (old AND 0xFFFFFFFF00000000) OR data
         else (old AND 0x00000000FFFFFFFF) OR push_bit 32 data)
      else old)"

definition clint_write :: "bool \<Rightarrow> u64 \<Rightarrow> u64 \<Rightarrow> nat \<Rightarrow> clint \<Rightarrow> clint" where
  "clint_write lockstep addr val sz c =
     (if in_msip c addr then
        (let hart = unat ((addr - (CLINT_BASE_ADDR + MSIP_BASE)) div 4) in
         if lockstep then c else c\<lparr>msip := (msip c)[hart := ucast (val AND 1)]\<rparr>)
      else if in_mtimecmp c addr then
        (let h = unat ((addr - (CLINT_BASE_ADDR + MTIMECMP_BASE)) div 8) in
         c\<lparr>mtimecmp := (mtimecmp c)[h := merge_store (mtimecmp c ! h) addr val sz]\<rparr>)
      else if in_mtime addr then
        c\<lparr>mtime := merge_store (mtime c) addr val sz\<rparr>
      else c)"

definition clint_read :: "clint \<Rightarrow> u64 \<Rightarrow> u64" where
  "clint_read c addr =
     (if in_msip c addr then
        ucast (msip c ! unat ((addr - (CLINT_BASE_ADDR + MSIP_BASE)) div 4))
      else if in_mtimecmp c addr then
        (let v = mtimecmp c ! unat ((addr - (CLINT_BASE_ADDR + MTIMECMP_BASE)) div 8) in
         if addr AND 7 = 4 then drop_bit 32 v else v)
      else if in_mtime addr then
        (if addr AND 7 = 4 then drop_bit 32 (mtime c) else mtime c)
      else 0)"

subsection \<open>Time and interrupt lines\<close>

definition clint_tick :: "int \<Rightarrow> int \<Rightarrow> clint \<Rightarrow> clint" where
  "clint_tick now_sec now_usec c =
     (let diff_usecs = (word_of_int ((now_sec - tv_sec c) * 1000000 + (now_usec - tv_usec c)) :: u64)
      in c\<lparr>mtime := diff_usecs * freq_hz div 1000000\<rparr>)"

definition clint_advance :: "u64 \<Rightarrow> clint \<Rightarrow> clint" where
  "clint_advance delta c = c\<lparr>mtime := mtime c + delta\<rparr>"

definition check_timer_interrupt :: "clint \<Rightarrow> u32 \<Rightarrow> bool" where
  "check_timer_interrupt c hart \<longleftrightarrow> mtimecmp c ! unat hart \<le> mtime c"

definition check_software_interrupt :: "clint \<Rightarrow> u32 \<Rightarrow> bool" where
  "check_software_interrupt c hart \<longleftrightarrow> msip c ! unat hart \<noteq> 0"

subsection \<open>Well-formedness\<close>

definition clint_wf :: "clint \<Rightarrow> bool" where
  "clint_wf c \<longleftrightarrow> length (msip c) = unat (num_harts c) \<and>
     length (mtimecmp c) = unat (num_harts c) \<and> list_all (\<lambda>b. b = 0 \<or> b = 1) (msip c)"

lemma list_all_update: "list_all P xs \<Longrightarrow> P x \<Longrightarrow> list_all P (xs[i := x])"
  by (auto simp: list_all_iff dest: set_update_subset_insert [THEN subsetD])

lemma clint_wf_init: "clint_wf (clint_init n s u)"
  by (simp add: clint_wf_def clint_init_def list_all_iff)

lemma clint_wf_write: "clint_wf c \<Longrightarrow> clint_wf (clint_write ls addr val sz c)"
  using and_1_cases [of val]
  by (auto simp: clint_wf_def clint_write_def Let_def intro!: list_all_update)

lemma clint_wf_ops:
  assumes "clint_wf c"
  shows "clint_wf (set_msip h v c)" "clint_wf (set_mtime t c)" "clint_wf (set_mtimecmp h t c)"
    "clint_wf (clint_tick s u c)" "clint_wf (clint_advance d c)"
  using assms and_1_cases [of v]
  by (auto simp: clint_wf_def set_msip_def set_mtime_def set_mtimecmp_def clint_tick_def
      clint_advance_def Let_def intro!: list_all_update)

lemma num_harts_write [simp]: "num_harts (clint_write ls addr val sz c) = num_harts c"
  by (simp add: clint_write_def Let_def)

subsection \<open>Register addresses\<close>

definition msip_addr :: "nat \<Rightarrow> u64" where "msip_addr h = 0x2000000 + 4 * of_nat h"
definition mtimecmp_addr :: "nat \<Rightarrow> u64" where "mtimecmp_addr h = 0x2004000 + 8 * of_nat h"

lemma unat_num_harts: "unat (num_harts c) < 256"
  using unsigned_less [of "num_harts c", where 'a = nat] by simp

lemma unat_times_of_nat:
  "h < 256 \<Longrightarrow> unat (4 * of_nat h :: u64) = 4 * h" "h < 256 \<Longrightarrow> unat (8 * of_nat h :: u64) = 8 * h"
  by (simp_all add: unat_word_ariths unat_of_nat)

lemma unat_addrs:
  assumes "h < 256"
  shows "unat (msip_addr h) = 0x2000000 + 4 * h" "unat (mtimecmp_addr h) = 0x2004000 + 8 * h"
  using assms by (simp_all add: msip_addr_def mtimecmp_addr_def unat_word_ariths unat_of_nat)

lemma unat_windows:
  "unat (0x2000000 + 4 * ucast (num_harts c) :: u64) = 0x2000000 + 4 * unat (num_harts c)"
  "unat (0x2004000 + 8 * ucast (num_harts c) :: u64) = 0x2004000 + 8 * unat (num_harts c)"
  using unat_num_harts [of c] by (simp_all add: unat_word_ariths)

lemma window_iffs:
  "in_msip c a \<longleftrightarrow> 0x2000000 \<le> unat a \<and> unat a < 0x2000000 + 4 * unat (num_harts c)"
  "in_mtimecmp c a \<longleftrightarrow> 0x2004000 \<le> unat a \<and> unat a < 0x2004000 + 8 * unat (num_harts c)"
  "in_mtime a \<longleftrightarrow> 0x200BFF8 \<le> unat a \<and> unat a < 0x200C000"
  unfolding in_msip_def in_mtimecmp_def in_mtime_def clint_consts
  using unat_windows [of c] by (simp_all add: word_le_nat_alt word_less_nat_alt)

lemma windows_at:
  assumes "h < unat (num_harts c)"
  shows "in_msip c (msip_addr h)" "in_mtimecmp c (mtimecmp_addr h)" "\<not> in_msip c (mtimecmp_addr h)"
  using assms unat_num_harts [of c] by (simp_all add: window_iffs unat_addrs)

lemma index_at:
  assumes "h < 256"
  shows "unat ((msip_addr h - 0x2000000) div 4) = h" "unat ((mtimecmp_addr h - 0x2004000) div 8) = h"
  using assms by (simp_all add: msip_addr_def mtimecmp_addr_def unat_div unat_times_of_nat)

lemma mtimecmp_addr_aligned: "h < 256 \<Longrightarrow> mtimecmp_addr h AND 7 = 0"
  by (simp add: and_7_eq_iff unat_addrs)

subsection \<open>Register banks of the CLINT\<close>

lemma clint_read_msip:
  "h < unat (num_harts c) \<Longrightarrow> clint_read c (msip_addr h) = ucast (msip c ! h)"
  using unat_num_harts [of c]
  by (simp add: clint_read_def windows_at clint_consts index_at)

lemma clint_read_mtimecmp:
  "h < unat (num_harts c) \<Longrightarrow> clint_read c (mtimecmp_addr h) = mtimecmp c ! h"
  using unat_num_harts [of c]
  by (simp add: clint_read_def windows_at clint_consts index_at mtimecmp_addr_aligned)

lemma clint_write_msip:
  "h < unat (num_harts c) \<Longrightarrow>
     clint_write False (msip_addr h) val sz c = c\<lparr>msip := (msip c)[h := ucast (val AND 1)]\<rparr>"
  using unat_num_harts [of c]
  by (simp add: clint_write_def windows_at clint_consts index_at)

lemma clint_write_mtimecmp:
  "h < unat (num_harts c) \<Longrightarrow>
     clint_write ls (mtimecmp_addr h) val sz c = c\<lparr>mtimecmp := (mtimecmp c)
       [h := merge_store (mtimecmp c ! h) (mtimecmp_addr h) val sz]\<rparr>"
  using unat_num_harts [of c]
  by (simp add: clint_write_def windows_at clint_consts index_at)

lemma ucast_ucast_and_1: "(ucast (ucast (x AND 1 :: u64) :: u32) :: u64) = x AND 1"
  using and_1_cases [of x] by auto

interpretation msip_bank: reg_bank
  "\<lambda>c h. clint_read c (msip_addr h)" "\<lambda>h v. clint_write False (msip_addr h) v 4"
  "\<lambda>c h. h < unat (num_harts c)" clint_wf "\<lambda>v. v AND 1"
  by (unfold_locales, erule clint_wf_write)
    (auto simp: clint_read_msip clint_write_msip ucast_ucast_and_1 clint_wf_def)

interpretation mtimecmp_bank: reg_bank
  "\<lambda>c h. clint_read c (mtimecmp_addr h)" "\<lambda>h v. clint_write ls (mtimecmp_addr h) v 8"
  "\<lambda>c h. h < unat (num_harts c)" clint_wf "\<lambda>v. v" for ls
  by (unfold_locales, erule clint_wf_write)
    (auto simp: clint_read_mtimecmp clint_write_mtimecmp merge_store_def clint_wf_def)

end
