(* ===== verification/Hart_State.thy ===== *)
theory Hart_State
  imports Csr_Regs Clint
begin

text \<open>
  The state of a hart (class \<open>hart\<close> of \<^verbatim>\<open>src/sim/emulator/hart.h\<close>) and of what the harts
  share, the CSR access functions of \<^verbatim>\<open>hart_csr.inc\<close> and the trap entries of
  \<^verbatim>\<open>hart_trap.inc\<close>. Members of the class that every step assigns before it reads them (the
  decoded fields, \<open>load_addr\<close>, \<open>store_addr\<close>, \<open>load_data\<close>, \<open>store_data\<close>, \<open>val\<close>,
  \<open>csr_data\<close>, \<open>itr\<close>, \<open>mult_temp\<close>) are locals of the model; the scratch members whose stale
  value a later instruction can observe (\<open>wb_data\<close>, \<open>ret_data\<close>, \<open>ls_success\<close>,
  \<open>branch\<close>) are state.
\<close>

unbundle bit_operations_syntax

subsection \<open>Privilege levels and causes\<close>

datatype plevel_t = MMODE | HMODE | SMODE | UMODE

fun plevel_code :: "plevel_t \<Rightarrow> u8" where
  "plevel_code MMODE = 3"
| "plevel_code HMODE = 2"
| "plevel_code SMODE = 1"
| "plevel_code UMODE = 0"

definition plevel_of :: "u8 \<Rightarrow> plevel_t" where
  "plevel_of b = (if b = 3 then MMODE else if b = 2 then HMODE else if b = 1 then SMODE else UMODE)"

definition CAUSE_USER_ECALL :: u64 where "CAUSE_USER_ECALL = 0x8"
definition CAUSE_SUPERVISOR_ECALL :: u64 where "CAUSE_SUPERVISOR_ECALL = 0x9"
definition CAUSE_MACHINE_ECALL :: u64 where "CAUSE_MACHINE_ECALL = 0xb"
definition CAUSE_USER_SOFT_INT :: u64 where "CAUSE_USER_SOFT_INT = 0x0"
definition CAUSE_MACHINE_SOFT_INT :: u64 where "CAUSE_MACHINE_SOFT_INT = 0x3"
definition CAUSE_USER_TIMER_INT :: u64 where "CAUSE_USER_TIMER_INT = 0x4"
definition CAUSE_MACHINE_TIMER_INT :: u64 where "CAUSE_MACHINE_TIMER_INT = 0x7"
definition CAUSE_USER_EXT_INT :: u64 where "CAUSE_USER_EXT_INT = 0x8"
definition CAUSE_MISALIGNED_FETCH :: u64 where "CAUSE_MISALIGNED_FETCH = 0x0"
definition CAUSE_ILLEGAL_INSTRUCTION :: u64 where "CAUSE_ILLEGAL_INSTRUCTION = 0x2"
definition CAUSE_MISALIGNED_LOAD :: u64 where "CAUSE_MISALIGNED_LOAD = 0x4"
definition CAUSE_MISALIGNED_STORE :: u64 where "CAUSE_MISALIGNED_STORE = 0x6"
definition CAUSE_BREAKPOINT :: u64 where "CAUSE_BREAKPOINT = 0x3"
definition CAUSE_FETCH_ACCESS :: u64 where "CAUSE_FETCH_ACCESS = 0x1"
definition CAUSE_LOAD_ACCESS :: u64 where "CAUSE_LOAD_ACCESS = 0x5"

lemmas cause_defs = CAUSE_USER_ECALL_def CAUSE_SUPERVISOR_ECALL_def CAUSE_MACHINE_ECALL_def
  CAUSE_USER_SOFT_INT_def CAUSE_MACHINE_SOFT_INT_def CAUSE_USER_TIMER_INT_def
  CAUSE_MACHINE_TIMER_INT_def CAUSE_USER_EXT_INT_def CAUSE_MISALIGNED_FETCH_def
  CAUSE_ILLEGAL_INSTRUCTION_def CAUSE_MISALIGNED_LOAD_def CAUSE_MISALIGNED_STORE_def
  CAUSE_BREAKPOINT_def CAUSE_FETCH_ACCESS_def CAUSE_LOAD_ACCESS_def

definition DRAM_BASE :: u64 where "DRAM_BASE = 0x80000000"
definition MEM_WORDS :: nat where "MEM_WORDS = 2 ^ 28"

subsection \<open>State\<close>

record hart =
  cp :: plevel_t
  LD_ADDR_MISSALIG :: bool
  STORE_ADDR_MISSALIG :: bool
  ILL_INS :: bool
  EBREAK :: bool
  INS_ADDR_MISSALIG :: bool
  INS_ACC_FAULT :: bool
  LD_ACC_FAULT :: bool
  amo_reserve_valid :: bool
  amo_reserve_valid64 :: bool
  amo_reserve_addr :: u64
  amo_reserve_addr64 :: u64
  amo_reserve_gen :: u64
  smp_released :: bool
  in_wfi :: bool
  post_kick_protect :: u32
  wb_data :: u64
  ls_success :: bool
  branch :: bool
  ret_data :: u64
  PC :: u64
  misa :: u64
  mscratch :: u64
  mepc :: u64
  mtval :: u64
  mcounteren :: u64
  scounteren :: u64
  pmpcfg0 :: u64
  pmpaddr0 :: u64
  mhartid :: u64
  mvendorid :: u64
  marchid :: u64
  mimpid :: u64
  satp :: satp_t
  mstatus :: mstatus_t
  mie :: mie_t
  mip :: mip_t
  mtvec :: mtvec_t
  mcause :: mcause_t
  reg_file :: "u64 list"

text \<open>
  What the harts share: the word array, the CLINT, the two static members of the class, the
  bytes waiting on the console input and the bytes printed. \<open>memory\<close> is the vector of
  \<open>2 ^ 28\<close> words; an index beyond it is the exception of \<open>vector::at\<close>.
\<close>

record shared =
  memory :: "nat \<Rightarrow> u64"
  clint_dev :: clint
  uart_rx_byte :: int
  global_store_gen :: u64
  stdin :: "u8 list"
  console :: "u8 list"

text \<open>The ways a step can end the process instead of returning.\<close>

datatype abort = TestsPassed | TestsFailed | AmoIllegal u64 | OutOfRange

type_synonym machine = "hart \<times> shared"

definition mtvec_init :: mtvec_t where "mtvec_init = \<lparr>mtv_mode = 0, mtv_base = 0\<rparr>"
definition mcause_init :: mcause_t where "mcause_init = \<lparr>mc_interrupt = 0, mc_ecode = 0\<rparr>"

text \<open>
  The member initialisers of the class (\<open>PC\<close> and \<open>mhartid\<close> have none; \<open>hart_init\<close>, which the
  constructor of the emulator calls on every hart, sets them).
\<close>

definition hart_fresh :: hart where
  "hart_fresh = \<lparr>
     cp = MMODE, LD_ADDR_MISSALIG = False, STORE_ADDR_MISSALIG = False, ILL_INS = False,
     EBREAK = False, INS_ADDR_MISSALIG = False, INS_ACC_FAULT = False, LD_ACC_FAULT = False,
     amo_reserve_valid = False, amo_reserve_valid64 = False, amo_reserve_addr = 0,
     amo_reserve_addr64 = 0, amo_reserve_gen = 0, smp_released = False, in_wfi = False,
     post_kick_protect = 0, wb_data = 0, ls_success = False, branch = False, ret_data = 0,
     PC = 0, misa = 0x101101 OR push_bit 63 1, mscratch = 0, mepc = 0, mtval = 0,
     mcounteren = 0, scounteren = 0, pmpcfg0 = 0, pmpaddr0 = 0, mhartid = 0,
     mvendorid = 0, marchid = 0, mimpid = 0, satp = satp_init, mstatus = mstatus_init,
     mie = mie_init, mip = mip_init, mtvec = mtvec_init, mcause = mcause_init,
     reg_file = replicate 32 0\<rparr>"

definition hart_init :: "bool \<Rightarrow> u8 \<Rightarrow> hart \<Rightarrow> hart" where
  "hart_init lockstep hid h = h\<lparr>PC := DRAM_BASE, mhartid := ucast hid,
     smp_released := (if lockstep then True else hid = 0), in_wfi := False,
     post_kick_protect := 0\<rparr>"

subsection \<open>CSR access\<close>

definition SCOUNTEREN :: u64 where "SCOUNTEREN = 0x106"
definition SATP :: u64 where "SATP = 0x180"
definition MSTATUS :: u64 where "MSTATUS = 0x300"
definition MISA :: u64 where "MISA = 0x301"
definition MIE :: u64 where "MIE = 0x304"
definition MTVEC :: u64 where "MTVEC = 0x305"
definition MCOUNTEREN :: u64 where "MCOUNTEREN = 0x306"
definition MSCRATCH :: u64 where "MSCRATCH = 0x340"
definition MEPC :: u64 where "MEPC = 0x341"
definition MCAUSE :: u64 where "MCAUSE = 0x342"
definition MTVAL :: u64 where "MTVAL = 0x343"
definition MIP :: u64 where "MIP = 0x344"
definition PMPCFG0 :: u64 where "PMPCFG0 = 0x3A0"
definition PMPADDR0 :: u64 where "PMPADDR0 = 0x3B0"
definition MVENDORID :: u64 where "MVENDORID = 0xF11"
definition MARCHID :: u64 where "MARCHID = 0xF12"
definition MIMPID :: u64 where "MIMPID = 0xF13"
definition MHARTID :: u64 where "MHARTID = 0xF14"

definition CLINT_BASE :: u64 where "CLINT_BASE = 0x2000000"
definition CLINT_SIZE :: u64 where "CLINT_SIZE = 0xc0000"

lemmas csr_addr_defs =
  SCOUNTEREN_def SATP_def MSTATUS_def MISA_def MIE_def MTVEC_def
  MCOUNTEREN_def MSCRATCH_def MEPC_def MCAUSE_def MTVAL_def MIP_def
  PMPCFG0_def PMPADDR0_def MVENDORID_def MARCHID_def MIMPID_def MHARTID_def

definition csr_read :: "hart \<Rightarrow> u64 \<Rightarrow> bool \<times> u64" where
  "csr_read h csr_addr =
     (if csr_addr = MSTATUS then
        (if cp h = MMODE then (True, mstatus_read_reg (mstatus h)) else (False, 1))
      else if csr_addr = SATP then (True, satp_read_reg (satp h))
      else if csr_addr = MIE then (True, mie_read_reg (mie h))
      else if csr_addr = MIP then (True, mip_read_reg (mip h))
      else if csr_addr = MTVEC then (True, mtvec_read_reg (mtvec h))
      else if csr_addr = MEPC then (True, mepc h)
      else if csr_addr = MCAUSE then (True, mcause_read_reg (mcause h))
      else if csr_addr = MTVAL then (True, mtval h)
      else if csr_addr = PMPCFG0 then (True, pmpcfg0 h)
      else if csr_addr = PMPADDR0 then (True, pmpaddr0 h)
      else if csr_addr = MHARTID then (True, mhartid h)
      else if csr_addr = MVENDORID then (True, mvendorid h)
      else if csr_addr = MARCHID then (True, marchid h)
      else if csr_addr = MIMPID then (True, mimpid h)
      else if csr_addr = MSCRATCH then (True, mscratch h)
      else if csr_addr = MISA then (True, misa h)
      else if csr_addr = SCOUNTEREN then (True, scounteren h)
      else if csr_addr = MCOUNTEREN then (True, mcounteren h)
      else (False, 1))"

definition csr_write :: "bool \<Rightarrow> u64 \<Rightarrow> u64 \<Rightarrow> hart \<Rightarrow> clint \<Rightarrow> bool \<times> hart \<times> clint" where
  "csr_write lockstep csr_addr val h c =
     (if csr_addr = MSTATUS then (True, h\<lparr>mstatus := mstatus_write_reg val (mstatus h)\<rparr>, c)
      else if csr_addr = SATP then (True, h\<lparr>satp := satp_write_reg val (satp h)\<rparr>, c)
      else if csr_addr = MIE then (True, h\<lparr>mie := mie_write_reg val (mie h)\<rparr>, c)
      else if csr_addr = MIP then
        (True, h\<lparr>mip := mip_write_reg val (mip h)\<rparr>,
         if val AND push_bit 3 1 = 0 then clint_write lockstep (CLINT_BASE + 4 * mhartid h) 0 4 c
         else c)
      else if csr_addr = MTVEC then (True, h\<lparr>mtvec := mtvec_write_reg val (mtvec h)\<rparr>, c)
      else if csr_addr = MEPC then (True, h\<lparr>mepc := val\<rparr>, c)
      else if csr_addr = MCAUSE then (True, h\<lparr>mcause := mcause_write_reg val (mcause h)\<rparr>, c)
      else if csr_addr = MTVAL then (True, h\<lparr>mtval := val\<rparr>, c)
      else if csr_addr = PMPCFG0 then (True, h\<lparr>pmpcfg0 := val\<rparr>, c)
      else if csr_addr = PMPADDR0 then (True, h\<lparr>pmpaddr0 := val\<rparr>, c)
      else if csr_addr = MHARTID then (True, h\<lparr>mhartid := val\<rparr>, c)
      else if csr_addr = MVENDORID then (True, h\<lparr>mvendorid := val\<rparr>, c)
      else if csr_addr = MARCHID then (True, h\<lparr>marchid := val\<rparr>, c)
      else if csr_addr = MIMPID then (True, h\<lparr>mimpid := val\<rparr>, c)
      else if csr_addr = MSCRATCH then (True, h\<lparr>mscratch := val\<rparr>, c)
      else if csr_addr = MISA then (True, h\<lparr>misa := val\<rparr>, c)
      else if csr_addr = SCOUNTEREN then (True, h\<lparr>scounteren := val\<rparr>, c)
      else if csr_addr = MCOUNTEREN then (True, h\<lparr>mcounteren := val\<rparr>, c)
      else (False, h, c))"

subsection \<open>Trap entry and return\<close>

text \<open>Both return the new program counter, which every caller assigns to \<open>PC\<close>.\<close>

definition excep_function :: "u64 \<Rightarrow> u64 \<Rightarrow> u64 \<Rightarrow> u64 \<Rightarrow> plevel_t \<Rightarrow> hart \<Rightarrow> u64 \<times> hart" where
  "excep_function pc mecode secode uecode current_privilage h =
     (let ecode = (if current_privilage = UMODE then uecode
                   else if current_privilage = MMODE then mecode else 0) in
      (mtv_base (mtvec h),
       h\<lparr>mstatus := (mstatus h)\<lparr>ms_mpp := plevel_code (cp h),
           ms_mpie := ms_mie (mstatus h), ms_mie := 0\<rparr>,
         cp := MMODE,
         mcause := \<lparr>mc_interrupt = 0, mc_ecode = ecode\<rparr>,
         mepc := pc - 4\<rparr>))"

definition interrupt_function :: "u64 \<Rightarrow> u64 \<Rightarrow> plevel_t \<Rightarrow> hart \<Rightarrow> u64 \<times> hart" where
  "interrupt_function pc mecode current_privilage h =
     (if ms_mie (mstatus h) = 1 then
        (if mtv_mode (mtvec h) = 0 then mtv_base (mtvec h)
         else if mtv_mode (mtvec h) = 1 then mtv_base (mtvec h) + 4 * mecode else 0,
         h\<lparr>mstatus := (mstatus h)\<lparr>ms_mpp := plevel_code (cp h),
             ms_mpie := ms_mie (mstatus h), ms_mie := 0\<rparr>,
           cp := MMODE,
           mcause := \<lparr>mc_interrupt = 1, mc_ecode = mecode\<rparr>,
           mepc := pc\<rparr>)
      else (pc, h))"

definition set_pc :: "u64 \<times> hart \<Rightarrow> hart" where
  "set_pc r = (case r of (pc, h) \<Rightarrow> h\<lparr>PC := pc\<rparr>)"

definition take_machine_timer_irq :: "hart \<Rightarrow> hart" where
  "take_machine_timer_irq h =
     (let h = h\<lparr>in_wfi := False, amo_reserve_valid := False, amo_reserve_valid64 := False\<rparr>
      in set_pc (interrupt_function (PC h) CAUSE_MACHINE_TIMER_INT (cp h) h))"

definition take_machine_soft_irq :: "hart \<Rightarrow> hart" where
  "take_machine_soft_irq h =
     (let h = h\<lparr>in_wfi := False, amo_reserve_valid := False, amo_reserve_valid64 := False\<rparr>
      in set_pc (interrupt_function (PC h) CAUSE_MACHINE_SOFT_INT (cp h) h))"

definition exec_mret :: "hart \<Rightarrow> hart" where
  "exec_mret h = h\<lparr>PC := mepc h, cp := plevel_of (ms_mpp (mstatus h)),
     mstatus := (mstatus h)\<lparr>ms_mie := ms_mpie (mstatus h), ms_mpp := 0, ms_mpie := 1\<rparr>,
     in_wfi := False\<rparr>"

definition clear_wfi :: "hart \<Rightarrow> hart" where "clear_wfi h = h\<lparr>in_wfi := False\<rparr>"
definition set_mepc :: "u64 \<Rightarrow> hart \<Rightarrow> hart" where "set_mepc v h = h\<lparr>mepc := v\<rparr>"
definition get_mepc :: "hart \<Rightarrow> u64" where "get_mepc h = mepc h"
definition get_mstatus :: "hart \<Rightarrow> u64" where "get_mstatus h = mstatus_read_reg (mstatus h)"
definition set_mstatus :: "u64 \<Rightarrow> hart \<Rightarrow> hart" where
  "set_mstatus v h = h\<lparr>mstatus := mstatus_write_reg v (mstatus h)\<rparr>"

end
