(* ===== verification/Hart_Alu.thy ===== *)
theory Hart_Alu
  imports Chiron_Prelude
begin

text \<open>
  The arithmetic helpers of the golden-model hart, from \<^verbatim>\<open>src/sim/emulator/hart_alu.inc\<close>
  (\<open>sign_extend\<close>, \<open>divi\<close>, \<open>divi32\<close>), the signed readings of \<^verbatim>\<open>hart_trap.inc\<close>
  (\<open>signed_value\<close>, \<open>signed_value32\<close>), and the shift and multiply fragments of
  \<^verbatim>\<open>hart_execute.inc\<close>; then the arithmetic of the RV64IM instruction set as the
  reference, and the lemmas that compare the two.
\<close>

unbundle bit_operations_syntax

subsection \<open>Sign extension and signed readings\<close>

definition sign_extend :: "u64 \<Rightarrow> nat \<Rightarrow> u64" where
  "sign_extend x bits = (let m = push_bit (bits - 1) 1 in (x XOR m) - m)"

definition signed_value :: "u64 \<Rightarrow> int" where
  "signed_value x =
     (if drop_bit 63 x AND 1 = 1
      then sint ((x XOR push_bit 63 1) - push_bit 63 1)
      else sint x)"

definition signed_value32 :: "u64 \<Rightarrow> int" where
  "signed_value32 x =
     (let y = (ucast (x AND 0xFFFFFFFF) :: u32) in
      if drop_bit 31 y AND 1 = 1
      then sint (ucast ((ucast y XOR push_bit 31 1) - push_bit 31 1 :: u64) :: u32)
      else sint y)"

lemma xor_bit_minus:
  fixes x :: "'a::len word"
  assumes "k < LENGTH('a)"
  shows "(x XOR push_bit k 1) - push_bit k 1 = (if bit x k then x - 2 * 2 ^ k else x)"
proof -
  have "x XOR push_bit k 1 = flip_bit k x"
    by (simp add: flip_bit_eq_xor)
  also have "\<dots> = (if bit x k then x - 2 ^ k else x + 2 ^ k)"
    by (simp add: flip_bit_eq_if set_bit_eq unset_bit_eq)
  finally show ?thesis
    by (simp add: push_bit_eq_mult algebra_simps)
qed

lemma sign_extend_eq_signed_take_bit:
  assumes "0 < n" "n \<le> 64" "take_bit n x = x"
  shows "sign_extend x n = signed_take_bit (n - 1) x"
proof -
  have "signed_take_bit (n - 1) x = take_bit n x - 2 ^ n * of_bool (bit x (n - 1))"
    using assms(1) signed_take_bit_eq_take_bit_minus [of "n - 1" x] by simp
  moreover have "(2 :: u64) * 2 ^ (n - 1) = 2 ^ n"
    using assms(1) by (cases n) simp_all
  ultimately show ?thesis
    using assms xor_bit_minus [of "n - 1" x] by (simp add: sign_extend_def)
qed

lemma signed_value_eq [simp]: "signed_value x = sint x"
proof -
  have "(x XOR push_bit 63 1) - push_bit 63 1 = x"
    by (subst xor_bit_minus) simp_all
  then show ?thesis by (simp only: signed_value_def if_cancel)
qed

lemma signed_value32_eq [simp]: "signed_value32 x = sint (ucast x :: u32)"
proof -
  have y: "(ucast (x AND 0xFFFFFFFF) :: u32) = ucast x"
    by (rule bit_word_eqI) (simp add: word_mask bit_simps)
  have "(ucast ((ucast y XOR push_bit 31 1) - push_bit 31 1 :: u64) :: u32) = y" for y :: u32
  proof -
    have "(ucast ((ucast y XOR push_bit 31 1) - push_bit 31 1 :: u64) :: u32)
        = ucast (if bit y 31 then ucast y - 0x100000000 else ucast y :: u64)"
      by (subst xor_bit_minus) (simp_all add: bit_simps)
    also have "\<dots> = y"
    proof -
      have "(0x100000000 :: u32) = 0" by simp
      then show ?thesis by (simp add: ucast_down_ring)
    qed
    finally show ?thesis .
  qed
  then show ?thesis by (simp add: signed_value32_def Let_def y)
qed

subsection \<open>Conversion of integers to double\<close>

text \<open>
  \<open>divi\<close> compares its dividend with \<open>-pow(2, 63)\<close>, a \<open>double\<close>, so the integer is converted
  first: rounded to the nearest value with a 53-bit significand, ties to even (IEEE 754).
  Integers of magnitude at least \<open>2 ^ 53\<close> convert to integers, so the result is an \<open>int\<close>.
\<close>

fun dbl_shift :: "nat \<Rightarrow> nat" where
  "dbl_shift m = (if m < 2 ^ 53 then 0 else Suc (dbl_shift (m div 2)))"

declare dbl_shift.simps [simp del]

definition round_half_even :: "nat \<Rightarrow> nat \<Rightarrow> nat" where
  "round_half_even m k =
     (let q = m div 2 ^ k; r = m mod 2 ^ k in
      (if 2 * r < 2 ^ k then q else if 2 ^ k < 2 * r then Suc q
       else if even q then q else Suc q) * 2 ^ k)"

definition to_double :: "int \<Rightarrow> int" where
  "to_double x = (let m = nat \<bar>x\<bar> in sgn x * int (round_half_even m (dbl_shift m)))"

subsection \<open>Division helpers\<close>

text \<open>
  \<open>divi\<close> is a template; the hart uses it at \<open>int64_t\<close> (selectors 0 and 2) and at
  \<open>uint64_t\<close> (selectors 1 and 3), \<open>divi32\<close> at \<open>int32_t\<close> and \<open>uint32_t\<close> alike. The final
  \<open>return (T)(-1)\<close> is reached from a selector no branch handles.
\<close>

definition divi_s64 :: "int \<Rightarrow> int \<Rightarrow> nat \<Rightarrow> int" where
  "divi_s64 num1 num2 s =
     (if num2 = 0 then
        (if s = 0 then -1 else if s = 1 then -1
         else if s = 2 then num1 else if s = 3 then num1 else -1)
      else if to_double num1 = - (2 ^ 63) \<and> num2 = -1 then
        (if s = 0 then - (2 ^ 63) else if s = 2 then 0 else -1)
      else
        (if s = 0 then num1 sdiv num2 else if s = 1 then num1 sdiv num2
         else if s = 2 then num1 smod num2 else if s = 3 then num1 smod num2 else -1))"

definition divi_u64 :: "u64 \<Rightarrow> u64 \<Rightarrow> nat \<Rightarrow> u64" where
  "divi_u64 num1 num2 s =
     (if num2 = 0 then
        (if s = 0 then -1 else if s = 1 then 0xFFFFFFFFFFFFFFFF
         else if s = 2 then num1 else if s = 3 then num1 else -1)
      else if to_double (uint num1) = - (2 ^ 63) \<and> num2 = -1 then
        (if s = 0 then word_of_int (- (2 ^ 63)) else if s = 2 then 0 else -1)
      else
        (if s = 0 then word_of_int (sint num1 sdiv sint num2) else if s = 1 then num1 div num2
         else if s = 2 then word_of_int (sint num1 smod sint num2)
         else if s = 3 then num1 mod num2 else -1))"

definition divi32_s32 :: "int \<Rightarrow> int \<Rightarrow> nat \<Rightarrow> int" where
  "divi32_s32 num1 num2 s =
     (if num2 = 0 then
        (if s = 0 then -1 else if s = 1 then -1
         else if s = 2 then num1 else if s = 3 then num1 else -1)
      else if to_double num1 = - (2 ^ 31) \<and> num2 = -1 then
        (if s = 0 then - (2 ^ 31) else if s = 2 then 0 else -1)
      else
        (if s = 0 then num1 sdiv num2 else if s = 1 then num1 sdiv num2
         else if s = 2 then num1 smod num2 else if s = 3 then num1 smod num2 else -1))"

definition divi32_u32 :: "u32 \<Rightarrow> u32 \<Rightarrow> nat \<Rightarrow> u32" where
  "divi32_u32 num1 num2 s =
     (if num2 = 0 then
        (if s = 0 then -1 else if s = 1 then 0xFFFFFFFF
         else if s = 2 then num1 else if s = 3 then num1 else -1)
      else if to_double (uint num1) = - (2 ^ 31) \<and> num2 = -1 then
        (if s = 0 then word_of_int (- (2 ^ 31)) else if s = 2 then 0 else -1)
      else
        (if s = 0 then word_of_int (sint num1 sdiv sint num2) else if s = 1 then num1 div num2
         else if s = 2 then word_of_int (sint num1 smod sint num2)
         else if s = 3 then num1 mod num2 else -1))"

subsection \<open>The arithmetic switches of the execute stage\<close>

text \<open>
  The loop that shifts right one bit at a time and keeps bit \<open>k\<close> (63 for SRA and SRAI, 31
  for SRAW and SRAIW).
\<close>

fun sra_loop :: "nat \<Rightarrow> nat \<Rightarrow> u64 \<Rightarrow> u64" where
  "sra_loop k 0 w = w"
| "sra_loop k (Suc n) w = sra_loop k n ((w AND push_bit k 1) OR drop_bit 1 w)"

text \<open>
  Each switch computes \<open>wb_data\<close>; a selector no case handles leaves the value \<open>wb\<close> that an
  earlier instruction put there.
\<close>

definition iops_wb :: "u64 \<Rightarrow> u64 \<Rightarrow> u64 \<Rightarrow> u64 \<Rightarrow> u64 \<Rightarrow> u64" where
  "iops_wb func3 func7 imm11_0 a wb =
     (let imm = sign_extend imm11_0 12; sh = unat (imm11_0 AND 63) in
      if func3 = 0 then a + word_of_int (signed_value imm)
      else if func3 = 2 then (if signed_value a < signed_value imm then 1 else 0)
      else if func3 = 3 then (if a < imm then 1 else 0)
      else if func3 = 7 then a AND imm
      else if func3 = 6 then a OR imm
      else if func3 = 4 then a XOR imm
      else if func3 = 1 then push_bit sh a
      else if func3 = 5 then
        (if drop_bit 1 func7 = 0 then drop_bit sh a
         else if drop_bit 1 func7 = 16 then sra_loop 63 sh a else wb)
      else wb)"

definition iops64_wb :: "u64 \<Rightarrow> u64 \<Rightarrow> u64 \<Rightarrow> u64 \<Rightarrow> u64 \<Rightarrow> u64" where
  "iops64_wb func3 func7 imm11_0 a wb =
     (let sh = unat (imm11_0 AND 31) in
      if func3 = 0 then sign_extend (0xFFFFFFFF AND (a + sign_extend imm11_0 12)) 32
      else if func3 = 1 then sign_extend (0xFFFFFFFF AND push_bit sh a) 32
      else if func3 = 5 then
        (if drop_bit 1 func7 = 0 then
           sign_extend (0xFFFFFFFF AND drop_bit sh (a AND 0xFFFFFFFF)) 32
         else if drop_bit 1 func7 = 16 then
           sign_extend (0xFFFFFFFF AND sra_loop 31 sh (a AND 0xFFFFFFFF)) 32
         else wb)
      else wb)"

definition rops_wb :: "u64 \<Rightarrow> u64 \<Rightarrow> u64 \<Rightarrow> u64 \<Rightarrow> u64" where
  "rops_wb func3 a b wb =
     (if func3 = 0 then a + b
      else if func3 = 2 then (if signed_value a < signed_value b then 1 else 0)
      else if func3 = 3 then (if a < b then 1 else 0)
      else if func3 = 7 then a AND b
      else if func3 = 6 then a OR b
      else if func3 = 4 then a XOR b
      else if func3 = 1 then push_bit (unat (b AND 63)) a
      else if func3 = 5 then drop_bit (unat (b AND 63)) a
      else wb)"

definition rops_m :: "u64 \<Rightarrow> u64 \<Rightarrow> u64 \<Rightarrow> u64 \<Rightarrow> u64" where
  "rops_m func3 a b old =
     (if func3 = 0 then ucast ((ucast (a * b) :: u128) AND 0xFFFFFFFFFFFFFFFF)
      else if func3 = 1 then
        ucast (drop_bit 64 (word_of_int (signed_value a) * word_of_int (signed_value b) :: u128)
               AND 0xFFFFFFFFFFFFFFFF)
      else if func3 = 2 then
        ucast (drop_bit 64 (word_of_int (signed_value a) * ucast b :: u128)
               AND 0xFFFFFFFFFFFFFFFF)
      else if func3 = 3 then
        ucast (drop_bit 64 (ucast a * ucast b :: u128) AND 0xFFFFFFFFFFFFFFFF)
      else if func3 = 4 then word_of_int (divi_s64 (signed_value a) (signed_value b) 0)
      else if func3 = 5 then divi_u64 a b 1
      else if func3 = 6 then word_of_int (divi_s64 (signed_value a) (signed_value b) 2)
      else if func3 = 7 then divi_u64 a b 3
      else old)"

definition rops_alt_wb :: "u64 \<Rightarrow> u64 \<Rightarrow> u64 \<Rightarrow> u64 \<Rightarrow> u64" where
  "rops_alt_wb func3 a b wb =
     (if func3 = 0 then a - b
      else if func3 = 5 then sra_loop 63 (unat (b AND 63)) a
      else wb)"

definition rops64_wb :: "u64 \<Rightarrow> u64 \<Rightarrow> u64 \<Rightarrow> u64 \<Rightarrow> u64" where
  "rops64_wb func3 a b wb =
     (if func3 = 0 then sign_extend ((a + b) AND 0xFFFFFFFF) 32
      else if func3 = 1 then sign_extend (push_bit (unat (b AND 31)) a AND 0xFFFFFFFF) 32
      else if func3 = 5 then sign_extend (drop_bit (unat (b AND 31)) (a AND 0xFFFFFFFF)) 32
      else wb)"

definition rops64_m :: "u64 \<Rightarrow> u64 \<Rightarrow> u64 \<Rightarrow> u64 \<Rightarrow> u64" where
  "rops64_m func3 a b wb =
     (if func3 = 0 then
        sign_extend (((a AND 0xFFFFFFFF) * (b AND 0xFFFFFFFF)) AND 0xFFFFFFFF) 32
      else if func3 = 4 then
        sign_extend (0xFFFFFFFF AND word_of_int (divi32_s32
          (signed_value32 (a AND 0xFFFFFFFF)) (signed_value32 (b AND 0xFFFFFFFF)) 0)) 32
      else if func3 = 5 then sign_extend (ucast (divi32_u32 (ucast a) (ucast b) 1)) 32
      else if func3 = 6 then
        sign_extend (word_of_int (divi32_s32 (signed_value32 a) (signed_value32 b) 2)
                     AND 0xFFFFFFFF) 32
      else if func3 = 7 then sign_extend (ucast (divi32_u32 (ucast a) (ucast b) 3)) 32
      else wb)"

definition rops64_alt_wb :: "u64 \<Rightarrow> u64 \<Rightarrow> u64 \<Rightarrow> u64 \<Rightarrow> u64" where
  "rops64_alt_wb func3 a b wb =
     (if func3 = 0 then
        sign_extend (((a AND 0xFFFFFFFF) - (b AND 0xFFFFFFFF)) AND 0xFFFFFFFF) 32
      else if func3 = 5 then
        sign_extend (sra_loop 31 (unat (b AND 31)) (a AND 0xFFFFFFFF)) 32
      else wb)"

end
