(* ===== verification/Hart_Mem.thy ===== *)
theory Hart_Mem
  imports Chiron_Prelude
begin

text \<open>
  The lane helpers of \<^verbatim>\<open>src/sim/emulator/hart_memory.inc\<close>: a byte, half-word or word is
  taken out of, or merged into, the 64-bit memory word that holds it, by the low three bits of
  the address. An access that would cross the 64-bit word fails: the result is the flag the
  functions return and the value they leave in their \<open>wb_data\<close> reference (\<open>-1\<close> on failure).
  The lemmas relate them to one lane update, and that to a little-endian byte memory.
\<close>

unbundle bit_operations_syntax

subsection \<open>The source's functions\<close>

definition load_word :: "u64 \<Rightarrow> u64 \<Rightarrow> bool \<times> u64" where
  "load_word load_addr load_data =
     (let k = load_addr mod 8 in
      (if k = 0 then (True, drop_bit 0 load_data AND 0xFFFFFFFF)
      else if k = 1 then (True, drop_bit 8 load_data AND 0xFFFFFFFF)
      else if k = 2 then (True, drop_bit 16 load_data AND 0xFFFFFFFF)
      else if k = 3 then (True, drop_bit 24 load_data AND 0xFFFFFFFF)
      else if k = 4 then (True, drop_bit 32 load_data AND 0xFFFFFFFF)
      else (False, -1)))"

definition load_halfw :: "u64 \<Rightarrow> u64 \<Rightarrow> bool \<times> u64" where
  "load_halfw load_addr load_data =
     (let k = load_addr mod 8 in
      (if k = 0 then (True, drop_bit 0 load_data AND 0xFFFF)
      else if k = 1 then (True, drop_bit 8 load_data AND 0xFFFF)
      else if k = 2 then (True, drop_bit 16 load_data AND 0xFFFF)
      else if k = 3 then (True, drop_bit 24 load_data AND 0xFFFF)
      else if k = 4 then (True, drop_bit 32 load_data AND 0xFFFF)
      else if k = 5 then (True, drop_bit 40 load_data AND 0xFFFF)
      else if k = 6 then (True, drop_bit 48 load_data AND 0xFFFF)
      else (False, -1)))"

definition load_byte :: "u64 \<Rightarrow> u64 \<Rightarrow> bool \<times> u64" where
  "load_byte load_addr load_data =
     (let k = load_addr mod 8 in
      (if k = 0 then (True, load_data AND 0xFF)
      else if k = 1 then (True, drop_bit 8 load_data AND 0xFF)
      else if k = 2 then (True, drop_bit 16 load_data AND 0xFF)
      else if k = 3 then (True, drop_bit 24 load_data AND 0xFF)
      else if k = 4 then (True, drop_bit 32 load_data AND 0xFF)
      else if k = 5 then (True, drop_bit 40 load_data AND 0xFF)
      else if k = 6 then (True, drop_bit 48 load_data AND 0xFF)
      else if k = 7 then (True, drop_bit 56 load_data AND 0xFF)
      else (False, -1)))"

definition store_word :: "u64 \<Rightarrow> u64 \<Rightarrow> u64 \<Rightarrow> bool \<times> u64" where
  "store_word store_addr load_data val =
     (let k = store_addr mod 8 in
      (if k = 0 then (True, (load_data AND 0xFFFFFFFF00000000) + push_bit 0 (val AND 0xFFFFFFFF))
      else if k = 1 then (True, (load_data AND 0xFFFFFF00000000FF) + push_bit 8 (val AND 0xFFFFFFFF))
      else if k = 2 then (True, (load_data AND 0xFFFF00000000FFFF) + push_bit 16 (val AND 0xFFFFFFFF))
      else if k = 3 then (True, (load_data AND 0xFF00000000FFFFFF) + push_bit 24 (val AND 0xFFFFFFFF))
      else if k = 4 then (True, (load_data AND 0x00000000FFFFFFFF) + push_bit 32 (val AND 0xFFFFFFFF))
      else (False, -1)))"

definition store_halfw :: "u64 \<Rightarrow> u64 \<Rightarrow> u64 \<Rightarrow> bool \<times> u64" where
  "store_halfw store_addr load_data val =
     (let k = store_addr mod 8 in
      (if k = 0 then (True, (load_data AND 0xFFFFFFFFFFFF0000) + push_bit 0 (val AND 0xFFFF))
      else if k = 1 then (True, (load_data AND 0xFFFFFFFFFF0000FF) + push_bit 8 (val AND 0xFFFF))
      else if k = 2 then (True, (load_data AND 0xFFFFFFFF0000FFFF) + push_bit 16 (val AND 0xFFFF))
      else if k = 3 then (True, (load_data AND 0xFFFFFF0000FFFFFF) + push_bit 24 (val AND 0xFFFF))
      else if k = 4 then (True, (load_data AND 0xFFFF0000FFFFFFFF) + push_bit 32 (val AND 0xFFFF))
      else if k = 5 then (True, (load_data AND 0xFF0000FFFFFFFFFF) + push_bit 40 (val AND 0xFFFF))
      else if k = 6 then (True, (load_data AND 0x0000FFFFFFFFFFFF) + push_bit 48 (val AND 0xFFFF))
      else (False, -1)))"

definition store_byte :: "u64 \<Rightarrow> u64 \<Rightarrow> u64 \<Rightarrow> bool \<times> u64" where
  "store_byte store_addr load_data val =
     (let k = store_addr mod 8 in
      (if k = 0 then (True, (load_data AND push_bit 8 0xFFFFFFFFFFFFFF) + (val AND 0xFF))
      else if k = 1 then (True, (load_data AND push_bit 16 0xFFFFFFFFFFFF) + push_bit 8 (val AND 0xFF) + (load_data AND 0xFF))
      else if k = 2 then (True, (load_data AND push_bit 24 0xFFFFFFFFFF) + push_bit 16 (val AND 0xFF) + (load_data AND 0xFFFF))
      else if k = 3 then (True, (load_data AND push_bit 32 0xFFFFFFFF) + push_bit 24 (val AND 0xFF) + (load_data AND 0xFFFFFF))
      else if k = 4 then (True, (load_data AND push_bit 40 0xFFFFFF) + push_bit 32 (val AND 0xFF) + (load_data AND 0xFFFFFFFF))
      else if k = 5 then (True, (load_data AND push_bit 48 0xFFFF) + push_bit 40 (val AND 0xFF) + (load_data AND 0xFFFFFFFFFF))
      else if k = 6 then (True, (load_data AND push_bit 56 0xFF) + push_bit 48 (val AND 0xFF) + (load_data AND 0xFFFFFFFFFFFF))
      else if k = 7 then (True, push_bit 56 (val AND 0xFF) + (load_data AND 0xFFFFFFFFFFFFFF))
      else (False, -1)))"

subsection \<open>Lanes\<close>

text \<open>Bytes \<open>k\<close> up to \<open>k + n\<close> of a 64-bit word, read and replaced.\<close>

definition lane :: "nat \<Rightarrow> nat \<Rightarrow> u64 \<Rightarrow> u64" where
  "lane k n w = take_bit (8 * n) (drop_bit (8 * k) w)"

definition lane_update :: "nat \<Rightarrow> nat \<Rightarrow> u64 \<Rightarrow> u64 \<Rightarrow> u64" where
  "lane_update k n w v =
     (w AND NOT (push_bit (8 * k) (mask (8 * n)))) OR push_bit (8 * k) (take_bit (8 * n) v)"

lemma bit_lane: "bit (lane k n w) i \<longleftrightarrow> i < 8 * n \<and> bit w (8 * k + i)"
  by (auto simp: lane_def bit_simps dest: bit_imp_le_length)

lemma bit_lane_update:
  "bit (lane_update k n w v) i \<longleftrightarrow>
     i < 64 \<and> (if 8 * k \<le> i \<and> i < 8 * k + 8 * n then bit v (i - 8 * k) else bit w i)"
  by (auto simp: lane_update_def bit_simps dest: bit_imp_le_length)

lemma lane_lane_update:
  assumes "k + n \<le> 8"
  shows "lane k n (lane_update k n w v) = take_bit (8 * n) v"
  using assms by (intro bit_word_eqI) (auto simp: bit_lane bit_lane_update bit_take_bit_iff)

lemma lane_lane_update_other:
  assumes "j + m \<le> k \<or> k + n \<le> j" "j + m \<le> 8"
  shows "lane j m (lane_update k n w v) = lane j m w"
  using assms by (intro bit_word_eqI) (auto simp: bit_lane bit_lane_update)

lemma mod_8_cases:
  fixes a :: u64
  obtains "a mod 8 = 0" "unat a mod 8 = 0" |
    "a mod 8 = 1" "unat a mod 8 = 1" |
    "a mod 8 = 2" "unat a mod 8 = 2" |
    "a mod 8 = 3" "unat a mod 8 = 3" |
    "a mod 8 = 4" "unat a mod 8 = 4" |
    "a mod 8 = 5" "unat a mod 8 = 5" |
    "a mod 8 = 6" "unat a mod 8 = 6" |
    "a mod 8 = 7" "unat a mod 8 = 7"
proof -
  have u: "unat (a mod 8) = unat a mod 8" by (simp add: unat_mod_distrib)
  have "unat a mod 8 < 8" by simp
  then have "unat a mod 8 \<in> {0, 1, 2, 3, 4, 5, 6, 7}" by auto
  moreover have "a mod 8 = of_nat (unat a mod 8)" by (simp flip: u)
  ultimately show thesis using that by auto
qed

lemmas load_defs = load_word_def load_halfw_def load_byte_def

lemma load_word_lane:
  "load_word a d = (if unat a mod 8 \<le> 4 then (True, lane (unat a mod 8) 4 d) else (False, -1))"
  by (cases a rule: mod_8_cases) (simp_all add: load_word_def lane_def word_mask)

lemma load_halfw_lane:
  "load_halfw a d = (if unat a mod 8 \<le> 6 then (True, lane (unat a mod 8) 2 d) else (False, -1))"
  by (cases a rule: mod_8_cases) (simp_all add: load_halfw_def lane_def word_mask)

lemma load_byte_lane: "load_byte a d = (True, lane (unat a mod 8) 1 d)"
  by (cases a rule: mod_8_cases) (simp_all add: load_byte_def lane_def word_mask)

lemma lane_masks:
  "(0xFFFFFFFF00000000 :: u64) = NOT (push_bit 0 (mask 32))"
  "(0xFFFFFF00000000FF :: u64) = NOT (push_bit 8 (mask 32))"
  "(0xFFFF00000000FFFF :: u64) = NOT (push_bit 16 (mask 32))"
  "(0xFF00000000FFFFFF :: u64) = NOT (push_bit 24 (mask 32))"
  "(0xFFFFFFFFFFFF0000 :: u64) = NOT (push_bit 0 (mask 16))"
  "(0xFFFFFFFFFF0000FF :: u64) = NOT (push_bit 8 (mask 16))"
  "(0xFFFFFFFF0000FFFF :: u64) = NOT (push_bit 16 (mask 16))"
  "(0xFFFFFF0000FFFFFF :: u64) = NOT (push_bit 24 (mask 16))"
  "(0xFFFF0000FFFFFFFF :: u64) = NOT (push_bit 32 (mask 16))"
  "(0xFF0000FFFFFFFFFF :: u64) = NOT (push_bit 40 (mask 16))"
  "(0x0000FFFFFFFFFFFF :: u64) = NOT (push_bit 48 (mask 16))"
  by (simp_all add: mask_eq_exp_minus_1)

lemma and_not_high_32: "(w :: u64) AND NOT (push_bit 32 (mask 32)) = take_bit 32 w"
  by (rule bit_word_eqI) (auto simp: bit_simps)

lemma masked_plus_lane:
  "(w AND NOT (push_bit (8 * k) (mask (8 * n)))) + push_bit (8 * k) (take_bit (8 * n) v)
     = lane_update k n w v"
  unfolding lane_update_def by (rule disjunctive_add) (auto simp: bit_simps)

lemmas lane_simps = lane_masks word_mask and_not_high_32

lemma store_word_lane:
  "store_word a w v =
     (if unat a mod 8 \<le> 4 then (True, lane_update (unat a mod 8) 4 w v) else (False, -1))"
  by (cases a rule: mod_8_cases)
    (simp_all only: store_word_def Let_def, simp_all add: lane_simps flip: masked_plus_lane)

lemma store_halfw_lane:
  "store_halfw a w v =
     (if unat a mod 8 \<le> 6 then (True, lane_update (unat a mod 8) 2 w v) else (False, -1))"
  by (cases a rule: mod_8_cases)
    (simp_all only: store_halfw_def Let_def, simp_all add: lane_simps flip: masked_plus_lane)

text \<open>\<open>store_byte\<close> adds three parts: the bytes above, the new byte, the bytes below.\<close>

lemma byte_parts:
  assumes "k < 8"
  shows "(w AND push_bit (8 * (k + 1)) (mask (56 - 8 * k))) + push_bit (8 * k) (take_bit 8 v)
      + take_bit (8 * k) w = lane_update k 1 w v"
proof -
  let ?h = "w AND push_bit (8 * (k + 1)) (mask (56 - 8 * k))"
  have 1: "?h + push_bit (8 * k) (take_bit 8 v) = ?h OR push_bit (8 * k) (take_bit 8 v)"
    by (rule disjunctive_add) (auto simp: bit_simps)
  have 2: "(?h OR push_bit (8 * k) (take_bit 8 v)) + take_bit (8 * k) w
      = (?h OR push_bit (8 * k) (take_bit 8 v)) OR take_bit (8 * k) w"
    by (rule disjunctive_add) (auto simp: bit_simps)
  show ?thesis unfolding 1 2
    using assms by (intro bit_word_eqI) (auto simp: bit_lane_update bit_simps)
qed

lemma byte_masks:
  "(0xFFFFFFFFFFFFFF :: u64) = mask 56" "(0xFFFFFFFFFFFF :: u64) = mask 48"
  "(0xFFFFFFFFFF :: u64) = mask 40" "(0xFFFFFFFF :: u64) = mask 32" "(0xFFFFFF :: u64) = mask 24"
  "(0xFFFF :: u64) = mask 16" "(0xFF :: u64) = mask 8"
  by (simp_all add: mask_eq_exp_minus_1)

lemma store_byte_lane: "store_byte a w v = (True, lane_update (unat a mod 8) 1 w v)"
  using byte_parts [of 0 w v] byte_parts [of 1 w v] byte_parts [of 2 w v] byte_parts [of 3 w v]
    byte_parts [of 4 w v] byte_parts [of 5 w v] byte_parts [of 6 w v] byte_parts [of 7 w v]
  by (cases a rule: mod_8_cases)
    (simp_all only: store_byte_def Let_def,
     simp_all add: byte_masks take_bit_eq_mask [where 'a = u64])

subsection \<open>A little-endian byte memory\<close>

text \<open>
  The emulator's memory is an array of 64-bit words. Its byte view: byte \<open>a\<close> of the array is
  lane \<open>a mod 8\<close> of word \<open>a div 8\<close>; \<open>le_read\<close> assembles \<open>n\<close> bytes, lowest address first.
\<close>

definition mem_byte :: "(nat \<Rightarrow> u64) \<Rightarrow> nat \<Rightarrow> u8" where
  "mem_byte m a = ucast (lane (a mod 8) 1 (m (a div 8)))"

fun le_read :: "(nat \<Rightarrow> u8) \<Rightarrow> nat \<Rightarrow> nat \<Rightarrow> u64" where
  "le_read f a 0 = 0"
| "le_read f a (Suc n) = ucast (f a) OR push_bit 8 (le_read f (Suc a) n)"

lemma bit_mem_byte: "bit (mem_byte m a) i \<longleftrightarrow> i < 8 \<and> bit (m (a div 8)) (8 * (a mod 8) + i)"
  by (auto simp: mem_byte_def bit_lane bit_simps)

lemma bit_le_read:
  "n \<le> 8 \<Longrightarrow> bit (le_read f a n) i \<longleftrightarrow> i < 8 * n \<and> bit (f (a + i div 8)) (i mod 8)"
proof (induction n arbitrary: a i)
  case (Suc n)
  show ?case
  proof (cases "i < 8")
    case True
    with Suc.prems show ?thesis by (auto simp: bit_simps)
  next
    case False
    then obtain j where i: "i = 8 + j" by (metis le_add_diff_inverse not_less)
    have "bit (le_read f a (Suc n)) i \<longleftrightarrow> j < 56 \<and> bit (le_read f (Suc a) n) j"
      using i by (auto simp: bit_simps dest: bit_imp_le_length)
    moreover have "(8 + j) div 8 = Suc (j div 8)" by simp
    ultimately show ?thesis using Suc i by auto
  qed
qed simp

text \<open>A lane that does not cross the word is the little-endian reading of its bytes.\<close>

lemma lane_le_read:
  assumes "a mod 8 + n \<le> 8"
  shows "lane (a mod 8) n (m (a div 8)) = le_read (mem_byte m) a n"
proof (rule bit_word_eqI)
  fix i :: nat
  obtain q r where a: "a = 8 * q + r" "r < 8"
    by (metis mod_less_divisor mult_div_mod_eq zero_less_numeral)
  have "(a + i div 8) div 8 = q" "8 * ((a + i div 8) mod 8) + i mod 8 = 8 * r + i"
    if "i < 8 * n"
  proof -
    have "r + i div 8 < 8" using that a assms by auto
    then have "(8 * q + (r + i div 8)) div 8 = q" "(8 * q + (r + i div 8)) mod 8 = r + i div 8"
      by simp_all
    then show "(a + i div 8) div 8 = q" "8 * ((a + i div 8) mod 8) + i mod 8 = 8 * r + i"
      by (simp_all add: a add.assoc)
  qed
  then show "bit (lane (a mod 8) n (m (a div 8))) i = bit (le_read (mem_byte m) a n) i"
    using assms a by (auto simp: bit_lane bit_le_read bit_mem_byte)
qed

text \<open>Updating a lane writes its bytes and no other.\<close>

lemma mem_byte_lane_update:
  assumes "a mod 8 + n \<le> 8"
  shows "mem_byte (m(a div 8 := lane_update (a mod 8) n (m (a div 8)) v)) b =
     (if a \<le> b \<and> b < a + n then ucast (drop_bit (8 * (b - a)) v) else mem_byte m b)"
proof -
  obtain q r where a: "a = 8 * q + r" "r < 8"
    by (metis mod_less_divisor mult_div_mod_eq zero_less_numeral)
  obtain p t where b: "b = 8 * p + t" "t < 8"
    by (metis mod_less_divisor mult_div_mod_eq zero_less_numeral)
  have n: "r + n \<le> 8" using a assms by simp
  show ?thesis
  proof (cases "p = q")
    case True
    then have "a \<le> b \<and> b < a + n \<longleftrightarrow> r \<le> t \<and> t < r + n" "b - a = t - r" using a b by auto
    then show ?thesis
      using True a b n by (intro bit_word_eqI)
        (auto simp: bit_mem_byte bit_lane_update bit_simps algebra_simps)
  next
    case False
    then have "\<not> (a \<le> b \<and> b < a + n)" using a b n by linarith
    with False a b show ?thesis by (auto simp: mem_byte_def)
  qed
qed

end
