(* ===== verification/Hart_Exec.thy ===== *)
theory Hart_Exec
  imports Hart_State Hart_Alu Hart_Mem
begin

text \<open>
  The instruction step of the hart, \<^verbatim>\<open>src/sim/emulator/hart_execute.inc\<close> and the fetch of
  \<^verbatim>\<open>hart.h\<close>: field extraction, one function per case of the opcode switch, and \<open>hart_step\<close>
  with the parking of secondary harts, the interrupt check, WFI and the end-of-test
  detection around it. A step takes and returns the hart and the shared state, or ends the
  process (\<open>exit\<close>, or an index outside a vector). The build flag \<open>LOCKSTEP\<close> is the
  parameter \<open>lockstep\<close>.
\<close>

unbundle bit_operations_syntax

subsection \<open>Fetch and field extraction\<close>

definition getINST :: "u64 \<Rightarrow> (nat \<Rightarrow> u64) \<Rightarrow> abort + u64" where
  "getINST pc mem =
     (let idx = unat (pc div 2) in
      if MEM_WORDS \<le> idx then Inl OutOfRange
      else if pc mod 2 = 0 then Inr (0xFFFFFFFF AND mem idx)
      else Inr (drop_bit 32 (mem idx)))"

definition hart_fetch_instruction :: "u64 \<Rightarrow> machine \<Rightarrow> abort + u64 \<times> hart" where
  "hart_fetch_instruction pc = (\<lambda>(h, s).
     if pc < DRAM_BASE \<or> DRAM_BASE + 0x9000000 \<le> pc then Inr (0, h)
     else if pc mod 4 = 0 then
       (case getINST ((pc - DRAM_BASE) div 4) (memory s) of
          Inl e \<Rightarrow> Inl e | Inr i \<Rightarrow> Inr (i, h))
     else Inr (0, h\<lparr>INS_ADDR_MISSALIG := True\<rparr>))"

record decoded =
  instruction :: u64
  opcode :: u64
  rd :: u64
  func3 :: u64
  rs1 :: u64
  rs2 :: u64
  func7 :: u64
  imm11_0 :: u64
  imm31_12 :: u64
  imm_j :: u64
  imm_b :: u64
  imm_s :: u64
  amo_op :: u64

definition decode :: "u64 \<Rightarrow> decoded" where
  "decode i = \<lparr>
     instruction = i,
     opcode = i AND 127,
     rd = drop_bit 7 i AND 31,
     func3 = drop_bit 12 i AND 7,
     rs1 = drop_bit 15 i AND 31,
     rs2 = drop_bit 20 i AND 31,
     func7 = drop_bit 25 i AND 127,
     imm11_0 = drop_bit 20 i AND 0xFFF,
     imm31_12 = drop_bit 12 i AND 0xFFFFF,
     imm_j = push_bit 20 (drop_bit 31 i AND 1) + (i AND push_bit 12 0xFF) +
       push_bit 11 (drop_bit 20 i AND 1) + push_bit 1 (drop_bit 21 i AND 0x3FF),
     imm_b = push_bit 12 (drop_bit 31 i AND 1) + push_bit 11 (drop_bit 7 i AND 1) +
       push_bit 5 (drop_bit 25 i AND 63) + (drop_bit 7 i AND 30),
     imm_s = push_bit 5 (drop_bit 25 i AND 127) + (drop_bit 7 i AND 31),
     amo_op = drop_bit 27 i AND 31\<rparr>"

subsection \<open>Register file\<close>

definition get_reg :: "hart \<Rightarrow> u64 \<Rightarrow> u64" where
  "get_reg h r = reg_file h ! unat r"

definition set_reg :: "u64 \<Rightarrow> u64 \<Rightarrow> hart \<Rightarrow> hart" where
  "set_reg r v h = h\<lparr>reg_file := (reg_file h)[unat r := v]\<rparr>"

subsection \<open>Upper immediates, jumps and branches\<close>

definition exec_lui :: "decoded \<Rightarrow> hart \<Rightarrow> hart" where
  "exec_lui d h =
     (let wb = sign_extend (instruction d AND 0xFFFFF000) 32
      in set_reg (rd d) wb (h\<lparr>wb_data := wb\<rparr>))"

definition exec_auipc :: "decoded \<Rightarrow> hart \<Rightarrow> hart" where
  "exec_auipc d h =
     (let wb = (PC h - 4) + sign_extend (push_bit 12 (imm31_12 d)) 32
      in set_reg (rd d) wb (h\<lparr>wb_data := wb\<rparr>))"

definition exec_jump :: "decoded \<Rightarrow> hart \<Rightarrow> hart" where
  "exec_jump d h =
     (let wb = PC h; pc = (PC h - 4) + sign_extend (imm_j d) 21; h = h\<lparr>wb_data := wb, PC := pc\<rparr>
      in if pc mod 4 = 0 then set_reg (rd d) wb h else h)"

definition exec_jumpr :: "decoded \<Rightarrow> hart \<Rightarrow> hart" where
  "exec_jumpr d h =
     (let wb = PC h;
          pc = (get_reg h (rs1 d) + sign_extend (imm11_0 d) 12) AND 0xFFFFFFFFFFFFFFFE;
          h = h\<lparr>wb_data := wb, PC := pc\<rparr>
      in if pc mod 4 = 0 then set_reg (rd d) wb h else h)"

definition branch_taken :: "u64 \<Rightarrow> u64 \<Rightarrow> u64 \<Rightarrow> bool \<Rightarrow> bool" where
  "branch_taken f3 a b old =
     (if f3 = 0 then a = b
      else if f3 = 1 then a \<noteq> b
      else if f3 = 4 then signed_value a < signed_value b
      else if f3 = 5 then signed_value a \<ge> signed_value b
      else if f3 = 6 then a < b
      else if f3 = 7 then a \<ge> b
      else old)"

definition exec_cjump :: "decoded \<Rightarrow> hart \<Rightarrow> hart" where
  "exec_cjump d h =
     (let br = branch_taken (func3 d) (get_reg h (rs1 d)) (get_reg h (rs2 d)) (branch h);
          h = h\<lparr>branch := br\<rparr>
      in if br then h\<lparr>PC := PC h - 4 + sign_extend (imm_b d) 13\<rparr> else h)"

subsection \<open>Loads\<close>

definition FIFO_ADDR_RX :: u64 where "FIFO_ADDR_RX = 0x40600000"
definition FIFO_ADDR_TX :: u64 where "FIFO_ADDR_TX = 0x40600004"
definition FIFO_ADDR_STATUS :: u64 where "FIFO_ADDR_STATUS = 0x40600008"
definition ULITE_STATUS_RXVALID :: u64 where "ULITE_STATUS_RXVALID = 1"
definition ULITE_STATUS_TXEMPTY :: u64 where "ULITE_STATUS_TXEMPTY = 4"

lemmas fifo_defs = FIFO_ADDR_RX_def FIFO_ADDR_TX_def FIFO_ADDR_STATUS_def

text \<open>
  The word a load reads: DRAM (with the flag of an index beyond the array), the CLINT, or 0.
\<close>

definition load_bus :: "u64 \<Rightarrow> shared \<Rightarrow> bool \<times> u64" where
  "load_bus load_addr s =
     (if DRAM_BASE \<le> load_addr \<and> load_addr \<le> DRAM_BASE + 0x9000000 then
        (let idx = unat ((load_addr - DRAM_BASE) div 8) in
         if MEM_WORDS \<le> idx then (True, 0) else (False, memory s idx))
      else if CLINT_BASE \<le> load_addr \<and> load_addr \<le> CLINT_BASE + CLINT_SIZE then
        (False, clint_read (clint_dev s) load_addr)
      else (False, 0))"

definition load_commit :: "u64 \<Rightarrow> bool \<times> u64 \<Rightarrow> (u64 \<Rightarrow> u64) \<Rightarrow> hart \<Rightarrow> hart" where
  "load_commit r res ext h =
     (if \<not> fst res then h\<lparr>wb_data := snd res, LD_ADDR_MISSALIG := True\<rparr>
      else set_reg r (ext (snd res)) (h\<lparr>wb_data := ext (snd res)\<rparr>))"

definition load_switch :: "decoded \<Rightarrow> u64 \<Rightarrow> u64 \<Rightarrow> hart \<Rightarrow> hart" where
  "load_switch d load_addr load_data h =
     (let f3 = func3 d; r = rd d in
      if f3 = 0 then load_commit r (load_byte load_addr load_data) (\<lambda>w. sign_extend (w AND 0xFF) 8) h
      else if f3 = 1 then
        load_commit r (load_halfw load_addr load_data) (\<lambda>w. sign_extend (w AND 0xFFFF) 16) h
      else if f3 = 2 then
        load_commit r (load_word load_addr load_data) (\<lambda>w. sign_extend (w AND 0xFFFFFFFF) 32) h
      else if f3 = 4 then load_commit r (load_byte load_addr load_data) (\<lambda>w. w AND 0xFF) h
      else if f3 = 5 then load_commit r (load_halfw load_addr load_data) (\<lambda>w. w AND 0xFFFF) h
      else if f3 = 6 then load_commit r (load_word load_addr load_data) (\<lambda>w. w AND 0xFFFFFFFF) h
      else if f3 = 3 then
        (if load_addr mod 8 = 0 then set_reg r load_data (h\<lparr>wb_data := load_data\<rparr>)
         else h\<lparr>LD_ADDR_MISSALIG := True\<rparr>)
      else h)"

text \<open>
  The uartlite registers. A STATUS read refills the one-byte holding register from the
  console input when it is empty and a byte waits (\<open>kbhit\<close>), but not under \<open>LOCKSTEP\<close>.
\<close>

definition uart_load :: "bool \<Rightarrow> u64 \<Rightarrow> u64 \<Rightarrow> machine \<Rightarrow> machine" where
  "uart_load lockstep r load_addr = (\<lambda>(h, s).
     if load_addr = FIFO_ADDR_STATUS then
       (let s = (if \<not> lockstep \<and> uart_rx_byte s < 0 then
                   (case stdin s of [] \<Rightarrow> s
                    | ch # rest \<Rightarrow> s\<lparr>uart_rx_byte := uint ch, stdin := rest\<rparr>)
                 else s);
            wb = (if uart_rx_byte s \<ge> 0 then ULITE_STATUS_TXEMPTY OR ULITE_STATUS_RXVALID
                  else ULITE_STATUS_TXEMPTY)
        in (set_reg r wb (h\<lparr>wb_data := wb\<rparr>), s))
     else if load_addr = FIFO_ADDR_RX then
       (let wb = (if uart_rx_byte s \<ge> 0 then word_of_int (uart_rx_byte s) else 0)
        in (set_reg r wb (h\<lparr>wb_data := wb\<rparr>), s\<lparr>uart_rx_byte := -1\<rparr>))
     else if load_addr = FIFO_ADDR_TX then (set_reg r (wb_data h) h, s)
     else (h, s))"

definition exec_load :: "bool \<Rightarrow> decoded \<Rightarrow> machine \<Rightarrow> machine" where
  "exec_load lockstep d = (\<lambda>(h, s).
     let load_addr = (get_reg h (rs1 d) + sign_extend (imm11_0 d) 12) AND 0x00000000ffffffff in
     if signed_value load_addr < 0 then (h\<lparr>LD_ACC_FAULT := True\<rparr>, s)
     else if load_addr \<noteq> FIFO_ADDR_RX \<and> load_addr \<noteq> FIFO_ADDR_TX \<and> load_addr \<noteq> FIFO_ADDR_STATUS then
       (case load_bus load_addr s of (fault, load_data) \<Rightarrow>
          (load_switch d load_addr load_data (if fault then h\<lparr>LD_ACC_FAULT := True\<rparr> else h), s))
     else uart_load lockstep (rd d) load_addr (h, s))"

subsection \<open>Stores\<close>

text \<open>The merge of a store into the memory word: the flag and \<open>wb_data\<close> it leaves.\<close>

definition store_switch :: "u64 \<Rightarrow> u64 \<Rightarrow> u64 \<Rightarrow> u64 \<Rightarrow> bool \<times> u64 \<Rightarrow> bool \<times> u64" where
  "store_switch f3 store_addr store_data v old =
     (if f3 = 0 then store_byte store_addr store_data (v AND 0xFF)
      else if f3 = 1 then store_halfw store_addr store_data (v AND 0xFFFF)
      else if f3 = 2 then store_word store_addr store_data (v AND 0xFFFFFFFF)
      else if f3 = 3 then (if store_addr mod 8 = 0 then (True, v) else (False, snd old))
      else old)"

definition mem_store :: "nat \<Rightarrow> u64 \<Rightarrow> shared \<Rightarrow> shared" where
  "mem_store idx v s =
     s\<lparr>memory := (memory s)(idx := v), global_store_gen := global_store_gen s + 1\<rparr>"

definition put_char :: "bool \<Rightarrow> u64 \<Rightarrow> shared \<Rightarrow> shared" where
  "put_char lockstep v s = (if lockstep then s else s\<lparr>console := console s @ [ucast v]\<rparr>)"

definition store_size :: "u64 \<Rightarrow> nat" where
  "store_size f3 = (if f3 = 0 then 1 else if f3 = 1 then 2 else if f3 = 2 then 4
     else if f3 = 3 then 8 else 8)"

definition exec_store :: "bool \<Rightarrow> decoded \<Rightarrow> machine \<Rightarrow> abort + machine" where
  "exec_store lockstep d = (\<lambda>(h, s).
     let store_addr = (get_reg h (rs1 d) + sign_extend (imm_s d) 12) AND 0x00000000ffffffff;
         v = get_reg h (rs2 d) in
     if store_addr \<noteq> FIFO_ADDR_TX then
       (if DRAM_BASE \<le> store_addr \<and> store_addr < DRAM_BASE + 0x9000000 then
          (let idx = unat ((store_addr - DRAM_BASE) div 8) in
           if MEM_WORDS \<le> idx then Inl OutOfRange
           else
             (case store_switch (func3 d) store_addr (memory s idx) v (ls_success h, wb_data h) of
                (ok, wb) \<Rightarrow>
                  (let h = h\<lparr>ls_success := ok, wb_data := wb\<rparr> in
                   if \<not> ok then
                     Inr (set_pc (excep_function (PC h) CAUSE_MISALIGNED_STORE
                            CAUSE_MISALIGNED_STORE CAUSE_MISALIGNED_STORE (cp h) h), s)
                   else Inr (h, mem_store idx wb s))))
        else if CLINT_BASE \<le> store_addr \<and> store_addr \<le> CLINT_BASE + CLINT_SIZE then
          Inr (h, s\<lparr>clint_dev :=
                 clint_write lockstep store_addr v (store_size (func3 d)) (clint_dev s)\<rparr>)
        else if store_addr - DRAM_BASE = FIFO_ADDR_TX then Inr (h, put_char lockstep v s)
        else Inr (h, s))
     else Inr (h, put_char lockstep v s))"

subsection \<open>Integer operations\<close>

definition exec_iops :: "decoded \<Rightarrow> hart \<Rightarrow> hart" where
  "exec_iops d h =
     (let wb = iops_wb (func3 d) (func7 d) (imm11_0 d) (get_reg h (rs1 d)) (wb_data h)
      in set_reg (rd d) wb (h\<lparr>wb_data := wb\<rparr>))"

definition exec_iops64 :: "decoded \<Rightarrow> hart \<Rightarrow> hart" where
  "exec_iops64 d h =
     (let wb = iops64_wb (func3 d) (func7 d) (imm11_0 d) (get_reg h (rs1 d)) (wb_data h)
      in set_reg (rd d) wb (h\<lparr>wb_data := wb\<rparr>))"

definition exec_rops :: "decoded \<Rightarrow> hart \<Rightarrow> hart" where
  "exec_rops d h =
     (let a = get_reg h (rs1 d); b = get_reg h (rs2 d) in
      if func7 d = 0 then
        (let wb = rops_wb (func3 d) a b (wb_data h) in set_reg (rd d) wb (h\<lparr>wb_data := wb\<rparr>))
      else if func7 d = 1 then
        set_reg (rd d) (rops_m (func3 d) a b (get_reg h (rd d))) h
      else if func7 d = 32 then
        (let wb = rops_alt_wb (func3 d) a b (wb_data h) in set_reg (rd d) wb (h\<lparr>wb_data := wb\<rparr>))
      else h)"

definition exec_rops64 :: "decoded \<Rightarrow> hart \<Rightarrow> hart" where
  "exec_rops64 d h =
     (let a = get_reg h (rs1 d); b = get_reg h (rs2 d) in
      if func7 d = 0 then
        (let wb = rops64_wb (func3 d) a b (wb_data h) in set_reg (rd d) wb (h\<lparr>wb_data := wb\<rparr>))
      else if func7 d = 1 then
        (let wb = rops64_m (func3 d) a b (wb_data h) in set_reg (rd d) wb (h\<lparr>wb_data := wb\<rparr>))
      else if func7 d = 32 then
        (let wb = rops64_alt_wb (func3 d) a b (wb_data h) in set_reg (rd d) wb (h\<lparr>wb_data := wb\<rparr>))
      else h)"

subsection \<open>Atomics\<close>

text \<open>
  The nine read-modify-write cases of each width differ in the new value only; \<open>amo_w_op\<close>
  and \<open>amo_d_op\<close> give it by the \<open>amo_op\<close> field (\<open>None\<close> where the switch has no case).
\<close>

definition amo_w_op :: "u64 \<Rightarrow> (u64 \<Rightarrow> u64 \<Rightarrow> u64) option" where
  "amo_w_op op =
     (if op = 1 then Some (\<lambda>m r. r AND 0xFFFFFFFF)
      else if op = 0 then Some (\<lambda>m r. ((m AND 0xFFFFFFFF) + (r AND 0xFFFFFFFF)) AND 0xFFFFFFFF)
      else if op = 4 then Some (\<lambda>m r. ((m AND 0xFFFFFFFF) XOR (r AND 0xFFFFFFFF)) AND 0xFFFFFFFF)
      else if op = 12 then Some (\<lambda>m r. ((m AND 0xFFFFFFFF) AND (r AND 0xFFFFFFFF)) AND 0xFFFFFFFF)
      else if op = 8 then Some (\<lambda>m r. ((m AND 0xFFFFFFFF) OR (r AND 0xFFFFFFFF)) AND 0xFFFFFFFF)
      else if op = 16 then Some (\<lambda>m r. word_of_int (min (signed_value32 (m AND 0xFFFFFFFF))
             (signed_value32 (r AND 0xFFFFFFFF))) AND 0xFFFFFFFF)
      else if op = 20 then Some (\<lambda>m r. word_of_int (max (signed_value32 (m AND 0xFFFFFFFF))
             (signed_value32 (r AND 0xFFFFFFFF))) AND 0xFFFFFFFF)
      else if op = 24 then Some (\<lambda>m r. min (m AND 0xFFFFFFFF) (r AND 0xFFFFFFFF) AND 0xFFFFFFFF)
      else if op = 28 then Some (\<lambda>m r. max (m AND 0xFFFFFFFF) (r AND 0xFFFFFFFF) AND 0xFFFFFFFF)
      else None)"

definition amo_d_op :: "u64 \<Rightarrow> (u64 \<Rightarrow> u64 \<Rightarrow> u64) option" where
  "amo_d_op op =
     (if op = 1 then Some (\<lambda>m r. r)
      else if op = 0 then Some (\<lambda>m r. m + r)
      else if op = 4 then Some (\<lambda>m r. m XOR r)
      else if op = 12 then Some (\<lambda>m r. m AND r)
      else if op = 8 then Some (\<lambda>m r. m OR r)
      else if op = 16 then Some (\<lambda>m r. word_of_int (min (signed_value m) (signed_value r)))
      else if op = 20 then Some (\<lambda>m r. word_of_int (max (signed_value m) (signed_value r)))
      else if op = 24 then Some (\<lambda>m r. min m r)
      else if op = 28 then Some (\<lambda>m r. max m r)
      else None)"

definition amo_fault :: "u64 \<Rightarrow> hart \<Rightarrow> hart" where
  "amo_fault load_addr h = h\<lparr>mtval := load_addr, STORE_ADDR_MISSALIG := True\<rparr>"

definition exec_lr_w :: "u64 \<Rightarrow> u64 \<Rightarrow> machine \<Rightarrow> machine" where
  "exec_lr_w load_addr load_data = (\<lambda>(h, s).
     case load_word load_addr load_data of (ok, wb) \<Rightarrow>
       (let h = h\<lparr>ls_success := ok, wb_data := wb\<rparr> in
        if \<not> ok then (amo_fault load_addr h, s)
        else (h\<lparr>ret_data := sign_extend (wb AND 0xFFFFFFFF) 32, amo_reserve_valid := True,
                amo_reserve_addr := load_addr, amo_reserve_gen := global_store_gen s\<rparr>, s)))"

definition exec_sc_w :: "u64 \<Rightarrow> u64 \<Rightarrow> u64 \<Rightarrow> u64 \<Rightarrow> machine \<Rightarrow> machine" where
  "exec_sc_w rs1_val rs2_val load_addr load_data = (\<lambda>(h, s).
     case (if amo_reserve_valid h \<and> rs1_val = amo_reserve_addr h
              \<and> amo_reserve_gen h = global_store_gen s then
             (case store_word load_addr load_data (rs2_val AND 0xFFFFFFFF) of (ok, wb) \<Rightarrow>
                (let h = h\<lparr>ls_success := ok, wb_data := wb\<rparr> in
                 if \<not> ok then (amo_fault load_addr h\<lparr>ret_data := 1\<rparr>, s)
                 else (h\<lparr>ret_data := 0\<rparr>, mem_store (unat ((load_addr - DRAM_BASE) div 8)) wb s)))
           else (h\<lparr>ret_data := 1\<rparr>, s)) of (h, s) \<Rightarrow>
       (h\<lparr>amo_reserve_addr := 0, amo_reserve_valid := False\<rparr>, s))"

definition exec_rmw_w :: "(u64 \<Rightarrow> u64 \<Rightarrow> u64) \<Rightarrow> u64 \<Rightarrow> u64 \<Rightarrow> u64 \<Rightarrow> machine \<Rightarrow> machine" where
  "exec_rmw_w f rs2_val load_addr load_data = (\<lambda>(h, s).
     case load_word load_addr load_data of (ok, wb) \<Rightarrow>
       (if \<not> ok then (amo_fault load_addr (h\<lparr>ls_success := ok, wb_data := wb\<rparr>), s)
        else
          (let new = f wb rs2_val in
           case store_word load_addr load_data new of (ok2, store_data) \<Rightarrow>
             (h\<lparr>ret_data := sign_extend (wb AND 0xFFFFFFFF) 32, wb_data := new, ls_success := ok2\<rparr>,
              mem_store (unat ((load_addr - DRAM_BASE) div 8)) store_data s))))"

definition exec_lr_d :: "u64 \<Rightarrow> u64 \<Rightarrow> machine \<Rightarrow> machine" where
  "exec_lr_d rs1_val load_addr = (\<lambda>(h, s).
     if load_addr mod 8 \<noteq> 0 then (amo_fault load_addr h, s)
     else (h\<lparr>ret_data := wb_data h, amo_reserve_valid64 := True, amo_reserve_addr64 := rs1_val\<rparr>, s))"

definition exec_sc_d :: "u64 \<Rightarrow> u64 \<Rightarrow> u64 \<Rightarrow> machine \<Rightarrow> machine" where
  "exec_sc_d rs1_val rs2_val load_addr = (\<lambda>(h, s).
     case (if amo_reserve_valid64 h \<and> rs1_val = amo_reserve_addr64 h then
             (if load_addr mod 8 \<noteq> 0 then (amo_fault load_addr h, s)
              else (h\<lparr>ret_data := 0\<rparr>, mem_store (unat ((load_addr - DRAM_BASE) div 8)) rs2_val s))
           else (h\<lparr>ret_data := 1\<rparr>, s)) of (h, s) \<Rightarrow>
       (h\<lparr>amo_reserve_addr64 := 0, amo_reserve_valid64 := False\<rparr>, s))"

definition exec_rmw_d :: "(u64 \<Rightarrow> u64 \<Rightarrow> u64) \<Rightarrow> u64 \<Rightarrow> u64 \<Rightarrow> machine \<Rightarrow> machine" where
  "exec_rmw_d f rs2_val load_addr = (\<lambda>(h, s).
     if load_addr mod 8 \<noteq> 0 then (amo_fault load_addr h, s)
     else
       (let new = f (wb_data h) rs2_val in
        (h\<lparr>ret_data := wb_data h, wb_data := new\<rparr>,
         mem_store (unat ((load_addr - DRAM_BASE) div 8)) new s)))"

definition amo_w_switch :: "u64 \<Rightarrow> u64 \<Rightarrow> u64 \<Rightarrow> u64 \<Rightarrow> u64 \<Rightarrow> machine \<Rightarrow> machine" where
  "amo_w_switch op a1 a2 load_addr load_data m =
     (if op = 2 then exec_lr_w load_addr load_data m
      else if op = 3 then exec_sc_w a1 a2 load_addr load_data m
      else (case amo_w_op op of
              Some f \<Rightarrow> exec_rmw_w f a2 load_addr load_data m | None \<Rightarrow> m))"

definition amo_d_switch :: "u64 \<Rightarrow> u64 \<Rightarrow> u64 \<Rightarrow> u64 \<Rightarrow> machine \<Rightarrow> machine" where
  "amo_d_switch op a1 a2 load_addr m =
     (if op = 2 then exec_lr_d a1 load_addr m
      else if op = 3 then exec_sc_d a1 a2 load_addr m
      else (case amo_d_op op of Some f \<Rightarrow> exec_rmw_d f a2 load_addr m | None \<Rightarrow> m))"

definition write_ret :: "u64 \<Rightarrow> machine \<Rightarrow> machine" where
  "write_ret r = (\<lambda>(h, s). (set_reg r (ret_data h) h, s))"

definition exec_amo :: "decoded \<Rightarrow> machine \<Rightarrow> abort + machine" where
  "exec_amo d = (\<lambda>(h, s).
     let a1 = get_reg h (rs1 d); a2 = get_reg h (rs2 d);
         load_addr = a1 AND 0x00000000ffffffff;
         idx = unat ((load_addr - DRAM_BASE) div 8) in
     if func3 d = 2 then
       (if \<not> (DRAM_BASE < load_addr \<and> load_addr < DRAM_BASE + 0x9000000) then Inl (AmoIllegal load_addr)
        else if MEM_WORDS \<le> idx then Inl OutOfRange
        else Inr (write_ret (rd d) (amo_w_switch (amo_op d) a1 a2 load_addr (memory s idx) (h, s))))
     else if func3 d = 3 then
       (if \<not> (DRAM_BASE < load_addr \<and> load_addr < DRAM_BASE + 0x9000000) then Inl (AmoIllegal load_addr)
        else if MEM_WORDS \<le> idx then Inl OutOfRange
        else Inr (write_ret (rd d)
               (amo_d_switch (amo_op d) a1 a2 load_addr (h\<lparr>wb_data := memory s idx\<rparr>, s))))
     else Inr (h, s))"

subsection \<open>System instructions\<close>

definition csr_fault :: "decoded \<Rightarrow> hart \<Rightarrow> hart" where
  "csr_fault d h = h\<lparr>mtval := instruction d, ILL_INS := True\<rparr>"

text \<open>
  The six CSR cases read the register, write \<open>new\<close> of its value, and put the old value in
  \<open>rd\<close>; the two swaps leave \<open>x0\<close> alone.
\<close>

definition exec_csr :: "bool \<Rightarrow> (u64 \<Rightarrow> u64) \<Rightarrow> bool \<Rightarrow> decoded \<Rightarrow> machine \<Rightarrow> machine" where
  "exec_csr lockstep new skip_x0 d = (\<lambda>(h, s).
     case csr_read h (imm11_0 d) of (ok, csr_data) \<Rightarrow>
       (if ok then
          (case csr_write lockstep (imm11_0 d) (new csr_data) h (clint_dev s) of (csr_bool, h, c) \<Rightarrow>
             (let s = s\<lparr>clint_dev := c\<rparr> in
              if \<not> csr_bool then (csr_fault d h, s)
              else if skip_x0 \<and> rd d = 0 then (h, s)
              else (set_reg (rd d) csr_data h, s)))
        else (csr_fault d h, s)))"

definition exec_priv :: "decoded \<Rightarrow> hart \<Rightarrow> hart" where
  "exec_priv d h =
     (if imm11_0 d = 0 then
        set_pc (excep_function (PC h) CAUSE_MACHINE_ECALL CAUSE_SUPERVISOR_ECALL
          CAUSE_USER_ECALL (cp h) h)
      else if imm11_0 d = 1 then h\<lparr>EBREAK := True\<rparr>
      else if imm11_0 d = 0x105 then h\<lparr>in_wfi := True\<rparr>
      else if imm11_0 d = 770 then exec_mret h
      else h)"

definition exec_systm :: "bool \<Rightarrow> decoded \<Rightarrow> machine \<Rightarrow> machine" where
  "exec_systm lockstep d = (\<lambda>(h, s).
     let f3 = func3 d; r1 = get_reg h (rs1 d) in
     if f3 = 1 then exec_csr lockstep (\<lambda>c. r1) True d (h, s)
     else if f3 = 2 then exec_csr lockstep (\<lambda>c. r1 OR c) False d (h, s)
     else if f3 = 3 then exec_csr lockstep (\<lambda>c. c AND (0xFFFFFFFFFFFFFFFF - r1)) False d (h, s)
     else if f3 = 5 then exec_csr lockstep (\<lambda>c. rs1 d) True d (h, s)
     else if f3 = 6 then exec_csr lockstep (\<lambda>c. rs1 d OR c) False d (h, s)
     else if f3 = 7 then exec_csr lockstep (\<lambda>c. c AND (0xFFFFFFFFFFFFFFFF - rs1 d)) False d (h, s)
     else if f3 = 0 then (exec_priv d h, s)
     else (h, s))"

subsection \<open>The step\<close>

definition execute :: "bool \<Rightarrow> decoded \<Rightarrow> machine \<Rightarrow> abort + machine" where
  "execute lockstep d = (\<lambda>(h, s).
     if opcode d = 0b0110111 then Inr (exec_lui d h, s)
     else if opcode d = 0b0010111 then Inr (exec_auipc d h, s)
     else if opcode d = 0b1101111 then Inr (exec_jump d h, s)
     else if opcode d = 0b1100111 then Inr (exec_jumpr d h, s)
     else if opcode d = 0b1100011 then Inr (exec_cjump d h, s)
     else if opcode d = 0b0000011 then Inr (exec_load lockstep d (h, s))
     else if opcode d = 0b0100011 then exec_store lockstep d (h, s)
     else if opcode d = 0b0010011 then Inr (exec_iops d h, s)
     else if opcode d = 0b0011011 then Inr (exec_iops64 d h, s)
     else if opcode d = 0b0110011 then Inr (exec_rops d h, s)
     else if opcode d = 0b0111011 then Inr (exec_rops64 d h, s)
     else if opcode d = 0b0101111 then exec_amo d (h, s)
     else if opcode d = 0b0001111 then Inr (h, s)
     else if opcode d = 0b1110011 then Inr (exec_systm lockstep d (h, s))
     else Inr (h, s))"

definition refresh_mip :: "clint \<Rightarrow> hart \<Rightarrow> hart" where
  "refresh_mip c h =
     h\<lparr>mip := (mip h)\<lparr>MTIP := (if check_timer_interrupt c (ucast (mhartid h)) then 1 else 0),
         MSIP := (if check_software_interrupt c (ucast (mhartid h)) then 1 else 0)\<rparr>\<rparr>"

definition step_interrupts :: "hart \<Rightarrow> hart" where
  "step_interrupts h =
     (if ms_mie (mstatus h) \<noteq> 0 then
        (if MSIE (mie h) \<noteq> 0 \<and> MSIP (mip h) \<noteq> 0 then
           (if 0 < post_kick_protect h then h\<lparr>post_kick_protect := post_kick_protect h - 1\<rparr>
            else take_machine_soft_irq h)
         else if MTIE (mie h) \<noteq> 0 \<and> MTIP (mip h) \<noteq> 0 then take_machine_timer_irq h
         else h)
      else h)"

definition wfi_irq_pending :: "clint \<Rightarrow> hart \<Rightarrow> bool" where
  "wfi_irq_pending c h \<longleftrightarrow>
     (MSIE (mie h) \<noteq> 0 \<and> check_software_interrupt c (ucast (mhartid h))) \<or>
     (MTIE (mie h) \<noteq> 0 \<and> check_timer_interrupt c (ucast (mhartid h)))"

definition run_instruction :: "bool \<Rightarrow> machine \<Rightarrow> abort + machine" where
  "run_instruction lockstep = (\<lambda>(h, s).
     case hart_fetch_instruction (PC h) (h, s) of
       Inl e \<Rightarrow> Inl e
     | Inr (instr, h) \<Rightarrow>
         if \<not> lockstep \<and> instr = 0x00000073 \<and> get_reg h 3 = 1 \<and> get_reg h 17 = 0x5d \<and> get_reg h 10 = 0
         then Inl TestsPassed
         else if \<not> lockstep \<and> instr = 0x00018513 then Inl TestsFailed
         else if \<not> INS_ADDR_MISSALIG h then
           execute lockstep (decode instr) (set_reg 0 0 (h\<lparr>PC := PC h + 4\<rparr>), s)
         else Inr (h, s))"

text \<open>
  The index check stands for the unchecked \<open>operator[]\<close> of the CLINT's vectors, which every
  path of the step uses at \<open>mhartid\<close>.
\<close>

definition hart_step :: "bool \<Rightarrow> machine \<Rightarrow> abort + machine" where
  "hart_step lockstep = (\<lambda>(h, s).
     let h = set_reg 0 0 h; c = clint_dev s in
     if length (msip c) \<le> unat (ucast (mhartid h) :: u32) then Inl OutOfRange
     else if \<not> smp_released h \<and> \<not> check_software_interrupt c (ucast (mhartid h)) then Inr (h, s)
     else
       (let skip_initial_kick_take = (\<not> smp_released h);
            h = (if skip_initial_kick_take then h\<lparr>smp_released := True, post_kick_protect := 200\<rparr>
                 else h);
            h = refresh_mip c h;
            h = (if lockstep \<or> skip_initial_kick_take then h else step_interrupts h);
            h = (if 0 < post_kick_protect h then h\<lparr>post_kick_protect := post_kick_protect h - 1\<rparr>
                 else h)
        in if in_wfi h then
             (if \<not> wfi_irq_pending c h then Inr (h, s) else Inr (h\<lparr>in_wfi := False\<rparr>, s))
           else run_instruction lockstep (h, s)))"

end
