(* ===== verification/Emulator.thy ===== *)
theory Emulator
  imports Hart_Exec
begin

text \<open>
  The rest of class \<open>hart\<close> (\<^verbatim>\<open>src/sim/emulator/hart.h\<close>: the drain of pending exceptions, the
  lock-step interrupt entry, the peripheral-read test) and class \<open>emulator\<close>
  (\<^verbatim>\<open>src/sim/emulator/emulator.h\<close>): the harts, the memory and CLINT they share, the loading of
  an image, the ways a driver steps the machine, and the accessors of the lock-step harness.
\<close>

unbundle bit_operations_syntax

subsection \<open>Interrupts and exceptions of one hart\<close>

definition raise_exception :: "u64 \<Rightarrow> hart \<Rightarrow> hart" where
  "raise_exception code h = set_pc (excep_function (PC h) code code code (cp h) h)"

definition raise_interrupt :: "u64 \<Rightarrow> hart \<Rightarrow> hart" where
  "raise_interrupt code h = set_pc (interrupt_function (PC h) code (cp h) h)"

definition hart_set_interrupts :: "clint \<Rightarrow> hart \<Rightarrow> abort + hart" where
  "hart_set_interrupts c h =
     (if length (msip c) \<le> unat (ucast (mhartid h) :: u32) then Inl OutOfRange
      else
        (let h = refresh_mip c h;
             h = (if signed_value (PC h) < 0 then h\<lparr>INS_ACC_FAULT := True\<rparr> else h)
         in Inr
           (if LD_ACC_FAULT h then raise_exception CAUSE_LOAD_ACCESS (h\<lparr>LD_ACC_FAULT := False\<rparr>)
            else if UEIE (mie h) AND UEIP (mip h) \<noteq> 0 then raise_interrupt CAUSE_USER_EXT_INT h
            else if UTIE (mie h) AND UTIP (mip h) \<noteq> 0 then raise_interrupt CAUSE_USER_TIMER_INT h
            else if USIE (mie h) AND USIP (mip h) \<noteq> 0 then raise_interrupt CAUSE_USER_SOFT_INT h
            else if INS_ACC_FAULT h then
              raise_exception CAUSE_FETCH_ACCESS (h\<lparr>INS_ACC_FAULT := False\<rparr>)
            else if ILL_INS h then
              raise_exception CAUSE_ILLEGAL_INSTRUCTION (h\<lparr>ILL_INS := False\<rparr>)
            else if INS_ADDR_MISSALIG h then
              raise_exception CAUSE_MISALIGNED_FETCH (h\<lparr>INS_ADDR_MISSALIG := False\<rparr>)
            else if EBREAK h then raise_exception CAUSE_BREAKPOINT (h\<lparr>EBREAK := False\<rparr>)
            else if LD_ADDR_MISSALIG h then
              raise_exception CAUSE_MISALIGNED_LOAD (h\<lparr>LD_ADDR_MISSALIG := False\<rparr>)
            else if STORE_ADDR_MISSALIG h then
              raise_exception CAUSE_MISALIGNED_STORE (h\<lparr>STORE_ADDR_MISSALIG := False\<rparr>)
            else h)))"

definition hart_set_interrupts_lockstep :: "machine \<Rightarrow> abort + int \<times> machine" where
  "hart_set_interrupts_lockstep m =
     (case hart_step True m of
        Inl e \<Rightarrow> Inl e
      | Inr (h, s) \<Rightarrow>
          if MTIE (mie h) = 0 \<or> ms_mie (mstatus h) = 0 then Inr (1, h, s)
          else Inr (0, raise_interrupt CAUSE_MACHINE_TIMER_INT h, s))"

definition is_peripheral_read :: "machine \<Rightarrow> abort + int \<times> hart" where
  "is_peripheral_read = (\<lambda>(h, s).
     case hart_fetch_instruction (PC h) (h, s) of
       Inl e \<Rightarrow> Inl e
     | Inr (i, h) \<Rightarrow>
         let instr = (ucast i :: u32);
             iimm = signed_drop_bit 20 (scast instr :: u64);
             load_addr = get_reg h (ucast (drop_bit 15 instr AND 31)) + iimm in
         if instr AND 0x7f \<noteq> 0b0000011 then Inr (0, h)
         else if DRAM_BASE \<le> load_addr \<and> load_addr \<le> DRAM_BASE + 0x9000000 then Inr (0, h)
         else if 0x02000000 \<le> load_addr \<and> load_addr < 0x02000000 + 0xc0000 then Inr (0, h)
         else if 0x40600000 \<le> load_addr \<and> load_addr \<le> 0x4060000c then Inr (0, h)
         else Inr (1, h))"

definition get_instruction :: "machine \<Rightarrow> abort + u32 \<times> hart" where
  "get_instruction m = (case hart_fetch_instruction (PC (fst m)) m of
     Inl e \<Rightarrow> Inl e | Inr (i, h) \<Rightarrow> Inr (ucast i, h))"

definition set_register_with_value :: "u8 \<Rightarrow> u64 \<Rightarrow> hart \<Rightarrow> hart" where
  "set_register_with_value r v h = h\<lparr>reg_file := (reg_file h)[unat r := v]\<rparr>"

subsection \<open>The emulator\<close>

definition NUM_HARTS :: u8 where "NUM_HARTS = 4"

record emulator =
  harts :: "hart list"
  world :: shared

definition shared_init :: "int \<Rightarrow> int \<Rightarrow> u8 list \<Rightarrow> shared" where
  "shared_init now_sec now_usec input =
     \<lparr>memory = (\<lambda>_. 0), clint_dev = clint_init NUM_HARTS now_sec now_usec, uart_rx_byte = -1,
      global_store_gen = 1, stdin = input, console = []\<rparr>"

definition emulator_new :: "bool \<Rightarrow> int \<Rightarrow> int \<Rightarrow> u8 list \<Rightarrow> emulator" where
  "emulator_new lockstep now_sec now_usec input =
     \<lparr>harts = map (\<lambda>i. hart_init lockstep (of_nat i) hart_fresh) [0..<unat NUM_HARTS],
      world = shared_init now_sec now_usec input\<rparr>"

text \<open>
  \<open>init\<close> reads the file into a vector of as many 64-bit elements as the file has bytes, so
  element \<open>k\<close> holds bytes \<open>8 k\<close> to \<open>8 k + 7\<close>, and the rest is zero.
\<close>

definition le_word :: "u8 list \<Rightarrow> u64" where
  "le_word bs = foldr (\<lambda>b w. ucast b OR push_bit 8 w) bs 0"

definition byte_vector :: "u8 list \<Rightarrow> u64 list" where
  "byte_vector bs = map (\<lambda>k. le_word (take 8 (drop (8 * k) bs))) [0..<length bs]"

fun init_loop :: "u64 list \<Rightarrow> u64 \<Rightarrow> u64 \<Rightarrow> (nat \<Rightarrow> u64) \<Rightarrow> abort + (nat \<Rightarrow> u64)" where
  "init_loop [] long_jump pointer_end mem = Inr mem"
| "init_loop (data # ds) long_jump pointer_end mem =
     (if MEM_WORDS \<le> unat long_jump then Inl OutOfRange
      else
        (let mem = mem(unat long_jump := data) in
         if pointer_end \<le> long_jump then Inr mem
         else init_loop ds (long_jump + 1) pointer_end mem))"

definition init :: "u8 list \<Rightarrow> emulator \<Rightarrow> abort + emulator" where
  "init file e =
     (let pointer_end = of_nat (length file) div 8 - 1 in
      case init_loop (byte_vector file) 0 pointer_end (memory (world e)) of
        Inl x \<Rightarrow> Inl x
      | Inr mem \<Rightarrow> Inr (e\<lparr>world := (world e)\<lparr>memory := mem\<rparr>\<rparr>))"

subsection \<open>Stepping\<close>

definition tick_only :: "emulator \<Rightarrow> emulator" where
  "tick_only e = e\<lparr>world := (world e)\<lparr>clint_dev := clint_advance 1 (clint_dev (world e))\<rparr>\<rparr>"

definition step_hart_only :: "bool \<Rightarrow> nat \<Rightarrow> emulator \<Rightarrow> abort + emulator" where
  "step_hart_only lockstep i e =
     (if length (harts e) \<le> i then Inl OutOfRange
      else (case hart_step lockstep (harts e ! i, world e) of
              Inl x \<Rightarrow> Inl x
            | Inr (h, s) \<Rightarrow> Inr (e\<lparr>harts := (harts e)[i := h], world := s\<rparr>)))"

fun step_range :: "bool \<Rightarrow> nat list \<Rightarrow> emulator \<Rightarrow> abort + emulator" where
  "step_range lockstep [] e = Inr e"
| "step_range lockstep (i # is) e =
     (case step_hart_only lockstep i e of Inl x \<Rightarrow> Inl x | Inr e \<Rightarrow> step_range lockstep is e)"

definition step :: "bool \<Rightarrow> emulator \<Rightarrow> abort + emulator" where
  "step lockstep e = step_range lockstep [0..<length (harts e)] (tick_only e)"

definition step_one :: "bool \<Rightarrow> nat \<Rightarrow> emulator \<Rightarrow> abort + emulator" where
  "step_one lockstep i e = step_hart_only lockstep i (tick_only e)"

definition set_interrupts_one :: "bool \<Rightarrow> nat \<Rightarrow> emulator \<Rightarrow> abort + emulator" where
  "set_interrupts_one lockstep i e =
     (if length (harts e) \<le> i then Inl OutOfRange
      else if lockstep then
        (case hart_set_interrupts_lockstep (harts e ! i, world e) of
           Inl x \<Rightarrow> Inl x
         | Inr (_, h, s) \<Rightarrow> Inr (e\<lparr>harts := (harts e)[i := h], world := s\<rparr>))
      else
        (case hart_set_interrupts (clint_dev (world e)) (harts e ! i) of
           Inl x \<Rightarrow> Inl x
         | Inr h \<Rightarrow> Inr (e\<lparr>harts := (harts e)[i := h]\<rparr>)))"

fun set_interrupts_range :: "bool \<Rightarrow> nat list \<Rightarrow> emulator \<Rightarrow> abort + emulator" where
  "set_interrupts_range lockstep [] e = Inr e"
| "set_interrupts_range lockstep (i # is) e =
     (case set_interrupts_one lockstep i e of
        Inl x \<Rightarrow> Inl x | Inr e \<Rightarrow> set_interrupts_range lockstep is e)"

definition deliver_interrupts :: "bool \<Rightarrow> emulator \<Rightarrow> abort + emulator" where
  "deliver_interrupts lockstep e = set_interrupts_range lockstep [0..<length (harts e)] e"

definition set_interrupts :: "bool \<Rightarrow> emulator \<Rightarrow> abort + emulator" where
  "set_interrupts lockstep e = deliver_interrupts lockstep (tick_only e)"

subsection \<open>Accessors of the lock-step harness\<close>

definition read_mem64 :: "emulator \<Rightarrow> u64 \<Rightarrow> abort + u64" where
  "read_mem64 e addr =
     (if addr < 0x80000000 \<or> 0x80000000 + 0x9000000 \<le> addr then Inr 0
      else
        (let idx = unat ((addr - 0x80000000) div 8) in
         if MEM_WORDS \<le> idx then Inl OutOfRange else Inr (memory (world e) idx)))"

definition write_mem64 :: "u64 \<Rightarrow> u64 \<Rightarrow> emulator \<Rightarrow> abort + emulator" where
  "write_mem64 addr v e =
     (if addr < 0x80000000 \<or> 0x80000000 + 0x9000000 \<le> addr then Inr e
      else
        (let idx = unat ((addr - 0x80000000) div 8) in
         if MEM_WORDS \<le> idx then Inl OutOfRange
         else Inr (e\<lparr>world := (world e)\<lparr>memory := (memory (world e))(idx := v)\<rparr>\<rparr>)))"

definition fetch_long :: "emulator \<Rightarrow> u64 \<Rightarrow> abort + u64" where
  "fetch_long e offset =
     (let idx = unat (offset div 8) in
      if MEM_WORDS \<le> idx then Inl OutOfRange else Inr (memory (world e) idx))"

definition emu_set_msip :: "u32 \<Rightarrow> u32 \<Rightarrow> emulator \<Rightarrow> emulator" where
  "emu_set_msip h v e = e\<lparr>world := (world e)\<lparr>clint_dev := set_msip h v (clint_dev (world e))\<rparr>\<rparr>"

definition emu_get_msip :: "emulator \<Rightarrow> u32 \<Rightarrow> u32" where
  "emu_get_msip e h = get_msip (clint_dev (world e)) h"

definition emu_set_mtime :: "u64 \<Rightarrow> emulator \<Rightarrow> emulator" where
  "emu_set_mtime v e = e\<lparr>world := (world e)\<lparr>clint_dev := set_mtime v (clint_dev (world e))\<rparr>\<rparr>"

definition emu_set_mtimecmp :: "u32 \<Rightarrow> u64 \<Rightarrow> emulator \<Rightarrow> emulator" where
  "emu_set_mtimecmp h v e =
     e\<lparr>world := (world e)\<lparr>clint_dev := set_mtimecmp h v (clint_dev (world e))\<rparr>\<rparr>"

text \<open>The remaining accessors forward to one hart.\<close>

definition on_hart :: "nat \<Rightarrow> (hart \<Rightarrow> hart) \<Rightarrow> emulator \<Rightarrow> abort + emulator" where
  "on_hart i f e =
     (if length (harts e) \<le> i then Inl OutOfRange
      else Inr (e\<lparr>harts := (harts e)[i := f (harts e ! i)]\<rparr>))"

definition emu_clear_wfi :: "nat \<Rightarrow> emulator \<Rightarrow> abort + emulator" where
  "emu_clear_wfi i = on_hart i clear_wfi"

definition emu_take_machine_timer_irq :: "nat \<Rightarrow> emulator \<Rightarrow> abort + emulator" where
  "emu_take_machine_timer_irq i = on_hart i take_machine_timer_irq"

definition emu_take_machine_soft_irq :: "nat \<Rightarrow> emulator \<Rightarrow> abort + emulator" where
  "emu_take_machine_soft_irq i = on_hart i take_machine_soft_irq"

definition emu_set_mepc :: "nat \<Rightarrow> u64 \<Rightarrow> emulator \<Rightarrow> abort + emulator" where
  "emu_set_mepc i v = on_hart i (set_mepc v)"

definition emu_set_mstatus :: "nat \<Rightarrow> u64 \<Rightarrow> emulator \<Rightarrow> abort + emulator" where
  "emu_set_mstatus i v = on_hart i (set_mstatus v)"

definition emu_set_register :: "u8 \<Rightarrow> u64 \<Rightarrow> nat \<Rightarrow> emulator \<Rightarrow> abort + emulator" where
  "emu_set_register r v i = on_hart i (set_register_with_value r v)"

definition emu_is_peripheral_read :: "nat \<Rightarrow> emulator \<Rightarrow> abort + int \<times> emulator" where
  "emu_is_peripheral_read i e =
     (if length (harts e) \<le> i then Inl OutOfRange
      else (case is_peripheral_read (harts e ! i, world e) of
              Inl x \<Rightarrow> Inl x
            | Inr (r, h) \<Rightarrow> Inr (r, e\<lparr>harts := (harts e)[i := h]\<rparr>)))"

end
