(* ===== verification/Alu_Correct.thy ===== *)
theory Alu_Correct
  imports Hart_Alu
begin

text \<open>
  The reference arithmetic of RV64IM, stated from the instruction set manual on the integer
  values of the operands, and the proofs that the switches of \<^verbatim>\<open>hart_execute.inc\<close> compute it:
  masks and sign extensions against casts, the bit-by-bit shift loop against the arithmetic
  shift, 128-bit products against integer products, and the division helpers against
  truncating division. Signed 64-bit division is the one place where they differ, and the
  operands for which they do are characterised exactly.
\<close>

unbundle bit_operations_syntax

subsection \<open>Reference semantics of the register-register instructions\<close>

datatype rv_op =
    R_ADD | R_SUB | R_SLL | R_SLT | R_SLTU | R_XOR | R_SRL | R_SRA | R_OR | R_AND
  | R_MUL | R_MULH | R_MULHSU | R_MULHU | R_DIV | R_DIVU | R_REM | R_REMU
  | R_ADDW | R_SUBW | R_SLLW | R_SRLW | R_SRAW
  | R_MULW | R_DIVW | R_DIVUW | R_REMW | R_REMUW

definition rv_quot :: "'a::len word \<Rightarrow> 'a word \<Rightarrow> 'a word" where
  "rv_quot a b = (if b = 0 then -1 else word_of_int (sint a sdiv sint b))"

definition rv_rem :: "'a::len word \<Rightarrow> 'a word \<Rightarrow> 'a word" where
  "rv_rem a b = (if b = 0 then a else word_of_int (sint a smod sint b))"

definition rv_quotu :: "'a::len word \<Rightarrow> 'a word \<Rightarrow> 'a word" where
  "rv_quotu a b = (if b = 0 then -1 else a div b)"

definition rv_remu :: "'a::len word \<Rightarrow> 'a word \<Rightarrow> 'a word" where
  "rv_remu a b = (if b = 0 then a else a mod b)"

definition rv_w :: "(u32 \<Rightarrow> u32 \<Rightarrow> u32) \<Rightarrow> u64 \<Rightarrow> u64 \<Rightarrow> u64" where
  "rv_w f a b = scast (f (ucast a) (ucast b))"

fun rv_sem :: "rv_op \<Rightarrow> u64 \<Rightarrow> u64 \<Rightarrow> u64" where
  "rv_sem R_ADD a b = a + b"
| "rv_sem R_SUB a b = a - b"
| "rv_sem R_SLL a b = push_bit (unat b mod 64) a"
| "rv_sem R_SLT a b = of_bool (sint a < sint b)"
| "rv_sem R_SLTU a b = of_bool (uint a < uint b)"
| "rv_sem R_XOR a b = a XOR b"
| "rv_sem R_SRL a b = drop_bit (unat b mod 64) a"
| "rv_sem R_SRA a b = signed_drop_bit (unat b mod 64) a"
| "rv_sem R_OR a b = a OR b"
| "rv_sem R_AND a b = a AND b"
| "rv_sem R_MUL a b = a * b"
| "rv_sem R_MULH a b = word_of_int ((sint a * sint b) div 2 ^ 64)"
| "rv_sem R_MULHSU a b = word_of_int ((sint a * uint b) div 2 ^ 64)"
| "rv_sem R_MULHU a b = word_of_int ((uint a * uint b) div 2 ^ 64)"
| "rv_sem R_DIV a b = rv_quot a b"
| "rv_sem R_DIVU a b = rv_quotu a b"
| "rv_sem R_REM a b = rv_rem a b"
| "rv_sem R_REMU a b = rv_remu a b"
| "rv_sem R_ADDW a b = rv_w (+) a b"
| "rv_sem R_SUBW a b = rv_w (-) a b"
| "rv_sem R_SLLW a b = rv_w (\<lambda>x y. push_bit (unat y mod 32) x) a b"
| "rv_sem R_SRLW a b = rv_w (\<lambda>x y. drop_bit (unat y mod 32) x) a b"
| "rv_sem R_SRAW a b = rv_w (\<lambda>x y. signed_drop_bit (unat y mod 32) x) a b"
| "rv_sem R_MULW a b = rv_w (*) a b"
| "rv_sem R_DIVW a b = rv_w rv_quot a b"
| "rv_sem R_DIVUW a b = rv_w rv_quotu a b"
| "rv_sem R_REMW a b = rv_w rv_rem a b"
| "rv_sem R_REMUW a b = rv_w rv_remu a b"

subsection \<open>Masks, casts and sign extension\<close>

lemma sign_extend_32_eq: "sign_extend (x AND 0xFFFFFFFF) 32 = scast (ucast x :: u32)"
proof -
  have "sign_extend (x AND 0xFFFFFFFF) 32 = signed_take_bit 31 (take_bit 32 x)"
    by (subst sign_extend_eq_signed_take_bit) (simp_all add: word_mask)
  also have "\<dots> = scast (ucast x :: u32)"
    by (rule bit_word_eqI) (auto simp: bit_simps min_def)
  finally show ?thesis .
qed

lemma sign_extend_ucast_32: "sign_extend (ucast (x :: u32)) 32 = scast x"
proof -
  have "(ucast x :: u64) = ucast x AND 0xFFFFFFFF"
    by (rule bit_word_eqI) (auto simp: bit_simps word_mask dest: bit_imp_le_length)
  then have "sign_extend (ucast x) 32 = sign_extend (ucast x AND 0xFFFFFFFF) 32"
    by (rule arg_cong)
  then show ?thesis by (simp only: sign_extend_32_eq) simp
qed

lemma ucast_and_mask32: "(ucast (x AND 0xFFFFFFFF :: u64) :: u32) = ucast x"
  by (rule bit_word_eqI) (simp add: bit_simps word_mask)

lemma and_mask32_ucast: "(x :: u64) AND 0xFFFFFFFF = ucast (ucast x :: u32)"
  by (rule bit_word_eqI) (auto simp: bit_simps word_mask)

lemma unat_and_63: "unat (b AND 63 :: u64) = unat b mod 64"
  by (simp only: word_mask unsigned_take_bit_eq) (simp add: take_bit_eq_mod)

lemma unat_and_31: "unat (b AND 31 :: u64) = unat (ucast b :: u32) mod 32"
  by (simp only: word_mask unsigned_take_bit_eq unsigned_ucast_eq)
    (simp add: take_bit_eq_mod mod_mod_cancel)

lemma ucast_push_bit_32: "(ucast (push_bit n a :: u64) :: u32) = push_bit n (ucast a)"
  by (rule bit_word_eqI) (auto simp: bit_simps)

subsection \<open>The shift loop\<close>

lemma bit_sra_loop:
  assumes "\<And>m. bit w m \<Longrightarrow> m \<le> k" and "k < 64"
  shows "bit (sra_loop k n w) m \<longleftrightarrow> m \<le> k \<and> bit w (min k (m + n))"
  using assms(1)
proof (induction n arbitrary: w)
  case 0
  then show ?case by (cases "m \<le> k") (auto simp: min_def dest: le_antisym)
next
  case (Suc n)
  let ?w = "(w AND push_bit k 1) OR drop_bit 1 w"
  have b: "bit ?w m \<longleftrightarrow> (m = k \<and> bit w k) \<or> bit w (Suc m)" for m
    using assms(2) by (auto simp: bit_simps)
  have "m \<le> k" if "bit ?w m" for m
    using that Suc.prems unfolding b by (auto dest: Suc_leD)
  then have "bit (sra_loop k n ?w) m \<longleftrightarrow> m \<le> k \<and> bit ?w (min k (m + n))"
    by (rule Suc.IH)
  moreover have "bit ?w (min k (m + n)) \<longleftrightarrow> bit w (min k (m + Suc n))"
    using Suc.prems [of "Suc k"] unfolding b
    by (cases "Suc (m + n) = k") (auto simp: min_def not_le not_less_eq_eq)
  ultimately show ?case by simp
qed

lemma bit_signed_drop_bit_min:
  fixes w :: "'a::len word"
  assumes "m < LENGTH('a)"
  shows "bit (signed_drop_bit n w) m \<longleftrightarrow> bit w (min (LENGTH('a) - 1) (m + n))"
proof -
  have "(if LENGTH('a) - n \<le> m \<and> m < LENGTH('a) then LENGTH('a) - 1 else n + m)
      = min (LENGTH('a) - 1) (m + n)"
    using assms by (auto simp: min_def)
  then show ?thesis by (simp only: bit_signed_drop_bit_iff)
qed

lemma sra_loop_63: "sra_loop 63 n w = signed_drop_bit n w"
proof (rule bit_word_eqI)
  fix m assume m: "m < LENGTH(64)"
  have "bit w k \<Longrightarrow> k \<le> 63" for k using bit_imp_le_length [of w k] by simp
  then have "bit (sra_loop 63 n w) m \<longleftrightarrow> bit w (min 63 (m + n))"
    using m bit_sra_loop [of w 63 n m] by simp
  with m show "bit (sra_loop 63 n w) m \<longleftrightarrow> bit (signed_drop_bit n w) m"
    by (simp add: bit_signed_drop_bit_min)
qed

lemma sra_loop_31:
  "sign_extend (sra_loop 31 n (a AND 0xFFFFFFFF)) 32 = scast (signed_drop_bit n (ucast a :: u32))"
proof -
  have b: "bit (sra_loop 31 n (a AND 0xFFFFFFFF)) m \<longleftrightarrow> m \<le> 31 \<and> bit a (min 31 (m + n))" for m
    by (subst bit_sra_loop) (auto simp: word_mask bit_simps)
  then have "sra_loop 31 n (a AND 0xFFFFFFFF) = sra_loop 31 n (a AND 0xFFFFFFFF) AND 0xFFFFFFFF"
    by (intro bit_word_eqI) (auto simp: word_mask bit_simps)
  then have "sign_extend (sra_loop 31 n (a AND 0xFFFFFFFF)) 32
      = scast (ucast (sra_loop 31 n (a AND 0xFFFFFFFF)) :: u32)"
    by (metis sign_extend_32_eq)
  also have "(ucast (sra_loop 31 n (a AND 0xFFFFFFFF)) :: u32) = signed_drop_bit n (ucast a)"
    by (rule bit_word_eqI) (auto simp: b bit_unsigned_iff bit_signed_drop_bit_min)
  finally show ?thesis .
qed

subsection \<open>High products\<close>

lemma ucast_high_word_of_int:
  "(ucast (drop_bit 64 (word_of_int k :: u128) AND 0xFFFFFFFFFFFFFFFF) :: u64)
     = word_of_int (k div 2 ^ 64)"
proof -
  have "word_of_int (k div 2 ^ 64) = (word_of_int (drop_bit 64 k) :: u64)"
    by (simp add: drop_bit_eq_div)
  then show ?thesis
    by (intro bit_word_eqI) (auto simp: bit_simps word_mask)
qed

lemma rops_m_high:
  "rops_m 1 a b old = word_of_int ((sint a * sint b) div 2 ^ 64)"
  "rops_m 2 a b old = word_of_int ((sint a * uint b) div 2 ^ 64)"
  "rops_m 3 a b old = word_of_int ((uint a * uint b) div 2 ^ 64)"
proof -
  have u: "(ucast x :: u128) = word_of_int (uint x)" for x :: u64 by simp
  have m: "(word_of_int x * word_of_int y :: u128) = word_of_int (x * y)" for x y
    by (rule wi_homs)
  show "rops_m 1 a b old = word_of_int ((sint a * sint b) div 2 ^ 64)"
    by (simp only: rops_m_def signed_value_eq m ucast_high_word_of_int) simp
  show "rops_m 2 a b old = word_of_int ((sint a * uint b) div 2 ^ 64)"
    by (simp only: rops_m_def signed_value_eq u m ucast_high_word_of_int) simp
  show "rops_m 3 a b old = word_of_int ((uint a * uint b) div 2 ^ 64)"
    by (simp only: rops_m_def u m ucast_high_word_of_int) simp
qed

lemma rops_m_low: "rops_m 0 a b old = a * b"
  by (simp add: rops_m_def) (intro bit_word_eqI, simp add: bit_simps word_mask)

subsection \<open>Rounding to double\<close>

lemma dbl_shift_small: "m < 2 ^ 53 \<Longrightarrow> dbl_shift m = 0"
  by (subst dbl_shift.simps) simp

lemma dbl_shift_less: "m < 2 ^ 53 * 2 ^ dbl_shift m"
proof (induction m rule: dbl_shift.induct)
  case (1 m)
  show ?case
  proof (cases "m < 2 ^ 53")
    case False
    with 1 have "m div 2 < 2 ^ 53 * 2 ^ dbl_shift (m div 2)" by simp
    with False show ?thesis by (subst dbl_shift.simps) simp
  qed (simp add: dbl_shift_small)
qed

lemma dbl_shift_le: "m < 2 ^ 53 * 2 ^ j \<Longrightarrow> dbl_shift m \<le> j"
proof (induction j arbitrary: m)
  case (Suc j)
  show ?case
  proof (cases "m < 2 ^ 53")
    case False
    from Suc.prems have "m div 2 < 2 ^ 53 * 2 ^ j" by simp
    with False Suc.IH show ?thesis by (subst dbl_shift.simps) simp
  qed (simp add: dbl_shift_small)
qed (simp add: dbl_shift_small)

lemma dbl_shift_eq:
  assumes "2 ^ 52 * 2 ^ Suc k \<le> m" "m < 2 ^ 53 * 2 ^ Suc k"
  shows "dbl_shift m = Suc k"
proof (rule antisym)
  show "dbl_shift m \<le> Suc k" using assms(2) by (rule dbl_shift_le)
  have "(2 :: nat) ^ 53 * 2 ^ k \<le> m" using assms(1) by simp
  also note dbl_shift_less [of m]
  finally show "Suc k \<le> dbl_shift m" by (simp add: Suc_le_eq)
qed

lemma round_half_even_0 [simp]: "round_half_even m 0 = m"
  by (simp add: round_half_even_def)

lemma round_half_even_bound: "round_half_even m k \<le> (m div 2 ^ k + 1) * 2 ^ k"
  by (simp add: round_half_even_def Let_def)

lemma round_half_even_62: "m < 2 ^ 62 \<Longrightarrow> round_half_even m (dbl_shift m) \<le> 2 ^ 62"
proof -
  assume m: "m < 2 ^ 62"
  let ?k = "dbl_shift m"
  have "m div 2 ^ ?k < 2 ^ 53"
    using dbl_shift_less [of m] by (simp add: less_mult_imp_div_less)
  then have "(m div 2 ^ ?k + 1) * 2 ^ ?k \<le> 2 ^ 53 * 2 ^ ?k"
    by (intro mult_le_mono1) simp
  also have "\<dots> \<le> (2 :: nat) ^ 53 * 2 ^ 9"
    using dbl_shift_le [of m 9] m by (intro mult_le_mono2 power_increasing) simp_all
  finally show ?thesis
    using round_half_even_bound [of m ?k] by simp
qed

lemma round_half_even_10:
  assumes "2 ^ 62 \<le> m" "m < 2 ^ 63"
  shows "round_half_even m 10 = 2 ^ 63 \<longleftrightarrow> 2 ^ 63 - 512 \<le> m"
proof -
  define q r where "q = m div 1024" and "r = m mod 1024"
  have m: "m = q * 1024 + r" and r: "r < 1024" by (simp_all add: q_def r_def)
  have q: "q < 2 ^ 53" using assms(2) by (simp add: q_def)
  have eq: "x * 1024 = 2 ^ 63 \<longleftrightarrow> x = 2 ^ 53" for x :: nat by simp
  have R: "round_half_even m 10 = (if r < 512 then q else if 512 < r then Suc q
      else if even q then q else Suc q) * 1024"
    by (simp add: round_half_even_def Let_def q_def r_def)
  have odd: "q = 2 ^ 53 - 1 \<Longrightarrow> odd q" by simp
  have "(if r < 512 then q else if 512 < r then Suc q
      else if even q then q else Suc q) = 2 ^ 53 \<longleftrightarrow> q = 2 ^ 53 - 1 \<and> 512 \<le> r"
    using q odd by auto
  also have "\<dots> \<longleftrightarrow> 2 ^ 63 - 512 \<le> m" using m r q by auto
  finally show ?thesis unfolding R eq .
qed

lemma round_half_even_63:
  assumes "m \<le> 2 ^ 63"
  shows "round_half_even m (dbl_shift m) = 2 ^ 63 \<longleftrightarrow> 2 ^ 63 - 512 \<le> m"
proof -
  consider "m < 2 ^ 62" | "2 ^ 62 \<le> m" "m < 2 ^ 63" | "m = 2 ^ 63"
    using assms by linarith
  then show ?thesis
  proof cases
    case 1
    then show ?thesis using round_half_even_62 [of m] by simp
  next
    case 2
    then have "dbl_shift m = 10" using dbl_shift_eq [of 9 m] by simp
    with 2 show ?thesis by (simp only: round_half_even_10)
  next
    case 3
    then have "dbl_shift m = 11" using dbl_shift_eq [of 10 m] by simp
    with 3 show ?thesis by (simp add: round_half_even_def)
  qed
qed

lemma to_double_int64_min:
  assumes "- (2 ^ 63) \<le> x" "x < 2 ^ 63"
  shows "to_double x = - (2 ^ 63) \<longleftrightarrow> x \<le> - (2 ^ 63) + 512"
proof (cases "x < 0")
  case True
  have "to_double x = - int (round_half_even (nat (- x)) (dbl_shift (nat (- x))))"
    using True by (simp add: to_double_def Let_def)
  moreover have "int y = 2 ^ 63 \<longleftrightarrow> y = 2 ^ 63" for y by simp
  ultimately show ?thesis
    using True assms round_half_even_63 [of "nat (- x)"] by auto
next
  case False
  then show ?thesis by (cases "x = 0") (auto simp: to_double_def Let_def)
qed

lemma to_double_exact: "\<bar>x\<bar> < 2 ^ 53 \<Longrightarrow> to_double x = x"
  by (simp add: to_double_def dbl_shift_small mult_sgn_abs)

lemma to_double_nonneg: "0 \<le> x \<Longrightarrow> 0 \<le> to_double x"
  by (cases "x = 0") (auto simp: to_double_def Let_def)

subsection \<open>Division\<close>

lemma sint_range_64: "- (2 ^ 63) \<le> sint (a :: u64)" "sint (a :: u64) < 2 ^ 63"
  using sint_ge [of a] sint_lt [of a] by simp_all

lemma sint_range_32: "- (2 ^ 31) \<le> sint (a :: u32)" "sint (a :: u32) < 2 ^ 31"
  using sint_ge [of a] sint_lt [of a] by simp_all

lemma sint_eq_iffs:
  "sint (b :: 'a::len word) = -1 \<longleftrightarrow> b = -1" "sint (b :: 'a::len word) = 0 \<longleftrightarrow> b = 0"
  using signed_word_eqI [of b "-1"] signed_word_eqI [of b 0] by auto

lemma sdiv_minus_1 [simp]: "(x :: int) sdiv -1 = - x"
  by (simp add: signed_divide_int_def mult_sgn_abs)

lemma smod_units [simp]: "(x :: int) smod -1 = 0" "(x :: int) smod 1 = 0"
  by (simp_all add: signed_modulo_int_def signed_divide_int_def mult_sgn_abs)

lemma to_double_sint_min:
  "to_double (sint (a :: u64)) = - 9223372036854775808 \<longleftrightarrow> sint a \<le> - 9223372036854775296"
  using to_double_int64_min [of "sint a"] sint_range_64 [of a] by simp

lemma divi_s64_quot_iff:
  "word_of_int (divi_s64 (sint a) (sint b) 0) = rv_quot a (b :: u64) \<longleftrightarrow>
     \<not> (b = -1 \<and> - (2 ^ 63) < sint a \<and> sint a \<le> - (2 ^ 63) + 512)"
proof (cases "b = -1 \<and> sint a \<le> - (2 ^ 63) + 512")
  case True
  then have d: "divi_s64 (sint a) (sint b) 0 = - (2 ^ 63)"
    by (simp add: divi_s64_def to_double_sint_min)
  from True have q: "rv_quot a b = word_of_int (- sint a)"
    by (simp add: rv_quot_def)
  have "(word_of_int (- (2 ^ 63)) :: u64) = word_of_int (- sint a) \<longleftrightarrow> sint a = - (2 ^ 63)"
    using signed_word_eqI [of a "0x8000000000000000"] by auto
  then show ?thesis
    using True sint_range_64 [of a] unfolding d q by auto
next
  case False
  then show ?thesis
    by (auto simp: divi_s64_def rv_quot_def to_double_sint_min sint_eq_iffs)
qed

lemma divi_s64_rem: "word_of_int (divi_s64 (sint a) (sint b) 2) = rv_rem a (b :: u64)"
  by (auto simp: divi_s64_def rv_rem_def sint_eq_iffs)

lemma divi_u64_correct: "divi_u64 a b 1 = rv_quotu a b" "divi_u64 a b 3 = rv_remu a b"
proof -
  have "to_double (uint a) \<noteq> - (2 ^ 63)"
    using to_double_nonneg [of "uint a"] by simp
  then show "divi_u64 a b 1 = rv_quotu a b" "divi_u64 a b 3 = rv_remu a b"
    by (simp_all add: divi_u64_def rv_quotu_def rv_remu_def)
qed

lemma divi32_s32_correct:
  "word_of_int (divi32_s32 (sint a) (sint b) 0) = rv_quot a (b :: u32)"
  "word_of_int (divi32_s32 (sint a) (sint b) 2) = rv_rem a (b :: u32)"
proof -
  have "\<bar>sint a\<bar> < 2 ^ 53" using sint_range_32 [of a] by auto
  then have "to_double (sint a) = sint a" by (rule to_double_exact)
  then show "word_of_int (divi32_s32 (sint a) (sint b) 0) = rv_quot a (b :: u32)"
    "word_of_int (divi32_s32 (sint a) (sint b) 2) = rv_rem a (b :: u32)"
    by (auto simp: divi32_s32_def rv_quot_def rv_rem_def sint_eq_iffs)
qed

lemma divi32_u32_correct: "divi32_u32 a b 1 = rv_quotu a b" "divi32_u32 a b 3 = rv_remu a b"
proof -
  have "to_double (uint a) \<noteq> - (2 ^ 31)"
    using to_double_nonneg [of "uint a"] by simp
  then show "divi32_u32 a b 1 = rv_quotu a b" "divi32_u32 a b 3 = rv_remu a b"
    by (simp_all add: divi32_u32_def rv_quotu_def rv_remu_def)
qed

subsection \<open>The switches compute the reference\<close>

lemma of_bool_if: "(if P then 1 else 0 :: 'a::len word) = of_bool P"
  by simp

lemma rops_wb_correct:
  "rops_wb 0 a b wb = rv_sem R_ADD a b" "rops_wb 1 a b wb = rv_sem R_SLL a b"
  "rops_wb 2 a b wb = rv_sem R_SLT a b" "rops_wb 3 a b wb = rv_sem R_SLTU a b"
  "rops_wb 4 a b wb = rv_sem R_XOR a b" "rops_wb 5 a b wb = rv_sem R_SRL a b"
  "rops_wb 6 a b wb = rv_sem R_OR a b" "rops_wb 7 a b wb = rv_sem R_AND a b"
  by (simp_all add: rops_wb_def unat_and_63 word_less_def)

lemma rops_alt_correct:
  "rops_alt_wb 0 a b wb = rv_sem R_SUB a b" "rops_alt_wb 5 a b wb = rv_sem R_SRA a b"
  by (simp_all add: rops_alt_wb_def unat_and_63 sra_loop_63)

lemma rops_m_correct:
  "rops_m 0 a b old = rv_sem R_MUL a b" "rops_m 1 a b old = rv_sem R_MULH a b"
  "rops_m 2 a b old = rv_sem R_MULHSU a b" "rops_m 3 a b old = rv_sem R_MULHU a b"
  "rops_m 5 a b old = rv_sem R_DIVU a b" "rops_m 6 a b old = rv_sem R_REM a b"
  "rops_m 7 a b old = rv_sem R_REMU a b"
  by (simp_all only: rv_sem.simps rops_m_high rops_m_low)
    (simp_all add: rops_m_def divi_u64_correct divi_s64_rem del: One_nat_def)

lemma rops_m_div: "rops_m 4 a b old = word_of_int (divi_s64 (sint a) (sint b) 0)"
  by (simp add: rops_m_def)

lemma rops64_wb_correct:
  "rops64_wb 0 a b wb = rv_sem R_ADDW a b" "rops64_wb 1 a b wb = rv_sem R_SLLW a b"
  "rops64_wb 5 a b wb = rv_sem R_SRLW a b"
proof -
  have "(ucast (drop_bit n (a AND 0xFFFFFFFF)) :: u32) = drop_bit n (ucast a)"
    "drop_bit n (a AND 0xFFFFFFFF) = drop_bit n (a AND 0xFFFFFFFF) AND 0xFFFFFFFF" for n
    by (rule bit_word_eqI, auto simp: bit_simps word_mask)+
  then show "rops64_wb 5 a b wb = rv_sem R_SRLW a b"
    by (simp add: rops64_wb_def rv_w_def unat_and_31) (metis sign_extend_32_eq)
qed (simp_all add: rops64_wb_def rv_w_def sign_extend_32_eq ucast_down_ring
       ucast_push_bit_32 unat_and_31)

lemma rops64_alt_correct:
  "rops64_alt_wb 0 a b wb = rv_sem R_SUBW a b" "rops64_alt_wb 5 a b wb = rv_sem R_SRAW a b"
  by (simp_all add: rops64_alt_wb_def rv_w_def sign_extend_32_eq ucast_down_ring
       ucast_and_mask32 unat_and_31 sra_loop_31)

lemma ucast_word_of_int_32: "(ucast (word_of_int k :: u64) :: u32) = word_of_int k"
  by (rule ucast_word_of_int_down) simp

lemma rops64_m_correct:
  "rops64_m 0 a b wb = rv_sem R_MULW a b" "rops64_m 4 a b wb = rv_sem R_DIVW a b"
  "rops64_m 5 a b wb = rv_sem R_DIVUW a b" "rops64_m 6 a b wb = rv_sem R_REMW a b"
  "rops64_m 7 a b wb = rv_sem R_REMUW a b"
  by (simp_all add: rops64_m_def rv_w_def sign_extend_32_eq sign_extend_ucast_32 ucast_down_ring
       ucast_and_mask32 ucast_word_of_int_32 divi32_s32_correct divi32_u32_correct
       and.commute [of "0xFFFFFFFF"] del: One_nat_def)

end
