(* ===== verification/Decode_Correct.thy ===== *)
theory Decode_Correct
  imports Hart_Exec Alu_Correct
begin

text \<open>
  Instruction encodings. The encoders below follow the formats of the RISC-V manual (R, I, S,
  B, U and J); the lemmas show that the field extraction at the head of \<open>hart_step\<close> recovers
  every field and that sign extension yields the encoded immediate.
\<close>

unbundle bit_operations_syntax

subsection \<open>Formats\<close>

definition enc_r :: "u64 \<Rightarrow> u64 \<Rightarrow> u64 \<Rightarrow> u64 \<Rightarrow> u64 \<Rightarrow> u64 \<Rightarrow> u64" where
  "enc_r op f3 f7 d r1 r2 =
     take_bit 7 op OR push_bit 7 (take_bit 5 d) OR push_bit 12 (take_bit 3 f3) OR
     push_bit 15 (take_bit 5 r1) OR push_bit 20 (take_bit 5 r2) OR push_bit 25 (take_bit 7 f7)"

definition enc_i :: "u64 \<Rightarrow> u64 \<Rightarrow> u64 \<Rightarrow> u64 \<Rightarrow> u64 \<Rightarrow> u64" where
  "enc_i op f3 d r1 imm =
     take_bit 7 op OR push_bit 7 (take_bit 5 d) OR push_bit 12 (take_bit 3 f3) OR
     push_bit 15 (take_bit 5 r1) OR push_bit 20 (take_bit 12 imm)"

definition enc_s :: "u64 \<Rightarrow> u64 \<Rightarrow> u64 \<Rightarrow> u64 \<Rightarrow> u64 \<Rightarrow> u64" where
  "enc_s op f3 r1 r2 imm = enc_r op f3 (drop_bit 5 imm) imm r1 r2"

definition enc_b :: "u64 \<Rightarrow> u64 \<Rightarrow> u64 \<Rightarrow> u64 \<Rightarrow> u64 \<Rightarrow> u64" where
  "enc_b op f3 r1 r2 imm =
     enc_r op f3 (take_bit 6 (drop_bit 5 imm) OR push_bit 6 (take_bit 1 (drop_bit 12 imm)))
       (push_bit 1 (take_bit 4 (drop_bit 1 imm)) OR take_bit 1 (drop_bit 11 imm)) r1 r2"

definition enc_u :: "u64 \<Rightarrow> u64 \<Rightarrow> u64 \<Rightarrow> u64" where
  "enc_u op d imm = take_bit 7 op OR push_bit 7 (take_bit 5 d) OR push_bit 12 (take_bit 20 imm)"

definition enc_j :: "u64 \<Rightarrow> u64 \<Rightarrow> u64 \<Rightarrow> u64" where
  "enc_j op d imm = enc_u op d
     (take_bit 8 (drop_bit 12 imm) OR push_bit 8 (take_bit 1 (drop_bit 11 imm)) OR
      push_bit 9 (take_bit 10 (drop_bit 1 imm)) OR push_bit 19 (take_bit 1 (drop_bit 20 imm)))"

subsection \<open>Recovered fields\<close>

lemma decode_enc_r:
  "opcode (decode (enc_r op f3 f7 d r1 r2)) = take_bit 7 op"
  "rd (decode (enc_r op f3 f7 d r1 r2)) = take_bit 5 d"
  "func3 (decode (enc_r op f3 f7 d r1 r2)) = take_bit 3 f3"
  "rs1 (decode (enc_r op f3 f7 d r1 r2)) = take_bit 5 r1"
  "rs2 (decode (enc_r op f3 f7 d r1 r2)) = take_bit 5 r2"
  "func7 (decode (enc_r op f3 f7 d r1 r2)) = take_bit 7 f7"
  by (simp_all add: decode_def enc_r_def word_mask)
    (rule bit_word_eqI, auto simp: bit_simps)+

lemma decode_enc_i:
  "opcode (decode (enc_i op f3 d r1 imm)) = take_bit 7 op"
  "rd (decode (enc_i op f3 d r1 imm)) = take_bit 5 d"
  "func3 (decode (enc_i op f3 d r1 imm)) = take_bit 3 f3"
  "rs1 (decode (enc_i op f3 d r1 imm)) = take_bit 5 r1"
  "imm11_0 (decode (enc_i op f3 d r1 imm)) = take_bit 12 imm"
  "func7 (decode (enc_i op f3 d r1 imm)) = take_bit 7 (drop_bit 5 imm)"
  by (simp_all add: decode_def enc_i_def word_mask)
    (rule bit_word_eqI, auto simp: bit_simps)+

lemma decode_enc_u:
  "opcode (decode (enc_u op d imm)) = take_bit 7 op"
  "rd (decode (enc_u op d imm)) = take_bit 5 d"
  "imm31_12 (decode (enc_u op d imm)) = take_bit 20 imm"
  "instruction (decode (enc_u op d imm)) AND 0xFFFFF000 = push_bit 12 (take_bit 20 imm)"
proof -
  have m: "(0xFFFFF000 :: u64) = push_bit 12 (mask 20)" by (simp add: mask_eq_exp_minus_1)
  show "instruction (decode (enc_u op d imm)) AND 0xFFFFF000 = push_bit 12 (take_bit 20 imm)"
    unfolding m by (rule bit_word_eqI) (auto simp: decode_def enc_u_def bit_simps)
qed (simp_all add: decode_def enc_u_def word_mask, (rule bit_word_eqI, auto simp: bit_simps)+)

lemma and_30: "(x :: u64) AND 30 = push_bit 1 (take_bit 4 (drop_bit 1 x))"
proof -
  have m: "(30 :: u64) = push_bit 1 (mask 4)" by (simp add: mask_eq_exp_minus_1)
  show ?thesis unfolding m by (rule bit_word_eqI) (auto simp: bit_simps simp del: One_nat_def push_bit_Suc)
qed

lemma and_3FF: "(x :: u64) AND 0x3FF = take_bit 10 x"
  by (simp add: take_bit_eq_mask mask_eq_exp_minus_1)

lemma imm_s_or: "imm_s (decode i) = push_bit 5 (take_bit 7 (drop_bit 25 i)) OR take_bit 5 (drop_bit 7 i)"
  unfolding decode_def decoded.simps word_mask by (rule disjunctive_add) (auto simp: bit_simps)

lemma imm_b_or:
  "imm_b (decode i) = push_bit 12 (take_bit 1 (drop_bit 31 i)) OR push_bit 11 (take_bit 1 (drop_bit 7 i)) OR
     push_bit 5 (take_bit 6 (drop_bit 25 i)) OR push_bit 1 (take_bit 4 (drop_bit 8 i))"
proof -
  let ?a = "push_bit 12 (take_bit 1 (drop_bit 31 i))" and ?b = "push_bit 11 (take_bit 1 (drop_bit 7 i))"
  let ?c = "push_bit 5 (take_bit 6 (drop_bit 25 i))" and ?d = "push_bit 1 (take_bit 4 (drop_bit 1 (drop_bit 7 i)))"
  have 1: "?a + ?b = ?a OR ?b" by (rule disjunctive_add) (auto simp: bit_simps)
  have 2: "(?a OR ?b) + ?c = (?a OR ?b) OR ?c" by (rule disjunctive_add) (auto simp: bit_simps)
  have 3: "((?a OR ?b) OR ?c) + ?d = ((?a OR ?b) OR ?c) OR ?d"
    by (rule disjunctive_add) (auto simp: bit_simps simp del: One_nat_def push_bit_Suc)
  show ?thesis
    unfolding decode_def decoded.simps and_30 unfolding word_mask 1 2 3 by (simp add: or.assoc)
qed

lemma imm_j_or:
  "imm_j (decode i) = push_bit 20 (take_bit 1 (drop_bit 31 i)) OR push_bit 12 (take_bit 8 (drop_bit 12 i)) OR
     push_bit 11 (take_bit 1 (drop_bit 20 i)) OR push_bit 1 (take_bit 10 (drop_bit 21 i))"
proof -
  have m: "i AND push_bit 12 0xFF = push_bit 12 (take_bit 8 (drop_bit 12 i))"
  proof -
    have m: "(0xFF :: u64) = mask 8" by (simp add: mask_eq_exp_minus_1)
    show ?thesis unfolding m by (rule bit_word_eqI) (auto simp: bit_simps)
  qed
  let ?a = "push_bit 20 (take_bit 1 (drop_bit 31 i))" and ?b = "push_bit 12 (take_bit 8 (drop_bit 12 i))"
  let ?c = "push_bit 11 (take_bit 1 (drop_bit 20 i))" and ?d = "push_bit 1 (take_bit 10 (drop_bit 21 i))"
  have 1: "?a + ?b = ?a OR ?b" by (rule disjunctive_add) (auto simp: bit_simps)
  have 2: "(?a OR ?b) + ?c = (?a OR ?b) OR ?c" by (rule disjunctive_add) (auto simp: bit_simps)
  have 3: "((?a OR ?b) OR ?c) + ?d = ((?a OR ?b) OR ?c) OR ?d"
    by (rule disjunctive_add) (auto simp: bit_simps simp del: One_nat_def push_bit_Suc)
  show ?thesis
    unfolding decode_def decoded.simps and_3FF m unfolding word_mask 1 2 3 by (simp add: or.assoc)
qed

subsection \<open>Immediates\<close>

text \<open>A sign-extended field is the two's complement reading of the low bits of the offset.\<close>

lemma sign_extend_take_bit:
  "0 < n \<Longrightarrow> n \<le> 64 \<Longrightarrow> sign_extend (take_bit n x) n = signed_take_bit (n - 1) x"
  by (subst sign_extend_eq_signed_take_bit)
    (simp_all, rule bit_word_eqI, auto simp: bit_simps min_def)

lemmas pure_bits = bit_take_bit_iff bit_drop_bit_eq bit_or_iff bit_push_bit_iff comp_def
  possible_bit_word

text \<open>The scattered immediates, from the plain fields they are cut out of.\<close>

lemma imm_s_fields: "imm_s (decode i) = push_bit 5 (func7 (decode i)) OR rd (decode i)"
  unfolding imm_s_or by (simp add: decode_def word_mask)

lemma imm_b_fields:
  fixes i :: u64
  defines "f \<equiv> func7 (decode i)" and "r \<equiv> rd (decode i)"
  shows "imm_b (decode i) = push_bit 12 (drop_bit 6 f) OR push_bit 11 (take_bit 1 r) OR
     push_bit 5 (take_bit 6 f) OR push_bit 1 (drop_bit 1 r)"
proof -
  have "take_bit 1 (drop_bit 31 i) = drop_bit 6 (take_bit 7 (drop_bit 25 i))"
    "take_bit 1 (drop_bit 7 i) = take_bit 1 (take_bit 5 (drop_bit 7 i))"
    "take_bit 6 (drop_bit 25 i) = take_bit 6 (take_bit 7 (drop_bit 25 i))"
    "take_bit 4 (drop_bit 8 i) = drop_bit 1 (take_bit 5 (drop_bit 7 i))"
    by (rule bit_word_eqI, simp only: pure_bits, auto simp del: One_nat_def)+
  moreover have "f = take_bit 7 (drop_bit 25 i)" "r = take_bit 5 (drop_bit 7 i)"
    by (simp_all add: f_def r_def decode_def word_mask)
  ultimately show ?thesis by (simp only: imm_b_or)
qed

lemma imm_j_fields:
  fixes i :: u64
  defines "u \<equiv> imm31_12 (decode i)"
  shows "imm_j (decode i) = push_bit 20 (drop_bit 19 u) OR push_bit 12 (take_bit 8 u) OR
     push_bit 11 (take_bit 1 (drop_bit 8 u)) OR push_bit 1 (take_bit 10 (drop_bit 9 u))"
proof -
  have "take_bit 1 (drop_bit 31 i) = drop_bit 19 (take_bit 20 (drop_bit 12 i))"
    "take_bit 8 (drop_bit 12 i) = take_bit 8 (take_bit 20 (drop_bit 12 i))"
    "take_bit 1 (drop_bit 20 i) = take_bit 1 (drop_bit 8 (take_bit 20 (drop_bit 12 i)))"
    "take_bit 10 (drop_bit 21 i) = take_bit 10 (drop_bit 9 (take_bit 20 (drop_bit 12 i)))"
    by (rule bit_word_eqI, simp only: pure_bits, auto simp del: One_nat_def)+
  moreover have "u = take_bit 20 (drop_bit 12 i)"
    by (simp add: u_def decode_def word_mask)
  ultimately show ?thesis by (simp only: imm_j_or)
qed

lemma imm_s_enc: "imm_s (decode (enc_s op f3 r1 r2 imm)) = take_bit 12 imm"
  unfolding imm_s_fields enc_s_def decode_enc_r by (rule bit_word_eqI) (auto simp: bit_simps)

text \<open>\<open>seg a k x\<close>: bits \<open>a\<close> to \<open>a + k - 1\<close> of \<open>x\<close>, in place.\<close>

definition seg :: "nat \<Rightarrow> nat \<Rightarrow> u64 \<Rightarrow> u64" where
  "seg a k x = push_bit a (take_bit k (drop_bit a x))"

lemma bit_seg: "bit (seg a k x) n \<longleftrightarrow> a \<le> n \<and> n < a + k \<and> bit x n"
  by (auto simp: seg_def bit_simps dest: bit_imp_le_length)

lemma bit_seg_1: "bit (seg a 1 x) n \<longleftrightarrow> n = a \<and> bit x a"
  by (cases "n = a") (auto simp: bit_seg)

lemma seg_merge: "seg (a + k) m x OR seg a k x = seg a (k + m) x"
  by (rule bit_word_eqI) (auto simp: bit_seg bit_or_iff)

lemma seg_even:
  assumes "even x"
  shows "seg 1 k x = take_bit (Suc k) x"
proof (rule bit_word_eqI)
  fix n
  have "\<not> bit x 0" using assms by (simp add: bit_0)
  then show "bit (seg 1 k x) n \<longleftrightarrow> bit (take_bit (Suc k) x) n"
    by (cases n) (simp_all only: bit_seg bit_take_bit_iff, auto)
qed

lemma imm_b_enc:
  assumes "even imm"
  shows "imm_b (decode (enc_b op f3 r1 r2 imm)) = take_bit 13 imm"
proof -
  let ?f = "take_bit 6 (drop_bit 5 imm) OR push_bit 6 (take_bit 1 (drop_bit 12 imm))"
  let ?r = "push_bit 1 (take_bit 4 (drop_bit 1 imm)) OR take_bit 1 (drop_bit 11 imm)"
  have "push_bit 12 (drop_bit 6 (take_bit 7 ?f)) = seg 12 1 imm"
    by (rule bit_word_eqI, simp only: pure_bits bit_seg_1) (auto simp del: One_nat_def)
  moreover have "push_bit 11 (take_bit 1 (take_bit 5 ?r)) = seg 11 1 imm"
    by (rule bit_word_eqI, simp only: pure_bits bit_seg_1) (auto simp del: One_nat_def)
  moreover have "push_bit 5 (take_bit 6 (take_bit 7 ?f)) = seg 5 6 imm"
    by (rule bit_word_eqI, simp only: pure_bits bit_seg) (auto simp del: One_nat_def)
  moreover have "push_bit 1 (drop_bit 1 (take_bit 5 ?r)) = seg 1 4 imm"
    by (rule bit_word_eqI, simp only: pure_bits bit_seg) (auto simp del: One_nat_def)
  ultimately have "imm_b (decode (enc_b op f3 r1 r2 imm))
      = seg 12 1 imm OR seg 11 1 imm OR seg 5 6 imm OR seg 1 4 imm"
    unfolding imm_b_fields enc_b_def decode_enc_r by (simp only:)
  also have "\<dots> = seg 1 12 imm"
    using seg_merge [of 1 4 6 imm] seg_merge [of 1 10 1 imm] seg_merge [of 1 11 1 imm] by simp
  finally show ?thesis using assms seg_even [of imm 12] by simp
qed

lemma imm_j_enc:
  assumes "even imm"
  shows "imm_j (decode (enc_j op d imm)) = take_bit 21 imm"
proof -
  let ?u = "take_bit 8 (drop_bit 12 imm) OR push_bit 8 (take_bit 1 (drop_bit 11 imm)) OR
      push_bit 9 (take_bit 10 (drop_bit 1 imm)) OR push_bit 19 (take_bit 1 (drop_bit 20 imm))"
  have "push_bit 20 (drop_bit 19 (take_bit 20 ?u)) = seg 20 1 imm"
    by (rule bit_word_eqI, simp only: pure_bits bit_seg_1) (auto simp del: One_nat_def)
  moreover have "push_bit 12 (take_bit 8 (take_bit 20 ?u)) = seg 12 8 imm"
    by (rule bit_word_eqI, simp only: pure_bits bit_seg) (auto simp del: One_nat_def)
  moreover have "push_bit 11 (take_bit 1 (drop_bit 8 (take_bit 20 ?u))) = seg 11 1 imm"
    by (rule bit_word_eqI, simp only: pure_bits bit_seg_1) (auto simp del: One_nat_def)
  moreover have "push_bit 1 (take_bit 10 (drop_bit 9 (take_bit 20 ?u))) = seg 1 10 imm"
    by (rule bit_word_eqI, simp only: pure_bits bit_seg) (auto simp del: One_nat_def)
  ultimately have "imm_j (decode (enc_j op d imm))
      = seg 20 1 imm OR seg 12 8 imm OR seg 11 1 imm OR seg 1 10 imm"
    unfolding imm_j_fields enc_j_def decode_enc_u by (simp only:)
  also have "\<dots> = seg 1 20 imm"
    using seg_merge [of 1 10 1 imm] seg_merge [of 1 11 8 imm] seg_merge [of 1 19 1 imm] by simp
  finally show ?thesis using assms seg_even [of imm 20] by simp
qed

end
