(* ===== verification/Hart_Correct.thy ===== *)
theory Hart_Correct
  imports Emulator Decode_Correct
begin

text \<open>
  Behaviour of whole instructions: what \<open>execute\<close> and \<open>hart_step\<close> do to the architectural
  state, against the reference semantics of \<open>Alu_Correct\<close> and the byte memory of \<open>Hart_Mem\<close>.
\<close>

unbundle bit_operations_syntax

subsection \<open>Register file\<close>

lemma set_reg_simps [simp, frame_simps]:
  "PC (set_reg r v h) = PC h" "cp (set_reg r v h) = cp h" "mstatus (set_reg r v h) = mstatus h"
  "mie (set_reg r v h) = mie h" "mip (set_reg r v h) = mip h" "mtvec (set_reg r v h) = mtvec h"
  "mhartid (set_reg r v h) = mhartid h" "in_wfi (set_reg r v h) = in_wfi h"
  "smp_released (set_reg r v h) = smp_released h" "wb_data (set_reg r v h) = wb_data h"
  "post_kick_protect (set_reg r v h) = post_kick_protect h"
  "INS_ADDR_MISSALIG (set_reg r v h) = INS_ADDR_MISSALIG h"
  "reg_file (set_reg r v h) = (reg_file h)[unat r := v]"
  by (simp_all add: set_reg_def)

definition wf_regs :: "hart \<Rightarrow> bool" where
  "wf_regs h \<longleftrightarrow> length (reg_file h) = 32"

lemma unat_of_nat_reg: "i < 32 \<Longrightarrow> unat (of_nat i :: u64) = i"
  by (simp add: unat_of_nat)

interpretation reg_file_bank: reg_bank
  "\<lambda>h i. get_reg h (of_nat i)" "\<lambda>i. set_reg (of_nat i)" "\<lambda>h i. i < 32" wf_regs "\<lambda>v. v"
  by unfold_locales (auto simp: wf_regs_def get_reg_def unat_of_nat_reg)

lemma take_bit_reg: "r < 32 \<Longrightarrow> take_bit 5 r = (r :: u64)"
  by (simp add: take_bit_eq_mod mod_word_less)

subsection \<open>Register-register instructions\<close>

fun rv_opcode :: "rv_op \<Rightarrow> u64" where
  "rv_opcode op = (if op \<in> {R_ADDW, R_SUBW, R_SLLW, R_SRLW, R_SRAW, R_MULW, R_DIVW, R_DIVUW,
     R_REMW, R_REMUW} then 0b0111011 else 0b0110011)"

fun rv_f3 :: "rv_op \<Rightarrow> u64" where
  "rv_f3 op = (case op of
     R_ADD \<Rightarrow> 0 | R_SUB \<Rightarrow> 0 | R_SLL \<Rightarrow> 1 | R_SLT \<Rightarrow> 2 | R_SLTU \<Rightarrow> 3 | R_XOR \<Rightarrow> 4 | R_SRL \<Rightarrow> 5
   | R_SRA \<Rightarrow> 5 | R_OR \<Rightarrow> 6 | R_AND \<Rightarrow> 7 | R_MUL \<Rightarrow> 0 | R_MULH \<Rightarrow> 1 | R_MULHSU \<Rightarrow> 2 | R_MULHU \<Rightarrow> 3
   | R_DIV \<Rightarrow> 4 | R_DIVU \<Rightarrow> 5 | R_REM \<Rightarrow> 6 | R_REMU \<Rightarrow> 7 | R_ADDW \<Rightarrow> 0 | R_SUBW \<Rightarrow> 0 | R_SLLW \<Rightarrow> 1
   | R_SRLW \<Rightarrow> 5 | R_SRAW \<Rightarrow> 5 | R_MULW \<Rightarrow> 0 | R_DIVW \<Rightarrow> 4 | R_DIVUW \<Rightarrow> 5 | R_REMW \<Rightarrow> 6 | R_REMUW \<Rightarrow> 7)"

fun rv_f7 :: "rv_op \<Rightarrow> u64" where
  "rv_f7 op =
     (if op \<in> {R_SUB, R_SRA, R_SUBW, R_SRAW} then 32
      else if op \<in> {R_MUL, R_MULH, R_MULHSU, R_MULHU, R_DIV, R_DIVU, R_REM, R_REMU,
        R_MULW, R_DIVW, R_DIVUW, R_REMW, R_REMUW} then 1 else 0)"

definition enc_rv :: "rv_op \<Rightarrow> u64 \<Rightarrow> u64 \<Rightarrow> u64 \<Rightarrow> u64" where
  "enc_rv op d r1 r2 = enc_r (rv_opcode op) (rv_f3 op) (rv_f7 op) d r1 r2"

lemmas rops_correct = rops_wb_correct rops_alt_correct rops_m_correct
  rops64_wb_correct rops64_alt_correct rops64_m_correct

lemmas exec_reg_defs = execute_def exec_rops_def exec_rops64_def Let_def

lemma execute_rv:
  assumes "op \<noteq> R_DIV" "d < 32" "r1 < 32" "r2 < 32"
  shows "\<exists>wb. execute ls (decode (enc_rv op d r1 r2)) (h, s) =
     Inr (set_reg d (rv_sem op (get_reg h r1) (get_reg h r2)) (h\<lparr>wb_data := wb\<rparr>), s)"
  using assms
  by (cases op)
    (simp_all add: enc_rv_def exec_reg_defs decode_enc_r take_bit_reg rops_correct del: rv_sem.simps,
     auto intro: exI [of _ "wb_data h"])

text \<open>
  C1: every register-register instruction of RV64IM other than DIV, in its manual encoding,
  writes to \<open>rd\<close> the value the reference semantics gives for the two source registers, and
  changes nothing else but the scratch member \<open>wb_data\<close>.
\<close>

theorem execute_rtype_refines:
  assumes "op \<noteq> R_DIV" "d < 32" "r1 < 32" "r2 < 32"
  shows "\<exists>wb. execute ls (decode (enc_rv op d r1 r2)) (h, s) =
     Inr (h\<lparr>wb_data := wb,
            reg_file := (reg_file h)[unat d := rv_sem op (get_reg h r1) (get_reg h r2)]\<rparr>, s)"
  using execute_rv [OF assms, of ls h s] by (simp add: set_reg_def)

theorem execute_rtype_refines_witness:
  "\<exists>wb. execute False (decode (enc_rv R_SRAW 5 6 7)) (hart_fresh, shared_init 0 0 []) =
     Inr (hart_fresh\<lparr>wb_data := wb, reg_file := (reg_file hart_fresh)
       [unat (5 :: u64) := rv_sem R_SRAW (get_reg hart_fresh 6) (get_reg hart_fresh 7)]\<rparr>,
       shared_init 0 0 [])"
  by (rule execute_rtype_refines) simp_all

text \<open>
  C13: DIV writes the quotient of the manual if and only if the divisor is not \<open>-1\<close> or the
  dividend lies outside \<open>(-2^63, -2^63 + 512]\<close>; on those 512 dividends the conversion of
  \<open>num1\<close> to double in \<open>divi\<close> makes it take the overflow branch.
\<close>

theorem execute_div_iff:
  assumes "wf_regs h" "d < 32" "r1 < 32" "r2 < 32"
  shows "\<exists>h'. execute ls (decode (enc_rv R_DIV d r1 r2)) (h, s) = Inr (h', s) \<and>
     (get_reg h' d = rv_quot (get_reg h r1) (get_reg h r2) \<longleftrightarrow>
       \<not> (get_reg h r2 = -1 \<and> - (2 ^ 63) < sint (get_reg h r1)
          \<and> sint (get_reg h r1) \<le> - (2 ^ 63) + 512))"
proof -
  have "execute ls (decode (enc_rv R_DIV d r1 r2)) (h, s) =
     Inr (set_reg d (word_of_int (divi_s64 (sint (get_reg h r1)) (sint (get_reg h r2)) 0)) h, s)"
    using assms by (simp add: enc_rv_def exec_reg_defs decode_enc_r take_bit_reg rops_m_div)
  moreover have "unat d < length (reg_file h)"
    using assms(1,2) by (simp add: wf_regs_def word_less_nat_alt)
  ultimately show ?thesis
    using divi_s64_quot_iff [of "get_reg h r1" "get_reg h r2"] by (simp add: get_reg_def)
qed

theorem execute_div_iff_witness:
  "\<exists>h'. execute True (decode (enc_rv R_DIV 5 6 7))
       (hart_fresh\<lparr>reg_file := (replicate 32 0)[6 := 0x8000000000000001, 7 := -1]\<rparr>,
        shared_init 0 0 []) = Inr (h', shared_init 0 0 []) \<and>
     get_reg h' 5 \<noteq> rv_quot 0x8000000000000001 (-1)"
proof -
  let ?h = "hart_fresh\<lparr>reg_file := (replicate 32 0)[6 := 0x8000000000000001, 7 := -1 :: u64]\<rparr>"
  have "wf_regs ?h" "get_reg ?h 6 = 0x8000000000000001" "get_reg ?h 7 = -1"
    by (simp_all add: wf_regs_def get_reg_def)
  then show ?thesis using execute_div_iff [of ?h 5 6 7 True "shared_init 0 0 []"] by auto
qed

subsection \<open>Addresses\<close>

definition eff_addr :: "hart \<Rightarrow> u64 \<Rightarrow> u64 \<Rightarrow> u64" where
  "eff_addr h r imm = (get_reg h r + sign_extend (take_bit 12 imm) 12) AND 0xffffffff"

lemma mask_32_less: "(x :: u64) AND 0xffffffff < 0x100000000"
proof -
  have "unat (x AND 0xffffffff) < 2 ^ 32"
    unfolding word_mask by (rule unat_take_bit_less) simp
  then show ?thesis by (simp add: word_less_nat_alt)
qed

lemma eff_addr_less: "eff_addr h r imm < 0x100000000"
  unfolding eff_addr_def by (rule mask_32_less)

lemma dram_offset:
  assumes "0x80000000 \<le> (a :: u64)" "a \<le> 0x89000000"
  shows "unat ((a - 0x80000000) div 8) = (unat a - 0x80000000) div 8"
    "(unat a - 0x80000000) mod 8 = unat a mod 8"
    "(unat a - 0x80000000) div 8 < MEM_WORDS"
proof -
  have u: "unat (a - 0x80000000) = unat a - 0x80000000"
    using assms(1) by (simp add: unat_sub)
  show "unat ((a - 0x80000000) div 8) = (unat a - 0x80000000) div 8"
    by (simp add: unat_div u)
  have b: "0x80000000 \<le> unat a" "unat a \<le> 0x89000000"
    using assms by (simp_all add: word_le_nat_alt)
  then show "(unat a - 0x80000000) div 8 < MEM_WORDS"
    by (simp add: MEM_WORDS_def)
  define k where "k = unat a - 0x80000000"
  have "unat a = k + 0x10000000 * 8" using b(1) by (simp add: k_def)
  then have "unat a mod 8 = k mod 8" by (simp only: mod_mult_self1)
  then show "(unat a - 0x80000000) mod 8 = unat a mod 8" by (simp add: k_def)
qed

subsection \<open>Stores\<close>

lemma lane_update_take: "lane_update k n w (take_bit (8 * n) v) = lane_update k n w v"
  by (simp add: lane_update_def)

lemma lane_update_full: "lane_update 0 8 w v = v"
  by (rule bit_word_eqI) (auto simp: bit_lane_update)

lemma mod_8_eq_0: "(a :: u64) mod 8 = 0 \<longleftrightarrow> unat a mod 8 = 0"
  by (cases a rule: mod_8_cases) auto

lemma store_switch_lane:
  assumes "f3 \<in> {0, 1, 2, 3}"
  shows "store_switch f3 a w v old =
     (if unat a mod 8 + 2 ^ unat f3 \<le> 8 then (True, lane_update (unat a mod 8) (2 ^ unat f3) w v)
      else (False, if f3 = 3 then snd old else -1))"
  using assms lane_update_take [of "unat a mod 8" 1 w v] lane_update_take [of "unat a mod 8" 2 w v]
    lane_update_take [of "unat a mod 8" 4 w v] lane_update_full [of w v]
  by (auto simp: store_switch_def store_byte_lane store_halfw_lane store_word_lane word_mask mod_8_eq_0)

lemma execute_store_dram:
  assumes "f3 \<in> {0, 1, 2, 3}" "r1 < 32" "r2 < 32"
    and "a = eff_addr h r1 imm" "0x80000000 \<le> a" "a < 0x89000000"
  shows "execute ls (decode (enc_s 0b0100011 f3 r1 r2 imm)) (h, s) =
    (case store_switch f3 a (memory s ((unat a - 0x80000000) div 8)) (get_reg h r2)
            (ls_success h, wb_data h) of
       (ok, wb) \<Rightarrow>
         let h' = h\<lparr>ls_success := ok, wb_data := wb\<rparr> in
         if ok then Inr (h', mem_store ((unat a - 0x80000000) div 8) wb s)
         else Inr (raise_exception CAUSE_MISALIGNED_STORE h', s))"
proof -
  let ?d = "decode (enc_s 0b0100011 f3 r1 r2 imm)"
  have "take_bit 3 f3 = f3" using assms(1) by auto
  then have d: "opcode ?d = 0b0100011" "func3 ?d = f3" "rs1 ?d = r1" "rs2 ?d = r2" "imm_s ?d = take_bit 12 imm"
    using assms(2,3) by (simp_all add: enc_s_def decode_enc_r take_bit_reg imm_s_enc [unfolded enc_s_def])
  have "(get_reg h r1 + sign_extend (take_bit 12 imm) 12) AND 0xffffffff = a"
    using assms(4) by (simp add: eff_addr_def)
  moreover have "a \<noteq> FIFO_ADDR_TX" using assms(5) by (auto simp: FIFO_ADDR_TX_def)
  ultimately show ?thesis
    using assms(5,6) dram_offset [of a]
    by (simp add: execute_def d exec_store_def DRAM_BASE_def raise_exception_def Let_def not_le
        split: prod.splits)
qed

text \<open>
  C5: a store of \<open>2 ^ f3\<close> bytes inside the DRAM window that does not cross a 64-bit word
  changes exactly those bytes of the little-endian byte memory, to the low bytes of \<open>rs2\<close>,
  bumps the store generation once, and leaves registers, PC and privilege alone.
\<close>

theorem execute_store_bytes:
  assumes "f3 \<in> {0, 1, 2, 3}" "r1 < 32" "r2 < 32"
    and "a = eff_addr h r1 imm" "0x80000000 \<le> a" "a < 0x89000000"
    and "unat a mod 8 + 2 ^ unat f3 \<le> 8"
  shows "\<exists>h' s'. execute ls (decode (enc_s 0b0100011 f3 r1 r2 imm)) (h, s) = Inr (h', s') \<and>
     reg_file h' = reg_file h \<and> PC h' = PC h \<and> cp h' = cp h \<and>
     global_store_gen s' = global_store_gen s + 1 \<and>
     (\<forall>b. mem_byte (memory s') b =
        (if unat a - 0x80000000 \<le> b \<and> b < unat a - 0x80000000 + 2 ^ unat f3
         then ucast (drop_bit (8 * (b - (unat a - 0x80000000))) (get_reg h r2))
         else mem_byte (memory s) b))"
proof -
  let ?o = "unat a - 0x80000000"
  have o: "?o mod 8 = unat a mod 8" using dram_offset [of a] assms(5,6) by simp
  have "execute ls (decode (enc_s 0b0100011 f3 r1 r2 imm)) (h, s) =
    Inr (h\<lparr>ls_success := True, wb_data := lane_update (?o mod 8) (2 ^ unat f3) (memory s (?o div 8)) (get_reg h r2)\<rparr>,
      mem_store (?o div 8) (lane_update (?o mod 8) (2 ^ unat f3) (memory s (?o div 8)) (get_reg h r2)) s)"
    using execute_store_dram [OF assms(1-6)] assms(7) o
    by (simp add: store_switch_lane [OF assms(1)] Let_def)
  then show ?thesis
    using mem_byte_lane_update [of ?o "2 ^ unat f3"] assms(7) o by (simp add: mem_store_def)
qed

theorem execute_store_bytes_witness:
  "\<exists>h' s'. execute False (decode (enc_s 0b0100011 1 0 0 0x82))
      (hart_fresh\<lparr>reg_file := (replicate 32 0)[0 := 0x80000000]\<rparr>, shared_init 0 0 []) = Inr (h', s') \<and>
     global_store_gen s' = global_store_gen (shared_init 0 0 []) + 1"
proof -
  let ?h = "hart_fresh\<lparr>reg_file := (replicate 32 0)[0 := 0x80000000 :: u64]\<rparr>"
  have "(0x80000082 :: u64) = eff_addr ?h 0 0x82"
    by (simp add: eff_addr_def get_reg_def sign_extend_def)
  from execute_store_bytes [of 1 0 0, OF _ _ _ this] show ?thesis by fastforce
qed

text \<open>
  A store in the DRAM window that would cross a 64-bit word traps at once to the machine
  trap vector with the misaligned-store cause and the address of the store in \<open>mepc\<close>, and
  changes neither memory nor the store generation.
\<close>

theorem execute_store_misaligned:
  assumes "f3 \<in> {0, 1, 2, 3}" "r1 < 32" "r2 < 32"
    and "a = eff_addr h r1 imm" "0x80000000 \<le> a" "a < 0x89000000"
    and "8 < unat a mod 8 + 2 ^ unat f3"
  shows "\<exists>h'. execute ls (decode (enc_s 0b0100011 f3 r1 r2 imm)) (h, s) = Inr (h', s) \<and>
     PC h' = mtv_base (mtvec h) \<and> mepc h' = PC h - 4 \<and>
     mcause h' = \<lparr>mc_interrupt = 0, mc_ecode = (if cp h \<in> {UMODE, MMODE} then 6 else 0)\<rparr> \<and>
     reg_file h' = reg_file h \<and> cp h' = MMODE"
  using execute_store_dram [OF assms(1-6), of ls s] assms(7)
  by (auto simp: store_switch_lane [OF assms(1)] Let_def raise_exception_def excep_function_def
      set_pc_def CAUSE_MISALIGNED_STORE_def)

theorem execute_store_misaligned_witness:
  "\<exists>h'. execute False (decode (enc_s 0b0100011 3 0 0 4))
      (hart_fresh\<lparr>reg_file := (replicate 32 0)[0 := 0x80000000]\<rparr>, shared_init 0 0 []) =
        Inr (h', shared_init 0 0 []) \<and> mepc h' = -4"
proof -
  let ?h = "hart_fresh\<lparr>reg_file := (replicate 32 0)[0 := 0x80000000 :: u64]\<rparr>"
  have "(0x80000004 :: u64) = eff_addr ?h 0 4"
    by (simp add: eff_addr_def get_reg_def sign_extend_def)
  moreover have "PC ?h = 0" by (simp add: hart_fresh_def)
  ultimately show ?thesis
    using execute_store_misaligned [of 3 0 0 "0x80000004" ?h 4 False "shared_init 0 0 []"] by fastforce
qed

subsection \<open>Loads\<close>

definition load_bytes :: "u64 \<Rightarrow> nat" where
  "load_bytes f3 = 2 ^ unat (f3 AND 3)"

definition rv_extend :: "u64 \<Rightarrow> u64 \<Rightarrow> u64" where
  "rv_extend f3 w = (if f3 < 3 then signed_take_bit (8 * load_bytes f3 - 1) w else w)"

lemma sign_extend_and:
  "sign_extend (w AND 0xFF) 8 = signed_take_bit 7 w" "sign_extend (w AND 0xFFFF) 16 = signed_take_bit 15 w"
  "sign_extend (w AND 0xFFFFFFFF) 32 = signed_take_bit 31 w"
  using sign_extend_take_bit [of 8 w] sign_extend_take_bit [of 16 w] sign_extend_take_bit [of 32 w]
  by (simp_all add: word_mask)

lemma lane_masked:
  "lane k 1 w AND 0xFF = lane k 1 w" "lane k 2 w AND 0xFFFF = lane k 2 w"
  "lane k 4 w AND 0xFFFFFFFF = lane k 4 w" "lane 0 8 w = w"
  by (rule bit_word_eqI, auto simp: bit_lane word_mask bit_simps)+

lemma load_switch_lane:
  assumes "func3 d \<in> {0, 1, 2, 3, 4, 5, 6}"
  shows "load_switch d a w h =
     (if unat a mod 8 + load_bytes (func3 d) \<le> 8 then
        (let v = rv_extend (func3 d) (lane (unat a mod 8) (load_bytes (func3 d)) w)
         in set_reg (rd d) v (h\<lparr>wb_data := v\<rparr>))
      else h\<lparr>wb_data := (if func3 d = 3 then wb_data h else -1), LD_ADDR_MISSALIG := True\<rparr>)"
  using assms unfolding load_switch_def load_bytes_def rv_extend_def
  by (auto simp: load_commit_def load_byte_lane load_halfw_lane load_word_lane sign_extend_and
      lane_masked lane_masked(1) [unfolded One_nat_def] mod_8_eq_0 Let_def)

lemma execute_load_dram:
  assumes "f3 \<in> {0, 1, 2, 3, 4, 5, 6}" "d < 32" "r1 < 32"
    and "a = eff_addr h r1 imm" "0x80000000 \<le> a" "a < 0x89000000"
  shows "execute ls (decode (enc_i 0b0000011 f3 d r1 imm)) (h, s) =
     Inr (load_switch (decode (enc_i 0b0000011 f3 d r1 imm)) a
       (memory s ((unat a - 0x80000000) div 8)) h, s)"
    "func3 (decode (enc_i 0b0000011 f3 d r1 imm)) = f3" "rd (decode (enc_i 0b0000011 f3 d r1 imm)) = d"
proof -
  let ?d = "decode (enc_i 0b0000011 f3 d r1 imm)"
  have "take_bit 3 f3 = f3" using assms(1) by auto
  then have d: "opcode ?d = 0b0000011" "func3 ?d = f3" "rs1 ?d = r1" "rd ?d = d" "imm11_0 ?d = take_bit 12 imm"
    using assms(2,3) by (simp_all add: decode_enc_i take_bit_reg)
  then show "func3 ?d = f3" "rd ?d = d" by simp_all
  have a: "(get_reg h r1 + sign_extend (take_bit 12 imm) 12) AND 0xffffffff = a"
    using assms(4) by (simp add: eff_addr_def)
  have "\<not> bit a 63"
    using assms(4) by (simp add: eff_addr_def word_mask bit_take_bit_iff)
  then have "\<not> sint a < 0"
    using bit_last_iff [of a] by simp
  moreover have "a \<noteq> FIFO_ADDR_TX" "a \<noteq> FIFO_ADDR_RX" "a \<noteq> FIFO_ADDR_STATUS"
    using assms(5) by (auto simp: fifo_defs)
  ultimately show "execute ls ?d (h, s) =
      Inr (load_switch ?d a (memory s ((unat a - 0x80000000) div 8)) h, s)"
    using assms(5,6) dram_offset [OF assms(5) less_imp_le [OF assms(6)]]
    by (simp add: execute_def d exec_load_def a load_bus_def DRAM_BASE_def Let_def not_le)
qed

text \<open>
  C6: a load in the DRAM window that does not cross a 64-bit word writes to \<open>rd\<close> the
  little-endian value of the addressed bytes, sign-extended for LB, LH and LW and
  zero-extended for LBU, LHU and LWU; memory and the other registers are unchanged.
\<close>

theorem execute_load_bytes:
  assumes "f3 \<in> {0, 1, 2, 3, 4, 5, 6}" "d < 32" "r1 < 32"
    and "a = eff_addr h r1 imm" "0x80000000 \<le> a" "a < 0x89000000"
    and "unat a mod 8 + load_bytes f3 \<le> 8"
    and "v = rv_extend f3 (le_read (mem_byte (memory s)) (unat a - 0x80000000) (load_bytes f3))"
  shows "execute ls (decode (enc_i 0b0000011 f3 d r1 imm)) (h, s) =
     Inr (h\<lparr>wb_data := v, reg_file := (reg_file h)[unat d := v]\<rparr>, s)"
proof -
  let ?o = "unat a - 0x80000000"
  have o: "?o mod 8 = unat a mod 8" using dram_offset [OF assms(5) less_imp_le [OF assms(6)]] by simp
  have "lane (?o mod 8) (load_bytes f3) (memory s (?o div 8)) = le_read (mem_byte (memory s)) ?o (load_bytes f3)"
    using assms(7) o by (intro lane_le_read) simp
  then show ?thesis
    using assms(1,7) o
    by (simp add: execute_load_dram [OF assms(1-6)] load_switch_lane Let_def set_reg_def assms(8))
qed

theorem execute_load_bytes_witness:
  "execute False (decode (enc_i 0b0000011 1 5 0 0x82))
      (hart_fresh\<lparr>reg_file := (replicate 32 0)[0 := 0x80000000]\<rparr>,
       (shared_init 0 0 [])\<lparr>memory := (\<lambda>i. 0xFF800000)\<rparr>) =
     Inr (hart_fresh\<lparr>wb_data := -128, reg_file := (replicate 32 0)[0 := 0x80000000, 5 := -128]\<rparr>,
       (shared_init 0 0 [])\<lparr>memory := (\<lambda>i. 0xFF800000)\<rparr>)"
proof -
  let ?h = "hart_fresh\<lparr>reg_file := (replicate 32 0)[0 := 0x80000000 :: u64]\<rparr>"
  have a: "(0x80000082 :: u64) = eff_addr ?h 0 0x82"
    by (simp add: eff_addr_def get_reg_def sign_extend_def)
  have n: "load_bytes 1 = 2" by (simp add: load_bytes_def)
  let ?s = "(shared_init 0 0 [])\<lparr>memory := (\<lambda>i. 0xFF800000)\<rparr>"
  have "-128 = rv_extend 1 (le_read (mem_byte (memory ?s)) (unat (0x80000082 :: u64) - 0x80000000) (load_bytes 1))"
    by (simp add: n) code_simp
  from execute_load_bytes [of 1 5 0 _ ?h, OF _ _ _ a _ _ _ this, of False] show ?thesis by (simp add: n)
qed

text \<open>
  A load in the DRAM window that would cross a 64-bit word changes no register and no
  memory; it only records the misaligned-load condition (and the scratch \<open>wb_data\<close>).
\<close>

theorem execute_load_misaligned:
  assumes "f3 \<in> {0, 1, 2, 3, 4, 5, 6}" "d < 32" "r1 < 32"
    and "a = eff_addr h r1 imm" "0x80000000 \<le> a" "a < 0x89000000"
    and "8 < unat a mod 8 + load_bytes f3"
  shows "execute ls (decode (enc_i 0b0000011 f3 d r1 imm)) (h, s) =
     Inr (h\<lparr>wb_data := (if f3 = 3 then wb_data h else -1), LD_ADDR_MISSALIG := True\<rparr>, s)"
  using assms(1,7) by (simp add: execute_load_dram [OF assms(1-6)] load_switch_lane)

theorem execute_load_misaligned_witness:
  "execute False (decode (enc_i 0b0000011 3 5 0 4))
      (hart_fresh\<lparr>reg_file := (replicate 32 0)[0 := 0x80000000]\<rparr>, shared_init 0 0 []) =
     Inr (hart_fresh\<lparr>reg_file := (replicate 32 0)[0 := 0x80000000],
       LD_ADDR_MISSALIG := True\<rparr>, shared_init 0 0 [])"
proof -
  let ?h = "hart_fresh\<lparr>reg_file := (replicate 32 0)[0 := 0x80000000 :: u64]\<rparr>"
  have "(0x80000004 :: u64) = eff_addr ?h 0 4"
    by (simp add: eff_addr_def get_reg_def sign_extend_def)
  from execute_load_misaligned [of 3 5 0, OF _ _ _ this] show ?thesis
    by (simp add: load_bytes_def)
qed

end
