(* ===== verification/Reservation.thy ===== *)
theory Reservation
  imports Hart_Correct
begin

text \<open>
  Load-reserved and store-conditional across the harts of the machine. Every DRAM write of a
  hart bumps \<open>global_store_gen\<close>, so an unchanged generation means an unchanged memory; SC.W
  relies on it. LR.D and SC.D do not look at the generation.
\<close>

unbundle bit_operations_syntax

subsection \<open>What an instruction may do to memory\<close>

definition mem_step :: "shared \<Rightarrow> shared \<Rightarrow> bool" where
  "mem_step s s' \<longleftrightarrow>
     memory s' = memory s \<and> global_store_gen s' = global_store_gen s \<or>
     (\<exists>i v. memory s' = (memory s)(i := v) \<and> global_store_gen s' = global_store_gen s + 1)"

lemma mem_step_refl [simp, intro]: "mem_step s s"
  by (simp add: mem_step_def)

lemma mem_step_same:
  "memory s' = memory s \<Longrightarrow> global_store_gen s' = global_store_gen s \<Longrightarrow> mem_step s s'"
  by (simp add: mem_step_def)

lemma mem_step_store [simp, intro]: "mem_step s (mem_store i v s)"
  by (auto simp: mem_step_def mem_store_def)

lemma mem_step_frames [simp, intro]:
  "mem_step s (s\<lparr>clint_dev := c\<rparr>)" "mem_step s (put_char ls v s)"
  "mem_step s (s\<lparr>uart_rx_byte := b\<rparr>)" "mem_step s (s\<lparr>uart_rx_byte := b, stdin := i\<rparr>)"
  by (auto simp: mem_step_def put_char_def)

lemma mem_step_load: "mem_step s (snd (exec_load ls d (h, s)))"
  by (auto simp: exec_load_def uart_load_def Let_def split: prod.splits list.splits)

lemma mem_step_exec_store: "exec_store ls d (h, s) = Inr (h', s') \<Longrightarrow> mem_step s s'"
  by (auto simp: exec_store_def Let_def split: prod.splits if_splits)

lemma mem_step_amo_w: "mem_step s (snd (amo_w_switch op a1 a2 la ld (h, s)))"
  by (auto simp: amo_w_switch_def exec_lr_w_def exec_sc_w_def exec_rmw_w_def Let_def
      split: prod.splits option.splits)

lemma mem_step_amo_d: "mem_step s (snd (amo_d_switch op a1 a2 la (h, s)))"
  by (auto simp: amo_d_switch_def exec_lr_d_def exec_sc_d_def exec_rmw_d_def Let_def
      split: prod.splits option.splits)

lemma write_ret_snd: "write_ret r m = (h', s') \<Longrightarrow> s' = snd m"
  by (auto simp: write_ret_def split_beta)

lemma mem_step_exec_amo: "exec_amo d (h, s) = Inr (h', s') \<Longrightarrow> mem_step s s'"
  by (auto simp: exec_amo_def Let_def split: if_splits dest!: write_ret_snd
      intro: mem_step_amo_w mem_step_amo_d)

lemma mem_step_systm: "mem_step s (snd (exec_systm ls d (h, s)))"
  by (auto simp: exec_systm_def exec_csr_def Let_def split: prod.splits)

lemma mem_step_execute: "execute ls d (h, s) = Inr (h', s') \<Longrightarrow> mem_step s s'"
  using mem_step_load [of s ls d h] mem_step_systm [of s ls d h]
  by (auto simp: execute_def split: if_splits dest: mem_step_exec_store mem_step_exec_amo)

lemma fetch_machine:
  "run_instruction ls (h, s) = Inr m \<Longrightarrow>
     \<exists>i h1. snd m = s \<or> execute ls (decode i) (h1, s) = Inr m"
  by (auto simp: run_instruction_def split: sum.splits if_splits prod.splits)

lemma mem_step_hart_step:
  assumes "hart_step ls (h, s) = Inr (h', s')"
  shows "mem_step s s'"
proof -
  have "s' = s \<or> (\<exists>h1. run_instruction ls (h1, s) = Inr (h', s'))"
    using assms by (auto simp: hart_step_def Let_def split: if_splits)
  then show ?thesis
    using fetch_machine [of ls _ s "(h', s')"] mem_step_execute by fastforce
qed

lemma mem_step_step_hart_only:
  "step_hart_only ls i e = Inr e' \<Longrightarrow> mem_step (world e) (world e')"
  by (auto simp: step_hart_only_def split: if_splits sum.splits dest: mem_step_hart_step)

subsection \<open>Atomic instructions\<close>

definition enc_amo :: "u64 \<Rightarrow> u64 \<Rightarrow> u64 \<Rightarrow> u64 \<Rightarrow> u64 \<Rightarrow> u64" where
  "enc_amo op f3 d r1 r2 = enc_r 0b0101111 f3 (push_bit 2 op) d r1 r2"

lemma amo_op_enc: "amo_op (decode (enc_amo op f3 d r1 r2)) = take_bit 5 op"
  unfolding decode_def enc_amo_def enc_r_def
  by (simp add: word_mask del: One_nat_def push_bit_Suc) (rule bit_word_eqI, auto simp: bit_simps)

lemma decode_enc_amo:
  assumes "d < 32" "r1 < 32" "r2 < 32"
  shows "opcode (decode (enc_amo op f3 d r1 r2)) = 0b0101111"
    "func3 (decode (enc_amo op f3 d r1 r2)) = take_bit 3 f3"
    "rd (decode (enc_amo op f3 d r1 r2)) = d" "rs1 (decode (enc_amo op f3 d r1 r2)) = r1"
    "rs2 (decode (enc_amo op f3 d r1 r2)) = r2"
  using assms by (simp_all add: enc_amo_def decode_enc_r take_bit_reg)

lemma dram_index: "0x80000000 < (a :: u64) \<Longrightarrow> a < 0x89000000 \<Longrightarrow> unat ((a - 0x80000000) div 8) < MEM_WORDS"
  using dram_offset(1,3) [of a] by simp

lemma execute_amo_w:
  assumes "d < 32" "r1 < 32" "r2 < 32"
    and "a = get_reg h r1 AND 0xffffffff" "0x80000000 < a" "a < 0x89000000"
  shows "execute ls (decode (enc_amo op 2 d r1 r2)) (h, s) =
     Inr (write_ret d (amo_w_switch (take_bit 5 op) (get_reg h r1) (get_reg h r2) a
            (memory s ((unat a - 0x80000000) div 8)) (h, s)))"
  using assms(4-6) dram_index [OF assms(5,6)] dram_offset(1) [of a]
  by (simp add: execute_def exec_amo_def decode_enc_amo [OF assms(1-3)] amo_op_enc DRAM_BASE_def Let_def not_le)

lemma execute_amo_d:
  assumes "d < 32" "r1 < 32" "r2 < 32"
    and "a = get_reg h r1 AND 0xffffffff" "0x80000000 < a" "a < 0x89000000"
  shows "execute ls (decode (enc_amo op 3 d r1 r2)) (h, s) =
     Inr (write_ret d (amo_d_switch (take_bit 5 op) (get_reg h r1) (get_reg h r2) a
            (h\<lparr>wb_data := memory s ((unat a - 0x80000000) div 8)\<rparr>, s)))"
  using assms(4-6) dram_index [OF assms(5,6)] dram_offset(1) [of a]
  by (simp add: execute_def exec_amo_def decode_enc_amo [OF assms(1-3)] amo_op_enc DRAM_BASE_def Let_def not_le)

text \<open>The value an atomic leaves in memory, by the manual's \<open>funct5\<close>, at either width.\<close>

definition rv_amo :: "u64 \<Rightarrow> 'a :: len word \<Rightarrow> 'a word \<Rightarrow> 'a word" where
  "rv_amo op m r =
     (if op = 1 then r else if op = 0 then m + r else if op = 4 then m XOR r
      else if op = 12 then m AND r else if op = 8 then m OR r
      else if op = 16 then (if sint m \<le> sint r then m else r)
      else if op = 20 then (if sint m \<le> sint r then r else m)
      else if op = 24 then (if m \<le> r then m else r)
      else (if m \<le> r then r else m))"

definition amo_codes :: "u64 set" where
  "amo_codes = {0, 1, 4, 8, 12, 16, 20, 24, 28}"

lemma take_32_ucast: "take_bit 32 (x :: u64) = ucast (ucast x :: u32)"
  by (rule bit_word_eqI) (auto simp: bit_simps)

lemma low_32_simps:
  "(ucast (x AND y :: u64) :: u32) = ucast x AND ucast y"
  "(ucast (x OR y :: u64) :: u32) = ucast x OR ucast y"
  "(ucast (x XOR y :: u64) :: u32) = ucast x XOR ucast y"
  by (rule bit_word_eqI, auto simp: bit_simps)+

lemma ucast_scast_32: "(ucast (scast (z :: u32) :: u64) :: u32) = z"
proof (rule bit_word_eqI)
  fix n assume "n < LENGTH(32)"
  then have "min 31 n = n" by simp
  then show "bit (ucast (scast z :: u64) :: u32) n = bit z n"
    using \<open>n < LENGTH(32)\<close> by (simp add: bit_simps)
qed

lemma ucast_32_le_iff: "(ucast (x :: u32) :: u64) \<le> ucast y \<longleftrightarrow> x \<le> y"
  using unsigned_less [of x, where 'a = nat] unsigned_less [of y, where 'a = nat]
  by (simp add: word_le_nat_alt unsigned_ucast_eq take_bit_nat_eq_self)

lemma amo_w_op_refines:
  assumes "op \<in> amo_codes"
  shows "\<exists>f. amo_w_op op = Some f \<and> (\<forall>m r. take_bit 32 (f m r) = ucast (rv_amo op (ucast m :: u32) (ucast r)))"
  using assms unfolding amo_codes_def
  by (elim insertE emptyE)
    (simp_all add: amo_w_op_def rv_amo_def word_mask take_32_ucast min_def max_def ucast_32_le_iff
      low_32_simps ucast_scast_32 ucast_down_ring ucast_ucast_up_down)

lemma amo_d_op_refines:
  assumes "op \<in> amo_codes"
  shows "amo_d_op op = Some (rv_amo op)"
  using assms unfolding amo_codes_def
  by (auto simp: amo_d_op_def rv_amo_def min_def max_def fun_eq_iff)

text \<open>
  C11: an atomic read-modify-write of a 32-bit word in DRAM returns the sign-extended old word
  in \<open>rd\<close>, replaces exactly those four bytes by the value the manual gives, in one step of
  the machine, and bumps the store generation.
\<close>

theorem execute_amo_w_refines:
  assumes "op \<in> amo_codes" "d < 32" "r1 < 32" "r2 < 32"
    and "a = get_reg h r1 AND 0xffffffff" "0x80000000 < a" "a < 0x89000000" "unat a mod 8 \<le> 4"
    and "i = (unat a - 0x80000000) div 8" "k = unat a mod 8"
    and "old = (ucast (lane k 4 (memory s i)) :: u32)"
    and "new = lane_update k 4 (memory s i) (ucast (rv_amo op old (ucast (get_reg h r2))))"
  shows "\<exists>h'. execute ls (decode (enc_amo op 2 d r1 r2)) (h, s) = Inr (h', mem_store i new s) \<and>
     reg_file h' = (reg_file h)[unat d := scast old] \<and> PC h' = PC h \<and> cp h' = cp h"
proof -
  obtain f where f: "amo_w_op op = Some f" "\<And>m r. take_bit 32 (f m r) = ucast (rv_amo op (ucast m :: u32) (ucast r))"
    using amo_w_op_refines [OF assms(1)] by blast
  have op: "take_bit 5 op = op" "op \<noteq> 2" "op \<noteq> 3"
    using assms(1) by (auto simp: amo_codes_def)
  have lu: "lane_update j 4 w (f m r) = lane_update j 4 w (ucast (rv_amo op (ucast m :: u32) (ucast r)))" for j w m r
    using lane_update_take [of j 4 w "f m r"] by (simp add: f(2))
  have se: "sign_extend (lane j 4 w) 32 = scast (ucast (lane j 4 w) :: u32)" for j w
    using sign_extend_32_eq [of "lane j 4 w"] by (simp add: lane_masked)
  show ?thesis
    using assms(8-10)
    by (simp add: execute_amo_w [OF assms(2-7)] op amo_w_switch_def f(1) exec_rmw_w_def load_word_lane
      store_word_lane lu lane_masked se write_ret_def DRAM_BASE_def dram_offset assms(6,7) Let_def
      assms(11,12) less_imp_le)
qed

theorem execute_amo_w_refines_witness:
  "\<exists>h'. execute False (decode (enc_amo 16 2 10 11 12))
       (hart_fresh\<lparr>reg_file := (replicate 32 0)[11 := 0x80000014, 12 := -1]\<rparr>,
        (shared_init 0 0 [])\<lparr>memory := (\<lambda>_. 0x500000007)\<rparr>) =
       Inr (h', mem_store 2 0xFFFFFFFF00000007 ((shared_init 0 0 [])\<lparr>memory := (\<lambda>_. 0x500000007)\<rparr>)) \<and>
     reg_file h' = (replicate 32 0)[11 := 0x80000014, 12 := -1, 10 := 5]"
proof -
  let ?h = "hart_fresh\<lparr>reg_file := (replicate 32 0)[11 := 0x80000014, 12 := -1 :: u64]\<rparr>"
  let ?s = "(shared_init 0 0 [])\<lparr>memory := (\<lambda>_. 0x500000007 :: u64)\<rparr>"
  have op: "16 \<in> amo_codes" by (simp add: amo_codes_def)
  have a: "0x80000014 = get_reg ?h 11 AND 0xffffffff" by (simp add: get_reg_def)
  have i: "2 = (unat (0x80000014 :: u64) - 0x80000000) div 8" "4 = unat (0x80000014 :: u64) mod 8" by simp_all
  have old: "(5 :: u32) = ucast (lane 4 4 (memory ?s 2))" by simp code_simp
  have "0xFFFFFFFF00000007 = lane_update 4 4 (memory ?s 2) (ucast (rv_amo 16 5 (ucast (get_reg ?h 12)) :: u32))"
    by (simp add: get_reg_def) code_simp
  from execute_amo_w_refines [OF op _ _ _ a _ _ _ i old this, of 10 False] show ?thesis
    by simp blast
qed

subsection \<open>Moves of the machine\<close>

text \<open>
  Between two instructions of a hart the driver may step any hart, advance time and deliver
  interrupts, in any order.
\<close>

inductive moves :: "bool \<Rightarrow> nat \<Rightarrow> emulator \<Rightarrow> emulator \<Rightarrow> bool" for ls where
  moves_refl: "moves ls 0 e e"
| moves_hart: "moves ls n e e1 \<Longrightarrow> step_hart_only ls i e1 = Inr e' \<Longrightarrow> moves ls (Suc n) e e'"
| moves_tick: "moves ls n e e1 \<Longrightarrow> moves ls (Suc n) e (tick_only e1)"
| moves_irq: "moves ls n e e1 \<Longrightarrow> set_interrupts_one ls i e1 = Inr e' \<Longrightarrow> moves ls (Suc n) e e'"

lemma mem_step_set_interrupts:
  "set_interrupts_one ls i e = Inr e' \<Longrightarrow> mem_step (world e) (world e')"
  by (auto simp: set_interrupts_one_def hart_set_interrupts_lockstep_def
      split: if_splits sum.splits dest!: mem_step_hart_step)

lemma mem_step_tick: "mem_step (world e) (world (tick_only e))"
  by (simp add: tick_only_def)

definition grown :: "nat \<Rightarrow> shared \<Rightarrow> shared \<Rightarrow> bool" where
  "grown n s s' \<longleftrightarrow> (\<exists>k \<le> n. global_store_gen s' = global_store_gen s + of_nat k \<and>
     (k = 0 \<longrightarrow> memory s' = memory s))"

lemma grown_step: "grown n s s1 \<Longrightarrow> mem_step s1 s' \<Longrightarrow> grown (Suc n) s s'"
proof -
  assume "grown n s s1" and step: "mem_step s1 s'"
  then obtain k where k: "k \<le> n" "global_store_gen s1 = global_store_gen s + of_nat k"
    "k = 0 \<longrightarrow> memory s1 = memory s"
    unfolding grown_def by blast
  from step consider "memory s' = memory s1" "global_store_gen s' = global_store_gen s1"
    | "global_store_gen s' = global_store_gen s1 + 1"
    unfolding mem_step_def by blast
  then show ?thesis
  proof cases
    case 1 then show ?thesis using k unfolding grown_def by (intro exI [of _ k]) simp
  next
    case 2 then show ?thesis using k unfolding grown_def by (intro exI [of _ "Suc k"]) simp
  qed
qed

lemma moves_grown: "moves ls n e e' \<Longrightarrow> grown n (world e) (world e')"
proof (induction rule: moves.induct)
  case (moves_refl e) then show ?case by (simp add: grown_def)
qed (blast intro: grown_step mem_step_step_hart_only mem_step_tick mem_step_set_interrupts)+

lemma moves_same_gen:
  assumes "moves ls n e e'" "n < 2 ^ 64" "global_store_gen (world e') = global_store_gen (world e)"
  shows "memory (world e') = memory (world e)"
proof -
  obtain k where k: "k \<le> n" "global_store_gen (world e') = global_store_gen (world e) + of_nat k"
    "k = 0 \<longrightarrow> memory (world e') = memory (world e)"
    using moves_grown [OF assms(1)] unfolding grown_def by blast
  have "(of_nat k :: u64) = 0" using assms(3) k(2) by simp
  moreover have "unat (of_nat k :: u64) = k"
    using k(1) assms(2) by (simp add: unat_of_nat)
  ultimately have "k = 0" by simp
  then show ?thesis using k(3) by simp
qed

subsection \<open>Load-reserved and store-conditional\<close>

lemma execute_lr_w:
  assumes "d < 32" "r1 < 32" "r2 < 32"
    and "a = get_reg h r1 AND 0xffffffff" "0x80000000 < a" "a < 0x89000000" "unat a mod 8 \<le> 4"
  shows "\<exists>h'. execute ls (decode (enc_amo 2 2 d r1 r2)) (h, s) = Inr (h', s) \<and>
     amo_reserve_valid h' \<and> amo_reserve_addr h' = a \<and> amo_reserve_gen h' = global_store_gen s \<and>
     reg_file h' = (reg_file h)[unat d := scast (ucast (lane (unat a mod 8) 4
       (memory s ((unat a - 0x80000000) div 8))) :: u32)]"
  using assms(7) sign_extend_32_eq [of "lane (unat a mod 8) 4 (memory s ((unat a - 0x80000000) div 8))"]
  by (simp add: execute_amo_w [OF assms(1-6)] amo_w_switch_def exec_lr_w_def load_word_lane
      write_ret_def set_reg_def lane_masked)

definition sc_w_ok :: "hart \<Rightarrow> shared \<Rightarrow> u64 \<Rightarrow> bool" where
  "sc_w_ok h s r \<longleftrightarrow> amo_reserve_valid h \<and> get_reg h r = amo_reserve_addr h \<and>
     amo_reserve_gen h = global_store_gen s \<and> unat (get_reg h r AND 0xffffffff) mod 8 \<le> 4"

lemma execute_sc_w:
  assumes "d < 32" "r1 < 32" "r2 < 32"
    and "a = get_reg h r1 AND 0xffffffff" "0x80000000 < a" "a < 0x89000000"
    and "i = (unat a - 0x80000000) div 8"
  shows "\<exists>h'. execute ls (decode (enc_amo 3 2 d r1 r2)) (h, s) =
       Inr (h', if sc_w_ok h s r1
                then mem_store i (lane_update (unat a mod 8) 4 (memory s i) (get_reg h r2)) s else s) \<and>
     \<not> amo_reserve_valid h' \<and>
     reg_file h' = (reg_file h)[unat d := (if sc_w_ok h s r1 then 0 else 1)]"
  using lane_update_take [of "unat a mod 8" 4 "memory s i" "get_reg h r2"]
    dram_offset(1) [of a] assms(5,6)
  by (auto simp: execute_amo_w [OF assms(1-6)] amo_w_switch_def exec_sc_w_def store_word_lane
      write_ret_def set_reg_def sc_w_ok_def word_mask assms(4,7) amo_fault_def DRAM_BASE_def less_imp_le Let_def)

text \<open>
  C2: LR.W and SC.W are atomic. Hart \<open>i\<close> executes LR.W; then any hart may step, time may
  advance and interrupts may be delivered, fewer than \<open>2 ^ 64\<close> moves in all, as long as the
  reservation of hart \<open>i\<close> is the one LR.W took. If SC.W then reports success, no byte of
  memory has changed since LR.W, and SC.W writes one word of it.
\<close>

theorem lr_sc_w_atomic:
  assumes lr: "execute ls (decode (enc_amo 2 2 d r1 0)) (h, s) = Inr (h1, s1)"
    and a: "d < 32" "r1 < 32" "a = get_reg h r1 AND 0xffffffff" "0x80000000 < a" "a < 0x89000000"
      "unat a mod 8 \<le> 4"
    and start: "harts e ! i = h1" "world e = s1"
    and run: "moves ls n e e'" "n < 2 ^ 64" "amo_reserve_gen (harts e' ! i) = amo_reserve_gen h1"
    and sc: "execute ls (decode (enc_amo 3 2 d' r1' r2)) (harts e' ! i, world e') = Inr (h2, s2)"
      "get_reg h2 d' = 0"
    and b: "d' < 32" "r1' < 32" "r2 < 32" "b = get_reg (harts e' ! i) r1' AND 0xffffffff"
      "0x80000000 < b" "b < 0x89000000" "wf_regs (harts e' ! i)"
  shows "memory (world e') = memory s \<and>
     (\<exists>v. memory s2 = (memory s)((unat b - 0x80000000) div 8 := v))"
proof -
  have h1: "s1 = s" "amo_reserve_gen h1 = global_store_gen s"
    using execute_lr_w [OF a(1,2) _ a(3-6), of 0 ls s] lr by auto
  obtain h2' where sc': "execute ls (decode (enc_amo 3 2 d' r1' r2)) (harts e' ! i, world e') =
       Inr (h2', if sc_w_ok (harts e' ! i) (world e') r1'
                then mem_store ((unat b - 0x80000000) div 8) (lane_update (unat b mod 8) 4
                  (memory (world e') ((unat b - 0x80000000) div 8)) (get_reg (harts e' ! i) r2)) (world e')
                else world e')"
     "reg_file h2' = (reg_file (harts e' ! i))[unat d' := (if sc_w_ok (harts e' ! i) (world e') r1' then 0 else 1)]"
    using execute_sc_w [OF b(1-6) refl, of ls "world e'"] by blast
  have "unat d' < 32" using b(1) by (simp add: word_less_nat_alt)
  then have ok: "sc_w_ok (harts e' ! i) (world e') r1'"
    using sc sc' b(7) by (auto simp: get_reg_def wf_regs_def split: if_splits)
  then have "global_store_gen (world e') = global_store_gen (world e)"
    using run(3) start h1 by (simp add: sc_w_ok_def)
  then have m: "memory (world e') = memory s"
    using moves_same_gen [OF run(1,2)] start h1 by simp
  moreover have "s2 = mem_store ((unat b - 0x80000000) div 8) (lane_update (unat b mod 8) 4
      (memory (world e') ((unat b - 0x80000000) div 8)) (get_reg (harts e' ! i) r2)) (world e')"
    using sc(1) sc'(1) ok by simp
  ultimately show ?thesis by (auto simp: mem_store_def)
qed

definition lrsc_hart :: hart where
  "lrsc_hart = hart_fresh\<lparr>reg_file := (replicate 32 0)[10 := 0x80000008, 11 := 7]\<rparr>"

theorem lr_sc_w_atomic_witness:
  "\<exists>h1 h2 s2. execute False (decode (enc_amo 2 2 5 10 0)) (lrsc_hart, shared_init 0 0 []) =
       Inr (h1, shared_init 0 0 []) \<and>
     execute False (decode (enc_amo 3 2 6 10 11)) (h1, world (tick_only \<lparr>harts = [h1], world = shared_init 0 0 []\<rparr>)) =
       Inr (h2, s2) \<and> get_reg h2 6 = 0 \<and> (\<exists>v. memory s2 = (memory (shared_init 0 0 []))(1 := v))"
proof -
  let ?s = "shared_init 0 0 []"
  have r: "get_reg lrsc_hart 10 = 0x80000008" "wf_regs lrsc_hart"
    by (simp_all add: lrsc_hart_def get_reg_def wf_regs_def)
  obtain h1 where h1: "execute False (decode (enc_amo 2 2 5 10 0)) (lrsc_hart, ?s) = Inr (h1, ?s)"
    "amo_reserve_valid h1" "amo_reserve_addr h1 = 0x80000008" "amo_reserve_gen h1 = global_store_gen ?s"
    "reg_file h1 = (reg_file lrsc_hart)[unat (5 :: u64) := 0]"
    using execute_lr_w [of 5 10 0 "0x80000008" lrsc_hart False ?s] r
    by (auto simp: shared_init_def lane_def)
  let ?e = "\<lparr>harts = [h1], world = ?s\<rparr>" let ?e' = "tick_only ?e"
  have e': "harts ?e' ! 0 = h1" "global_store_gen (world ?e') = global_store_gen ?s"
    by (simp_all add: tick_only_def)
  have r1: "get_reg h1 10 = 0x80000008" "wf_regs h1"
    using h1(5) r by (simp_all add: get_reg_def wf_regs_def)
  have "sc_w_ok h1 (world ?e') 10"
    using h1 r1 e' by (simp add: sc_w_ok_def)
  then obtain h2 s2 where sc: "execute False (decode (enc_amo 3 2 6 10 11)) (h1, world ?e') = Inr (h2, s2)"
      "get_reg h2 6 = 0"
    using execute_sc_w [of 6 10 11 "0x80000008" h1 1 False "world ?e'"] r1
    by (auto simp: get_reg_def wf_regs_def)
  have mv: "moves False 1 ?e ?e'"
    using moves_tick [OF moves_refl] by simp
  have st: "harts ?e ! 0 = h1" "world ?e = ?s" by simp_all
  have n: "(1 :: nat) < 2 ^ 64" by simp
  have g: "amo_reserve_gen (harts ?e' ! 0) = amo_reserve_gen h1" using e' by simp
  have w: "wf_regs (harts ?e' ! 0)" "0x80000008 = get_reg (harts ?e' ! 0) 10 AND 0xffffffff"
    "0x80000008 = get_reg lrsc_hart 10 AND 0xffffffff"
    using r r1 e' by simp_all
  have sc': "execute False (decode (enc_amo 3 2 6 10 11)) (harts ?e' ! 0, world ?e') = Inr (h2, s2)"
    unfolding e'(1) by (rule sc(1))
  have "\<exists>v. memory s2 = (memory ?s)((unat (0x80000008 :: u64) - 0x80000000) div 8 := v)"
    using lr_sc_w_atomic [OF h1(1) _ _ w(3) _ _ _ st mv n g sc' sc(2) _ _ _ w(2) _ _ w(1)]
    by simp
  then show ?thesis using h1(1) sc by auto
qed

text \<open>
  C12: the 64-bit pair is not atomic. After LR.D, SC.D of the same hart to the same address
  succeeds in every shared state, whatever the other harts stored in between, because
  neither instruction looks at the store generation.
\<close>

theorem sc_d_ignores_stores:
  assumes "wf_regs h" "d < 32" "r1 < 32" "r2 < 32" "d \<noteq> r1" "d \<noteq> r2"
    and "a = get_reg h r1 AND 0xffffffff" "0x80000000 < a" "a < 0x89000000" "unat a mod 8 = 0"
  shows "\<exists>h1. execute ls (decode (enc_amo 2 3 d r1 0)) (h, s) = Inr (h1, s) \<and>
     (\<forall>s'. \<exists>h2. execute ls (decode (enc_amo 3 3 d r1 r2)) (h1, s') =
         Inr (h2, mem_store ((unat a - 0x80000000) div 8) (get_reg h r2) s') \<and> get_reg h2 d = 0)"
proof -
  have al: "a mod 8 = 0" using assms(10) by (simp add: mod_8_eq_0)
  have u: "unat d < 32" "unat d \<noteq> unat r1" "unat d \<noteq> unat r2"
    using assms(2,5,6) by (simp_all add: word_less_nat_alt word_unat_eq_iff)
  let ?m = "memory s ((unat a - 0x80000000) div 8)"
  define h1 where "h1 = set_reg d ?m (h\<lparr>wb_data := ?m, ret_data := ?m, amo_reserve_valid64 := True,
      amo_reserve_addr64 := get_reg h r1\<rparr>)"
  have lr: "execute ls (decode (enc_amo 2 3 d r1 0)) (h, s) = Inr (h1, s)"
    using al by (simp add: execute_amo_d [OF assms(2,3) _ assms(7-9)] amo_d_switch_def exec_lr_d_def
        write_ret_def set_reg_def h1_def)
  have r: "get_reg h1 r1 = get_reg h r1" "get_reg h1 r2 = get_reg h r2" "length (reg_file h1) = 32"
    "amo_reserve_valid64 h1" "amo_reserve_addr64 h1 = get_reg h r1"
    using u assms(1) by (simp_all add: h1_def get_reg_def wf_regs_def set_reg_def)
  have "a = get_reg h1 r1 AND 0xffffffff" using r(1) assms(7) by simp
  note sc = execute_amo_d [OF assms(2-4) this assms(8,9)]
  have "\<exists>h2. execute ls (decode (enc_amo 3 3 d r1 r2)) (h1, s') =
         Inr (h2, mem_store ((unat a - 0x80000000) div 8) (get_reg h r2) s') \<and> get_reg h2 d = 0" for s'
    using al u(1) assms(8,9) dram_offset(1) [of a]
    by (simp add: sc amo_d_switch_def exec_sc_d_def r write_ret_def get_reg_def [of _ d]
        DRAM_BASE_def less_imp_le)
  then show ?thesis using lr by blast
qed

theorem sc_d_ignores_stores_witness:
  "\<exists>h1. execute False (decode (enc_amo 2 3 5 10 0)) (lrsc_hart, shared_init 0 0 []) =
       Inr (h1, shared_init 0 0 []) \<and>
     (\<forall>s'. \<exists>h2. execute False (decode (enc_amo 3 3 5 10 11)) (h1, s') = Inr (h2, mem_store 1 7 s') \<and>
        get_reg h2 5 = 0)"
proof -
  have r: "wf_regs lrsc_hart" "0x80000008 = get_reg lrsc_hart 10 AND 0xffffffff" "get_reg lrsc_hart 11 = 7"
    by (simp_all add: lrsc_hart_def get_reg_def wf_regs_def)
  from sc_d_ignores_stores [of lrsc_hart 5 10 11, OF r(1) _ _ _ _ _ r(2)] r(3) show ?thesis by simp
qed

end
