(* ===== verification/Control_Correct.thy ===== *)
theory Control_Correct
  imports Hart_Correct
begin

text \<open>
  Register-immediate instructions, upper immediates, branches and jumps, executed from their
  manual encodings.
\<close>

unbundle bit_operations_syntax

subsection \<open>Register-immediate instructions\<close>

definition rvi_ops :: "rv_op set" where
  "rvi_ops = {R_ADD, R_SLT, R_SLTU, R_XOR, R_OR, R_AND, R_SLL, R_SRL, R_SRA,
     R_ADDW, R_SLLW, R_SRLW, R_SRAW}"

text \<open>The immediate field: twelve bits, or the shift amount with bit 10 marking SRAI(W).\<close>

definition rvi_field :: "rv_op \<Rightarrow> u64 \<Rightarrow> u64" where
  "rvi_field op imm =
     (if op \<in> {R_SLL, R_SRL} then take_bit 6 imm
      else if op \<in> {R_SLLW, R_SRLW} then take_bit 5 imm
      else if op = R_SRA then 0x400 OR take_bit 6 imm
      else if op = R_SRAW then 0x400 OR take_bit 5 imm
      else take_bit 12 imm)"

definition enc_rvi :: "rv_op \<Rightarrow> u64 \<Rightarrow> u64 \<Rightarrow> u64 \<Rightarrow> u64" where
  "enc_rvi op d r1 imm =
     enc_i (if op \<in> {R_ADDW, R_SLLW, R_SRLW, R_SRAW} then 0b0011011 else 0b0010011)
       (rv_f3 op) d r1 (rvi_field op imm)"

lemma sign_extend_12: "sign_extend (take_bit 12 imm) 12 = signed_take_bit 11 imm"
  using sign_extend_take_bit [of 12 imm] by simp

lemma unat_imm_mod:
  "unat (signed_take_bit 11 (imm :: u64)) mod 64 = unat (take_bit 6 imm)"
  "unat (ucast (signed_take_bit 11 (imm :: u64)) :: u32) mod 32 = unat (take_bit 5 imm)"
proof -
  have "take_bit 6 (signed_take_bit 11 imm) = take_bit 6 imm" "take_bit 5 (signed_take_bit 11 imm) = take_bit 5 imm"
    by (rule bit_word_eqI, auto simp: bit_simps min_def)+
  then show "unat (signed_take_bit 11 (imm :: u64)) mod 64 = unat (take_bit 6 imm)"
    "unat (ucast (signed_take_bit 11 (imm :: u64)) :: u32) mod 32 = unat (take_bit 5 imm)"
    by (simp_all add: unat_and_31 [symmetric] unat_and_63 [symmetric] word_mask)
qed

lemma bit_lits: "bit (0x400 :: u64) n \<longleftrightarrow> n = 10" "bit (16 :: u64) n \<longleftrightarrow> n = 4"
proof -
  have e: "(0x400 :: u64) = push_bit 10 1" "(16 :: u64) = push_bit 4 1" by simp_all
  show "bit (0x400 :: u64) n \<longleftrightarrow> n = 10" "bit (16 :: u64) n \<longleftrightarrow> n = 4"
    unfolding e bit_push_bit_iff bit_1_iff by auto
qed

lemma and_sh_fields:
  "take_bit 12 (take_bit 6 imm) AND 63 = (take_bit 6 imm :: u64)"
  "take_bit 12 (0x400 OR take_bit 6 imm) AND 63 = (take_bit 6 imm :: u64)"
  "take_bit 12 (take_bit 5 imm) AND 31 = (take_bit 5 imm :: u64)"
  "take_bit 12 (0x400 OR take_bit 5 imm) AND 31 = (take_bit 5 imm :: u64)"
  "drop_bit 1 (take_bit 7 (drop_bit 5 (take_bit 6 imm))) = (0 :: u64)"
  "drop_bit 1 (take_bit 7 (drop_bit 5 (0x400 OR take_bit 6 imm))) = (16 :: u64)"
  "drop_bit 1 (take_bit 7 (drop_bit 5 (take_bit 5 imm))) = (0 :: u64)"
  "drop_bit 1 (take_bit 7 (drop_bit 5 (0x400 OR take_bit 5 imm))) = (16 :: u64)"
  by (rule bit_word_eqI, auto simp: word_mask bit_simps bit_lits)+

lemma iops_shifts:
  assumes "f AND 63 = n"
  shows "iops_wb 1 f7 f a wb = push_bit (unat n) a"
    "drop_bit 1 f7 = 0 \<Longrightarrow> iops_wb 5 f7 f a wb = drop_bit (unat n) a"
    "drop_bit 1 f7 = 16 \<Longrightarrow> iops_wb 5 f7 f a wb = sra_loop 63 (unat n) a"
  using assms by (simp_all add: iops_wb_def Let_def)

lemma ucast_shifts_32:
  "(ucast (drop_bit n (a AND 0xFFFFFFFF) :: u64) :: u32) = drop_bit n (ucast a)"
  "(ucast (sra_loop 31 n (a AND 0xFFFFFFFF)) :: u32) = signed_drop_bit n (ucast a)"
proof -
  have b: "bit (sra_loop 31 n (a AND 0xFFFFFFFF)) m \<longleftrightarrow> m \<le> 31 \<and> bit a (min 31 (m + n))" for m
    by (subst bit_sra_loop) (auto simp: word_mask bit_simps)
  show "(ucast (sra_loop 31 n (a AND 0xFFFFFFFF)) :: u32) = signed_drop_bit n (ucast a)"
    by (rule bit_word_eqI) (auto simp: b bit_unsigned_iff bit_signed_drop_bit_min)
qed (rule bit_word_eqI, auto simp: bit_simps word_mask)

lemma iops64_shifts:
  assumes "f AND 31 = n"
  shows "iops64_wb 1 f7 f a wb = scast (push_bit (unat n) (ucast a :: u32))"
    "drop_bit 1 f7 = 0 \<Longrightarrow> iops64_wb 5 f7 f a wb = scast (drop_bit (unat n) (ucast a :: u32))"
    "drop_bit 1 f7 = 16 \<Longrightarrow> iops64_wb 5 f7 f a wb = scast (signed_drop_bit (unat n) (ucast a :: u32))"
  unfolding iops64_wb_def assms Let_def and.commute [of "0xFFFFFFFF"] sign_extend_32_eq
    ucast_shifts_32 ucast_push_bit_32 by simp_all

lemma rvi_wb:
  assumes "op \<in> rvi_ops" "op \<notin> {R_ADDW, R_SLLW, R_SRLW, R_SRAW}"
  shows "iops_wb (rv_f3 op) (take_bit 7 (drop_bit 5 (rvi_field op imm))) (take_bit 12 (rvi_field op imm)) a wb =
    rv_sem op a (signed_take_bit 11 imm)"
proof -
  have "unat (take_bit 6 imm) < 64" using unat_take_bit_less [of 6 imm] by simp
  then show ?thesis
  using assms iops_shifts [OF and_sh_fields(1)] iops_shifts [OF and_sh_fields(2)] and_sh_fields(5,6)
  unfolding rvi_ops_def
  by (elim insertE emptyE;
     simp add: rvi_field_def unat_imm_mod sra_loop_63; simp add: iops_wb_def sign_extend_12 word_less_def)
qed

lemma rvi64_wb:
  assumes "op \<in> {R_ADDW, R_SLLW, R_SRLW, R_SRAW}"
  shows "iops64_wb (rv_f3 op) (take_bit 7 (drop_bit 5 (rvi_field op imm))) (take_bit 12 (rvi_field op imm)) a wb =
    rv_sem op a (signed_take_bit 11 imm)"
proof -
  note sh = iops64_shifts [OF and_sh_fields(3)] iops64_shifts [OF and_sh_fields(4)]
  from assms consider "op = R_ADDW" | "op = R_SLLW" | "op = R_SRLW" | "op = R_SRAW" by blast
  then show ?thesis
  proof cases
    case 1
    then show ?thesis
      by (simp add: rvi_field_def iops64_wb_def rv_w_def and.commute [of "0xFFFFFFFF"] sign_extend_32_eq
          ucast_down_ring sign_extend_12)
  next
    case 4
    then show ?thesis
      using iops64_shifts(3) [OF and_sh_fields(4) [of imm] and_sh_fields(8) [of imm], of a wb]
      by (simp add: rvi_field_def rv_w_def unat_imm_mod)
  qed (simp_all add: rvi_field_def rv_w_def unat_imm_mod sh and_sh_fields del: One_nat_def take_bit_take_bit take_bit_or)
qed

text \<open>
  C9: every register-immediate instruction of RV64I (ADDI to SRAI and the W forms), in its
  manual encoding, writes to \<open>rd\<close> what the register-register semantics gives for \<open>rs1\<close> and
  the sign-extended immediate.
\<close>

theorem execute_itype_refines:
  assumes "op \<in> rvi_ops" "d < 32" "r1 < 32"
    and "v = rv_sem op (get_reg h r1) (signed_take_bit 11 imm)"
  shows "execute ls (decode (enc_rvi op d r1 imm)) (h, s) =
     Inr (h\<lparr>wb_data := v, reg_file := (reg_file h)[unat d := v]\<rparr>, s)"
proof -
  have "take_bit 3 (rv_f3 op) = rv_f3 op" by (cases op) simp_all
  then show ?thesis
    using rvi_wb [OF assms(1), of imm] rvi64_wb [of op imm] assms(2,3)
    by (simp add: enc_rvi_def execute_def decode_enc_i exec_iops_def exec_iops64_def take_bit_reg
        set_reg_def assms(4) Let_def del: rv_sem.simps rv_f3.simps)
qed

theorem execute_itype_refines_witness:
  "execute True (decode (enc_rvi R_SRAW 5 0 3)) (hart_fresh\<lparr>reg_file := (replicate 32 0)[0 := 0x80000000]\<rparr>,
      shared_init 0 0 []) =
   Inr (hart_fresh\<lparr>wb_data := -268435456, reg_file := (replicate 32 0)[0 := 0x80000000, 5 := -268435456]\<rparr>,
      shared_init 0 0 [])"
proof -
  let ?h = "hart_fresh\<lparr>reg_file := (replicate 32 0)[0 := 0x80000000 :: u64]\<rparr>"
  have "-268435456 = rv_sem R_SRAW (get_reg ?h 0) (signed_take_bit 11 3)"
    by (simp add: get_reg_def) code_simp
  from execute_itype_refines [OF _ _ _ this, of 5 True "shared_init 0 0 []"] show ?thesis
    by (simp add: rvi_ops_def)
qed

subsection \<open>Upper immediates, branches and jumps\<close>

fun rv_cond :: "u64 \<Rightarrow> u64 \<Rightarrow> u64 \<Rightarrow> bool" where
  "rv_cond f3 a b \<longleftrightarrow>
     (if f3 = 0 then a = b else if f3 = 1 then a \<noteq> b
      else if f3 = 4 then sint a < sint b else if f3 = 5 then sint b \<le> sint a
      else if f3 = 6 then uint a < uint b else uint b \<le> uint a)"

lemma branch_taken_cond: "f3 \<in> {0, 1, 4, 5, 6, 7} \<Longrightarrow> branch_taken f3 a b old = rv_cond f3 a b"
  by (auto simp: branch_taken_def word_less_def word_le_def)

text \<open>
  C10: a conditional branch compares the two registers as the manual says, signed or
  unsigned, and moves the PC to the branch's own address plus the sign-extended 13-bit
  offset if the comparison holds, and otherwise leaves it at the next instruction. (\<open>PC\<close> has
  already been advanced past the branch when \<open>execute\<close> runs.)
\<close>

theorem execute_branch_target:
  assumes "f3 \<in> {0, 1, 4, 5, 6, 7}" "r1 < 32" "r2 < 32" "even imm"
    and "c = rv_cond f3 (get_reg h r1) (get_reg h r2)"
  shows "execute ls (decode (enc_b 0b1100011 f3 r1 r2 imm)) (h, s) =
     Inr (h\<lparr>branch := c, PC := (if c then PC h - 4 + signed_take_bit 12 imm else PC h)\<rparr>, s)"
proof -
  have "take_bit 3 f3 = f3" using assms(1) by auto
  then have d: "opcode (decode (enc_b 0b1100011 f3 r1 r2 imm)) = 0b1100011"
    "func3 (decode (enc_b 0b1100011 f3 r1 r2 imm)) = f3"
    "rs1 (decode (enc_b 0b1100011 f3 r1 r2 imm)) = r1" "rs2 (decode (enc_b 0b1100011 f3 r1 r2 imm)) = r2"
    using assms(2,3) by (simp_all add: enc_b_def decode_enc_r take_bit_reg)
  show ?thesis
    using sign_extend_take_bit [of 13 imm]
    by (simp add: execute_def d exec_cjump_def imm_b_enc [OF assms(4)] branch_taken_cond [OF assms(1)]
        assms(5) Let_def del: rv_cond.simps)
qed

theorem execute_branch_target_witness:
  "execute False (decode (enc_b 0b1100011 6 1 2 (-8)))
      (hart_fresh\<lparr>PC := 0x80000104, reg_file := (replicate 32 0)[2 := -1]\<rparr>, shared_init 0 0 []) =
   Inr (hart_fresh\<lparr>PC := 0x800000F8, reg_file := (replicate 32 0)[2 := -1], branch := True\<rparr>,
      shared_init 0 0 [])"
proof -
  let ?h = "hart_fresh\<lparr>PC := 0x80000104, reg_file := (replicate 32 0)[2 := -1 :: u64]\<rparr>"
  have c: "True = rv_cond 6 (get_reg ?h 1) (get_reg ?h 2)" by (simp add: get_reg_def) code_simp
  have e: "even (-8 :: u64)" by simp
  have "signed_take_bit 12 (-8 :: u64) = -8" by code_simp
  then show ?thesis
    using execute_branch_target [OF _ _ _ e c, of False "shared_init 0 0 []"] by simp
qed

text \<open>
  JAL with an offset whose target is 4-byte aligned puts the return address in \<open>rd\<close> and
  the PC at the instruction's own address plus the sign-extended 21-bit offset; JALR jumps to
  \<open>rs1\<close> plus the sign-extended immediate with bit 0 cleared, also when \<open>rd\<close> is \<open>rs1\<close>.
\<close>

theorem execute_jump_targets:
  assumes "d < 32" "r1 < 32" "even imm"
    and "t = PC h - 4 + signed_take_bit 20 imm" "t mod 4 = 0"
    and "u = (get_reg h r1 + signed_take_bit 11 imm') AND NOT 1" "u mod 4 = 0"
  shows "execute ls (decode (enc_j 0b1101111 d imm)) (h, s) =
       Inr (h\<lparr>wb_data := PC h, PC := t, reg_file := (reg_file h)[unat d := PC h]\<rparr>, s) \<and>
     execute ls (decode (enc_i 0b1100111 0 d r1 imm')) (h, s) =
       Inr (h\<lparr>wb_data := PC h, PC := u, reg_file := (reg_file h)[unat d := PC h]\<rparr>, s)"
proof
  have d: "opcode (decode (enc_j 0b1101111 d imm)) = 0b1101111" "rd (decode (enc_j 0b1101111 d imm)) = d"
    using assms(1) by (simp_all add: enc_j_def decode_enc_u take_bit_reg)
  show "execute ls (decode (enc_j 0b1101111 d imm)) (h, s) =
       Inr (h\<lparr>wb_data := PC h, PC := t, reg_file := (reg_file h)[unat d := PC h]\<rparr>, s)"
    using sign_extend_take_bit [of 21 imm] assms(4,5)
    by (simp add: execute_def d exec_jump_def imm_j_enc [OF assms(3)] set_reg_def Let_def)
  have i: "opcode (decode (enc_i 0b1100111 0 d r1 imm')) = 0b1100111"
    "rd (decode (enc_i 0b1100111 0 d r1 imm')) = d" "rs1 (decode (enc_i 0b1100111 0 d r1 imm')) = r1"
    "imm11_0 (decode (enc_i 0b1100111 0 d r1 imm')) = take_bit 12 imm'"
    using assms(1,2) by (simp_all add: decode_enc_i take_bit_reg)
  have m: "(0xFFFFFFFFFFFFFFFE :: u64) = NOT 1" by simp
  have "(get_reg h r1 + signed_take_bit 11 imm') AND 0xFFFFFFFFFFFFFFFE = u"
    unfolding m using assms(6) by (rule sym)
  then show "execute ls (decode (enc_i 0b1100111 0 d r1 imm')) (h, s) =
       Inr (h\<lparr>wb_data := PC h, PC := u, reg_file := (reg_file h)[unat d := PC h]\<rparr>, s)"
    using assms(7)
    by (simp add: execute_def i exec_jumpr_def sign_extend_12 set_reg_def Let_def)
qed

theorem execute_jump_targets_witness:
  "execute False (decode (enc_j 0b1101111 1 (-4)))
      (hart_fresh\<lparr>PC := 0x80000104, reg_file := (replicate 32 0)[5 := 0x80000200]\<rparr>, shared_init 0 0 []) =
     Inr (hart_fresh\<lparr>PC := 0x800000FC, reg_file := (replicate 32 0)[5 := 0x80000200, 1 := 0x80000104],
       wb_data := 0x80000104\<rparr>, shared_init 0 0 []) \<and>
   execute False (decode (enc_i 0b1100111 0 1 5 (-7)))
      (hart_fresh\<lparr>PC := 0x80000104, reg_file := (replicate 32 0)[5 := 0x80000200]\<rparr>, shared_init 0 0 []) =
     Inr (hart_fresh\<lparr>PC := 0x800001F8, reg_file := (replicate 32 0)[5 := 0x80000200, 1 := 0x80000104],
       wb_data := 0x80000104\<rparr>, shared_init 0 0 [])"
proof -
  let ?h = "hart_fresh\<lparr>PC := 0x80000104, reg_file := (replicate 32 0)[5 := 0x80000200 :: u64]\<rparr>"
  have e: "even (-4 :: u64)" by simp
  have t: "0x800000FC = PC ?h - 4 + signed_take_bit 20 (-4)" by simp
  have u: "0x800001F8 = (get_reg ?h 5 + signed_take_bit 11 (-7)) AND NOT 1"
    by (simp add: get_reg_def)
  from execute_jump_targets [OF _ _ e t _ u, of 1 False "shared_init 0 0 []"] show ?thesis by simp
qed

end
