(* ===== verification/Step_Correct.thy ===== *)
theory Step_Correct
  imports Control_Correct
begin

text \<open>
  The step around an instruction: parking of the secondary harts, the machine interrupts,
  WFI, fetch, and the trap round trip.
\<close>

unbundle bit_operations_syntax

subsection \<open>Fetch\<close>

lemma fetch_split:
  assumes "0x80000000 \<le> (pc :: u64)" "pc < 0x89000000" "pc mod 4 = 0"
  defines "o1 \<equiv> unat pc - 0x80000000"
  shows "unat ((pc - 0x80000000) div 4 div 2) = o1 div 8"
    "(pc - 0x80000000) div 4 mod 2 = 0 \<longleftrightarrow> o1 mod 8 = 0" "o1 mod 8 = 0 \<or> o1 mod 8 = 4"
proof -
  have u: "unat (pc - 0x80000000) = o1" using assms(1) by (simp add: o1_def unat_sub)
  have "unat (pc mod 4) = 0" using assms(3) by simp
  then have "unat pc mod 4 = 0" by (simp add: unat_mod)
  moreover have "unat pc = o1 + 0x20000000 * 4" using assms(1) by (simp add: o1_def word_le_nat_alt)
  ultimately have m4: "o1 mod 4 = 0" by (simp only: mod_mult_self1)
  then show "o1 mod 8 = 0 \<or> o1 mod 8 = 4" by presburger
  show "unat ((pc - 0x80000000) div 4 div 2) = o1 div 8"
    by (simp add: unat_div u div_mult2_eq [symmetric])
  have "(pc - 0x80000000) div 4 mod 2 = 0 \<longleftrightarrow> unat ((pc - 0x80000000) div 4 mod 2) = 0" 
    by (simp only: unat_eq_0)
  also have "\<dots> \<longleftrightarrow> o1 div 4 mod 2 = 0" by (simp add: unat_div unat_mod u)
  also have "\<dots> \<longleftrightarrow> o1 mod 8 = 0" using m4 by presburger
  finally show "(pc - 0x80000000) div 4 mod 2 = 0 \<longleftrightarrow> o1 mod 8 = 0" .
qed

text \<open>Fetch reads the four little-endian bytes at the program counter.\<close>

lemma fetch_le_read:
  assumes "0x80000000 \<le> pc" "pc < 0x89000000" "pc mod 4 = 0"
  shows "hart_fetch_instruction pc (h, s) =
     Inr (le_read (mem_byte (memory s)) (unat pc - 0x80000000) 4, h)"
proof -
  let ?o = "unat pc - 0x80000000"
  have i: "?o div 8 < MEM_WORDS" using dram_offset(3) [OF assms(1) less_imp_le [OF assms(2)]] .
  have "lane (?o mod 8) 4 (memory s (?o div 8)) = le_read (mem_byte (memory s)) ?o 4"
    using fetch_split(3) [OF assms] by (intro lane_le_read) auto
  moreover have "0xFFFFFFFF AND w = lane 0 4 w" "drop_bit 32 w = lane 4 4 w" for w
    by (simp add: lane_def word_mask and.commute [of "0xFFFFFFFF"])
      (rule bit_word_eqI, auto simp: bit_lane bit_simps dest: bit_imp_le_length)
  ultimately show ?thesis
    using i fetch_split [OF assms] assms
    by (auto simp: hart_fetch_instruction_def getINST_def DRAM_BASE_def Let_def)
qed

subsection \<open>One step\<close>

definition hart_in_range :: "machine \<Rightarrow> bool" where
  "hart_in_range m \<longleftrightarrow> unat (ucast (mhartid (fst m)) :: u32) < length (msip (clint_dev (snd m)))"

definition soft_irq :: "machine \<Rightarrow> bool" where
  "soft_irq m \<longleftrightarrow> ms_mie (mstatus (fst m)) \<noteq> 0 \<and> MSIE (mie (fst m)) \<noteq> 0 \<and>
     check_software_interrupt (clint_dev (snd m)) (ucast (mhartid (fst m)))"

definition timer_irq :: "machine \<Rightarrow> bool" where
  "timer_irq m \<longleftrightarrow> ms_mie (mstatus (fst m)) \<noteq> 0 \<and> MTIE (mie (fst m)) \<noteq> 0 \<and>
     check_timer_interrupt (clint_dev (snd m)) (ucast (mhartid (fst m)))"

text \<open>A hart that has been released, is not asleep and is out of its bring-up window.\<close>

definition running :: "machine \<Rightarrow> bool" where
  "running m \<longleftrightarrow> hart_in_range m \<and> smp_released (fst m) \<and> \<not> in_wfi (fst m) \<and>
     post_kick_protect (fst m) = 0 \<and> \<not> INS_ADDR_MISSALIG (fst m)"

lemma refresh_mip_simps [simp, frame_simps]:
  "PC (refresh_mip c h) = PC h" "cp (refresh_mip c h) = cp h" "mstatus (refresh_mip c h) = mstatus h"
  "mie (refresh_mip c h) = mie h" "mtvec (refresh_mip c h) = mtvec h" "mhartid (refresh_mip c h) = mhartid h"
  "in_wfi (refresh_mip c h) = in_wfi h" "smp_released (refresh_mip c h) = smp_released h"
  "post_kick_protect (refresh_mip c h) = post_kick_protect h" "reg_file (refresh_mip c h) = reg_file h"
  "INS_ADDR_MISSALIG (refresh_mip c h) = INS_ADDR_MISSALIG h"
  "MTIP (mip (refresh_mip c h)) \<noteq> 0 \<longleftrightarrow> check_timer_interrupt c (ucast (mhartid h))"
  "MSIP (mip (refresh_mip c h)) \<noteq> 0 \<longleftrightarrow> check_software_interrupt c (ucast (mhartid h))"
  by (simp_all add: refresh_mip_def)

lemma step_interrupts_none:
  "ls \<or> \<not> soft_irq (h, s) \<and> \<not> timer_irq (h, s) \<Longrightarrow>
     (if ls then refresh_mip (clint_dev s) (set_reg r v h)
      else step_interrupts (refresh_mip (clint_dev s) (set_reg r v h))) = refresh_mip (clint_dev s) (set_reg r v h)"
  by (auto simp: step_interrupts_def soft_irq_def timer_irq_def)



text \<open>A step never observes \<open>x0\<close>: its result is the same whatever the slot held before.\<close>

theorem hart_step_x0: "hart_step ls (set_reg 0 v h, s) = hart_step ls (h, s)"
proof -
  have "set_reg 0 0 (set_reg 0 v h) = set_reg 0 0 h" by (simp add: set_reg_def)
  then show ?thesis by (simp add: hart_step_def)
qed

subsection \<open>Machine interrupts\<close>

definition irq_code :: "machine \<Rightarrow> u64" where
  "irq_code m = (if soft_irq m then 3 else 7)"

definition irq_vector :: "mtvec_t \<Rightarrow> u64 \<Rightarrow> u64" where
  "irq_vector v code = (if mtv_mode v = 0 then mtv_base v else mtv_base v + 4 * code)"

text \<open>
  C7: in the stand-alone build a running hart with an enabled pending machine interrupt
  enters the handler before it fetches: software before timer, PC at the direct or vectored
  entry, the interrupted PC in \<open>mepc\<close>, the cause with the interrupt bit, \<open>MIE\<close> saved to
  \<open>MPIE\<close> and cleared, the privilege saved in \<open>MPP\<close>, both reservations dropped. The handler's
  first instruction runs in the same step.
\<close>

theorem hart_step_interrupt:
  assumes "running (h, s)" "soft_irq (h, s) \<or> timer_irq (h, s)" "ms_mie (mstatus h) = 1"
    and "mtv_mode (mtvec h) \<in> {0, 1}"
  shows "\<exists>h1. hart_step False (h, s) = run_instruction False (h1, s) \<and>
     PC h1 = irq_vector (mtvec h) (irq_code (h, s)) \<and> mepc h1 = PC h \<and> cp h1 = MMODE \<and>
     mcause h1 = \<lparr>mc_interrupt = 1, mc_ecode = irq_code (h, s)\<rparr> \<and>
     mstatus h1 = (mstatus h)\<lparr>ms_mpp := plevel_code (cp h), ms_mpie := 1, ms_mie := 0\<rparr> \<and>
     \<not> amo_reserve_valid h1 \<and> \<not> amo_reserve_valid64 h1 \<and> reg_file h1 = (reg_file h)[0 := 0]"
proof -
  let ?h = "refresh_mip (clint_dev s) (set_reg 0 0 h)"
  have "step_interrupts ?h = (if soft_irq (h, s) then take_machine_soft_irq ?h else take_machine_timer_irq ?h)"
    using assms(1,2) by (auto simp: step_interrupts_def soft_irq_def timer_irq_def running_def)
  moreover have "hart_step False (h, s) =
     (let h = step_interrupts ?h; h = (if 0 < post_kick_protect h then h\<lparr>post_kick_protect := post_kick_protect h - 1\<rparr>
                 else h) in if in_wfi h then (if \<not> wfi_irq_pending (clint_dev s) h then Inr (h, s) else Inr (h\<lparr>in_wfi := False\<rparr>, s))
           else run_instruction False (h, s))"
    using assms(1) by (simp add: hart_step_def running_def hart_in_range_def Let_def)
  ultimately show ?thesis
    using assms(1,3,4)
    by (auto simp: take_machine_soft_irq_def take_machine_timer_irq_def set_pc_def interrupt_function_def
        irq_code_def irq_vector_def running_def cause_defs Let_def)
qed

definition irq_hart :: hart where
  "irq_hart = hart_init False 0 (hart_fresh\<lparr>mstatus := mstatus_init\<lparr>ms_mie := 1\<rparr>,
     mie := mie_init\<lparr>MTIE := 1, MSIE := 1\<rparr>, mtvec := \<lparr>mtv_mode = 1, mtv_base = 0x80001000\<rparr>\<rparr>)"

definition irq_shared :: shared where
  "irq_shared = (shared_init 0 0 [])\<lparr>clint_dev := set_mtimecmp 0 0 (clint_init NUM_HARTS 0 0)\<rparr>"

lemma irq_state:
  "running (irq_hart, irq_shared)" "timer_irq (irq_hart, irq_shared)" "\<not> soft_irq (irq_hart, irq_shared)"
  by (simp_all add: running_def hart_in_range_def timer_irq_def soft_irq_def irq_hart_def hart_init_def
      hart_fresh_def irq_shared_def shared_init_def set_mtimecmp_def clint_init_def NUM_HARTS_def
      check_timer_interrupt_def check_software_interrupt_def)

theorem hart_step_interrupt_witness:
  "\<exists>h1. hart_step False (irq_hart, irq_shared) = run_instruction False (h1, irq_shared) \<and>
     PC h1 = 0x8000101C \<and> mepc h1 = 0x80000000"
proof -
  have "ms_mie (mstatus irq_hart) = 1" "mtvec irq_hart = \<lparr>mtv_mode = 1, mtv_base = 0x80001000\<rparr>"
    "PC irq_hart = 0x80000000"
    by (simp_all add: irq_hart_def hart_init_def DRAM_BASE_def)
  moreover have "irq_vector \<lparr>mtv_mode = 1, mtv_base = 0x80001000\<rparr> (irq_code (irq_hart, irq_shared)) = 0x8000101C"
    using irq_state by (simp add: irq_vector_def irq_code_def)
  ultimately show ?thesis
    using hart_step_interrupt [OF irq_state(1) disjI2 [OF irq_state(2)]] by auto
qed



subsection \<open>Parking and sleep\<close>

text \<open>
  A secondary hart that has not been released stays exactly as it is (\<open>x0\<close> apart) while
  its MSIP bit is clear; the first step that sees the bit releases it and runs the instruction
  at its PC without taking the software interrupt, even if it is enabled.
\<close>

theorem hart_step_parked:
  assumes "hart_in_range (h, s)" "\<not> smp_released h"
  shows "(\<not> check_software_interrupt (clint_dev s) (ucast (mhartid h)) \<longrightarrow>
        hart_step ls (h, s) = Inr (set_reg 0 0 h, s)) \<and>
     (check_software_interrupt (clint_dev s) (ucast (mhartid h)) \<and> \<not> in_wfi h \<longrightarrow>
        hart_step ls (h, s) = run_instruction ls
          ((refresh_mip (clint_dev s) ((set_reg 0 0 h)\<lparr>smp_released := True\<rparr>))\<lparr>post_kick_protect := 199\<rparr>, s))"
  using assms(1,2) by (auto simp: hart_step_def hart_in_range_def refresh_mip_def set_reg_def Let_def)

theorem hart_step_parked_witness:
  "hart_step False (hart_init False 3 hart_fresh, shared_init 0 0 []) =
     Inr (set_reg 0 0 (hart_init False 3 hart_fresh), shared_init 0 0 [])"
proof -
  have "hart_in_range (hart_init False 3 hart_fresh, shared_init 0 0 [])"
    by (simp add: hart_in_range_def hart_init_def shared_init_def clint_init_def NUM_HARTS_def)
  moreover have "\<not> check_software_interrupt (clint_dev (shared_init 0 0 [])) (ucast (mhartid (hart_init False 3 hart_fresh)))"
    by (simp add: hart_init_def shared_init_def clint_init_def NUM_HARTS_def check_software_interrupt_def)
  moreover have "\<not> smp_released (hart_init False 3 hart_fresh)"
    by (simp add: hart_init_def)
  ultimately show ?thesis using hart_step_parked by blast
qed

text \<open>
  A sleeping hart executes nothing until an interrupt enabled in \<open>mie\<close> is pending at the
  CLINT; then it wakes, whether or not \<open>mstatus.MIE\<close> lets the interrupt be taken. While it
  sleeps its PC, registers and the shared state stay the same.
\<close>

theorem hart_step_wfi:
  assumes "hart_in_range (h, s)" "smp_released h" "in_wfi h" "ls \<or> ms_mie (mstatus h) = 0"
  shows "\<exists>h'. hart_step ls (h, s) = Inr (h', s) \<and> PC h' = PC h \<and> cp h' = cp h \<and>
     reg_file h' = (reg_file h)[0 := 0] \<and> mstatus h' = mstatus h \<and>
     (in_wfi h' \<longleftrightarrow> \<not> wfi_irq_pending (clint_dev s) h)"
  using assms
  by (auto simp: hart_step_def hart_in_range_def step_interrupts_def wfi_irq_pending_def Let_def)

theorem hart_step_wfi_witness:
  "\<exists>h'. hart_step True (irq_hart\<lparr>in_wfi := True\<rparr>, irq_shared) = Inr (h', irq_shared) \<and> \<not> in_wfi h' \<and>
     PC h' = 0x80000000"
proof -
  let ?h = "irq_hart\<lparr>in_wfi := True\<rparr>"
  have "hart_in_range (?h, irq_shared)" "smp_released ?h" "in_wfi ?h" "PC ?h = 0x80000000"
    using irq_state(1) by (simp_all add: running_def hart_in_range_def irq_hart_def hart_init_def DRAM_BASE_def)
  moreover have "wfi_irq_pending (clint_dev irq_shared) ?h"
    using irq_state(2) by (simp add: wfi_irq_pending_def timer_irq_def)
  ultimately show ?thesis using hart_step_wfi [of ?h irq_shared True] by auto
qed

subsection \<open>Bounds\<close>

lemma dram_index_lt:
  "0x80000000 \<le> (a :: u64) \<Longrightarrow> a < 0x89000000 \<Longrightarrow> unat ((a - 0x80000000) div 8) < MEM_WORDS"
  using dram_offset(1,3) [of a] by simp

lemma exec_store_in_bounds: "exec_store ls d (h, s) \<noteq> Inl OutOfRange"
proof -
  define a where "a = (get_reg h (rs1 d) + sign_extend (imm_s d) 12) AND 0xffffffff"
  show ?thesis
  proof (cases "0x80000000 \<le> a \<and> a < 0x89000000")
    case True
    then show ?thesis
      using dram_index_lt [of a]
      by (auto simp: exec_store_def a_def [symmetric] DRAM_BASE_def Let_def not_le split: prod.splits)
  next
    case False
    then show ?thesis
      by (auto simp: exec_store_def a_def [symmetric] DRAM_BASE_def Let_def)
  qed
qed

lemma exec_amo_in_bounds: "exec_amo d (h, s) \<noteq> Inl OutOfRange"
  using dram_index_lt [of "get_reg h (rs1 d) AND 0xffffffff"]
  by (auto simp: exec_amo_def DRAM_BASE_def Let_def not_le less_imp_le)

lemma execute_in_bounds: "execute ls d (h, s) \<noteq> Inl OutOfRange"
  by (simp add: execute_def exec_store_in_bounds exec_amo_in_bounds)

lemma fetch_in_bounds: "hart_fetch_instruction pc (h, s) \<noteq> Inl OutOfRange"
proof (cases "pc < 0x80000000 \<or> 0x89000000 \<le> pc \<or> pc mod 4 \<noteq> 0")
  case True
  then show ?thesis by (elim disjE) (simp_all add: hart_fetch_instruction_def DRAM_BASE_def)
next
  case False
  then show ?thesis by (simp add: fetch_le_read not_le not_less)
qed

text \<open>
  C14: for any contents of its registers a step indexes the memory vector in bounds on
  every path (fetch, load, store, atomic); the only index that can leave its vector is the
  hart id in the CLINT, when \<open>mhartid\<close> does not name a hart.
\<close>

theorem hart_step_in_bounds:
  "hart_step ls (h, s) = Inl OutOfRange \<longleftrightarrow> \<not> hart_in_range (h, s)"
proof -
  have "run_instruction ls m \<noteq> Inl OutOfRange" for m
    using fetch_in_bounds execute_in_bounds
    by (cases m) (auto simp: run_instruction_def split: sum.splits prod.splits if_splits)
  then show ?thesis
    by (auto simp: hart_step_def hart_in_range_def Let_def)
qed

end
