(* ===== verification/Machine_Inv.thy ===== *)
theory Machine_Inv
  imports Reservation Step_Correct
begin

text \<open>
  The invariant of the machine, kept by every way a driver advances it: the register files
  have 32 entries, the status fields stay within their widths, and the CLINT's vectors stay
  as long as its hart count.
\<close>

unbundle bit_operations_syntax

subsection \<open>One hart\<close>

definition mstatus_wf :: "mstatus_t \<Rightarrow> bool" where
  "mstatus_wf r \<longleftrightarrow> ms_mie r \<le> 1 \<and> ms_mpie r \<le> 1 \<and> ms_mpp r \<le> 3 \<and> ms_uxl r = 2 \<and> ms_sxl r = 2"

definition hart_wf :: "hart \<Rightarrow> bool" where
  "hart_wf h \<longleftrightarrow> wf_regs h \<and> mstatus_wf (mstatus h)"

definition shared_wf :: "shared \<Rightarrow> bool" where
  "shared_wf s \<longleftrightarrow> clint_wf (clint_dev s) \<and> num_harts (clint_dev s) = NUM_HARTS"

lemma plevel_code_le: "plevel_code p \<le> 3"
  by (cases p) simp_all

lemma ucast_and_le:
  "(ucast (x AND 1 :: u64) :: u8) \<le> 1" "(ucast (x AND 3 :: u64) :: u8) \<le> 3"
proof -
  show "(ucast (x AND 1 :: u64) :: u8) \<le> 1" using and_1_cases [of x] by auto
  have "unat (x AND 3) < 2 ^ 2" unfolding word_mask by (rule unat_take_bit_less) simp
  then show "(ucast (x AND 3 :: u64) :: u8) \<le> 3"
    by (simp add: word_le_nat_alt unsigned_ucast_eq take_bit_eq_mod)
qed

lemma mstatus_wf_write: "mstatus_wf r \<Longrightarrow> mstatus_wf (mstatus_write_reg v r)"
  by (simp add: mstatus_wf_def mstatus_write_reg_def ucast_and_le)

lemma hart_wf_frames [simp]:
  "hart_wf (h\<lparr>wb_data := a\<rparr>) = hart_wf h" "hart_wf (h\<lparr>PC := a\<rparr>) = hart_wf h"
  "hart_wf (h\<lparr>ls_success := b\<rparr>) = hart_wf h" "hart_wf (h\<lparr>in_wfi := b\<rparr>) = hart_wf h"
  "hart_wf (h\<lparr>branch := b\<rparr>) = hart_wf h" "hart_wf (h\<lparr>INS_ADDR_MISSALIG := b\<rparr>) = hart_wf h"
  "hart_wf (h\<lparr>smp_released := b\<rparr>) = hart_wf h"
  "hart_wf (h\<lparr>post_kick_protect := n\<rparr>) = hart_wf h"
  "hart_wf (h\<lparr>INS_ACC_FAULT := b\<rparr>) = hart_wf h" "hart_wf (h\<lparr>LD_ACC_FAULT := b\<rparr>) = hart_wf h"
  "hart_wf (h\<lparr>ILL_INS := b\<rparr>) = hart_wf h" "hart_wf (h\<lparr>EBREAK := b\<rparr>) = hart_wf h"
  "hart_wf (h\<lparr>LD_ADDR_MISSALIG := b\<rparr>) = hart_wf h" "hart_wf (h\<lparr>STORE_ADDR_MISSALIG := b\<rparr>) = hart_wf h"
  "hart_wf (refresh_mip c h) = hart_wf h" "hart_wf (set_reg r v h) = hart_wf h"
  by (simp_all add: hart_wf_def wf_regs_def)

lemma hart_wf_trap:
  assumes "hart_wf h"
  shows "hart_wf (set_pc (excep_function pc a b c p h))" "hart_wf (set_pc (interrupt_function pc a p h))"
    "hart_wf (exec_mret h)" "hart_wf (take_machine_timer_irq h)" "hart_wf (take_machine_soft_irq h)"
  using assms plevel_code_le
  by (auto simp: hart_wf_def wf_regs_def mstatus_wf_def set_pc_def excep_function_def
      interrupt_function_def exec_mret_def take_machine_timer_irq_def take_machine_soft_irq_def Let_def)

lemma hart_wf_load: "hart_wf h \<Longrightarrow> hart_wf (fst (exec_load ls d (h, s)))"
  by (auto simp: exec_load_def uart_load_def load_switch_def load_commit_def hart_wf_def wf_regs_def Let_def
      split: prod.splits)

lemma hart_wf_store: "hart_wf h \<Longrightarrow> exec_store ls d (h, s) = Inr (h', s') \<Longrightarrow> hart_wf h'"
  by (auto simp: exec_store_def hart_wf_trap Let_def split: prod.splits if_splits)

lemma hart_wf_amo:
  assumes "hart_wf h"
  shows "hart_wf (fst (amo_w_switch op a1 a2 la ld (h, s)))" "hart_wf (fst (amo_d_switch op a1 a2 la (h, s)))"
  using assms
  by (auto simp: amo_w_switch_def exec_lr_w_def exec_sc_w_def exec_rmw_w_def amo_fault_def
      amo_d_switch_def exec_lr_d_def exec_sc_d_def exec_rmw_d_def hart_wf_def wf_regs_def Let_def
      split: prod.splits option.splits)

lemma write_ret_fst: "write_ret r m = (h', s') \<Longrightarrow> h' = set_reg r (ret_data (fst m)) (fst m)"
  by (auto simp: write_ret_def split_beta)

lemma hart_wf_exec_amo: "hart_wf h \<Longrightarrow> exec_amo d (h, s) = Inr (h', s') \<Longrightarrow> hart_wf h'"
  by (auto simp: exec_amo_def Let_def hart_wf_amo split: if_splits dest!: write_ret_fst)

lemma hart_wf_csr_write: "hart_wf h \<Longrightarrow> hart_wf (fst (snd (csr_write ls a v h c)))"
  by (simp add: csr_write_def hart_wf_def wf_regs_def mstatus_wf_write)

lemma clint_wf_csr_write:
  "clint_wf c \<Longrightarrow> clint_wf (snd (snd (csr_write ls a v h c)))"
  "num_harts (snd (snd (csr_write ls a v h c))) = num_harts c"
  by (simp_all add: csr_write_def clint_wf_write)

lemma hart_wf_csr_fault [simp]: "hart_wf (csr_fault d h) = hart_wf h"
  by (simp add: csr_fault_def hart_wf_def wf_regs_def)

lemma wf_exec_csr:
  assumes "hart_wf h" "shared_wf s"
  shows "hart_wf (fst (exec_csr ls new sk d (h, s))) \<and> shared_wf (snd (exec_csr ls new sk d (h, s)))"
  using assms hart_wf_csr_write [OF assms(1)] clint_wf_csr_write
  by (auto simp: exec_csr_def shared_wf_def Let_def split: prod.splits) (metis fst_conv snd_conv)+

lemma wf_systm:
  assumes "hart_wf h" "shared_wf s"
  shows "hart_wf (fst (exec_systm ls d (h, s))) \<and> shared_wf (snd (exec_systm ls d (h, s)))"
proof -
  have "hart_wf (exec_priv d h)"
    using assms(1) by (simp add: exec_priv_def hart_wf_trap)
  then show ?thesis
    using assms wf_exec_csr [OF assms] by (simp add: exec_systm_def Let_def)
qed

lemma shared_wf_frames [simp]:
  "shared_wf (mem_store i v s) = shared_wf s" "shared_wf (put_char ls b s) = shared_wf s"
  "shared_wf (s\<lparr>uart_rx_byte := c\<rparr>) = shared_wf s" "shared_wf (s\<lparr>uart_rx_byte := c, stdin := b1\<rparr>) = shared_wf s"
  by (simp_all add: shared_wf_def mem_store_def put_char_def)

lemma shared_wf_load: "shared_wf s \<Longrightarrow> shared_wf (snd (exec_load ls d (h, s)))"
  by (auto simp: exec_load_def uart_load_def Let_def split: prod.splits list.splits)

lemma shared_wf_clint_write:
  "shared_wf s \<Longrightarrow> shared_wf (s\<lparr>clint_dev := clint_write ls a v n (clint_dev s)\<rparr>)"
  by (simp add: shared_wf_def clint_wf_write)

lemma shared_wf_store: "shared_wf s \<Longrightarrow> exec_store ls d (h, s) = Inr (h', s') \<Longrightarrow> shared_wf s'"
  by (auto simp: exec_store_def shared_wf_clint_write Let_def split: prod.splits if_splits)

lemma shared_wf_amo: "shared_wf s \<Longrightarrow> exec_amo d (h, s) = Inr (h', s') \<Longrightarrow> shared_wf s'"
  by (auto simp: exec_amo_def amo_w_switch_def exec_lr_w_def exec_sc_w_def exec_rmw_w_def
      amo_d_switch_def exec_lr_d_def exec_sc_d_def exec_rmw_d_def Let_def
      split: if_splits prod.splits option.splits dest!: write_ret_snd)

lemma wf_execute:
  assumes "hart_wf h" "shared_wf s" "execute ls d (h, s) = Inr (h', s')"
  shows "hart_wf h' \<and> shared_wf s'"
  using assms hart_wf_load [OF assms(1), of ls d s] shared_wf_load [OF assms(2), of ls d h]
    wf_systm [OF assms(1,2), of ls d]
  by (auto simp: execute_def exec_lui_def exec_auipc_def exec_jump_def exec_jumpr_def exec_cjump_def
      exec_iops_def exec_iops64_def exec_rops_def exec_rops64_def Let_def
      split: if_splits dest: hart_wf_store shared_wf_store hart_wf_exec_amo shared_wf_amo)

lemma fetch_hart:
  "hart_fetch_instruction pc (h, s) = Inr (i, h') \<Longrightarrow> h' = h \<or> h' = h\<lparr>INS_ADDR_MISSALIG := True\<rparr>"
  by (auto simp: hart_fetch_instruction_def split: if_splits sum.splits)

lemma wf_run_instruction:
  assumes "hart_wf h" "shared_wf s" "run_instruction ls (h, s) = Inr (h', s')"
  shows "hart_wf h' \<and> shared_wf s'"
proof -
  obtain i h1 where f: "hart_fetch_instruction (PC h) (h, s) = Inr (i, h1)"
    using assms(3) by (auto simp: run_instruction_def split: sum.splits)
  then have "hart_wf h1" using assms(1) fetch_hart [OF f] by auto
  then have w: "hart_wf (set_reg 0 0 (h1\<lparr>PC := PC h1 + 4\<rparr>))" "hart_wf h1" by simp_all
  have "(h', s') = (h1, s) \<or> execute ls (decode i) (set_reg 0 0 (h1\<lparr>PC := PC h1 + 4\<rparr>), s) = Inr (h', s')"
    using assms(3) by (auto simp: run_instruction_def f split: if_splits)
  then show ?thesis using wf_execute [OF w(1) assms(2)] w(2) assms(2) by blast
qed

lemma hart_wf_step_interrupts: "hart_wf h \<Longrightarrow> hart_wf (step_interrupts h)"
  by (simp add: step_interrupts_def hart_wf_trap)

lemma wf_hart_step:
  assumes "hart_wf h" "shared_wf s" "hart_step ls (h, s) = Inr (h', s')"
  shows "hart_wf h' \<and> shared_wf s'"
  using assms
  by (auto simp: hart_step_def hart_wf_step_interrupts Let_def split: if_splits
      dest: wf_run_instruction [rotated 2])

subsection \<open>The emulator\<close>

definition emu_wf :: "emulator \<Rightarrow> bool" where
  "emu_wf e \<longleftrightarrow> length (harts e) = 4 \<and> list_all hart_wf (harts e) \<and> shared_wf (world e)"

lemma emu_wf_update:
  "emu_wf e \<Longrightarrow> hart_wf h \<Longrightarrow> shared_wf s \<Longrightarrow> emu_wf (e\<lparr>harts := (harts e)[i := h], world := s\<rparr>)"
  "emu_wf e \<Longrightarrow> hart_wf h \<Longrightarrow> emu_wf (e\<lparr>harts := (harts e)[i := h]\<rparr>)"
  by (simp_all add: emu_wf_def list_all_update)

lemma emu_wf_nth: "emu_wf e \<Longrightarrow> i < length (harts e) \<Longrightarrow> hart_wf (harts e ! i) \<and> shared_wf (world e)"
  by (simp add: emu_wf_def list_all_length)

lemma emu_wf_step_hart_only:
  assumes "emu_wf e" "step_hart_only ls i e = Inr e'"
  shows "emu_wf e'"
proof -
  obtain h s where st: "i < length (harts e)" "hart_step ls (harts e ! i, world e) = Inr (h, s)"
    and e': "e' = e\<lparr>harts := (harts e)[i := h], world := s\<rparr>"
    using assms(2) by (auto simp: step_hart_only_def split: if_splits sum.splits)
  then show ?thesis
    using assms(1) emu_wf_nth [OF assms(1) st(1)] wf_hart_step [OF _ _ st(2)] by (simp add: emu_wf_update)
qed

lemma emu_wf_tick: "emu_wf e \<Longrightarrow> emu_wf (tick_only e)"
  by (simp add: emu_wf_def tick_only_def shared_wf_def clint_wf_ops) (simp add: clint_advance_def)

lemma hart_wf_raise: "hart_wf h \<Longrightarrow> hart_wf (raise_exception c h)" "hart_wf h \<Longrightarrow> hart_wf (raise_interrupt c h)"
  by (simp_all add: raise_exception_def raise_interrupt_def hart_wf_trap)

lemma hart_wf_set_interrupts: "hart_wf h \<Longrightarrow> hart_set_interrupts c h = Inr h' \<Longrightarrow> hart_wf h'"
  by (auto simp: hart_set_interrupts_def Let_def hart_wf_raise split: if_splits)

lemma wf_set_interrupts_lockstep:
  assumes "hart_wf h" "shared_wf s" "hart_set_interrupts_lockstep (h, s) = Inr (k, h', s')"
  shows "hart_wf h' \<and> shared_wf s'"
  using assms(3) wf_hart_step [OF assms(1,2)]
  by (auto simp: hart_set_interrupts_lockstep_def hart_wf_raise split: sum.splits if_splits)

lemma emu_wf_set_interrupts_one:
  assumes "emu_wf e" "set_interrupts_one ls i e = Inr e'"
  shows "emu_wf e'"
proof -
  have i: "i < length (harts e)" using assms(2) by (auto simp: set_interrupts_one_def split: if_splits)
  note w = emu_wf_nth [OF assms(1) i]
  show ?thesis
    using assms w
    by (auto simp: set_interrupts_one_def emu_wf_update split: if_splits sum.splits prod.splits
        dest!: wf_set_interrupts_lockstep [rotated 2] hart_wf_set_interrupts [rotated])
qed

lemma emu_wf_new: "emu_wf (emulator_new ls t u input)"
  by (simp add: emu_wf_def emulator_new_def NUM_HARTS_def list_all_iff hart_init_def hart_fresh_def
      hart_wf_def wf_regs_def mstatus_wf_def mstatus_init_def shared_wf_def shared_init_def clint_wf_init)
   (simp add: clint_init_def)

lemma emu_wf_init: "emu_wf e \<Longrightarrow> init file e = Inr e' \<Longrightarrow> emu_wf e'"
  by (auto simp: init_def emu_wf_def shared_wf_def Let_def split: sum.splits)

lemma emu_wf_moves: "moves ls n e e' \<Longrightarrow> emu_wf e \<Longrightarrow> emu_wf e'"
  by (induction rule: moves.induct)
    (auto dest: emu_wf_step_hart_only emu_wf_tick emu_wf_set_interrupts_one)

text \<open>
  C3: from construction and the loading of any image, every sequence of hart steps, clock
  ticks and interrupt deliveries that does not end the process leaves four harts with 32
  registers and in-range status fields, and a CLINT whose vectors match its hart count.
\<close>

theorem machine_invariant:
  assumes "init file (emulator_new ls t u input) = Inr e0" "moves ls n e0 e"
  shows "emu_wf e"
  using assms emu_wf_new emu_wf_init emu_wf_moves by blast

theorem machine_invariant_witness:
  "init [] (emulator_new False 0 0 []) = Inr (emulator_new False 0 0 []) \<and>
   emu_wf (tick_only (emulator_new False 0 0 []))"
proof -
  have "init [] (emulator_new False 0 0 []) = Inr (emulator_new False 0 0 [])"
    by (simp add: init_def byte_vector_def)
  then show ?thesis
    using machine_invariant [OF _ moves_tick [OF moves_refl]] by blast
qed

end
