(* ===== verification/Image_Correct.thy ===== *)
theory Image_Correct
  imports Machine_Inv
begin

text \<open>Loading of an image into the memory of the emulator (\<open>init\<close> of \<^verbatim>\<open>emulator.h\<close>).\<close>

unbundle bit_operations_syntax

lemma init_loop_words:
  assumes "j \<le> p" "p - j < length ds" "p < MEM_WORDS"
  shows "init_loop ds (of_nat j) (of_nat p) mem =
     Inr (\<lambda>i. if j \<le> i \<and> i \<le> p then ds ! (i - j) else mem i)"
  using assms
proof (induction ds arbitrary: j mem)
  case (Cons d ds)
  have u: "unat (of_nat j :: u64) = j" "unat (of_nat p :: u64) = p"
    using Cons.prems by (simp_all add: unat_of_nat MEM_WORDS_def)
  have le: "(of_nat p :: u64) \<le> of_nat j \<longleftrightarrow> p \<le> j" by (simp add: word_le_nat_alt u)
  show ?case
  proof (cases "p \<le> j")
    case True
    then show ?thesis using Cons.prems u le by (auto simp: fun_eq_iff)
  next
    case False
    have "init_loop ds (of_nat (Suc j)) (of_nat p) (mem(j := d)) =
       Inr (\<lambda>i. if Suc j \<le> i \<and> i \<le> p then ds ! (i - Suc j) else (mem(j := d)) i)"
      using Cons.prems False by (intro Cons.IH) simp_all
    moreover have "(\<lambda>i. if Suc j \<le> i \<and> i \<le> p then ds ! (i - Suc j) else (mem(j := d)) i) =
       (\<lambda>i. if j \<le> i \<and> i \<le> p then (d # ds) ! (i - j) else mem i)"
      using False by (auto simp: fun_eq_iff nth_Cons' Suc_le_eq)
    ultimately show ?thesis using Cons.prems u le False by (simp add: add.commute)
  qed
qed simp

lemma bit_le_word:
  "length bs \<le> 8 \<Longrightarrow> bit (le_word bs) i \<longleftrightarrow> i < 8 * length bs \<and> bit (bs ! (i div 8)) (i mod 8)"
proof (induction bs arbitrary: i)
  case Nil then show ?case by (simp add: le_word_def)
next
  case (Cons b bs)
  have "le_word (b # bs) = ucast b OR push_bit 8 (le_word bs)" by (simp add: le_word_def)
  then have "bit (le_word (b # bs)) i \<longleftrightarrow> (if i < 8 then bit b i else i < 64 \<and> bit (le_word bs) (i - 8))"
    by (auto simp: bit_simps dest: bit_imp_le_length)
  also have "\<dots> \<longleftrightarrow> i < 8 * length (b # bs) \<and> bit ((b # bs) ! (i div 8)) (i mod 8)"
  proof (cases "i < 8")
    case False
    then obtain j where i: "i = j + 8" by (metis le_add_diff_inverse2 not_le)
    have "(j + 8) div 8 = Suc (j div 8)" by (simp add: div_add_self2)
    then show ?thesis using Cons.IH [of j] Cons.prems by (auto simp: i)
  qed simp
  finally show ?case .
qed

lemma mem_byte_le_word:
  assumes "a < 8 * (length file div 8)" "m (a div 8) = le_word (take 8 (drop (8 * (a div 8)) file))"
  shows "mem_byte m a = file ! a"
proof -
  let ?bs = "take 8 (drop (8 * (a div 8)) file)"
  have "a div 8 < length file div 8" using assms(1) by (simp add: less_mult_imp_div_less mult.commute)
  then have "8 * Suc (a div 8) \<le> 8 * (length file div 8)" by simp
  also have "\<dots> \<le> length file" by simp
  finally have k: "8 * (a div 8) + 8 \<le> length file" by simp
  then have m: "min (length file - 8 * (a div 8)) 8 = 8" by simp
  have n: "?bs ! (a mod 8) = file ! a" using k by simp
  show ?thesis
  proof (rule bit_word_eqI)
    fix i assume i: "i < LENGTH(8)"
    have "(8 * (a mod 8) + i) div 8 = a mod 8" "(8 * (a mod 8) + i) mod 8 = i" using i by simp_all
    moreover have "a mod 8 < 8" by simp
    then have "8 * (a mod 8) + i < 64" using i by simp
    ultimately show "bit (mem_byte m a) i = bit (file ! a) i"
      using i n m by (simp add: bit_mem_byte assms(2) bit_le_word)
  qed
qed

lemma byte_vector_nth: "k < length file \<Longrightarrow> byte_vector file ! k = le_word (take 8 (drop (8 * k) file))"
  by (simp add: byte_vector_def)

lemma init_words:
  assumes "8 \<le> length file" "length file div 8 \<le> MEM_WORDS"
  shows "init file e = Inr (e\<lparr>world := (world e)\<lparr>memory :=
     (\<lambda>i. if i < length file div 8 then byte_vector file ! i else memory (world e) i)\<rparr>\<rparr>)"
proof -
  let ?n = "length file div 8"
  have n: "0 < ?n" "?n - 1 < length file" "?n - 1 < MEM_WORDS" "length file < 2 ^ 64"
    using assms by (auto simp: MEM_WORDS_def)
  have "unat (of_nat (length file) div 8 :: u64) = ?n"
    using n(4) by (simp add: unat_div unat_of_nat)
  then have "(of_nat (length file) div 8 :: u64) = of_nat ?n" by (metis of_nat_unat ucast_id)
  then have p: "of_nat (length file) div 8 - 1 = (of_nat (?n - 1) :: u64)" using n(1) by (simp add: of_nat_diff)
  have "init_loop (byte_vector file) (of_nat 0) (of_nat (?n - 1)) (memory (world e)) =
     Inr (\<lambda>i. if 0 \<le> i \<and> i \<le> ?n - 1 then byte_vector file ! (i - 0) else memory (world e) i)"
    using n by (intro init_loop_words) (simp_all add: byte_vector_def)
  moreover have "i \<le> ?n - 1 \<longleftrightarrow> i < ?n" for i using n(1) by linarith
  ultimately show ?thesis by (simp add: init_def p cong: if_cong)
qed

text \<open>
  C15: loading an image of at least eight bytes that fits the memory places its bytes from
  the start of DRAM in little-endian order, up to the last whole 64-bit word, and leaves every
  other byte and the harts alone; the up to seven bytes after the last whole word are not
  loaded.
\<close>

theorem init_loads_bytes:
  assumes "8 \<le> length file" "length file div 8 \<le> MEM_WORDS"
  shows "\<exists>e'. init file e = Inr e' \<and> harts e' = harts e \<and>
     (\<forall>a. mem_byte (memory (world e')) a =
        (if a < 8 * (length file div 8) then file ! a else mem_byte (memory (world e)) a))"
proof -
  let ?n = "length file div 8"
  let ?m = "\<lambda>i. if i < ?n then byte_vector file ! i else memory (world e) i"
  have "mem_byte ?m a = (if a < 8 * ?n then file ! a else mem_byte (memory (world e)) a)" for a
  proof (cases "a < 8 * ?n")
    case True
    then have "a div 8 < ?n" by (simp add: less_mult_imp_div_less mult.commute)
    moreover have "?n \<le> length file" by simp
    ultimately have "a div 8 < ?n" "a div 8 < length file" by linarith+
    then show ?thesis using True by (simp add: mem_byte_le_word byte_vector_nth)
  next
    case False
    then have "\<not> a div 8 < ?n" by (simp add: div_less_iff_less_mult mult.commute)
    then show ?thesis using False by (simp add: mem_byte_def)
  qed
  then show ?thesis using init_words [OF assms, of e] by simp
qed

theorem init_loads_bytes_witness:
  "\<exists>e'. init [1, 2, 3, 4, 5, 6, 7, 8, 9] (emulator_new False 0 0 []) = Inr e' \<and>
     mem_byte (memory (world e')) 7 = 8 \<and> mem_byte (memory (world e')) 8 = 0"
proof -
  obtain e' where "init [1, 2, 3, 4, 5, 6, 7, 8, 9] (emulator_new False 0 0 []) = Inr e'"
    "\<forall>a. mem_byte (memory (world e')) a =
        (if a < 8 * (length [1, 2, 3, 4, 5, 6, 7, 8, 9 :: u8] div 8) then [1, 2, 3, 4, 5, 6, 7, 8, 9] ! a
         else mem_byte (memory (world (emulator_new False 0 0 []))) a)"
    using init_loads_bytes [of "[1, 2, 3, 4, 5, 6, 7, 8, 9]" "emulator_new False 0 0 []"]
    by (auto simp: MEM_WORDS_def)
  moreover have "mem_byte (memory (world (emulator_new False 0 0 []))) 8 = 0"
    by (simp add: emulator_new_def shared_init_def mem_byte_def lane_def)
  ultimately show ?thesis by (intro exI [of _ e']) simp
qed

end
