(* ===== verification/Device_Correct.thy ===== *)
theory Device_Correct
  imports Step_Correct
begin

text \<open>
  The devices and control registers as the software sees them: the CLINT's register banks, its
  timer, 32-bit accesses, the console, and the control and status registers.
\<close>

unbundle bit_operations_syntax

subsection \<open>CLINT registers\<close>

text \<open>
  After any sequence of 64-bit stores to timer compare registers, each register reads
  back the last value stored to it, or its old value if none was, and the CLINT stays
  well-formed.
\<close>

theorem clint_mtimecmp_stores:
  assumes "clint_wf c" "\<forall>(h, v) \<in> set ws. h < unat (num_harts c)" "j < unat (num_harts c)"
    and "c' = fold (\<lambda>(h, v). clint_write ls (mtimecmp_addr h) v 8) ws c"
  shows "clint_wf c' \<and>
     clint_read c' (mtimecmp_addr j) =
       (case map_of (rev ws) j of None \<Rightarrow> clint_read c (mtimecmp_addr j) | Some v \<Rightarrow> v)"
  using mtimecmp_bank.writes_inv [OF assms(1,2), of ls] mtimecmp_bank.rd_writes [OF assms(1-3), of ls]
  by (simp add: assms(4))

theorem clint_mtimecmp_stores_witness:
  "clint_read (fold (\<lambda>(h, v). clint_write False (mtimecmp_addr h) v 8) [(1, 5), (2, 6), (1, 7)]
     (clint_init 4 0 0)) (mtimecmp_addr 1) = 7"
  using clint_mtimecmp_stores [of "clint_init 4 0 0" "[(1, 5), (2, 6), (1, 7)]" 1 _ False, OF clint_wf_init _ _ refl]
  by (simp add: clint_init_def)

lemma mtimecmp_hi_addr:
  assumes "h < unat (num_harts c)"
  shows "in_mtimecmp c (mtimecmp_addr h + 4)" "\<not> in_msip c (mtimecmp_addr h + 4)"
    "unat ((mtimecmp_addr h + 4 - 0x2004000) div 8) = h" "(mtimecmp_addr h + 4) AND 7 = 4"
proof -
  have h: "h < 256" using assms unat_num_harts [of c] by simp
  then have u: "unat (mtimecmp_addr h + 4) = 0x2004004 + 8 * h"
    by (simp add: unat_word_ariths unat_addrs)
  show "in_mtimecmp c (mtimecmp_addr h + 4)" "\<not> in_msip c (mtimecmp_addr h + 4)"
    using assms unat_num_harts [of c] by (simp_all add: window_iffs u)
  have "0x2004000 \<le> mtimecmp_addr h + 4" by (simp add: word_le_nat_alt u)
  then have "unat (mtimecmp_addr h + 4 - 0x2004000) = 8 * h + 4" by (simp only: unat_sub u) simp
  then show "unat ((mtimecmp_addr h + 4 - 0x2004000) div 8) = h" by (simp only: unat_div) simp
  show "(mtimecmp_addr h + 4) AND 7 = 4" by (simp add: and_7_eq_iff u)
qed

text \<open>
  A 64-bit timer compare value stored as two 32-bit stores, low half at the register's
  address and high half four bytes above, in either order, is the 64-bit store of the value.
\<close>

theorem clint_mtimecmp_halves:
  assumes "clint_wf c" "h < unat (num_harts c)"
    and "lo = clint_write ls (mtimecmp_addr h) v 4"
    and "hi = clint_write ls (mtimecmp_addr h + 4) (drop_bit 32 v) 4"
  shows "hi (lo c) = clint_write ls (mtimecmp_addr h) v 8 c \<and>
     lo (hi c) = clint_write ls (mtimecmp_addr h) v 8 c"
proof -
  have h: "h < 256" using assms(2) unat_num_harts [of c] by simp
  have m: "(0xFFFFFFFF :: u64) = mask 32" "(0xFFFFFFFF00000000 :: u64) = NOT (mask 32)"
    by (simp_all add: mask_eq_exp_minus_1)
  have merge: "(((w AND 0xFFFFFFFF00000000) OR (v AND 0xFFFFFFFF)) AND 0x00000000FFFFFFFF) OR
      push_bit 32 (drop_bit 32 v AND 0xFFFFFFFF) = v"
    "(((w AND 0x00000000FFFFFFFF) OR push_bit 32 (drop_bit 32 v AND 0xFFFFFFFF)) AND 0xFFFFFFFF00000000) OR
      (v AND 0xFFFFFFFF) = v" for w :: u64
    unfolding m by (rule bit_word_eqI, auto simp: bit_simps)+
  have lo: "lo c = c\<lparr>mtimecmp := (mtimecmp c)[h := (mtimecmp c ! h AND 0xFFFFFFFF00000000) OR (v AND 0xFFFFFFFF)]\<rparr>"
    if "h < unat (num_harts c)" for c
    using that by (simp add: assms(3) clint_write_mtimecmp merge_store_def mtimecmp_addr_aligned h)
  have hi: "hi c = c\<lparr>mtimecmp := (mtimecmp c)[h := (mtimecmp c ! h AND 0x00000000FFFFFFFF) OR
      push_bit 32 (drop_bit 32 v AND 0xFFFFFFFF)]\<rparr>" if "h < unat (num_harts c)" for c
    using mtimecmp_hi_addr [OF that]
    by (simp add: assms(4) clint_write_def clint_consts merge_store_def)
  have l: "h < length (mtimecmp c)" using assms(1,2) by (simp add: clint_wf_def)
  have "clint_write ls (mtimecmp_addr h) v 8 c = c\<lparr>mtimecmp := (mtimecmp c)[h := v]\<rparr>"
    using assms(2) by (simp add: clint_write_mtimecmp merge_store_def)
  then show ?thesis
    using assms(2) l merge [of "mtimecmp c ! h"] by (simp add: lo hi)
qed

theorem clint_mtimecmp_halves_witness:
  "clint_write False (mtimecmp_addr 2 + 4) (drop_bit 32 0x1234567890) 4
     (clint_write False (mtimecmp_addr 2) 0x1234567890 4 (clint_init 4 0 0)) =
   clint_write False (mtimecmp_addr 2) 0x1234567890 8 (clint_init 4 0 0)"
proof -
  have "2 < unat (num_harts (clint_init 4 0 0))" by (simp add: clint_init_def)
  from clint_mtimecmp_halves [OF clint_wf_init this refl refl] show ?thesis by blast
qed

text \<open>
  The timer line of a hart rises after exactly the advances its compare register asks
  for: after \<open>n\<close> single advances from time \<open>t\<close>, without wrap-around of the counter, the
  line is up iff the compare value is at most \<open>t + n\<close>.
\<close>

theorem clint_timer_fires:
  assumes "unat (mtime c) + n < 2 ^ 64"
  shows "check_timer_interrupt ((clint_advance 1 ^^ n) c) h \<longleftrightarrow>
     unat (mtimecmp c ! unat h) \<le> unat (mtime c) + n"
proof -
  have s: "(clint_advance 1 ^^ n) c = c\<lparr>mtime := mtime c + of_nat n\<rparr>" for n
    by (induction n) (simp_all add: clint_advance_def add.assoc add.commute)
  have "unat (mtime c + of_nat n) = unat (mtime c) + n"
    using assms by (simp add: unat_word_ariths unat_of_nat)
  then show ?thesis by (simp add: s check_timer_interrupt_def word_le_nat_alt)
qed

theorem clint_timer_fires_witness:
  "\<not> check_timer_interrupt ((clint_advance 1 ^^ 9) (set_mtimecmp 1 10 (clint_init 4 0 0))) 1 \<and>
   check_timer_interrupt ((clint_advance 1 ^^ 10) (set_mtimecmp 1 10 (clint_init 4 0 0))) 1"
  using clint_timer_fires [of "set_mtimecmp 1 10 (clint_init 4 0 0)" 9 1]
    clint_timer_fires [of "set_mtimecmp 1 10 (clint_init 4 0 0)" 10 1]
  by (simp add: set_mtimecmp_def clint_init_def)

subsection \<open>32-bit loads from the CLINT\<close>

lemma execute_load_clint:
  assumes "d < 32" "r1 < 32" "a = eff_addr h r1 imm" "0x2000000 \<le> a" "a \<le> 0x20c0000"
  shows "execute ls (decode (enc_i 0b0000011 2 d r1 imm)) (h, s) =
     Inr (load_commit d (load_word a (clint_read (clint_dev s) a)) (\<lambda>w. sign_extend (w AND 0xFFFFFFFF) 32) h, s)"
proof -
  let ?d = "decode (enc_i 0b0000011 2 d r1 imm)"
  have d: "opcode ?d = 0b0000011" "func3 ?d = 2" "rs1 ?d = r1" "rd ?d = d" "imm11_0 ?d = take_bit 12 imm"
    using assms(1,2) by (simp_all add: decode_enc_i take_bit_reg)
  have a: "(get_reg h r1 + sign_extend (take_bit 12 imm) 12) AND 0xffffffff = a"
    using assms(3) by (simp add: eff_addr_def)
  have "\<not> bit a 63"
    using assms(3) by (simp add: eff_addr_def word_mask bit_take_bit_iff)
  then have "\<not> sint a < 0" using bit_last_iff [of a] by simp
  moreover have "a < 0x40600000" using assms(5) by (rule order.strict_trans1) simp
  then have "a \<noteq> FIFO_ADDR_TX" "a \<noteq> FIFO_ADDR_RX" "a \<noteq> FIFO_ADDR_STATUS" "\<not> 0x80000000 \<le> a"
    by (auto simp: fifo_defs not_le intro: order.strict_trans)
  ultimately show ?thesis
    using assms(4,5)
    by (simp add: execute_def d exec_load_def a load_bus_def DRAM_BASE_def CLINT_BASE_def CLINT_SIZE_def
        load_switch_def Let_def)
qed

text \<open>
  C16: a 32-bit load from the software-interrupt word of an odd hart, or from the high half of
  \<open>mtime\<close>, returns 0 whatever the register holds: \<open>CLINT::read\<close> already selects the
  addressed word, and \<open>load_word\<close> then shifts it right by 32 once more.
\<close>

theorem load_clint_upper_word_zero:
  assumes "wf_regs h" "d < 32" "r1 < 32" "a = eff_addr h r1 imm" "num_harts (clint_dev s) = 4"
    and "a \<in> {msip_addr 1, msip_addr 3, 0x200BFFC}"
  shows "\<exists>h'. execute ls (decode (enc_i 0b0000011 2 d r1 imm)) (h, s) = Inr (h', s) \<and> get_reg h' d = 0"
proof -
  have r: "0x2000000 \<le> a" "a \<le> 0x20c0000" "unat a mod 8 = 4"
    using assms(6) by (auto simp: msip_addr_def)
  have "clint_read (clint_dev s) a = ucast (msip (clint_dev s) ! 1) \<or>
      clint_read (clint_dev s) a = ucast (msip (clint_dev s) ! 3) \<or>
      clint_read (clint_dev s) a = drop_bit 32 (mtime (clint_dev s))"
    using assms(5,6) clint_read_msip [of 1 "clint_dev s"] clint_read_msip [of 3 "clint_dev s"]
    by (auto simp: clint_read_def window_iffs)
  then have "lane 4 4 (clint_read (clint_dev s) a) = 0"
    by (elim disjE) (simp_all add: lane_def, (rule bit_word_eqI, auto simp: bit_simps dest: bit_imp_le_length)+)
  then show ?thesis
    using assms(1,2) r
    by (simp add: execute_load_clint [OF assms(2-4) r(1,2)] load_word_lane load_commit_def sign_extend_def
        get_reg_def wf_regs_def word_less_nat_alt)
qed

theorem load_clint_upper_word_zero_witness:
  "\<exists>h'. execute False (decode (enc_i 0b0000011 2 5 6 4))
      (hart_fresh\<lparr>reg_file := (replicate 32 0)[6 := 0x2000000]\<rparr>,
       (shared_init 0 0 [])\<lparr>clint_dev := set_msip 1 1 (clint_init 4 0 0)\<rparr>) =
      Inr (h', (shared_init 0 0 [])\<lparr>clint_dev := set_msip 1 1 (clint_init 4 0 0)\<rparr>) \<and>
     get_reg h' 5 = 0 \<and> get_msip (set_msip 1 1 (clint_init 4 0 0)) 1 = 1"
proof -
  let ?h = "hart_fresh\<lparr>reg_file := (replicate 32 0)[6 := 0x2000000 :: u64]\<rparr>"
  let ?s = "(shared_init 0 0 [])\<lparr>clint_dev := set_msip 1 1 (clint_init 4 0 0)\<rparr>"
  have w: "wf_regs ?h" by (simp add: wf_regs_def)
  have a: "msip_addr 1 = eff_addr ?h 6 4"
    by (simp add: eff_addr_def get_reg_def sign_extend_def msip_addr_def)
  have n: "num_harts (clint_dev ?s) = 4" by (simp add: set_msip_def clint_init_def)
  have g: "get_msip (set_msip 1 1 (clint_init 4 0 0)) 1 = 1"
    by (simp add: get_msip_def set_msip_def clint_init_def)
  from load_clint_upper_word_zero [OF w _ _ a n, of 5 False] g show ?thesis by simp
qed

subsection \<open>Control and status registers\<close>

text \<open>The registers that hold all 64 bits written to them.\<close>

definition plain_csrs :: "u64 list" where
  "plain_csrs = [MEPC, MTVAL, PMPCFG0, PMPADDR0, MVENDORID, MARCHID, MIMPID, MSCRATCH, MISA,
     SCOUNTEREN, MCOUNTEREN, MTVEC, MCAUSE]"

definition csr_rd :: "hart \<Rightarrow> nat \<Rightarrow> u64" where
  "csr_rd h i = snd (csr_read h (plain_csrs ! i))"

definition csr_wr :: "bool \<Rightarrow> clint \<Rightarrow> nat \<Rightarrow> u64 \<Rightarrow> hart \<Rightarrow> hart" where
  "csr_wr ls c i v h = fst (snd (csr_write ls (plain_csrs ! i) v h c))"

lemma plain_index:
  "i < 13 \<Longrightarrow> i = 0 \<or> i = 1 \<or> i = 2 \<or> i = 3 \<or> i = 4 \<or> i = 5 \<or> i = 6 \<or> i = 7 \<or> i = 8 \<or> i = 9
     \<or> i = 10 \<or> i = 11 \<or> i = (12 :: nat)"
  by arith

lemmas csr_access_defs = csr_rd_def csr_wr_def csr_read_def csr_write_def plain_csrs_def csr_addr_defs

lemma csr_rd_wr:
  assumes "i < 13" "j < 13"
  shows "csr_rd (csr_wr ls c i v h) j = (if i = j then v else csr_rd h j)"
  using plain_index [OF assms(1)] plain_index [OF assms(2)]
  by (elim disjE) (simp_all add: csr_access_defs mtvec_read_write mcause_read_write)

interpretation csr_bank: reg_bank csr_rd "csr_wr ls c" "\<lambda>_ i. i < 13" "\<lambda>_. True" "\<lambda>v. v" for ls c
  by unfold_locales (simp_all add: csr_rd_wr)

text \<open>
  After any sequence of writes to the thirteen CSRs that keep all 64 bits, each of them
  reads back the last value written to it, or its old value: no write disturbs another
  register.
\<close>

theorem csr_plain_writes:
  assumes "\<forall>(i, v) \<in> set ws. i < 13" "j < 13"
  shows "csr_rd (fold (\<lambda>(i, v). csr_wr ls c i v) ws h) j =
     (case map_of (rev ws) j of None \<Rightarrow> csr_rd h j | Some v \<Rightarrow> v)"
  using assms by (intro csr_bank.rd_writes) simp_all

theorem csr_plain_writes_witness:
  "csr_rd (fold (\<lambda>(i, v). csr_wr False (clint_init 4 0 0) i v) [(0, 3), (11, 0x80000001), (0, 8)] hart_fresh) 11
     = 0x80000001"
  using csr_plain_writes [of "[(0, 3), (11, 0x80000001), (0, 8)]" 11] by simp

text \<open>
  The registers with fields keep the implemented bits of what is written and read the
  rest as the hardware-fixed value: \<open>mie\<close> and \<open>mip\<close> the nine interrupt bits, \<open>mstatus\<close> its
  writable fields with \<open>UXL = SXL = 2\<close>, \<open>satp\<close> the PPN and the mode when it is Sv39.
\<close>

theorem csr_masked_writes:
  assumes "cp h = MMODE" "ms_uxl (mstatus h) = 2" "ms_sxl (mstatus h) = 2"
    and "w = (\<lambda>a. fst (snd (csr_write ls a v h c)))"
  shows "csr_read (w MIE) MIE = (True, v AND 0xBBB) \<and> csr_read (w MIP) MIP = (True, v AND 0xBBB) \<and>
     csr_read (w MSTATUS) MSTATUS = (True, (v AND 0x80000000007FF9BB) + 0xA00000000) \<and>
     csr_read (w SATP) SATP =
       (True, (if drop_bit 60 v = 8 then 0x8000000000000000 else 0) + (v AND 0xFFFFFFFFFFF))"
  using assms(1-3)
  by (simp add: assms(4) csr_read_def csr_write_def csr_addr_defs mie_read_write mip_read_write
      mstatus_read_write satp_read_write)

theorem csr_masked_writes_witness:
  "csr_read (fst (snd (csr_write False MIE (-1) hart_fresh (clint_init 4 0 0)))) MIE = (True, 0xBBB)"
proof -
  have "cp hart_fresh = MMODE" "ms_uxl (mstatus hart_fresh) = 2" "ms_sxl (mstatus hart_fresh) = 2"
    by (simp_all add: hart_fresh_def mstatus_init_def)
  from csr_masked_writes [OF this refl, of False "-1" "clint_init 4 0 0"] show ?thesis by simp
qed

subsection \<open>Console\<close>

text \<open>
  The guest's receive poll: read STATUS, and if RXVALID is set read RX; the byte received, if
  any, and the state after.
\<close>

definition rx_poll :: "machine \<Rightarrow> u64 option \<times> machine" where
  "rx_poll m =
     (let m1 = uart_load False 5 FIFO_ADDR_STATUS m in
      if get_reg (fst m1) 5 AND ULITE_STATUS_RXVALID = 0 then (None, m1)
      else let m2 = uart_load False 5 FIFO_ADDR_RX m1 in (Some (get_reg (fst m2) 5), m2))"

fun rx_polls :: "nat \<Rightarrow> machine \<Rightarrow> u64 option list" where
  "rx_polls 0 m = []"
| "rx_polls (Suc n) m = (case rx_poll m of (b, m') \<Rightarrow> b # rx_polls n m')"

lemmas uart_consts = fifo_defs ULITE_STATUS_TXEMPTY_def ULITE_STATUS_RXVALID_def

lemma rx_poll_empty:
  assumes "wf_regs h" "uart_rx_byte s = -1" "stdin s = []"
  shows "\<exists>h'. rx_poll (h, s) = (None, h', s) \<and> wf_regs h'"
  using assms by (simp add: rx_poll_def uart_load_def uart_consts get_reg_def wf_regs_def Let_def)

lemma rx_poll_byte:
  assumes "wf_regs h" "uart_rx_byte s = -1" "stdin s = b # rest"
  shows "\<exists>h'. rx_poll (h, s) = (Some (ucast b), h', s\<lparr>stdin := rest\<rparr>) \<and> wf_regs h'"
  using assms
  by (cases s) (simp add: rx_poll_def uart_load_def uart_consts get_reg_def wf_regs_def Let_def)

text \<open>
  In the stand-alone build, a guest that polls the console receives the input bytes in
  order, each once, and then sees no byte: \<open>RXVALID\<close> is never raised without a byte.
\<close>

theorem uart_receives_in_order:
  assumes "wf_regs h" "uart_rx_byte s = -1"
  shows "rx_polls (length (stdin s) + k) (h, s) = map (\<lambda>b. Some (ucast b)) (stdin s) @ replicate k None"
  using assms
proof (induction "stdin s" arbitrary: h s)
  case Nil
  have "rx_polls k (h, s) = replicate k None" if "wf_regs h" for h
    using that
  proof (induction k arbitrary: h)
    case (Suc k)
    then show ?case using rx_poll_empty [OF Suc.prems Nil.prems(2) Nil.hyps [symmetric]] by auto
  qed simp
  then show ?case using Nil by simp
next
  case (Cons b rest)
  obtain h' where "rx_poll (h, s) = (Some (ucast b), h', s\<lparr>stdin := rest\<rparr>)" "wf_regs h'"
    using rx_poll_byte [OF Cons.prems Cons.hyps(2) [symmetric]] by blast
  then show ?case
    using Cons.hyps(1) [of "s\<lparr>stdin := rest\<rparr>" h'] Cons.prems(2) by (simp add: Cons.hyps(2) [symmetric])
qed

theorem uart_receives_in_order_witness:
  "rx_polls 3 (hart_fresh, shared_init 0 0 [0x41, 0x42]) = [Some 0x41, Some 0x42, None]"
proof -
  have "wf_regs hart_fresh" "uart_rx_byte (shared_init 0 0 [0x41, 0x42]) = -1" "stdin (shared_init 0 0 [0x41, 0x42]) = [0x41, 0x42]"
    by (simp_all add: wf_regs_def hart_fresh_def shared_init_def)
  then show ?thesis
    using uart_receives_in_order [of hart_fresh "shared_init 0 0 [0x41, 0x42]" 1] by (simp add: numeral_3_eq_3)
qed

end
