(* ===== verification/Util_Barrier.thy ===== *)
theory Util_Barrier
  imports Chiron_Prelude
begin

text \<open>
  The barrier of the multi-hart workloads, \<open>barrier\<close> in
  \<^verbatim>\<open>src/workloads/benchmarks/common/util.h\<close>: a sense-reversing barrier on an atomic counter.
  Each shared-memory access is one step, the harts interleave in any order, and a hart may
  enter the barrier again as soon as it has left it. The shared words are \<open>count\<close> and \<open>sense\<close>,
  the thread-local word is \<open>threadsense\<close>. The rounds a thread has entered and left are ghost
  counters.
\<close>

subsection \<open>State and steps\<close>

datatype bpc = Outside | AtAdd | AtReset | AtPublish | Waiting

record bthread =
  pc :: bpc
  threadsense :: bool
  entered :: nat
  left :: nat

record bstate =
  count :: int
  sense :: bool
  thread :: "nat \<Rightarrow> bthread"

definition bthread_init :: bthread where
  "bthread_init = \<lparr>pc = Outside, threadsense = False, entered = 0, left = 0\<rparr>"

definition barrier_init :: bstate where
  "barrier_init = \<lparr>count = 0, sense = False, thread = (\<lambda>_. bthread_init)\<rparr>"

text \<open>One step of thread \<open>t\<close>; \<open>None\<close> while it spins on \<open>sense\<close>.\<close>

definition barrier_step :: "int \<Rightarrow> nat \<Rightarrow> bstate \<Rightarrow> bstate option" where
  "barrier_step ncores t s =
     (let r = thread s t; put = (\<lambda>r s. s\<lparr>thread := (thread s)(t := r)\<rparr>) in
      case pc r of
        Outside \<Rightarrow>
          Some (put (r\<lparr>threadsense := \<not> threadsense r, pc := AtAdd, entered := Suc (entered r)\<rparr>) s)
      | AtAdd \<Rightarrow>
          (let old_count = count s in
           Some (put (r\<lparr>pc := (if old_count = ncores - 1 then AtReset else Waiting)\<rparr>)
             (s\<lparr>count := count s + 1\<rparr>)))
      | AtReset \<Rightarrow> Some (put (r\<lparr>pc := AtPublish\<rparr>) (s\<lparr>count := 0\<rparr>))
      | AtPublish \<Rightarrow>
          Some (put (r\<lparr>pc := Outside, left := Suc (left r)\<rparr>) (s\<lparr>sense := threadsense r\<rparr>))
      | Waiting \<Rightarrow>
          (if sense s \<noteq> threadsense r then None
           else Some (put (r\<lparr>pc := Outside, left := Suc (left r)\<rparr>) s)))"

inductive barrier_reach :: "nat \<Rightarrow> bstate \<Rightarrow> bool" for n where
  barrier_start: "barrier_reach n barrier_init"
| barrier_next: "barrier_reach n s \<Longrightarrow> t < n \<Longrightarrow> barrier_step (int n) t s = Some s' \<Longrightarrow> barrier_reach n s'"

subsection \<open>Invariant\<close>

text \<open>A thread has arrived in round \<open>Suc k\<close> once it has added itself to the counter.\<close>

definition arrived :: "nat \<Rightarrow> bthread \<Rightarrow> bool" where
  "arrived k r \<longleftrightarrow> entered r = Suc k \<and> pc r \<in> {AtReset, AtPublish, Waiting}"

definition thread_inv :: "nat \<Rightarrow> bthread \<Rightarrow> bool" where
  "thread_inv k r \<longleftrightarrow> threadsense r = odd (entered r) \<and>
     (case pc r of
        Outside \<Rightarrow> entered r = k \<and> left r = k
      | Waiting \<Rightarrow> (entered r = k \<or> entered r = Suc k) \<and> Suc (left r) = entered r
      | _ \<Rightarrow> entered r = Suc k \<and> left r = k)"

definition arrivals :: "nat \<Rightarrow> nat \<Rightarrow> bstate \<Rightarrow> nat set" where
  "arrivals n k s = {t. t < n \<and> arrived k (thread s t)}"

definition barrier_inv :: "nat \<Rightarrow> nat \<Rightarrow> bstate \<Rightarrow> bool" where
  "barrier_inv n k s \<longleftrightarrow>
     sense s = odd k \<and> (\<forall>t < n. thread_inv k (thread s t)) \<and>
     (\<forall>t < n. pc (thread s t) \<in> {AtReset, AtPublish} \<longrightarrow>
        (\<forall>u < n. u \<noteq> t \<longrightarrow> arrived k (thread s u) \<and> pc (thread s u) = Waiting)) \<and>
     ((\<exists>t < n. pc (thread s t) = AtPublish) \<longrightarrow> count s = 0) \<and>
     ((\<forall>t < n. pc (thread s t) \<noteq> AtPublish) \<longrightarrow> count s = int (card (arrivals n k s))) \<and>
     (\<exists>t < n. pc (thread s t) \<in> {AtReset, AtPublish} \<or> \<not> arrived k (thread s t))"

lemma finite_arrivals [simp]: "finite (arrivals n k s)"
  by (rule finite_subset [of _ "{..<n}"]) (auto simp: arrivals_def)

lemma arrivals_le: "card (arrivals n k s) \<le> n"
  using card_mono [of "{..<n}" "arrivals n k s"] by (auto simp: arrivals_def)

lemma arrivals_full: "card (arrivals n k s) = n \<Longrightarrow> u < n \<Longrightarrow> arrived k (thread s u)"
  using card_subset_eq [of "{..<n}" "arrivals n k s"] by (auto simp: arrivals_def)

lemma barrier_inv_init: "0 < n \<Longrightarrow> barrier_inv n 0 barrier_init"
  by (auto simp: barrier_inv_def barrier_init_def bthread_init_def thread_inv_def arrivals_def arrived_def)

lemma barrier_invI:
  assumes "sense s = odd k" "\<And>t. t < n \<Longrightarrow> thread_inv k (thread s t)"
    and "\<And>t u. t < n \<Longrightarrow> u < n \<Longrightarrow> u \<noteq> t \<Longrightarrow> pc (thread s t) \<in> {AtReset, AtPublish} \<Longrightarrow>
      arrived k (thread s u) \<and> pc (thread s u) = Waiting"
    and "\<And>t. t < n \<Longrightarrow> pc (thread s t) = AtPublish \<Longrightarrow> count s = 0"
    and "(\<And>t. t < n \<Longrightarrow> pc (thread s t) \<noteq> AtPublish) \<Longrightarrow> count s = int (card (arrivals n k s))"
    and "\<exists>t < n. pc (thread s t) \<in> {AtReset, AtPublish} \<or> \<not> arrived k (thread s t)"
  shows "barrier_inv n k s"
  unfolding barrier_inv_def using assms by blast

lemma barrier_invD:
  assumes "barrier_inv n k s" "t < n"
  shows "thread_inv k (thread s t)"
    "u < n \<Longrightarrow> u \<noteq> t \<Longrightarrow> pc (thread s u) \<in> {AtReset, AtPublish} \<Longrightarrow> arrived k (thread s t) \<and> pc (thread s t) = Waiting"
    "pc (thread s t) = AtPublish \<Longrightarrow> count s = 0" "sense s = odd k"
  using assms unfolding barrier_inv_def by blast+

text \<open>A thread that is not waiting in the current round sees nobody else past the counter.\<close>

lemma nobody_past:
  assumes "barrier_inv n k s" "t < n" "\<not> (arrived k (thread s t) \<and> pc (thread s t) = Waiting)"
    and "u < n" "u \<noteq> t"
  shows "pc (thread s u) \<notin> {AtReset, AtPublish}"
  using barrier_invD(2) [OF assms(1,2,4,5)] assms(3) by blast

lemma arrivals_upd:
  "arrivals n k (s\<lparr>thread := (thread s)(t := r)\<rparr>) =
     (if t < n \<and> arrived k r then insert t (arrivals n k s) else arrivals n k s - {t})"
  by (auto simp: arrivals_def)

lemma arrivals_count [simp]: "arrivals n k (s\<lparr>count := c\<rparr>) = arrivals n k s"
  by (simp add: arrivals_def)

lemma inv_local:
  assumes inv: "barrier_inv n k s" and t: "t < n" and r: "thread_inv k r" "pc r \<notin> {AtReset, AtPublish}"
    and old: "pc (thread s t) \<notin> {AtReset, AtPublish}"
    and others: "\<And>u. u < n \<Longrightarrow> u \<noteq> t \<Longrightarrow> pc (thread s u) \<notin> {AtReset, AtPublish}"
    and c: "c = count s + (if arrived k r then 1 else 0) - (if arrived k (thread s t) then 1 else 0)"
    and some: "\<exists>u < n. \<not> arrived k (((thread s)(t := r)) u)"
  shows "barrier_inv n k (s\<lparr>count := c, thread := (thread s)(t := r)\<rparr>)"
proof -
  have none: "pc (thread s u) \<notin> {AtReset, AtPublish}" if "u < n" for u using others [OF that] old by blast
  then have "\<forall>u < n. pc (thread s u) \<noteq> AtPublish" by blast
  then have cnt: "count s = int (card (arrivals n k s))"
    using inv unfolding barrier_inv_def by blast
  let ?s = "s\<lparr>count := c, thread := (thread s)(t := r)\<rparr>"
  have m: "t \<in> arrivals n k s \<longleftrightarrow> arrived k (thread s t)" using t by (simp add: arrivals_def)
  have e: "card (insert t (arrivals n k s)) = card (arrivals n k s) + (if arrived k (thread s t) then 0 else 1)"
    by (simp add: card_insert_if m)
  have d: "int (card (arrivals n k s - {t})) = int (card (arrivals n k s)) - (if arrived k (thread s t) then 1 else 0)"
  proof (cases "arrived k (thread s t)")
    case True
    then have "0 < card (arrivals n k s)" using m by (auto simp: card_gt_0_iff)
    then show ?thesis using True m by simp
  qed (use m in simp)
  have "arrivals n k ?s = arrivals n k (s\<lparr>thread := (thread s)(t := r)\<rparr>)" by (simp add: arrivals_def)
  then have "count ?s = int (card (arrivals n k ?s))"
    using t e d c cnt by (auto simp: arrivals_upd)
  moreover have "pc (thread ?s u) \<notin> {AtReset, AtPublish}" if "u < n" for u
    using none [OF that] r(2) by simp
  moreover have "thread_inv k (thread ?s u)" if "u < n" for u
    using barrier_invD(1) [OF inv that] r(1) by simp
  moreover have "sense ?s = odd k" using barrier_invD(4) [OF inv t] by simp
  moreover have "\<exists>u < n. \<not> arrived k (thread ?s u)" using some by simp
  ultimately show ?thesis by - (rule barrier_invI; blast)
qed

lemma inv_outside:
  assumes "barrier_inv n k s" "t < n" "pc (thread s t) = Outside" "barrier_step (int n) t s = Some s'"
  shows "barrier_inv n k s'"
proof -
  define r where "r = (thread s t)\<lparr>threadsense := \<not> threadsense (thread s t), pc := AtAdd,
     entered := Suc (entered (thread s t))\<rparr>"
  have s': "s' = s\<lparr>count := count s, thread := (thread s)(t := r)\<rparr>"
    using assms(3,4) by (simp add: barrier_step_def r_def Let_def)
  have r: "thread_inv k r" "pc r = AtAdd" "\<not> arrived k (thread s t)" "\<not> arrived k r"
    using barrier_invD(1) [OF assms(1,2)] assms(3) by (simp_all add: thread_inv_def r_def arrived_def)
  show ?thesis unfolding s'
    by (rule inv_local [OF assms(1,2)], use r nobody_past [OF assms(1,2)] assms(2,3) in auto)
qed

lemma inv_waiting:
  assumes "barrier_inv n k s" "t < n" "pc (thread s t) = Waiting" "barrier_step (int n) t s = Some s'"
  shows "barrier_inv n k s'"
proof -
  define r where "r = (thread s t)\<lparr>pc := Outside, left := Suc (left (thread s t))\<rparr>"
  have w: "sense s = threadsense (thread s t)" "s' = s\<lparr>count := count s, thread := (thread s)(t := r)\<rparr>"
    using assms(3,4) by (simp_all add: barrier_step_def r_def Let_def split: if_splits)
  note ti = barrier_invD(1) [OF assms(1,2)]
  have e: "entered (thread s t) = k"
    using ti assms(3) w(1) barrier_invD(4) [OF assms(1,2)] by (auto simp: thread_inv_def)
  have r: "thread_inv k r" "pc r = Outside" "\<not> arrived k (thread s t)" "\<not> arrived k r"
    using ti e assms(3) by (simp_all add: thread_inv_def arrived_def r_def)
  show ?thesis unfolding w(2)
    by (rule inv_local [OF assms(1,2)], use r nobody_past [OF assms(1,2)] assms(2,3) in auto)
qed

lemma inv_reset:
  assumes "barrier_inv n k s" "t < n" "pc (thread s t) = AtReset" "barrier_step (int n) t s = Some s'"
  shows "barrier_inv n k s'"
proof -
  define r where "r = (thread s t)\<lparr>pc := AtPublish\<rparr>"
  have s': "s' = s\<lparr>count := 0, thread := (thread s)(t := r)\<rparr>"
    using assms(3,4) by (simp add: barrier_step_def r_def Let_def)
  have r: "thread_inv k r" "pc r = AtPublish"
    using barrier_invD(1) [OF assms(1,2)] assms(3) by (simp_all add: thread_inv_def r_def)
  have w: "arrived k (thread s u) \<and> pc (thread s u) = Waiting" if "u < n" "u \<noteq> t" for u
    using barrier_invD(2) [OF assms(1) that(1) assms(2)] that(2) assms(3) by simp
  show ?thesis
  proof (rule barrier_invI)
    show "sense s' = odd k" using barrier_invD(4) [OF assms(1,2)] by (simp add: s')
    show "thread_inv k (thread s' u)" if "u < n" for u
      using barrier_invD(1) [OF assms(1) that] r(1) by (simp add: s')
    show "arrived k (thread s' u) \<and> pc (thread s' u) = Waiting"
      if "v < n" "u < n" "u \<noteq> v" "pc (thread s' v) \<in> {AtReset, AtPublish}" for v u
    proof -
      have "v = t" using w [OF that(1)] that(4) by (cases "v = t") (simp_all add: s')
      then show ?thesis using w [OF that(2)] that(3) by (simp add: s')
    qed
    show "count s' = int (card (arrivals n k s'))" if "\<And>u. u < n \<Longrightarrow> pc (thread s' u) \<noteq> AtPublish"
      using that [OF assms(2)] r(2) by (simp add: s')
    show "\<exists>u < n. pc (thread s' u) \<in> {AtReset, AtPublish} \<or> \<not> arrived k (thread s' u)"
      using assms(2) r(2) by (intro exI [of _ t]) (simp add: s')
  qed (simp add: s')
qed

lemma inv_publish:
  assumes "barrier_inv n k s" "t < n" "pc (thread s t) = AtPublish" "barrier_step (int n) t s = Some s'"
  shows "barrier_inv n (Suc k) s'"
proof -
  define r where "r = (thread s t)\<lparr>pc := Outside, left := Suc (left (thread s t))\<rparr>"
  have s': "s' = s\<lparr>sense := threadsense (thread s t), thread := (thread s)(t := r)\<rparr>"
    using assms(3,4) by (simp add: barrier_step_def r_def Let_def)
  have ti: "threadsense (thread s t) = odd (Suc k)" "thread_inv (Suc k) r" "pc r = Outside"
    using barrier_invD(1) [OF assms(1,2)] assms(3) by (simp_all add: thread_inv_def r_def)
  have w: "arrived k (thread s u) \<and> pc (thread s u) = Waiting" if "u < n" "u \<noteq> t" for u
    using barrier_invD(2) [OF assms(1) that(1) assms(2)] that(2) assms(3) by simp
  have o: "thread_inv (Suc k) (thread s' u) \<and> pc (thread s' u) \<notin> {AtReset, AtPublish} \<and>
      \<not> arrived (Suc k) (thread s' u)" if "u < n" for u
    using w [OF that] barrier_invD(1) [OF assms(1) that] ti
    by (cases "u = t") (simp_all add: s' thread_inv_def arrived_def)
  have "arrivals n (Suc k) s' = {}" using o by (auto simp: arrivals_def)
  moreover have "count s' = 0" using barrier_invD(3) [OF assms(1,2,3)] by (simp add: s')
  moreover have "sense s' = odd (Suc k)" using ti(1) by (simp add: s')
  ultimately show ?thesis using o assms(2) by (intro barrier_invI) auto
qed

lemma inv_add:
  assumes "barrier_inv n k s" "t < n" "pc (thread s t) = AtAdd" "barrier_step (int n) t s = Some s'"
  shows "barrier_inv n k s'"
proof -
  define r where "r = (thread s t)\<lparr>pc := (if count s = int n - 1 then AtReset else Waiting)\<rparr>"
  have s': "s' = s\<lparr>count := count s + 1, thread := (thread s)(t := r)\<rparr>"
    using assms(3,4) by (simp add: barrier_step_def r_def Let_def)
  have na: "\<not> arrived k (thread s t)" using assms(3) by (simp add: arrived_def)
  have past: "pc (thread s u) \<notin> {AtReset, AtPublish}" if "u < n" for u
    using nobody_past [OF assms(1,2) _ that] na assms(3) by (cases "u = t") simp_all
  have r: "thread_inv k r" "arrived k r"
    using barrier_invD(1) [OF assms(1,2)] assms(3) by (simp_all add: thread_inv_def r_def arrived_def)
  have "\<forall>u < n. pc (thread s u) \<noteq> AtPublish" using past by blast
  then have cnt: "count s = int (card (arrivals n k s))"
    using assms(1) unfolding barrier_inv_def by blast
  have "arrivals n k s' = insert t (arrivals n k s)" "t \<notin> arrivals n k s"
    using assms(2) r(2) na by (auto simp: s' arrivals_def)
  then have c': "card (arrivals n k s') = Suc (card (arrivals n k s))" by simp
  show ?thesis
  proof (cases "count s = int n - 1")
    case True
    then have "card (arrivals n k s') = n" using c' cnt assms(2) by simp
    then have all: "arrived k (thread s' u)" if "u < n" for u using arrivals_full that by blast
    have w: "pc (thread s' u) = Waiting" if "u < n" "u \<noteq> t" for u
      using all [OF that(1)] past [OF that(1)] that(2) by (auto simp: s' arrived_def)
    have t: "pc (thread s' t) = AtReset" using True by (simp add: s' r_def)
    show ?thesis
    proof (rule barrier_invI)
      show "sense s' = odd k" using barrier_invD(4) [OF assms(1,2)] by (simp add: s')
      show "thread_inv k (thread s' u)" if "u < n" for u
        using barrier_invD(1) [OF assms(1) that] r(1) by (simp add: s')
      show "arrived k (thread s' u) \<and> pc (thread s' u) = Waiting"
        if "v < n" "u < n" "u \<noteq> v" "pc (thread s' v) \<in> {AtReset, AtPublish}" for v u
        using all [OF that(2)] w [OF that(1)] w [OF that(2)] that(3,4) by fastforce
      show "count s' = 0" if "v < n" "pc (thread s' v) = AtPublish" for v
        using w [OF that(1)] t that(2) by (cases "v = t") simp_all
      show "count s' = int (card (arrivals n k s'))" using c' cnt by (simp add: s')
      show "\<exists>u < n. pc (thread s' u) \<in> {AtReset, AtPublish} \<or> \<not> arrived k (thread s' u)"
        using t assms(2) by blast
    qed
  next
    case False
    then have "card (arrivals n k s') \<noteq> n" using c' cnt by auto
    moreover have "arrivals n k s' = {..<n}" if "\<forall>u < n. arrived k (thread s' u)"
      using that by (auto simp: arrivals_def)
    ultimately have "\<exists>u < n. \<not> arrived k (thread s' u)" by (metis card_lessThan)
    then have some: "\<exists>u < n. \<not> arrived k (((thread s)(t := r)) u)" by (simp add: s')
    have pr: "pc r \<notin> {AtReset, AtPublish}" using False by (simp add: r_def)
    show ?thesis unfolding s'
      by (rule inv_local [OF assms(1,2) r(1) pr _ _ _ some]) (use past r(2) na assms(2) in simp_all)
  qed
qed

lemma barrier_reach_inv:
  assumes "barrier_reach n s" "0 < n"
  shows "\<exists>k. barrier_inv n k s"
  using assms
proof (induction rule: barrier_reach.induct)
  case barrier_start
  then show ?case using barrier_inv_init by blast
next
  case (barrier_next s t s')
  then obtain k where k: "barrier_inv n k s" by blast
  note st = k barrier_next.hyps(2) _ barrier_next.hyps(3)
  have "barrier_inv n k s' \<or> barrier_inv n (Suc k) s'"
  proof (cases "pc (thread s t)")
    case Outside then show ?thesis using inv_outside [OF st] by simp
  next
    case AtAdd then show ?thesis using inv_add [OF st] by simp
  next
    case AtReset then show ?thesis using inv_reset [OF st] by simp
  next
    case AtPublish then show ?thesis using inv_publish [OF st] by simp
  next
    case Waiting then show ?thesis using inv_waiting [OF st] by simp
  qed
  then show ?case by blast
qed

subsection \<open>What the barrier guarantees\<close>

text \<open>
  C22: in every interleaving no hart leaves its \<open>k\<close>-th barrier before every hart has entered
  its \<open>k\<close>-th, although harts may race ahead into the next round; and the counter stays
  between 0 and the number of harts.
\<close>

theorem barrier_safe:
  assumes "barrier_reach n s" "t < n" "u < n"
  shows "left (thread s t) \<le> entered (thread s u) \<and> 0 \<le> count s \<and> count s \<le> int n"
proof -
  obtain k where k: "barrier_inv n k s" using barrier_reach_inv [OF assms(1)] assms(2) by auto
  have "left (thread s t) \<le> k" "k \<le> entered (thread s u)"
    using barrier_invD(1) [OF k assms(2)] barrier_invD(1) [OF k assms(3)]
    by (auto simp: thread_inv_def split: bpc.splits)
  moreover have "count s = 0 \<or> count s = int (card (arrivals n k s))"
    using k unfolding barrier_inv_def by blast
  ultimately show ?thesis using arrivals_le [of n k s] by auto
qed


text \<open>A schedule of steps, for concrete runs.\<close>

fun barrier_run :: "nat \<Rightarrow> nat list \<Rightarrow> bstate \<Rightarrow> bstate option" where
  "barrier_run n [] s = Some s"
| "barrier_run n (t # ts) s =
     (if t < n then (case barrier_step (int n) t s of None \<Rightarrow> None | Some s' \<Rightarrow> barrier_run n ts s') else None)"

lemma barrier_run_reach: "barrier_reach n s \<Longrightarrow> barrier_run n ts s = Some s' \<Longrightarrow> barrier_reach n s'"
  by (induction ts arbitrary: s) (auto split: if_splits option.splits intro: barrier_next)

theorem barrier_safe_witness:
  "\<exists>s. barrier_run 2 [0, 0, 1, 1, 1, 1] barrier_init = Some s \<and> left (thread s 1) = 1 \<and>
     left (thread s 1) \<le> entered (thread s 0)"
proof -
  obtain s where s: "barrier_run 2 [0, 0, 1, 1, 1, 1] barrier_init = Some s" "left (thread s 1) = 1"
    by (simp add: barrier_step_def barrier_init_def bthread_init_def Let_def)
  then show ?thesis
    using barrier_safe [OF barrier_run_reach [OF barrier_start s(1)], of 1 0] by simp
qed


end
