(* ===== verification/Stress.thy ===== *)
theory Stress
  imports Alu_Correct
begin

text \<open>
  The constrained-random stress program of the workloads,
  \<^verbatim>\<open>src/workloads/benchmarks/mt-stress/mt-stress.c\<close>. Its 120 blocks are of seven kinds, which
  the type \<open>block\<close> names with their parameters; \<open>stress_program\<close> lists them in source order
  and \<open>stress_step\<close> gives one hart's next access, by the semantics \<open>rv_sem\<close> of the
  instructions the inline assembly names. The four harts interleave in any order. LR.D and
  SC.D are two steps; a store of another hart to the word in between, or the environment,
  makes SC.D fail and the loop retry. The value of \<open>mtime\<close> is the environment's.
\<close>

unbundle bit_operations_syntax

subsection \<open>Operand stream\<close>

definition nextrand_state :: "u64 \<Rightarrow> u64" where
  "nextrand_state s =
     (let x = s; x = x XOR drop_bit 12 x; x = x XOR push_bit 25 x; x = x XOR drop_bit 27 x in x)"

definition nextrand :: "u64 \<Rightarrow> u64 \<times> u64" where
  "nextrand s = (let x = nextrand_state s in (x * 2685821657736338717, x))"

subsection \<open>Blocks\<close>

datatype amo_kind = AmoAnd | AmoOr | AmoSwap | AmoXor

datatype block =
    DivPair u64 rv_op rv_op
  | ScratchRW nat nat
  | Amo amo_kind nat
  | MtimeRead u64
  | Nested u64 u64 u64 rv_op
  | LrScInc nat
  | FenceI

fun amo_apply :: "amo_kind \<Rightarrow> u64 \<Rightarrow> u64 \<Rightarrow> u64" where
  "amo_apply AmoAnd m v = m AND v"
| "amo_apply AmoOr m v = m OR v"
| "amo_apply AmoSwap m v = v"
| "amo_apply AmoXor m v = m XOR v"

definition div_pair :: "u64 \<Rightarrow> rv_op \<Rightarrow> rv_op \<Rightarrow> u64 \<Rightarrow> u64 \<Rightarrow> u64" where
  "div_pair m o1 o2 acc d =
     (let (q, p) = (if acc AND m = 0 then (0, 0)
                    else let q = rv_sem o1 acc d in (q, rv_sem o2 q d))
      in acc + (q XOR push_bit 1 p))"

definition mtime_read :: "u64 \<Rightarrow> u64 \<Rightarrow> u64 \<Rightarrow> u64" where
  "mtime_read m mt acc = acc XOR drop_bit 3 (if acc AND m = 0 then 0 else mt)"

definition nested :: "u64 \<Rightarrow> u64 \<Rightarrow> u64 \<Rightarrow> rv_op \<Rightarrow> u64 \<Rightarrow> u64 \<Rightarrow> u64" where
  "nested m1 m2 m3 op acc d =
     acc + (if acc AND m1 = 0 then 0
            else (if acc AND m2 = 0 then 0
                  else (if acc AND m3 = 0 then 0 else rv_sem op acc d) + 1) + 2)"

definition stress_part_1 :: "block list" where
  "stress_part_1 = [
     DivPair 1 R_DIV R_DIVW, ScratchRW 230 241, Amo AmoAnd 6,
     DivPair 15 R_REMW R_DIVU, MtimeRead 7, DivPair 3 R_REMW R_DIVW,
     ScratchRW 52 162, DivPair 1 R_DIVU R_DIVU, Nested 7 1 3 R_DIVU,
     LrScInc 0, ScratchRW 113 224, ScratchRW 119 176]"

definition stress_part_2 :: "block list" where
  "stress_part_2 = [
     DivPair 7 R_REM R_REMW, DivPair 3 R_REMUW R_DIVU, Amo AmoXor 3,
     FenceI, Nested 7 7 7 R_DIVU, MtimeRead 7,
     Amo AmoOr 9, Nested 7 3 7 R_DIVU, MtimeRead 7,
     DivPair 15 R_REMW R_REMU, MtimeRead 7]"

definition stress_part_3 :: "block list" where
  "stress_part_3 = [
     DivPair 1 R_DIVW R_DIVW, MtimeRead 7, ScratchRW 55 83,
     ScratchRW 201 189, ScratchRW 15 240, DivPair 3 R_DIVUW R_REMW,
     DivPair 3 R_REM R_DIVU, ScratchRW 118 207, ScratchRW 176 180,
     MtimeRead 3, Amo AmoSwap 0, Nested 7 7 1 R_DIVU,
     ScratchRW 105 218, DivPair 3 R_REMW R_DIVW]"

definition stress_part_4 :: "block list" where
  "stress_part_4 = [
     ScratchRW 211 248, Nested 3 3 1 R_DIVU, ScratchRW 169 234,
     ScratchRW 14 117, Amo AmoOr 5, DivPair 1 R_DIVUW R_DIVU,
     DivPair 1 R_DIVU R_REMW, Nested 1 3 1 R_DIVU, ScratchRW 94 176,
     Nested 1 1 1 R_DIVU, Nested 7 1 7 R_DIVU]"

definition stress_part_5 :: "block list" where
  "stress_part_5 = [
     Nested 7 7 3 R_DIVU, MtimeRead 7, Nested 3 3 1 R_DIVU,
     DivPair 7 R_DIVUW R_REMW, MtimeRead 1, Nested 1 3 7 R_DIVU,
     ScratchRW 107 221, DivPair 15 R_REM R_DIVU, DivPair 15 R_DIVU R_REMU]"

definition stress_part_6 :: "block list" where
  "stress_part_6 = [
     LrScInc 13, ScratchRW 112 230, DivPair 7 R_DIVU R_REMW,
     Amo AmoAnd 1, FenceI, Nested 1 1 1 R_DIVU,
     Nested 1 1 3 R_DIVU, Nested 7 1 3 R_DIVU, ScratchRW 129 66,
     DivPair 15 R_DIVU R_REMU, DivPair 3 R_DIVU R_REMW]"

definition stress_part_7 :: "block list" where
  "stress_part_7 = [
     Nested 1 1 7 R_DIVU, Amo AmoAnd 6, ScratchRW 53 199,
     Nested 7 3 1 R_DIVU, Nested 7 3 3 R_DIVU, DivPair 7 R_REMU R_REMU,
     ScratchRW 69 173, MtimeRead 1, Nested 7 1 3 R_DIVU,
     ScratchRW 176 248, ScratchRW 120 33]"

definition stress_part_8 :: "block list" where
  "stress_part_8 = [
     LrScInc 1, DivPair 3 R_REMU R_REMU, ScratchRW 109 137,
     Nested 7 7 3 R_DIVU, Nested 3 3 1 R_DIVU, Nested 1 7 7 R_DIVU,
     ScratchRW 69 53, Nested 1 3 1 R_DIVU, Nested 1 1 3 R_DIVU]"

definition stress_part_9 :: "block list" where
  "stress_part_9 = [
     DivPair 3 R_REMUW R_DIVU, ScratchRW 41 136, Nested 3 7 7 R_DIVU,
     DivPair 1 R_REMW R_DIVW, DivPair 1 R_DIVUW R_DIVU, DivPair 1 R_REMUW R_DIVU,
     DivPair 3 R_REM R_REMW, DivPair 3 R_REMW R_REMU, DivPair 15 R_DIV R_REMW,
     ScratchRW 150 129, LrScInc 15]"

definition stress_part_10 :: "block list" where
  "stress_part_10 = [
     Nested 1 1 7 R_DIVU, Nested 1 1 1 R_DIVU, Nested 7 7 3 R_DIVU,
     MtimeRead 3, Nested 3 1 1 R_DIVU, Nested 7 3 1 R_DIVU,
     Nested 1 7 7 R_DIVU]"

definition stress_part_11 :: "block list" where
  "stress_part_11 = [
     LrScInc 15, Amo AmoXor 8, DivPair 3 R_REM R_DIVW,
     Nested 3 1 3 R_DIVU, DivPair 7 R_REMW R_DIVU, DivPair 1 R_REMUW R_DIVW,
     Nested 1 3 7 R_DIVU, Nested 1 3 1 R_DIVU, ScratchRW 47 125,
     DivPair 15 R_DIVU R_REMU]"

definition stress_part_12 :: "block list" where
  "stress_part_12 = [
     DivPair 1 R_DIVUW R_DIVU, DivPair 7 R_DIVU R_DIVW, ScratchRW 240 78,
     DivPair 3 R_DIVW R_DIVU]"

definition stress_program :: "block list" where
  "stress_program = concat [stress_part_1, stress_part_2, stress_part_3, stress_part_4, stress_part_5, stress_part_6, stress_part_7, stress_part_8, stress_part_9, stress_part_10, stress_part_11, stress_part_12]"

subsection \<open>State and steps\<close>

text \<open>
  \<open>lr\<close> is the value a pending LR.D loaded and whether its reservation still stands;
  \<open>finished\<close> marks the store to \<open>results\<close>.
\<close>

record sthread =
  rng :: u64
  acc :: u64
  dvr :: u64
  todo :: "block list"
  lr :: "(u64 \<times> bool) option"
  finished :: bool

record sstate =
  scratch :: "nat \<Rightarrow> nat \<Rightarrow> u64"
  sharedw :: "nat \<Rightarrow> u64"
  results :: "nat \<Rightarrow> u64"
  sharts :: "nat \<Rightarrow> sthread"

definition stress_seed :: "nat \<Rightarrow> u64" where
  "stress_seed cid = 0x9E3779B97F4A7C15 XOR (of_nat cid * 0x1000193)"

definition sthread_init :: "nat \<Rightarrow> sthread" where
  "sthread_init cid = \<lparr>rng = stress_seed cid, acc = of_nat cid + 1, dvr = 1, todo = stress_program,
     lr = None, finished = False\<rparr>"

definition stress_init :: sstate where
  "stress_init = \<lparr>scratch = (\<lambda>_ _. 0), sharedw = (\<lambda>_. 0), results = (\<lambda>_. 0), sharts = sthread_init\<rparr>"

text \<open>The two draws after every block.\<close>

definition redraw :: "u64 \<Rightarrow> sthread \<Rightarrow> sthread" where
  "redraw a r =
     (let (v1, s1) = nextrand (rng r); (v2, s2) = nextrand s1
      in r\<lparr>rng := s2, acc := a XOR v2, dvr := v1 AND 0xffff, todo := tl (todo r), lr := None\<rparr>)"

definition lr_target :: "sthread \<Rightarrow> nat option" where
  "lr_target r = (case todo r of LrScInc k # _ \<Rightarrow> Some k | _ \<Rightarrow> None)"

text \<open>A store to word \<open>k\<close> by hart \<open>i\<close> breaks the other harts' reservations on it.\<close>

definition break_lr :: "nat \<Rightarrow> sthread \<Rightarrow> sthread" where
  "break_lr k r = (if lr_target r = Some k then r\<lparr>lr := map_option (\<lambda>(v, _). (v, False)) (lr r)\<rparr> else r)"

definition store_shared :: "nat \<Rightarrow> nat \<Rightarrow> u64 \<Rightarrow> sstate \<Rightarrow> sstate" where
  "store_shared i k v s =
     s\<lparr>sharedw := (sharedw s)(k := v), sharts := (\<lambda>j. if j = i then sharts s j else break_lr k (sharts s j))\<rparr>"

definition put_hart :: "nat \<Rightarrow> sthread \<Rightarrow> sstate \<Rightarrow> sstate" where
  "put_hart i r s = s\<lparr>sharts := (sharts s)(i := r)\<rparr>"

definition stress_step :: "u64 \<Rightarrow> bool \<Rightarrow> nat \<Rightarrow> sstate \<Rightarrow> sstate" where
  "stress_step mt sc_ok i s =
     (let r = sharts s i; a = acc r in
      case todo r of
        [] \<Rightarrow> put_hart i (r\<lparr>finished := True\<rparr>) (s\<lparr>results := (results s)(i := a)\<rparr>)
      | DivPair m o1 o2 # _ \<Rightarrow> put_hart i (redraw (div_pair m o1 o2 a (dvr r)) r) s
      | ScratchRW p q # _ \<Rightarrow>
          (let row = (scratch s i)(p := a)
           in put_hart i (redraw (a + row q) r) (s\<lparr>scratch := (scratch s)(i := row)\<rparr>))
      | Amo op k # _ \<Rightarrow>
          (let old = sharedw s k
           in put_hart i (redraw (a + old) r) (store_shared i k (amo_apply op old (a OR 1)) s))
      | MtimeRead m # _ \<Rightarrow> put_hart i (redraw (mtime_read m mt a) r) s
      | Nested m1 m2 m3 op # _ \<Rightarrow> put_hart i (redraw (nested m1 m2 m3 op a (dvr r)) r) s
      | LrScInc k # _ \<Rightarrow>
          (case lr r of
             None \<Rightarrow> put_hart i (r\<lparr>lr := Some (sharedw s k, True)\<rparr>) s
           | Some (v, valid) \<Rightarrow>
               if valid \<and> sc_ok then put_hart i (redraw (a + (v + 1)) r) (store_shared i k (v + 1) s)
               else put_hart i (r\<lparr>lr := None\<rparr>) s)
      | FenceI # _ \<Rightarrow> put_hart i (redraw a r) s)"

inductive stress_reach :: "sstate \<Rightarrow> bool" where
  stress_start: "stress_reach stress_init"
| stress_next: "stress_reach s \<Longrightarrow> i < 4 \<Longrightarrow> stress_reach (stress_step mt sc_ok i s)"

subsection \<open>Frames\<close>

lemma redraw_simps [simp]:
  "todo (redraw a r) = tl (todo r)" "lr (redraw a r) = None" "finished (redraw a r) = finished r"
  "rng (redraw a r) = nextrand_state (nextrand_state (rng r))"
  by (simp_all add: redraw_def nextrand_def Let_def)

lemma dvr_redraw: "dvr (redraw a r) < 0x10000"
proof -
  have "unat (x AND 0xffff :: u64) < 2 ^ 16" for x
    using unat_take_bit_less [of 16 x] by (simp add: word_mask)
  then show ?thesis by (simp add: redraw_def nextrand_def Let_def word_less_nat_alt)
qed

lemma break_lr_simps [simp]:
  "todo (break_lr k r) = todo r" "rng (break_lr k r) = rng r" "acc (break_lr k r) = acc r"
  "dvr (break_lr k r) = dvr r" "finished (break_lr k r) = finished r"
  by (simp_all add: break_lr_def)

lemma put_hart_simps [simp]:
  "sharts (put_hart i r s) = (sharts s)(i := r)" "sharedw (put_hart i r s) = sharedw s"
  "scratch (put_hart i r s) = scratch s" "results (put_hart i r s) = results s"
  by (simp_all add: put_hart_def)

lemma store_shared_simps [simp]:
  "sharts (store_shared i k v s) j = (if j = i then sharts s j else break_lr k (sharts s j))"
  "sharedw (store_shared i k v s) = (sharedw s)(k := v)"
  "scratch (store_shared i k v s) = scratch s" "results (store_shared i k v s) = results s"
  by (simp_all add: store_shared_def)

lemmas step_splits = list.splits block.splits option.splits prod.splits if_splits

lemma stress_step_other:
  assumes "j \<noteq> i"
  shows "sharts (stress_step mt ok i s) j = sharts s j \<or>
    (\<exists>k. sharts (stress_step mt ok i s) j = break_lr k (sharts s j))"
  using assms by (auto simp: stress_step_def Let_def split: step_splits)

lemma stress_step_todo: "j \<noteq> i \<Longrightarrow> todo (sharts (stress_step mt ok i s) j) = todo (sharts s j)"
  using stress_step_other [of j i mt ok s] by auto

lemma stress_step_rows:
  assumes "j \<noteq> i"
  shows "scratch (stress_step mt ok i s) j = scratch s j" "results (stress_step mt ok i s) j = results s j"
  using assms by (auto simp: stress_step_def Let_def split: step_splits)

text \<open>
  Harts do not interfere: a step of one hart leaves the scratch row, the result, the
  accumulator, the operand stream and the remaining blocks of every other hart alone.
\<close>

theorem stress_isolated:
  assumes "j \<noteq> i" "s' = stress_step mt ok i s"
  shows "scratch s' j = scratch s j \<and> results s' j = results s j \<and> acc (sharts s' j) = acc (sharts s j) \<and>
     rng (sharts s' j) = rng (sharts s j) \<and> dvr (sharts s' j) = dvr (sharts s j) \<and>
     todo (sharts s' j) = todo (sharts s j)"
  using stress_step_other [OF assms(1), of mt ok s] stress_step_rows [OF assms(1), of mt ok s] assms(2) by auto

theorem stress_isolated_witness:
  "scratch (stress_step 0 True 0 stress_init) 1 = (\<lambda>_. 0)"
  using stress_isolated [of 1 0 "stress_step 0 True 0 stress_init" 0 True stress_init] by (simp add: stress_init_def)

subsection \<open>Invariant\<close>

definition hart_inv :: "sstate \<Rightarrow> nat \<Rightarrow> bool" where
  "hart_inv s i \<longleftrightarrow>
     (let r = sharts s i; n = length stress_program - length (todo r) in
      n \<le> length stress_program \<and> todo r = drop n stress_program \<and>
      rng r = (nextrand_state ^^ (2 * n)) (stress_seed i) \<and> dvr r < 0x10000 \<and>
      (finished r \<longrightarrow> todo r = []) \<and>
      (\<forall>v. lr r = Some (v, True) \<longrightarrow> (\<exists>k. lr_target r = Some k \<and> sharedw s k = v)))"

lemma lr_target_lr [simp]: "lr_target (r\<lparr>lr := x\<rparr>) = lr_target r"
  by (simp add: lr_target_def)

lemma hart_inv_init: "hart_inv stress_init i"
  by (simp add: hart_inv_def stress_init_def sthread_init_def Let_def)

lemma hart_inv_frame:
  assumes "hart_inv s i" "sharts s' i = sharts s i \<or> (\<exists>k. sharts s' i = break_lr k (sharts s i))"
    and "\<And>k v. lr_target (sharts s i) = Some k \<Longrightarrow> lr (sharts s' i) = Some (v, True) \<Longrightarrow> sharedw s' k = sharedw s k"
  shows "hart_inv s' i"
  using assms by (auto simp: hart_inv_def Let_def break_lr_def lr_target_def split: if_splits)

lemma hart_inv_other:
  assumes "hart_inv s j" "j \<noteq> i"
  shows "hart_inv (stress_step mt ok i s) j"
proof (rule hart_inv_frame [OF assms(1) stress_step_other [OF assms(2)]])
  fix k v
  assume "lr_target (sharts s j) = Some k" "lr (sharts (stress_step mt ok i s) j) = Some (v, True)"
  then show "sharedw (stress_step mt ok i s) k = sharedw s k"
    using assms(2)
    by (auto simp: stress_step_def break_lr_def Let_def split: step_splits)
qed

lemma drop_advance:
  assumes "xs = drop n P" "n = length P - length xs" "n \<le> length P" "xs \<noteq> []"
  shows "length P - length (tl xs) = Suc n" "tl xs = drop (Suc n) P" "Suc n \<le> length P"
proof -
  have n: "n < length P" "length xs = length P - n" using assms(1,4) by auto
  then show "length P - length (tl xs) = Suc n" "Suc n \<le> length P" by auto
  show "tl xs = drop (Suc n) P" by (simp add: assms(1) drop_Suc tl_drop)
qed

lemma hart_inv_redraw:
  assumes "hart_inv s i" "todo (sharts s i) \<noteq> []" "sharts s' i = redraw a (sharts s i)"
  shows "hart_inv s' i"
proof -
  define n where "n = length stress_program - length (todo (sharts s i))"
  have t: "todo (sharts s i) = drop n stress_program" "n \<le> length stress_program"
    "rng (sharts s i) = (nextrand_state ^^ (2 * n)) (stress_seed i)" "\<not> finished (sharts s i)"
    using assms(1,2) by (auto simp: hart_inv_def n_def Let_def)
  note adv = drop_advance [OF t(1) n_def t(2) assms(2)]
  show ?thesis
    unfolding hart_inv_def assms(3) Let_def redraw_simps adv(1)
    using adv(2,3) t(3,4) dvr_redraw by simp
qed

lemma hart_inv_self:
  assumes "hart_inv s i"
  shows "hart_inv (stress_step mt ok i s) i"
proof (cases "todo (sharts s i)")
  case Nil
  then show ?thesis
    using assms by (simp add: stress_step_def hart_inv_def lr_target_def Let_def)
next
  case (Cons b rest)
  consider a where "sharts (stress_step mt ok i s) i = redraw a (sharts s i)"
    | k where "b = LrScInc k" "stress_step mt ok i s = put_hart i ((sharts s i)\<lparr>lr := Some (sharedw s k, True)\<rparr>) s"
    | "stress_step mt ok i s = put_hart i ((sharts s i)\<lparr>lr := None\<rparr>) s"
    using Cons by (cases b; cases "lr (sharts s i)"; cases ok; cases "snd (the (lr (sharts s i)))") (auto simp: stress_step_def Let_def split: prod.splits if_splits)
  then show ?thesis
  proof cases
    case 1
    then show ?thesis using hart_inv_redraw [OF assms] Cons by simp
  next
    case 2
    then have "lr_target (sharts s i) = Some k" using Cons by (simp add: lr_target_def)
    then show ?thesis using assms 2(2) by (simp add: hart_inv_def Let_def)
  next
    case 3
    then show ?thesis using assms by (simp add: hart_inv_def Let_def)
  qed
qed

lemma stress_reach_inv: "stress_reach s \<Longrightarrow> hart_inv s h"
proof (induction rule: stress_reach.induct)
  case stress_start then show ?case by (rule hart_inv_init)
next
  case (stress_next s i mt ok)
  then show ?case using hart_inv_self hart_inv_other by (cases "h = i") auto
qed

text \<open>
  The operands of a hart do not depend on the interleaving: after \<open>n\<close> blocks its
  generator has made exactly \<open>2 n\<close> draws from its own seed, its remaining blocks are the rest of
  the program, and its divisor is below \<open>2 ^ 16\<close>.
\<close>

theorem stress_operands:
  assumes "stress_reach s" "n = length stress_program - length (todo (sharts s i))"
  shows "todo (sharts s i) = drop n stress_program \<and>
     rng (sharts s i) = (nextrand_state ^^ (2 * n)) (stress_seed i) \<and> dvr (sharts s i) < 0x10000"
  using stress_reach_inv [OF assms(1), of i] by (simp add: hart_inv_def assms(2) Let_def)

theorem stress_operands_witness:
  "rng (sharts (stress_step 0 True 0 stress_init) 0) = (nextrand_state ^^ 2) (stress_seed 0)"
proof -
  have "todo (sharts stress_init 0) = DivPair 1 R_DIV R_DIVW # tl stress_program"
    by (simp add: stress_init_def sthread_init_def stress_program_def stress_part_1_def)
  then have "todo (sharts (stress_step 0 True 0 stress_init) 0) = tl stress_program"
    by (simp add: stress_step_def Let_def)
  moreover have "length stress_program = Suc (length (tl stress_program))"
    by (simp add: stress_program_def stress_part_1_def)
  ultimately have "length stress_program - length (todo (sharts (stress_step 0 True 0 stress_init) 0)) = 1"
    by simp
  then show ?thesis
    using stress_operands [OF stress_next [OF stress_start, of 0 0 True] refl, of 0] by simp
qed

subsection \<open>Shared counters\<close>

definition cnt :: "nat \<Rightarrow> block list \<Rightarrow> nat" where
  "cnt k bs = length (filter (\<lambda>b. b = LrScInc k) bs)"

definition amo_free :: "nat \<Rightarrow> bool" where
  "amo_free k \<longleftrightarrow> list_all (\<lambda>b. case b of Amo _ j \<Rightarrow> j \<noteq> k | _ \<Rightarrow> True) stress_program"

definition total :: "nat \<Rightarrow> sstate \<Rightarrow> nat" where
  "total k s = (\<Sum>j < 4. cnt k (todo (sharts s j)))"

lemma total_upd:
  assumes "i < 4" "\<And>j. j \<noteq> i \<Longrightarrow> todo (sharts s' j) = todo (sharts s j)"
  shows "total k s' + cnt k (todo (sharts s i)) = total k s + cnt k (todo (sharts s' i))"
proof -
  have "sum f {..<4} = f i + sum f ({..<4} - {i})" for f :: "nat \<Rightarrow> nat"
    using assms(1) by (intro sum.remove) auto
  moreover have "(\<Sum>j \<in> {..<4} - {i}. cnt k (todo (sharts s' j))) = (\<Sum>j \<in> {..<4} - {i}. cnt k (todo (sharts s j)))"
    using assms(2) by (intro sum.cong) auto
  ultimately show ?thesis by (simp add: total_def)
qed

lemma stress_step_counter:
  assumes "hart_inv s i" "amo_free k"
  shows "sharedw (stress_step mt ok i s) k + of_nat (cnt k (todo (sharts (stress_step mt ok i s) i))) =
     sharedw s k + of_nat (cnt k (todo (sharts s i)))"
proof (cases "todo (sharts s i)")
  case Nil
  then show ?thesis by (simp add: stress_step_def cnt_def Let_def)
next
  case (Cons b rest)
  have "b \<in> set stress_program"
    using assms(1) Cons by (metis hart_inv_def in_set_dropD list.set_intros(1))
  then have free: "b \<noteq> Amo op k" for op
    using assms(2) by (auto simp: amo_free_def list_all_iff)
  have lrv: "sharedw s j = v" if "b = LrScInc j" "lr (sharts s i) = Some (v, True)" for j v
    using assms(1) Cons that by (auto simp: hart_inv_def lr_target_def Let_def)
  show ?thesis
    using free lrv Cons
    by (cases b) (auto simp: stress_step_def cnt_def Let_def split: option.splits prod.splits if_splits)
qed

lemma swap_sums: "a + x = b + y \<Longrightarrow> t + y = u + x \<Longrightarrow> a + t = b + (u :: u64)"
proof -
  assume "a + x = b + y" "t + y = u + x"
  then have "(a + x) + (t + y) = (b + y) + (u + x)" by simp
  then have "(a + t) + (x + y) = (b + u) + (x + y)" by (simp only: ac_simps)
  then show ?thesis by (simp only: add_right_cancel)
qed

lemma stress_reach_counter:
  assumes "stress_reach s" "amo_free k"
  shows "sharedw s k + of_nat (total k s) = of_nat (4 * cnt k stress_program)"
  using assms
proof (induction rule: stress_reach.induct)
  case stress_start
  have "total k stress_init = 4 * cnt k stress_program"
    by (simp add: total_def stress_init_def sthread_init_def)
  then show ?case by (simp add: stress_init_def)
next
  case (stress_next s i mt ok)
  let ?s' = "stress_step mt ok i s"
  have "total k ?s' + cnt k (todo (sharts s i)) = total k s + cnt k (todo (sharts ?s' i))"
    by (rule total_upd [OF stress_next.hyps(2)]) (rule stress_step_todo)
  then have t: "of_nat (total k ?s') + of_nat (cnt k (todo (sharts s i))) =
      (of_nat (total k s) + of_nat (cnt k (todo (sharts ?s' i))) :: u64)"
    by (metis of_nat_add)
  have "sharedw ?s' k + of_nat (cnt k (todo (sharts ?s' i))) = sharedw s k + of_nat (cnt k (todo (sharts s i)))"
    by (rule stress_step_counter [OF stress_reach_inv [OF stress_next.hyps(1)] stress_next.prems])
  then have "sharedw ?s' k + of_nat (total k ?s') = sharedw s k + of_nat (total k s)"
    using t by (rule swap_sums)
  then show ?case using stress_next by simp
qed

subsection \<open>Termination\<close>

abbreviation solo :: "u64 \<Rightarrow> nat \<Rightarrow> nat \<Rightarrow> sstate \<Rightarrow> sstate" where
  "solo mt i n \<equiv> (stress_step mt True i ^^ n)"

lemma solo_block:
  assumes "todo (sharts s i) = b # rest"
  shows "\<exists>n \<le> 3. todo (sharts (solo mt i n s) i) = rest"
proof -
  let ?f = "stress_step mt True i"
  have two: "todo (sharts (?f (?f s1)) i) = rest" if "todo (sharts s1 i) = b # rest" "b = LrScInc k" "lr (sharts s1 i) = None" for k s1
    using that by (simp add: stress_step_def Let_def)
  show ?thesis
  proof (cases "\<exists>k. b = LrScInc k")
    case False
    then have "todo (sharts (?f s) i) = rest"
      using assms by (cases b) (simp_all add: stress_step_def Let_def)
    then show ?thesis by (intro exI [of _ 1]) simp
  next
    case True
    then obtain k where k: "b = LrScInc k" by blast
    consider "lr (sharts s i) = None" | v where "lr (sharts s i) = Some (v, True)" | v where "lr (sharts s i) = Some (v, False)"
      by (cases "lr (sharts s i)") auto
    then show ?thesis
    proof cases
      case 1
      then show ?thesis using two [OF assms k] by (intro exI [of _ 2]) (simp add: numeral_2_eq_2)
    next
      case 2
      then have "todo (sharts (?f s) i) = rest" using assms k by (simp add: stress_step_def Let_def)
      then show ?thesis by (intro exI [of _ 1]) simp
    next
      case 3
      then have "todo (sharts (?f s) i) = b # rest" "lr (sharts (?f s) i) = None"
        using assms k by (simp_all add: stress_step_def Let_def)
      then have "todo (sharts (?f (?f (?f s))) i) = rest" using two k by blast
      then show ?thesis by (intro exI [of _ 3]) (simp add: numeral_3_eq_3)
    qed
  qed
qed

lemma solo_finishes: "\<exists>n \<le> 3 * length (todo (sharts s i)). todo (sharts (solo mt i n s) i) = []"
proof (induction "todo (sharts s i)" arbitrary: s)
  case Nil
  then show ?case by (intro exI [of _ 0]) simp
next
  case (Cons b rest)
  obtain n where n: "n \<le> 3" "todo (sharts (solo mt i n s) i) = rest"
    using solo_block [of s i b rest mt] Cons.hyps(2) by auto
  then obtain m where "m \<le> 3 * length rest" "todo (sharts (solo mt i m (solo mt i n s)) i) = []"
    using Cons.hyps(1) [of "solo mt i n s"] by auto
  then show ?case
    using n(1) Cons.hyps(2) [symmetric] by (intro exI [of _ "m + n"]) (simp add: funpow_add)
qed

lemma solo_reach: "stress_reach s \<Longrightarrow> i < 4 \<Longrightarrow> stress_reach (solo mt i n s)"
  by (induction n) (auto intro: stress_next)

lemma solo_other: "j \<noteq> i \<Longrightarrow> todo (sharts (solo mt i n s) j) = todo (sharts s j)"
  by (induction n) (simp_all add: stress_step_todo)

text \<open>
  A hart that runs alone, with SC.D failing only for broken reservations, finishes its
  blocks within three steps per remaining block, from any reachable state, and stores its
  accumulator as its result with the next step.
\<close>

theorem stress_finishes:
  assumes "stress_reach s"
  shows "\<exists>n \<le> 3 * length stress_program.
     todo (sharts (solo mt i n s) i) = [] \<and>
     results (solo mt i (Suc n) s) i = acc (sharts (solo mt i n s) i) \<and> finished (sharts (solo mt i (Suc n) s) i)"
proof -
  have "length (todo (sharts s i)) \<le> length stress_program"
    using stress_reach_inv [OF assms, of i] by (metis diff_le_self hart_inv_def length_drop)
  then obtain n where n: "n \<le> 3 * length stress_program" "todo (sharts (solo mt i n s) i) = []"
    using solo_finishes [of s i mt] by (meson le_trans mult_le_mono2)
  then show ?thesis by (intro exI [of _ n]) (simp add: stress_step_def Let_def)
qed

theorem stress_finishes_witness:
  "\<exists>n \<le> 3 * length stress_program. todo (sharts (solo 0 2 n stress_init) 2) = []"
  using stress_finishes [OF stress_start, of 0 2] by blast

lemma all_finish: "\<exists>s. stress_reach s \<and> (\<forall>i < 4. todo (sharts s i) = [])"
proof -
  have "k \<le> 4 \<Longrightarrow> \<exists>s. stress_reach s \<and> (\<forall>i < k. todo (sharts s i) = [])" for k
  proof (induction k)
    case 0
    then show ?case using stress_start by auto
  next
    case (Suc k)
    then obtain s where s: "stress_reach s" "\<forall>i < k. todo (sharts s i) = []" by auto
    obtain n where n: "todo (sharts (solo 0 k n s) k) = []" using solo_finishes by blast
    have "\<forall>i < Suc k. todo (sharts (solo 0 k n s) i) = []"
      using s(2) n solo_other by (auto simp: less_Suc_eq)
    moreover have "stress_reach (solo 0 k n s)" using Suc.prems by (intro solo_reach [OF s(1)]) simp
    ultimately show ?case by blast
  qed
  then show ?thesis by blast
qed

text \<open>
  C25: no increment is lost: when the four harts have run all their blocks, in any
  interleaving and with any failures of SC.D, the two shared words that only LR.D/SC.D loops
  touch hold four times the number of those loops in the program.
\<close>

theorem stress_counters:
  assumes "stress_reach s" "\<forall>i < 4. todo (sharts s i) = []"
  shows "sharedw s 13 = 4 \<and> sharedw s 15 = 8"
proof -
  have free: "amo_free 13" "amo_free 15" unfolding amo_free_def by code_simp+
  have n: "cnt 13 stress_program = 1" "cnt 15 stress_program = 2" by code_simp+
  have "total k s = 0" for k using assms(2) by (simp add: total_def cnt_def)
  then show ?thesis
    using stress_reach_counter [OF assms(1) free(1)] stress_reach_counter [OF assms(1) free(2)]
    by (simp add: n)
qed

theorem stress_counters_witness:
  "\<exists>s. stress_reach s \<and> (\<forall>i < 4. todo (sharts s i) = []) \<and> sharedw s 13 = 4 \<and> sharedw s 15 = 8"
  using all_finish stress_counters by blast

subsection \<open>Array bounds\<close>

definition block_in_bounds :: "block \<Rightarrow> bool" where
  "block_in_bounds b = (case b of
     ScratchRW p q \<Rightarrow> p < 256 \<and> q < 256 | Amo _ k \<Rightarrow> k < 16 | LrScInc k \<Rightarrow> k < 16 | _ \<Rightarrow> True)"

lemma stress_blocks_in_bounds: "list_all block_in_bounds stress_program"
  by code_simp

end
