(* ===== verification/Workload_Lib.thy ===== *)
theory Workload_Lib
  imports Chiron_Prelude "HOL-Library.Signed_Division"
begin

text \<open>
  The run-time library of the bare-metal workloads: \<open>verify\<close> of
  \<^verbatim>\<open>src/workloads/benchmarks/common/util.h\<close> and the console output of
  \<^verbatim>\<open>src/workloads/benchmarks/common/syscalls.c\<close> (the demos carry the same functions in
  \<^verbatim>\<open>src/workloads/demos/common/syscalls.c\<close>, with \<open>memset\<close> and \<open>memcpy\<close>). An access outside
  an array, a read past a string's terminator and a wait that never ends are values of the
  model. \<open>int\<close> is 32 bits wide and wraps as the RV64 code does.
\<close>

unbundle bit_operations_syntax

subsection \<open>verify\<close>

definition array_at :: "int list \<Rightarrow> int \<Rightarrow> int option" where
  "array_at xs i = (if 0 \<le> i \<and> i < int (length xs) then Some (xs ! nat i) else None)"

function verify_loop :: "int \<Rightarrow> int \<Rightarrow> int list \<Rightarrow> int list \<Rightarrow> int option" where
  "verify_loop i n test ver =
     (if i < n sdiv 2 * 2 then
        (case (array_at test i, array_at test (i + 1), array_at ver i, array_at ver (i + 1)) of
           (Some t0, Some t1, Some v0, Some v1) \<Rightarrow>
             if t0 \<noteq> v0 then Some (i + 1)
             else if t1 \<noteq> v1 then Some (i + 2)
             else verify_loop (i + 2) n test ver
         | _ \<Rightarrow> None)
      else if n smod 2 \<noteq> 0 then
        (case (array_at test (n - 1), array_at ver (n - 1)) of
           (Some t, Some v) \<Rightarrow> if t \<noteq> v then Some n else Some 0
         | _ \<Rightarrow> None)
      else Some 0)"
  by pat_completeness auto
termination by (relation "measure (\<lambda>(i, n, _). nat (n sdiv 2 * 2 - i))") auto

declare verify_loop.simps [simp del]

definition verify :: "int \<Rightarrow> int list \<Rightarrow> int list \<Rightarrow> int option" where
  "verify n test ver = verify_loop 0 n test ver"

text \<open>The index of the first difference, counted from 1, or 0.\<close>

fun first_diff :: "int list \<Rightarrow> int list \<Rightarrow> nat \<Rightarrow> int" where
  "first_diff (x # xs) (y # ys) k = (if x \<noteq> y then int k + 1 else first_diff xs ys (Suc k))"
| "first_diff _ _ k = 0"

lemma array_at_nat: "k < length xs \<Longrightarrow> array_at xs (int k) = Some (xs ! k)"
  by (simp add: array_at_def)

lemma sdiv_smod_2: "int m sdiv 2 = int (m div 2)" "int m smod 2 = int (m mod 2)"
  by (simp_all add: signed_divide_int_def signed_modulo_int_def zdiv_int zmod_int sgn_if)

lemma verify_loop_first_diff:
  assumes "length test = m" "length ver = m" "even k" "k \<le> m"
  shows "verify_loop (int k) (int m) test ver = Some (first_diff (drop k test) (drop k ver) k)"
  using assms(3,4)
proof (induction "m - k" arbitrary: k rule: less_induct)
  case less
  consider "k + 1 < m" | "k + 1 = m" | "k = m" using less.prems by linarith
  then show ?case
  proof cases
    case 1
    then have lt: "int k < int m sdiv 2 * 2" using less.prems(1) by (auto simp: sdiv_smod_2 elim!: evenE)
    have d: "drop k xs = xs ! k # xs ! (k + 1) # drop (k + 2) xs" if "length xs = m" for xs :: "int list"
      using 1 that Cons_nth_drop_Suc [of k xs] Cons_nth_drop_Suc [of "Suc k" xs] by simp
    have a: "array_at xs (int k) = Some (xs ! k)" "array_at xs (int k + 1) = Some (xs ! (k + 1))"
      if "length xs = m" for xs
      using 1 that array_at_nat [of k xs] array_at_nat [of "k + 1" xs] by (simp_all add: add.commute)
    have "verify_loop (int (k + 2)) (int m) test ver = Some (first_diff (drop (k + 2) test) (drop (k + 2) ver) (k + 2))"
      using less.hyps [of "k + 2"] less.prems 1 by simp
    then show ?thesis
      using lt by (subst verify_loop.simps) (simp add: a assms(1,2) d [OF assms(1)] d [OF assms(2)] add.commute [of 2])
  next
    case 2
    then have "odd m" using less.prems(1) by auto
    then have c: "\<not> int k < int m sdiv 2 * 2" "int m smod 2 \<noteq> 0"
      using 2 less.prems(1) by (auto simp: sdiv_smod_2 elim!: evenE)
    have d: "drop k xs = [xs ! k]" if "length xs = m" for xs :: "int list"
      using 2 that Cons_nth_drop_Suc [of k xs] by simp
    have a: "array_at xs (int m - 1) = Some (xs ! k)" if "length xs = m" for xs
      using 2 that by (auto simp: array_at_def)
    show ?thesis
      using c 2 assms(1,2)
      by (subst verify_loop.simps) (simp add: a d [OF assms(1)] d [OF assms(2)])
  next
    case 3
    then have "\<not> int k < int m sdiv 2 * 2" "int m smod 2 = 0"
      using less.prems(1) by (auto simp: sdiv_smod_2)
    then show ?thesis using 3 assms(1,2) by (subst verify_loop.simps) simp
  qed
qed

text \<open>
  \<open>verify\<close>, unrolled by two, returns 0 if the two arrays of \<open>n\<close> elements agree, and
  otherwise one more than the index of the first difference, for even and odd \<open>n\<close>, without
  reading outside either array.
\<close>

theorem verify_first_diff:
  assumes "length test = m" "length ver = m"
  shows "verify (int m) test ver = Some (first_diff test ver 0)"
  using verify_loop_first_diff [OF assms, of 0] by (simp add: verify_def)

theorem verify_first_diff_witness: "verify (int 3) [1, 2, 3] [1, 2, 4] = Some 3"
  using verify_first_diff [of "[1, 2, 3]" 3 "[1, 2, 4]"] by simp

subsection \<open>Console output\<close>

text \<open>
  The uartlite as the library sees it: the status words it will return, in order, and the bytes
  transmitted. When the words run out the transmit wait has not ended.
\<close>

record uart =
  sts :: "u32 list"
  sent :: "u8 list"

datatype lib_error = StillWaiting | BufferOverflow | ReadPastEnd | BadArgument

definition UART_STS_TX_FULL :: u32 where "UART_STS_TX_FULL = push_bit 3 1"

fun uart_wait :: "u32 list \<Rightarrow> u32 list option" where
  "uart_wait [] = None"
| "uart_wait (w # ws) = (if w AND UART_STS_TX_FULL \<noteq> 0 then uart_wait ws else Some ws)"

definition uart_send_char :: "u8 \<Rightarrow> uart \<Rightarrow> lib_error + uart" where
  "uart_send_char c u =
     (case uart_wait (sts u) of
        None \<Rightarrow> Inl StillWaiting
      | Some ws \<Rightarrow> Inr (u\<lparr>sts := ws, sent := sent u @ [c]\<rparr>))"

fun uart_send_string :: "u8 list \<Rightarrow> uart \<Rightarrow> lib_error + uart" where
  "uart_send_string [] u = Inr u"
| "uart_send_string (c # cs) u =
     (case uart_send_char c u of Inl e \<Rightarrow> Inl e | Inr u \<Rightarrow> uart_send_string cs u)"

definition wrap32 :: "int \<Rightarrow> int" where
  "wrap32 x = sint (word_of_int x :: u32)"

text \<open>The digit loop fills \<open>buffer\<close>, of 12 bytes, from index \<open>i\<close>.\<close>

function digit_loop :: "int \<Rightarrow> u8 list \<Rightarrow> lib_error + u8 list" where
  "digit_loop n buffer =
     (if n \<noteq> 0 then
        (if 12 \<le> length buffer then Inl BufferOverflow
         else digit_loop (n sdiv 10) (buffer @ [word_of_int (n smod 10 + 48)]))
      else Inr buffer)"
  by pat_completeness auto
termination
  by (relation "measure (\<lambda>(n, _). nat \<bar>n\<bar>)") (auto simp: signed_divide_int_def abs_mult sgn_if)

declare digit_loop.simps [simp del]

definition uart_send_integer :: "int \<Rightarrow> uart \<Rightarrow> lib_error + uart" where
  "uart_send_integer n u =
     (if n = 0 then uart_send_char 48 u
      else
        (case (if n < 0 then uart_send_char 45 u else Inr u) of
           Inl e \<Rightarrow> Inl e
         | Inr u \<Rightarrow>
             (case digit_loop (if n < 0 then wrap32 (- n) else n) [] of
                Inl e \<Rightarrow> Inl e
              | Inr buffer \<Rightarrow> uart_send_string (rev buffer) u)))"

subsection \<open>The transmit side\<close>

definition ready :: "nat \<Rightarrow> uart \<Rightarrow> bool" where
  "ready k u \<longleftrightarrow> k \<le> length (filter (\<lambda>w. w AND UART_STS_TX_FULL = 0) (sts u))"

lemma uart_wait_ready:
  "0 < length (filter (\<lambda>w. w AND UART_STS_TX_FULL = 0) ws) \<Longrightarrow>
     \<exists>ws'. uart_wait ws = Some ws' \<and> length (filter (\<lambda>w. w AND UART_STS_TX_FULL = 0) ws) =
       Suc (length (filter (\<lambda>w. w AND UART_STS_TX_FULL = 0) ws'))"
  by (induction ws) auto

lemma send_char_ready:
  assumes "ready (Suc k) u"
  shows "\<exists>u'. uart_send_char c u = Inr u' \<and> sent u' = sent u @ [c] \<and> ready k u'"
  using assms uart_wait_ready [of "sts u"] by (force simp: ready_def uart_send_char_def)

lemma send_string_ready:
  "ready (length cs + k) u \<Longrightarrow> \<exists>u'. uart_send_string cs u = Inr u' \<and> sent u' = sent u @ cs \<and> ready k u'"
proof (induction cs arbitrary: u)
  case (Cons c cs)
  then obtain u1 where "uart_send_char c u = Inr u1" "sent u1 = sent u @ [c]" "ready (length cs + k) u1"
    using send_char_ready [of "length cs + k" u c] by auto
  then show ?case using Cons.IH [of u1] by auto
qed simp

subsection \<open>Decimal output\<close>

definition dec_val :: "u8 list \<Rightarrow> int" where
  "dec_val bs = foldl (\<lambda>v c. 10 * v + (uint c - 48)) 0 bs"

definition parse_int :: "u8 list \<Rightarrow> int" where
  "parse_int bs = (case bs of c # cs \<Rightarrow> if c = 45 then - dec_val cs else dec_val bs | [] \<Rightarrow> 0)"

definition is_digit :: "u8 \<Rightarrow> bool" where
  "is_digit c \<longleftrightarrow> 48 \<le> c \<and> c \<le> 57"

lemma dec_val_snoc: "dec_val (bs @ [c]) = 10 * dec_val bs + (uint c - 48)"
  by (simp add: dec_val_def)

lemma digit_byte:
  assumes "0 \<le> d" "d < 10"
  shows "uint (word_of_int (d + 48) :: u8) = d + 48" "is_digit (word_of_int (d + 48))"
proof -
  show u: "uint (word_of_int (d + 48) :: u8) = d + 48" using assms by (simp only: uint_word_of_int) simp
  show "is_digit (word_of_int (d + 48))"
    unfolding is_digit_def word_le_def u using assms by simp
qed

lemma digit_loop_decimal:
  assumes "0 \<le> n" "n < 10 ^ k" "length buffer + k \<le> 12"
  shows "\<exists>ds. digit_loop n buffer = Inr (buffer @ ds) \<and> dec_val (rev ds) = n \<and>
     list_all is_digit ds \<and> length ds \<le> k \<and> (0 < n \<longrightarrow> ds \<noteq> [])"
  using assms
proof (induction k arbitrary: n buffer)
  case 0
  then show ?case by (subst digit_loop.simps) (simp add: dec_val_def)
next
  case (Suc k)
  show ?case
  proof (cases "n = 0")
    case True
    then show ?thesis by (subst digit_loop.simps) (simp add: dec_val_def)
  next
    case False
    define c where "c = (word_of_int (n mod 10 + 48) :: u8)"
    have q: "n sdiv 10 = n div 10" "n smod 10 = n mod 10"
      using Suc.prems(1) by (simp_all add: signed_divide_int_def signed_modulo_int_def sgn_if)
    have "n div 10 < x" if "n < 10 * x" for x using that by presburger
    then have b: "n div 10 < 10 ^ k" using Suc.prems(2) by simp
    obtain ds where ds: "digit_loop (n div 10) (buffer @ [c]) = Inr ((buffer @ [c]) @ ds)"
      "dec_val (rev ds) = n div 10" "list_all is_digit ds" "length ds \<le> k"
      using Suc.IH [of "n div 10" "buffer @ [c]"] Suc.prems b
      by (auto simp: pos_imp_zdiv_nonneg_iff)
    have c: "uint c = n mod 10 + 48" "is_digit c" unfolding c_def by (rule digit_byte; simp)+
    have "digit_loop n buffer = Inr (buffer @ (c # ds))"
      using False Suc.prems(3) ds(1) by (subst digit_loop.simps) (simp add: q c_def)
    moreover have "dec_val (rev (c # ds)) = n" using ds(2) c(1) by (simp add: dec_val_snoc)
    ultimately show ?thesis using ds(3,4) c(2) by (intro exI [of _ "c # ds"]) simp
  qed
qed

lemma ready_mono: "ready k u \<Longrightarrow> j \<le> k \<Longrightarrow> ready j u"
  by (simp add: ready_def)

lemma send_integer_ready:
  assumes "- (2 ^ 31) < n" "n < 2 ^ 31" "ready (11 + k) u"
  shows "\<exists>u' bs. uart_send_integer n u = Inr u' \<and> sent u' = sent u @ bs \<and> parse_int bs = n \<and>
     length bs \<le> 11 \<and> ready k u'"
proof (cases "n = 0")
  case True
  then show ?thesis
    using send_char_ready [of k u 48] ready_mono [OF assms(3), of "Suc k"]
    by (auto simp: uart_send_integer_def parse_int_def dec_val_def)
next
  case False
  let ?m = "if n < 0 then wrap32 (- n) else n"
  have "wrap32 x = x" if "0 \<le> x" "x < 2 ^ 31" for x
    unfolding wrap32_def sint_sbintrunc' using that by (simp add: signed_take_bit_int_eq_self)
  then have m: "?m = \<bar>n\<bar>" using assms(1,2) by simp
  have b: "\<bar>n\<bar> < 10 ^ 10" using assms(1,2) by simp
  obtain ds where ds: "digit_loop ?m [] = Inr ds" "dec_val (rev ds) = \<bar>n\<bar>" "list_all is_digit ds" "length ds \<le> 10" "ds \<noteq> []"
    using digit_loop_decimal [of "\<bar>n\<bar>" 10 "[]"] b False unfolding m by auto
  then obtain d r where dr: "rev ds = d # r" "is_digit d"
    by (metis list.pred_set list.set_intros(1) neq_Nil_conv rev_is_Nil_conv set_rev)
  then have p: "parse_int (rev ds) = \<bar>n\<bar>" "parse_int (45 # rev ds) = - \<bar>n\<bar>"
    using ds(2) by (auto simp: parse_int_def is_digit_def)
  show ?thesis
  proof (cases "n < 0")
    case True
    obtain u1 where u1: "uart_send_char 45 u = Inr u1" "sent u1 = sent u @ [45]" "ready (10 + k) u1"
      using send_char_ready [of "10 + k" u 45] assms(3) by auto
    obtain u2 where "uart_send_string (rev ds) u1 = Inr u2" "sent u2 = sent u1 @ rev ds" "ready k u2"
      using send_string_ready [of "rev ds" k u1] ready_mono [OF u1(3), of "length ds + k"] ds(4) by auto
    then show ?thesis
      using True False u1 ds(1,4) p(2) by (intro exI [of _ u2] exI [of _ "45 # rev ds"]) (simp add: uart_send_integer_def)
  next
    case pos: False
    obtain u2 where "uart_send_string (rev ds) u = Inr u2" "sent u2 = sent u @ rev ds" "ready k u2"
      using send_string_ready [of "rev ds" k u] ready_mono [OF assms(3), of "length ds + k"] ds(4) by auto
    then show ?thesis
      using pos False ds(1,4) p(1) by (intro exI [of _ u2] exI [of _ "rev ds"]) (simp add: uart_send_integer_def)
  qed
qed



subsection \<open>Formatted output\<close>

datatype printf_arg = ArgInt int | ArgStr "u8 list"

text \<open>
  The format is the bytes before the terminator. A \<open>%\<close> right before the terminator sends the
  terminator and then steps over it, and the loop goes on reading behind the string.
\<close>

fun printf :: "u8 list \<Rightarrow> printf_arg list \<Rightarrow> uart \<Rightarrow> lib_error + uart" where
  "printf [] args u = Inr u"
| "printf [c] args u =
     (if c = 37 then
        (case uart_send_char 0 u of Inl e \<Rightarrow> Inl e | Inr u \<Rightarrow> Inl ReadPastEnd)
      else uart_send_char c u)"
| "printf (c # d # rest) args u =
     (if c = 37 then
        (if d = 100 then
           (case args of
              ArgInt num # args \<Rightarrow>
                (case uart_send_integer num u of Inl e \<Rightarrow> Inl e | Inr u \<Rightarrow> printf rest args u)
            | _ \<Rightarrow> Inl BadArgument)
         else if d = 115 then
           (case args of
              ArgStr str # args \<Rightarrow>
                (case uart_send_string str u of Inl e \<Rightarrow> Inl e | Inr u \<Rightarrow> printf rest args u)
            | _ \<Rightarrow> Inl BadArgument)
         else (case uart_send_char d u of Inl e \<Rightarrow> Inl e | Inr u \<Rightarrow> printf rest args u))
      else (case uart_send_char c u of Inl e \<Rightarrow> Inl e | Inr u \<Rightarrow> printf (d # rest) args u))"

text \<open>The directives of a format; \<open>None\<close> when it ends in an incomplete one.\<close>

datatype directive = Lit u8 | DirInt | DirStr

fun directives :: "u8 list \<Rightarrow> directive list option" where
  "directives [] = Some []"
| "directives [c] = (if c = 37 then None else Some [Lit c])"
| "directives (c # d # rest) =
     (if c = 37 then
        map_option ((#) (if d = 100 then DirInt else if d = 115 then DirStr else Lit d)) (directives rest)
      else map_option ((#) (Lit c)) (directives (d # rest)))"

fun args_ok :: "directive list \<Rightarrow> printf_arg list \<Rightarrow> bool" where
  "args_ok [] args = True"
| "args_ok (Lit c # ds) args = args_ok ds args"
| "args_ok (DirInt # ds) (ArgInt n # args) = (- (2 ^ 31) < n \<and> n < 2 ^ 31 \<and> args_ok ds args)"
| "args_ok (DirStr # ds) (ArgStr s # args) = args_ok ds args"
| "args_ok _ _ = False"

fun space_for :: "directive list \<Rightarrow> printf_arg list \<Rightarrow> nat" where
  "space_for (Lit c # ds) args = Suc (space_for ds args)"
| "space_for (DirInt # ds) (a # args) = 11 + space_for ds args"
| "space_for (DirStr # ds) (ArgStr s # args) = length s + space_for ds args"
| "space_for _ _ = 0"

fun renders :: "directive list \<Rightarrow> printf_arg list \<Rightarrow> u8 list \<Rightarrow> bool" where
  "renders [] args bs \<longleftrightarrow> bs = []"
| "renders (Lit c # ds) args bs \<longleftrightarrow> (\<exists>cs. bs = c # cs \<and> renders ds args cs)"
| "renders (DirInt # ds) (ArgInt n # args) bs \<longleftrightarrow>
     (\<exists>b cs. bs = b @ cs \<and> parse_int b = n \<and> renders ds args cs)"
| "renders (DirStr # ds) (ArgStr s # args) bs \<longleftrightarrow> (\<exists>cs. bs = s @ cs \<and> renders ds args cs)"
| "renders _ _ _ \<longleftrightarrow> False"

lemma printf_none: "directives fmt = None \<Longrightarrow> printf fmt args u \<noteq> Inr u'"
proof (induction fmt args u rule: printf.induct)
  case (3 c d rest args u)
  then show ?case by (auto split: if_splits sum.splits list.splits printf_arg.splits)
qed (auto split: if_splits sum.splits)

lemma args_ok_cases:
  "args_ok (DirInt # ds) args \<Longrightarrow> \<exists>n as. args = ArgInt n # as \<and> - (2 ^ 31) < n \<and> n < 2 ^ 31 \<and> args_ok ds as"
  "args_ok (DirStr # ds) args \<Longrightarrow> \<exists>s as. args = ArgStr s # as \<and> args_ok ds as"
  by (cases args; cases "hd args"; simp)+

lemma printf_some:
  "directives fmt = Some ds \<Longrightarrow> args_ok ds args \<Longrightarrow> ready (space_for ds args) u \<Longrightarrow>
     \<exists>u' bs. printf fmt args u = Inr u' \<and> sent u' = sent u @ bs \<and> renders ds args bs"
proof (induction fmt args u arbitrary: ds rule: printf.induct)
  case (1 args u)
  then show ?case by simp
next
  case (2 c args u)
  then show ?case using send_char_ready [of 0 u c] by (auto split: if_splits)
next
  case (3 c d rest args u)
  show ?case
  proof (cases "c = 37")
    case False
    then obtain ds' where ds: "directives (d # rest) = Some ds'" "ds = Lit c # ds'" using 3(5) by auto
    then obtain u1 where u1: "uart_send_char c u = Inr u1" "sent u1 = sent u @ [c]" "ready (space_for ds' args) u1"
      using send_char_ready [of "space_for ds' args" u c] 3(7) by auto
    then show ?thesis using 3(4) [OF False u1(1) ds(1) _ u1(3)] 3(6) False by (auto simp: ds(2))
  next
    case True
    then obtain ds' where ds: "directives rest = Some ds'"
      "ds = (if d = 100 then DirInt else if d = 115 then DirStr else Lit d) # ds'"
      using 3(5) by auto
    consider "d = 100" | "d = 115" | "d \<noteq> 100" "d \<noteq> 115" by blast
    then show ?thesis
    proof cases
      case 1
      then obtain n as where a: "args = ArgInt n # as" "- (2 ^ 31) < n" "n < 2 ^ 31" "args_ok ds' as"
        using args_ok_cases(1) [of ds' args] 3(6) ds(2) by auto
      then obtain u1 b where u1: "uart_send_integer n u = Inr u1" "sent u1 = sent u @ b" "parse_int b = n"
          "ready (space_for ds' as) u1"
        using send_integer_ready [of n "space_for ds' as" u] 3(7) ds(2) 1 by auto
      then show ?thesis
        using 3(1) [OF True 1 a(1) refl u1(1) ds(1) a(4) u1(4)] True 1 a(1) ds(2) by fastforce
    next
      case 2
      then obtain str as where a: "args = ArgStr str # as" "args_ok ds' as"
        using args_ok_cases(2) [of ds' args] 3(6) ds(2) by auto
      then obtain u1 where u1: "uart_send_string str u = Inr u1" "sent u1 = sent u @ str" "ready (space_for ds' as) u1"
        using send_string_ready [of str "space_for ds' as" u] 3(7) ds(2) 2 by auto
      then show ?thesis
        using 3(2) [OF True _ 2 a(1) refl u1(1) ds(1) a(2) u1(3)] True 2 a(1) ds(2) by fastforce
    next
      case 3
      then obtain u1 where u1: "uart_send_char d u = Inr u1" "sent u1 = sent u @ [d]" "ready (space_for ds' args) u1"
        using send_char_ready [of "space_for ds' args" u d] "3.prems"(3) ds(2) by auto
      then show ?thesis
        using "3.IH"(3) [OF True 3 u1(1) ds(1) _ u1(3)] "3.prems"(2) True 3 ds(2) by auto
    qed
  qed
qed

text \<open>
  \<open>printf\<close> with a complete format and matching arguments transmits the literal bytes,
  the strings and the decimal integers in order; with a format that ends in a lone \<open>%\<close> it
  never returns properly, because it steps over the terminator.
\<close>

theorem printf_output:
  "(directives fmt = Some ds \<and> args_ok ds args \<and> ready (space_for ds args) u \<longrightarrow>
      (\<exists>u' bs. printf fmt args u = Inr u' \<and> sent u' = sent u @ bs \<and> renders ds args bs)) \<and>
   (directives fmt = None \<longrightarrow> (\<forall>u'. printf fmt args u \<noteq> Inr u'))"
  using printf_some printf_none by blast

theorem printf_output_witness:
  "(\<exists>u' bs. printf [37, 100, 10] [ArgInt 42] \<lparr>sts = replicate 12 4, sent = []\<rparr> = Inr u' \<and>
      sent u' = bs \<and> renders [DirInt, Lit 10] [ArgInt 42] bs) \<and>
   (\<forall>u'. printf [37] [] \<lparr>sts = [4], sent = []\<rparr> \<noteq> Inr u')"
proof -
  have "ready (space_for [DirInt, Lit 10] [ArgInt 42]) \<lparr>sts = replicate 12 4, sent = []\<rparr>"
    by (simp add: ready_def UART_STS_TX_FULL_def)
  moreover have "args_ok [DirInt, Lit 10] [ArgInt 42]" "directives [37, 100, 10] = Some [DirInt, Lit 10]"
    "directives [37] = None" by simp_all
  ultimately show ?thesis
    using printf_output [of "[37, 100, 10]" "[DirInt, Lit 10]" "[ArgInt 42]" "\<lparr>sts = replicate 12 4, sent = []\<rparr>"]
      printf_output [of "[37]" _ "[]" "\<lparr>sts = [4], sent = []\<rparr>"]
    by (metis append_Nil uart.select_convs(2))
qed

subsection \<open>Arrays and matrices\<close>

definition ascii :: "string \<Rightarrow> u8 list" where
  "ascii s = map of_char s"

definition and_then :: "lib_error + uart \<Rightarrow> (uart \<Rightarrow> lib_error + uart) \<Rightarrow> lib_error + uart" where
  "and_then r f = (case r of Inl e \<Rightarrow> Inl e | Inr u \<Rightarrow> f u)"

definition send_elem :: "int list \<Rightarrow> int \<Rightarrow> uart \<Rightarrow> lib_error + uart" where
  "send_elem xs i u =
     (case array_at xs i of
        None \<Rightarrow> Inl ReadPastEnd
      | Some x \<Rightarrow> and_then (uart_send_integer x u) (uart_send_string (ascii '' '')))"

fun print_elems :: "int list \<Rightarrow> int list \<Rightarrow> uart \<Rightarrow> lib_error + uart" where
  "print_elems xs [] u = Inr u"
| "print_elems xs (i # is) u = and_then (send_elem xs i u) (print_elems xs is)"

definition syscall_print_array :: "int \<Rightarrow> int list \<Rightarrow> uart \<Rightarrow> lib_error + uart" where
  "syscall_print_array lda array u =
     and_then (and_then (uart_send_string (ascii ''Result Array:'' @ [13, 10]) u)
       (print_elems array [0..lda - 1])) (uart_send_string [13, 10])"

fun print_rows :: "int \<Rightarrow> int list \<Rightarrow> int list \<Rightarrow> uart \<Rightarrow> lib_error + uart" where
  "print_rows lda matrix [] u = Inr u"
| "print_rows lda matrix (i # is) u =
     and_then (and_then (print_elems matrix (map (\<lambda>j. j + i * lda) [0..lda - 1]) u)
       (uart_send_string [13, 10])) (print_rows lda matrix is)"

definition syscall_print_matrix :: "int \<Rightarrow> int list \<Rightarrow> uart \<Rightarrow> lib_error + uart" where
  "syscall_print_matrix lda matrix u =
     and_then (and_then (uart_send_string (ascii ''Result Matrix:'' @ [13, 10]) u)
       (print_rows lda matrix [0..lda - 1])) (uart_send_string [13, 10])"

lemma print_elems_in_bounds:
  assumes "list_all (\<lambda>i. 0 \<le> i \<and> i < int (length xs)) is"
    and "list_all (\<lambda>x. - (2 ^ 31) < x \<and> x < 2 ^ 31) xs" "ready (12 * length is + k) u"
  shows "\<exists>u'. print_elems xs is u = Inr u' \<and> ready k u'"
  using assms(1,3)
proof (induction "is" arbitrary: u)
  case (Cons i "is")
  let ?x = "xs ! nat i"
  have i: "array_at xs i = Some ?x" using Cons.prems(1) by (simp add: array_at_def)
  have x: "- (2 ^ 31) < ?x" "?x < 2 ^ 31"
    using assms(2) Cons.prems(1) by (auto simp: list_all_length)
  have "ready (11 + (1 + (12 * length is + k))) u" using Cons.prems(2) by (simp add: add.assoc)
  then obtain u1 where u1: "uart_send_integer ?x u = Inr u1" "ready (1 + (12 * length is + k)) u1"
    using send_integer_ready [OF x] by blast
  then obtain u2 where "uart_send_string (ascii '' '') u1 = Inr u2" "ready (12 * length is + k) u2"
    using send_string_ready [of "ascii '' ''" "12 * length is + k" u1] by (auto simp: ascii_def)
  then show ?case
    using u1(1) i Cons.IH [of u2] Cons.prems(1) by (simp add: send_elem_def and_then_def)
qed simp

subsection \<open>memset and memcpy\<close>

fun memset_loop :: "nat \<Rightarrow> u8 \<Rightarrow> nat \<Rightarrow> (nat \<Rightarrow> u8) \<Rightarrow> (nat \<Rightarrow> u8)" where
  "memset_loop p c 0 m = m"
| "memset_loop p c (Suc n) m = memset_loop (Suc p) c n (m(p := c))"

definition memset :: "nat \<Rightarrow> int \<Rightarrow> nat \<Rightarrow> (nat \<Rightarrow> u8) \<Rightarrow> (nat \<Rightarrow> u8)" where
  "memset s c n m = memset_loop s (word_of_int c) n m"

fun memcpy_loop :: "nat \<Rightarrow> nat \<Rightarrow> nat \<Rightarrow> (nat \<Rightarrow> u8) \<Rightarrow> (nat \<Rightarrow> u8)" where
  "memcpy_loop dd ss 0 m = m"
| "memcpy_loop dd ss (Suc n) m = memcpy_loop (Suc dd) (Suc ss) n (m(dd := m ss))"

definition memcpy :: "nat \<Rightarrow> nat \<Rightarrow> nat \<Rightarrow> (nat \<Rightarrow> u8) \<Rightarrow> (nat \<Rightarrow> u8)" where
  "memcpy d s n m = memcpy_loop d s n m"

lemma memset_bytes: "memset s c n m a = (if s \<le> a \<and> a < s + n then word_of_int c else m a)"
proof -
  have "memset_loop p b n m a = (if p \<le> a \<and> a < p + n then b else m a)" for p b
    by (induction n arbitrary: p m) auto
  then show ?thesis by (simp add: memset_def)
qed

text \<open>The copy is right when the destination does not start inside the source.\<close>

lemma memcpy_bytes:
  assumes "d \<le> s \<or> s + n \<le> d"
  shows "memcpy d s n m a = (if d \<le> a \<and> a < d + n then m (s + (a - d)) else m a)"
proof -
  have "memcpy_loop d s n m a = (if d \<le> a \<and> a < d + n then m (s + (a - d)) else m a)"
    using assms
  proof (induction n arbitrary: d s m)
    case (Suc n)
    then have "memcpy_loop (Suc d) (Suc s) n (m(d := m s)) a =
       (if Suc d \<le> a \<and> a < Suc d + n then (m(d := m s)) (Suc s + (a - Suc d)) else (m(d := m s)) a)"
      by (intro Suc.IH) auto
    then show ?case using Suc.prems by (auto simp: Suc_le_eq Suc_diff_Suc)
  qed auto
  then show ?thesis by (simp add: memcpy_def)
qed

end
