(* ===== verification/G3d.thy ===== *)
theory G3d
  imports Workload_Lib
begin

text \<open>
  The software 3D library of the demos, \<^verbatim>\<open>src/workloads/demos/g3d/g3d.h\<close> and \<^verbatim>\<open>g3d.c\<close>:
  Q16.16 arithmetic, matrices, projection, lighting, the rasteriser and the terminal output. A
  fixed-point value is an \<open>int\<close> in 32 bits, \<open>wrap32\<close> is the conversion to \<open>int32_t\<close>; the
  framebuffer and the depth buffer are maps from the pixel index. Bytes sent to the console are
  a list.
\<close>

unbundle bit_operations_syntax

subsection \<open>Fixed point\<close>

type_synonym g3d_fx = int

definition G3D_W :: int where "G3D_W = 64"
definition G3D_H :: int where "G3D_H = 48"
definition G3D_ONE :: g3d_fx where "G3D_ONE = 65536"

record g3d_vec3 =
  vx :: g3d_fx
  vy :: g3d_fx
  vz :: g3d_fx

record g3d_vert2 =
  sx :: int
  sy :: int
  sz :: g3d_fx

type_synonym g3d_mat4 = "g3d_fx list"

record g3d_rgb =
  cr :: u8
  cg :: u8
  cb :: u8

definition g3d_mul :: "g3d_fx \<Rightarrow> g3d_fx \<Rightarrow> g3d_fx" where
  "g3d_mul a b = wrap32 ((a * b) div 2 ^ 16)"

definition g3d_div :: "g3d_fx \<Rightarrow> g3d_fx \<Rightarrow> g3d_fx" where
  "g3d_div a b = (if b = 0 then 0 else wrap32 ((a * 2 ^ 16) sdiv b))"

definition g3d_from_int :: "int \<Rightarrow> g3d_fx" where
  "g3d_from_int v = wrap32 (v * 2 ^ 16)"

definition g3d_to_int :: "g3d_fx \<Rightarrow> int" where
  "g3d_to_int v = v div 2 ^ 16"

subsection \<open>Sine table\<close>

definition g3d_sintab :: "int list" where
  "g3d_sintab = [
     0, 1608, 3216, 4821, 6424, 8022, 9616, 11204, 12785, 14359, 15924, 17479,
     19024, 20557, 22078, 23586, 25080, 26558, 28020, 29466, 30893, 32303, 33692, 35062,
     36410, 37736, 39040, 40320, 41576, 42806, 44011, 45190, 46341, 47464, 48559, 49624,
     50660, 51665, 52639, 53581, 54491, 55368, 56212, 57022, 57798, 58538, 59244, 59914,
     60547, 61145, 61705, 62228, 62714, 63162, 63572, 63944, 64277, 64571, 64827, 65043,
     65220, 65358, 65457, 65516, 65536, 65516, 65457, 65358, 65220, 65043, 64827, 64571,
     64277, 63944, 63572, 63162, 62714, 62228, 61705, 61145, 60547, 59914, 59244, 58538,
     57798, 57022, 56212, 55368, 54491, 53581, 52639, 51665, 50660, 49624, 48559, 47464,
     46341, 45190, 44011, 42806, 41576, 40320, 39040, 37736, 36410, 35062, 33692, 32303,
     30893, 29466, 28020, 26558, 25080, 23586, 22078, 20557, 19024, 17479, 15924, 14359,
     12785, 11204, 9616, 8022, 6424, 4821, 3216, 1608, 0, -1608, -3216, -4821,
     -6424, -8022, -9616, -11204, -12785, -14359, -15924, -17479, -19024, -20557, -22078, -23586,
     -25080, -26558, -28020, -29466, -30893, -32303, -33692, -35062, -36410, -37736, -39040, -40320,
     -41576, -42806, -44011, -45190, -46341, -47464, -48559, -49624, -50660, -51665, -52639, -53581,
     -54491, -55368, -56212, -57022, -57798, -58538, -59244, -59914, -60547, -61145, -61705, -62228,
     -62714, -63162, -63572, -63944, -64277, -64571, -64827, -65043, -65220, -65358, -65457, -65516,
     -65536, -65516, -65457, -65358, -65220, -65043, -64827, -64571, -64277, -63944, -63572, -63162,
     -62714, -62228, -61705, -61145, -60547, -59914, -59244, -58538, -57798, -57022, -56212, -55368,
     -54491, -53581, -52639, -51665, -50660, -49624, -48559, -47464, -46341, -45190, -44011, -42806,
     -41576, -40320, -39040, -37736, -36410, -35062, -33692, -32303, -30893, -29466, -28020, -26558,
     -25080, -23586, -22078, -20557, -19024, -17479, -15924, -14359, -12785, -11204, -9616, -8022,
     -6424, -4821, -3216, -1608]"

definition g3d_sin :: "int \<Rightarrow> g3d_fx" where
  "g3d_sin angle256 = g3d_sintab ! nat (angle256 AND 255)"

definition g3d_cos :: "int \<Rightarrow> g3d_fx" where
  "g3d_cos angle256 = g3d_sintab ! nat ((angle256 + 64) AND 255)"

subsection \<open>Matrices and vectors\<close>

definition g3d_ident :: g3d_mat4 where
  "g3d_ident = (replicate 16 0)[0 := G3D_ONE, 5 := G3D_ONE, 10 := G3D_ONE, 15 := G3D_ONE]"

definition g3d_mul_mat :: "g3d_mat4 \<Rightarrow> g3d_mat4 \<Rightarrow> g3d_mat4" where
  "g3d_mul_mat a b =
     map (\<lambda>i. wrap32 (sum_list (map (\<lambda>k. a ! (i div 4 * 4 + k) * b ! (k * 4 + i mod 4)) [0..<4]) div 2 ^ 16))
       [0..<16]"

definition g3d_translate :: "g3d_fx \<Rightarrow> g3d_fx \<Rightarrow> g3d_fx \<Rightarrow> g3d_mat4" where
  "g3d_translate x y z = g3d_ident[3 := x, 7 := y, 11 := z]"

definition g3d_rotate_x :: "int \<Rightarrow> g3d_mat4" where
  "g3d_rotate_x angle256 =
     (let c = g3d_cos angle256; s = g3d_sin angle256 in g3d_ident[5 := c, 6 := - s, 9 := s, 10 := c])"

definition g3d_rotate_y :: "int \<Rightarrow> g3d_mat4" where
  "g3d_rotate_y angle256 =
     (let c = g3d_cos angle256; s = g3d_sin angle256 in g3d_ident[0 := c, 2 := s, 8 := - s, 10 := c])"

definition g3d_rotate_z :: "int \<Rightarrow> g3d_mat4" where
  "g3d_rotate_z angle256 =
     (let c = g3d_cos angle256; s = g3d_sin angle256 in g3d_ident[0 := c, 1 := - s, 4 := s, 5 := c])"

definition g3d_transform :: "g3d_mat4 \<Rightarrow> g3d_vec3 \<Rightarrow> g3d_vec3" where
  "g3d_transform m v = \<lparr>
     vx = wrap32 (g3d_mul (m ! 0) (vx v) + g3d_mul (m ! 1) (vy v) + g3d_mul (m ! 2) (vz v) + m ! 3),
     vy = wrap32 (g3d_mul (m ! 4) (vx v) + g3d_mul (m ! 5) (vy v) + g3d_mul (m ! 6) (vz v) + m ! 7),
     vz = wrap32 (g3d_mul (m ! 8) (vx v) + g3d_mul (m ! 9) (vy v) + g3d_mul (m ! 10) (vz v) + m ! 11)\<rparr>"

definition g3d_project :: "g3d_vec3 \<Rightarrow> int \<Rightarrow> int \<Rightarrow> g3d_fx \<Rightarrow> g3d_vert2 option" where
  "g3d_project eye cx cy focal =
     (if vz eye \<le> G3D_ONE sdiv 8 then None
      else Some \<lparr>
        sx = wrap32 (cx + g3d_to_int (g3d_div (g3d_mul (vx eye) focal) (vz eye))),
        sy = wrap32 (cy + g3d_to_int (g3d_div (g3d_mul (vy eye) focal) (vz eye))),
        sz = vz eye\<rparr>)"

definition g3d_cross :: "g3d_vec3 \<Rightarrow> g3d_vec3 \<Rightarrow> g3d_vec3" where
  "g3d_cross a b = \<lparr>
     vx = wrap32 (g3d_mul (vy a) (vz b) - g3d_mul (vz a) (vy b)),
     vy = wrap32 (g3d_mul (vz a) (vx b) - g3d_mul (vx a) (vz b)),
     vz = wrap32 (g3d_mul (vx a) (vy b) - g3d_mul (vy a) (vx b))\<rparr>"

definition g3d_dot :: "g3d_vec3 \<Rightarrow> g3d_vec3 \<Rightarrow> g3d_fx" where
  "g3d_dot a b = wrap32 (g3d_mul (vx a) (vx b) + g3d_mul (vy a) (vy b) + g3d_mul (vz a) (vz b))"

text \<open>
  The integer square root inside \<open>g3d_normalize\<close>; its \<open>uint64_t\<close> values stay below
  \<open>2 ^ 32\<close>, so natural numbers serve.
\<close>

function isqrt_start :: "nat \<Rightarrow> nat \<Rightarrow> nat" where
  "isqrt_start n b = (if n < b then isqrt_start n (b div 4) else b)"
  by pat_completeness auto
termination by (relation "measure snd") auto

function isqrt_loop :: "nat \<Rightarrow> nat \<Rightarrow> nat \<Rightarrow> nat" where
  "isqrt_loop n r b =
     (if b \<noteq> 0 then
        (if r + b \<le> n then isqrt_loop (n - (r + b)) (r div 2 + b) (b div 4)
         else isqrt_loop n (r div 2) (b div 4))
      else r)"
  by pat_completeness auto
termination by (relation "measure (\<lambda>(_, _, b). b)") auto

declare isqrt_start.simps [simp del] isqrt_loop.simps [simp del]

definition isqrt :: "nat \<Rightarrow> nat" where
  "isqrt n = isqrt_loop n 0 (isqrt_start n (2 ^ 30))"

definition g3d_normalize :: "g3d_vec3 \<Rightarrow> g3d_vec3" where
  "g3d_normalize v =
     (let len2 = g3d_dot v v in
      if len2 \<le> 0 then v
      else
        (let x = wrap32 (int (isqrt (nat len2)) * 2 ^ 8) in
         if x = 0 then v
         else \<lparr>vx = g3d_div (vx v) x, vy = g3d_div (vy v) x, vz = g3d_div (vz v) x\<rparr>))"

definition g3d_facing :: "g3d_vert2 \<Rightarrow> g3d_vert2 \<Rightarrow> g3d_vert2 \<Rightarrow> bool" where
  "g3d_facing a b c =
     (let ux = sx b - sx a; uy = sy b - sy a; wx = sx c - sx a; wy = sy c - sy a
      in 0 < ux * wy - uy * wx)"

definition shade_channel :: "int \<Rightarrow> u8 \<Rightarrow> u8" where
  "shade_channel k base =
     (let o1 = (word_of_int (48 + (wrap32 (uint base * k)) div 2 ^ 8) :: u8)
      in if uint o1 < 48 then 48 else o1)"

definition g3d_shade :: "g3d_rgb \<Rightarrow> g3d_vec3 \<Rightarrow> g3d_vec3 \<Rightarrow> g3d_rgb" where
  "g3d_shade base n light =
     (let ndotl = max 0 (g3d_dot n light); k = wrap32 (ndotl * 207) div 2 ^ 16
      in \<lparr>cr = shade_channel k (cr base), cg = shade_channel k (cg base), cb = shade_channel k (cb base)\<rparr>)"

subsection \<open>Rasteriser\<close>

type_synonym fbuf = "nat \<Rightarrow> g3d_rgb"
type_synonym zbuf = "nat \<Rightarrow> 16 word"

definition g3d_clear :: "fbuf \<Rightarrow> zbuf option \<Rightarrow> g3d_rgb \<Rightarrow> fbuf \<times> zbuf option" where
  "g3d_clear fb zb c =
     (let n = nat (G3D_W * G3D_H) in
      (\<lambda>i. if i < n then c else fb i,
       map_option (\<lambda>z i. if i < n then 0xFFFF else z i) zb))"

definition z_encode :: "g3d_fx \<Rightarrow> 16 word" where
  "z_encode zi =
     (let v = zi div 2 ^ 8; v = (if v < 0 then 0 else v); v = (if 65535 < v then 65535 else v)
      in word_of_int v)"

definition g3d_plot :: "int \<Rightarrow> int \<Rightarrow> g3d_fx \<Rightarrow> g3d_rgb \<Rightarrow> fbuf \<times> zbuf option \<Rightarrow> fbuf \<times> zbuf option" where
  "g3d_plot x y zi c = (\<lambda>(fb, zb).
     if uint (word_of_int G3D_W :: u32) \<le> uint (word_of_int x :: u32) \<or>
        uint (word_of_int G3D_H :: u32) \<le> uint (word_of_int y :: u32) then (fb, zb)
     else
       (let idx = nat (y * G3D_W + x); ze = z_encode zi in
        case zb of
          None \<Rightarrow> (fb(idx := c), None)
        | Some z \<Rightarrow> if z idx \<le> ze then (fb, zb) else (fb(idx := c), Some (z(idx := ze)))))"

partial_function (option) line_loop ::
  "int \<Rightarrow> int \<Rightarrow> int \<Rightarrow> int \<Rightarrow> int \<Rightarrow> int \<Rightarrow> g3d_rgb \<Rightarrow> int \<Rightarrow> int \<Rightarrow> int \<Rightarrow> fbuf \<Rightarrow> fbuf option" where
  [code]: "line_loop x1 y1 dx dy stx sty c x y err fb =
     (let fb = fst (g3d_plot x y 0 c (fb, None)) in
      if x = x1 \<and> y = y1 then Some fb
      else
        (let e2 = err * 2;
             (err, x) = (if - dy < e2 then (err - dy, x + stx) else (err, x));
             (err, y) = (if e2 < dx then (err + dx, y + sty) else (err, y))
         in line_loop x1 y1 dx dy stx sty c x y err fb))"

definition g3d_line :: "int \<Rightarrow> int \<Rightarrow> int \<Rightarrow> int \<Rightarrow> g3d_rgb \<Rightarrow> fbuf \<Rightarrow> fbuf option" where
  "g3d_line x0 y0 x1 y1 c fb =
     (let dx = x1 - x0; dy = y1 - y0;
          stx = (if 0 \<le> dx then 1 else -1); sty = (if 0 \<le> dy then 1 else -1);
          dx = (if dx < 0 then - dx else dx); dy = (if dy < 0 then - dy else dy)
      in line_loop x1 y1 dx dy stx sty c x0 y0 (dx - dy) fb)"

definition lerp_i :: "int \<Rightarrow> int \<Rightarrow> int \<Rightarrow> int \<Rightarrow> int" where
  "lerp_i a b num den =
     (if den = 0 then a else wrap32 (a + wrap32 ((wrap32 (b - a) * num) sdiv den)))"

definition lerp_z :: "g3d_fx \<Rightarrow> g3d_fx \<Rightarrow> int \<Rightarrow> int \<Rightarrow> g3d_fx" where
  "lerp_z a b num den =
     (if den = 0 then a else wrap32 (a + wrap32 ((wrap32 (b - a) * num) sdiv den)))"

text \<open>The three compare-and-swaps that order the corners by \<open>y\<close>.\<close>

definition sort_corners :: "g3d_vert2 \<Rightarrow> g3d_vert2 \<Rightarrow> g3d_vert2 \<Rightarrow> g3d_vert2 \<times> g3d_vert2 \<times> g3d_vert2" where
  "sort_corners a b c =
     (let (a, b) = (if sy a > sy b then (b, a) else (a, b));
          (b, c) = (if sy b > sy c then (c, b) else (b, c));
          (a, b) = (if sy a > sy b then (b, a) else (a, b))
      in (a, b, c))"

definition scanline :: "g3d_vert2 \<Rightarrow> g3d_vert2 \<Rightarrow> g3d_vert2 \<Rightarrow> g3d_rgb \<Rightarrow> int \<Rightarrow> int \<Rightarrow> int \<Rightarrow>
    fbuf \<times> zbuf option \<Rightarrow> fbuf \<times> zbuf option" where
  "scanline a b c col y_lo y_hi y f =
     (let y0 = sy a; y1 = sy b; y2 = sy c in
      if y < y_lo \<or> y_hi \<le> y then f
      else
        (let xl = lerp_i (sx a) (sx c) (y - y0) (y2 - y0);
             zl = lerp_z (sz a) (sz c) (y - y0) (y2 - y0);
             right = (if y < y1 \<and> y1 \<noteq> y0 then
                        Some (lerp_i (sx a) (sx b) (y - y0) (y1 - y0), lerp_z (sz a) (sz b) (y - y0) (y1 - y0))
                      else if y2 \<noteq> y1 then
                        Some (lerp_i (sx b) (sx c) (y - y1) (y2 - y1), lerp_z (sz b) (sz c) (y - y1) (y2 - y1))
                      else None)
         in case right of
              None \<Rightarrow> f
            | Some (xr, zr) \<Rightarrow>
                (let (xl, zl, xr, zr) = (if xl > xr then (xr, zr, xl, zl) else (xl, zl, xr, zr))
                 in fold (\<lambda>x. g3d_plot x y (lerp_z zl zr (x - xl) (xr - xl)) col) [xl..xr] f)))"

definition g3d_triangle :: "g3d_vert2 \<Rightarrow> g3d_vert2 \<Rightarrow> g3d_vert2 \<Rightarrow> g3d_rgb \<Rightarrow> int \<Rightarrow> int \<Rightarrow>
    fbuf \<times> zbuf option \<Rightarrow> fbuf \<times> zbuf option" where
  "g3d_triangle a b c col y_lo y_hi f =
     (let (a, b, c) = sort_corners a b c in
      if sy c = sy a then f
      else
        (let y_lo = (if y_lo < 0 then 0 else y_lo); y_hi = (if y_hi > G3D_H then G3D_H else y_hi)
         in fold (scanline a b c col y_lo y_hi) [sy a..sy c] f))"

subsection \<open>Terminal output\<close>

lemma unat_sub_of_nat: "k \<le> unat (v :: u8) \<Longrightarrow> unat (v - of_nat k) = unat v - k"
proof -
  assume k: "k \<le> unat v"
  then have "unat (of_nat k :: u8) = k" using unsigned_less [of v, where 'a = nat] by (simp add: unat_of_nat)
  then show ?thesis using k by (simp add: unat_sub word_le_nat_alt)
qed

function sub_loop :: "nat \<Rightarrow> u8 \<Rightarrow> u8 \<Rightarrow> u8 \<times> u8" where
  "sub_loop k v h =
     (if 0 < k \<and> k \<le> unat v then sub_loop k (v - of_nat k) (h + 1) else (v, h))"
  by pat_completeness auto
termination
  by (relation "measure (\<lambda>(_, v, _). unat v)") (auto simp: unat_sub_of_nat)

declare sub_loop.simps [simp del]

definition g3d_put_u8 :: "u8 \<Rightarrow> u8 list" where
  "g3d_put_u8 v =
     (let (v, h) = sub_loop 100 v 0; (v, t) = sub_loop 10 v 0 in
      (if h \<noteq> 0 then [48 + h] else []) @ (if h \<noteq> 0 \<or> t \<noteq> 0 then [48 + t] else []) @ [48 + v])"

definition g3d_rgb_eq :: "g3d_rgb \<Rightarrow> g3d_rgb \<Rightarrow> bool" where
  "g3d_rgb_eq a b \<longleftrightarrow> cr a = cr b \<and> cg a = cg b \<and> cb a = cb b"

text \<open>\<open>ESC[48;2;r;g;bm\<close> sets the background colour, \<open>ESC[38;2;r;g;bm\<close> the foreground.\<close>

definition put_rgb :: "u8 \<Rightarrow> g3d_rgb \<Rightarrow> u8 list" where
  "put_rgb d c = [27, 91, d, 56, 59, 50, 59] @ g3d_put_u8 (cr c) @ [59] @ g3d_put_u8 (cg c) @ [59] @
     g3d_put_u8 (cb c) @ [109]"

definition present_cell :: "g3d_rgb \<Rightarrow> g3d_rgb \<Rightarrow> g3d_rgb \<times> g3d_rgb \<times> u8 list \<Rightarrow> g3d_rgb \<times> g3d_rgb \<times> u8 list" where
  "present_cell a b = (\<lambda>(last_bg, last_fg, out).
     if g3d_rgb_eq a b then
       (if \<not> g3d_rgb_eq a last_bg \<or> \<not> g3d_rgb_eq a last_fg then (a, a, out @ put_rgb 52 a @ [32])
        else (last_bg, last_fg, out @ [32]))
     else
       (let (last_bg, out) = (if \<not> g3d_rgb_eq a last_bg then (a, out @ put_rgb 52 a) else (last_bg, out));
            (last_fg, out) = (if \<not> g3d_rgb_eq b last_fg then (b, out @ put_rgb 51 b) else (last_fg, out))
        in (last_bg, last_fg, out @ [0xE2, 0x96, 0x83])))"

definition present_row :: "fbuf \<Rightarrow> int \<Rightarrow> g3d_rgb \<times> g3d_rgb \<times> u8 list \<Rightarrow> g3d_rgb \<times> g3d_rgb \<times> u8 list" where
  "present_row fb y st =
     (case fold (\<lambda>x. present_cell (fb (nat (y * G3D_W + x))) (fb (nat ((y + 1) * G3D_W + x)))) [0..G3D_W - 1] st of
        (last_bg, last_fg, out) \<Rightarrow>
          (last_bg\<lparr>cr := 1\<rparr>, last_fg\<lparr>cr := 2\<rparr>,
           out @ [27, 91] @ ascii ''38;2;0;0;0m'' @ [27, 91] @ ascii ''48;2;0;0;0m'' @ [10]))"

definition g3d_present :: "fbuf \<Rightarrow> u8 list" where
  "g3d_present fb =
     snd (snd (fold (\<lambda>i. present_row fb (2 * i)) [0..G3D_H div 2 - 1]
       (\<lparr>cr = 1, cg = 2, cb = 3\<rparr>, \<lparr>cr = 3, cg = 2, cb = 1\<rparr>, [27, 91, 72])))"

end
