(* ===== verification/G3d_Correct.thy ===== *)
theory G3d_Correct
  imports G3d
begin

text \<open>What the 3D library's routines compute: the square root, the line, the bands, the colours.\<close>

unbundle bit_operations_syntax

subsection \<open>Integer square root\<close>

lemma isqrt_loop_root:
  assumes "N = q\<^sup>2 + n" "r = 2 ^ Suc k * q" "N < (q + 2 ^ Suc k)\<^sup>2"
  shows "(isqrt_loop n r (4 ^ k))\<^sup>2 \<le> N \<and> N < (isqrt_loop n r (4 ^ k) + 1)\<^sup>2"
  using assms
proof (induction k arbitrary: q n r)
  case 0
  have b: "isqrt_loop m x 0 = x" for m x by (subst isqrt_loop.simps) simp
  have "(q + 1)\<^sup>2 = q\<^sup>2 + r + 1" using 0(2) by (simp add: power2_eq_square)
  then show ?case
    using 0 by (subst (1 2) isqrt_loop.simps) (auto simp: b power2_eq_square)
next
  case (Suc k)
  have d: "(4 :: nat) ^ Suc k div 4 = 4 ^ k" "r div 2 = 2 ^ Suc k * q" using Suc.prems(2) by simp_all
  have p: "(2 :: nat) ^ Suc k * 2 ^ Suc k = 4 ^ Suc k" by (simp add: power_mult_distrib [symmetric])
  have sq: "(q + 2 ^ Suc k)\<^sup>2 = q\<^sup>2 + (r + 4 ^ Suc k)"
    using p Suc.prems(2) by (simp add: power2_eq_square algebra_simps)
  show ?case
  proof (cases "r + 4 ^ Suc k \<le> n")
    case True
    have "isqrt_loop n r (4 ^ Suc k) = isqrt_loop (n - (r + 4 ^ Suc k)) (r div 2 + 4 ^ Suc k) (4 ^ k)"
      using True by (subst isqrt_loop.simps) (simp add: d(1) del: power_Suc)
    moreover have "(isqrt_loop (n - (r + 4 ^ Suc k)) (r div 2 + 4 ^ Suc k) (4 ^ k))\<^sup>2 \<le> N \<and>
        N < (isqrt_loop (n - (r + 4 ^ Suc k)) (r div 2 + 4 ^ Suc k) (4 ^ k) + 1)\<^sup>2"
    proof (rule Suc.IH)
      show "N = (q + 2 ^ Suc k)\<^sup>2 + (n - (r + 4 ^ Suc k))" using sq True Suc.prems(1) by simp
      show "r div 2 + 4 ^ Suc k = 2 ^ Suc k * (q + 2 ^ Suc k)" using d(2) p by (simp add: distrib_left del: power_Suc)
      show "N < (q + 2 ^ Suc k + 2 ^ Suc k)\<^sup>2" using Suc.prems(3) by (simp add: add.assoc mult_2 [symmetric])
    qed
    ultimately show ?thesis by simp
  next
    case False
    have "isqrt_loop n r (4 ^ Suc k) = isqrt_loop n (r div 2) (4 ^ k)"
      using False by (subst isqrt_loop.simps) (simp add: d(1) del: power_Suc)
    moreover have "N < (q + 2 ^ Suc k)\<^sup>2" using False sq Suc.prems(1) by simp
    ultimately show ?thesis using Suc.IH [OF Suc.prems(1) d(2)] by simp
  qed
qed

lemma isqrt_start_pow:
  assumes "0 < n" "n < 4 ^ Suc k"
  shows "\<exists>j. isqrt_start n (4 ^ k) = 4 ^ j \<and> n < 4 ^ Suc j"
  using assms(2)
proof (induction k)
  case 0
  then show ?case using assms(1) by (intro exI [of _ 0]) (subst isqrt_start.simps, simp)
next
  case (Suc k)
  show ?case
  proof (cases "n < 4 ^ Suc k")
    case True
    then have "isqrt_start n (4 ^ Suc k) = isqrt_start n (4 ^ k)"
      by (subst isqrt_start.simps) (simp add: True)
    then show ?thesis using Suc.IH [OF True] by simp
  next
    case False
    then have "isqrt_start n (4 ^ Suc k) = 4 ^ Suc k" by (subst isqrt_start.simps) simp
    then show ?thesis using Suc.prems by blast
  qed
qed

text \<open>
  The bitwise square root in \<open>g3d_normalize\<close> returns the largest integer whose square
  is at most the argument, for every positive \<open>int32_t\<close>.
\<close>

theorem isqrt_correct:
  assumes "0 < n" "n < 2 ^ 31"
  shows "(isqrt n)\<^sup>2 \<le> n \<and> n < (isqrt n + 1)\<^sup>2"
proof -
  have "(2 :: nat) ^ 30 = 4 ^ 15" by simp
  then obtain j where j: "isqrt_start n (2 ^ 30) = 4 ^ j" "n < 4 ^ Suc j"
    using isqrt_start_pow [OF assms(1), of 15] assms(2) by auto
  have "(2 ^ Suc j)\<^sup>2 = (4 :: nat) ^ Suc j"
    by (simp only: power2_eq_square power_mult_distrib [symmetric]) simp
  then have "(isqrt_loop n 0 (4 ^ j))\<^sup>2 \<le> n \<and> n < (isqrt_loop n 0 (4 ^ j) + 1)\<^sup>2"
    using j(2) by (intro isqrt_loop_root [of n 0]) simp_all
  then show ?thesis unfolding isqrt_def j(1) .
qed

theorem isqrt_correct_witness: "(isqrt 2000000000)\<^sup>2 \<le> 2000000000 \<and> 2000000000 < (isqrt 2000000000 + 1)\<^sup>2"
  using isqrt_correct [of 2000000000] by simp

subsection \<open>Pixels\<close>

definition in_frame :: "int \<Rightarrow> int \<Rightarrow> bool" where
  "in_frame x y \<longleftrightarrow> 0 \<le> x \<and> x < G3D_W \<and> 0 \<le> y \<and> y < G3D_H"

definition pix :: "int \<Rightarrow> int \<Rightarrow> nat" where
  "pix x y = nat (y * G3D_W + x)"

definition is_int :: "int \<Rightarrow> bool" where
  "is_int x \<longleftrightarrow> - (2 ^ 31) \<le> x \<and> x < 2 ^ 31"

lemma pix_eq_iff: "in_frame x y \<Longrightarrow> in_frame x' y' \<Longrightarrow> pix x y = pix x' y' \<longleftrightarrow> x = x' \<and> y = y'"
proof -
  assume f: "in_frame x y" "in_frame x' y'"
  have "(v * 64 + u) div 64 = v" if "0 \<le> u" "u < 64" for u v :: int using that by simp
  then have "y * 64 + x = y' * 64 + x' \<Longrightarrow> y = y'" using f unfolding in_frame_def G3D_W_def by metis
  moreover have "pix x y = pix x' y' \<longleftrightarrow> y * 64 + x = y' * 64 + x'"
    using f by (simp add: in_frame_def pix_def G3D_W_def nat_eq_iff)
  ultimately show ?thesis by auto
qed

text \<open>For an \<open>int\<close> the unsigned comparison of the source is the range check.\<close>

lemma unsigned_range:
  assumes "is_int x" "0 \<le> k" "k < 2 ^ 31"
  shows "uint (word_of_int k :: u32) \<le> uint (word_of_int x :: u32) \<longleftrightarrow> x < 0 \<or> k \<le> x"
proof -
  have k: "uint (word_of_int k :: u32) = k" using assms by (simp add: uint_word_of_int)
  have "x mod 2 ^ 32 = (if 0 \<le> x then x else x + 2 ^ 32)"
    using assms(1) mod_add_self2 [of x "2 ^ 32"] mod_pos_pos_trivial [of "x + 2 ^ 32" "2 ^ 32"]
    by (auto simp: is_int_def)
  then show ?thesis using assms k by (auto simp: is_int_def uint_word_of_int)
qed

lemma plot_clip: "is_int x \<Longrightarrow> is_int y \<Longrightarrow>
  uint (word_of_int G3D_W :: u32) \<le> uint (word_of_int x :: u32) \<or>
  uint (word_of_int G3D_H :: u32) \<le> uint (word_of_int y :: u32) \<longleftrightarrow> \<not> in_frame x y"
  by (subst (1 2) unsigned_range) (auto simp: in_frame_def G3D_W_def G3D_H_def)

lemma in_frame_int: "in_frame x y \<Longrightarrow> is_int x \<and> is_int y"
  by (auto simp: in_frame_def is_int_def G3D_W_def G3D_H_def)

lemma plot_out: "is_int x \<Longrightarrow> is_int y \<Longrightarrow> \<not> in_frame x y \<Longrightarrow> g3d_plot x y zi c f = f"
  by (cases f) (simp only: g3d_plot_def prod.case plot_clip if_True simp_thms)

lemma plot_in: "in_frame x y \<Longrightarrow> g3d_plot x y zi c (fb, zb) =
  (case zb of None \<Rightarrow> (fb(pix x y := c), None)
   | Some z \<Rightarrow> if z (pix x y) \<le> z_encode zi then (fb, zb) else (fb(pix x y := c), Some (z(pix x y := z_encode zi))))"
  using in_frame_int [of x y]
  by (simp only: g3d_plot_def prod.case plot_clip if_False simp_thms Let_def pix_def)

lemma plot_commute:
  assumes "is_int x" "is_int x'" "is_int y" "is_int y'" "y \<noteq> y'"
  shows "g3d_plot x y zi c (g3d_plot x' y' zi' c' f) = g3d_plot x' y' zi' c' (g3d_plot x y zi c f)"
proof (cases "in_frame x y \<and> in_frame x' y'")
  case True
  then have "pix x y \<noteq> pix x' y'" using assms(5) by (simp add: pix_eq_iff)
  then show ?thesis using True
    by (cases f) (auto simp: plot_in fun_upd_twist split: option.splits)
next
  case False
  then show ?thesis using assms plot_out by metis
qed

lemma plot_changes: "fst (g3d_plot x y zi c (fb, zb)) k = fb k \<or> fst (g3d_plot x y zi c (fb, zb)) k = c"
  by (auto simp: g3d_plot_def Let_def split: option.splits)

subsection \<open>Lines\<close>

text \<open>
  One iteration of the loop on the error term: \<open>i\<close> and \<open>j\<close> count the steps taken in \<open>x\<close> and
  \<open>y\<close>, and the error is \<open>(j + 1) dx - (i + 1) dy\<close>. When \<open>dx\<close> is the longer extent every
  iteration steps in \<open>x\<close>, and the error stays in a range that leaves only \<open>j = dy\<close> at
  \<open>i = dx\<close>; when \<open>dy\<close> is longer, the same holds with the sign of the error reversed.
\<close>

definition err_ok :: "int \<Rightarrow> int \<Rightarrow> int \<Rightarrow> bool" where
  "err_ok l s e \<longleftrightarrow> - s < 2 * e \<and> 2 * e < 3 * l - 2 * s"

lemma err_ok_step:
  assumes "0 \<le> s" "s \<le> l" "err_ok l s e"
  shows "err_ok l s (if 2 * e < l then e - s + l else e - s)"
  using assms by (auto simp: err_ok_def)

lemma err_ok_end:
  assumes "0 \<le> s" "0 < l" "err_ok l s ((j + 1) * l - (l + 1) * s)"
  shows "j = s"
proof -
  define m where "m = j + 1 - s"
  have e: "(j + 1) * l - (l + 1) * s = m * l - s" by (simp add: m_def algebra_simps)
  have b: "0 < m * l" "2 * (m * l) < 3 * l" using assms(1,3) by (auto simp: err_ok_def e)
  have "0 < m" using b(1) assms(2) by (simp add: zero_less_mult_iff)
  moreover have "(2 * m) * l < 3 * l" using b(2) by (simp only: mult.assoc)
  then have "2 * m < 3" using assms(2) by (simp only: mult_less_cancel_right_pos)
  ultimately show ?thesis by (simp add: m_def)
qed

text \<open>What a line leaves: only its own colour was written, and its last pixel was.\<close>

definition line_drawn :: "int \<Rightarrow> int \<Rightarrow> g3d_rgb \<Rightarrow> fbuf \<Rightarrow> fbuf \<Rightarrow> bool" where
  "line_drawn x1 y1 c fb fb' \<longleftrightarrow>
     (\<forall>k. fb' k = fb k \<or> fb' k = c) \<and> (in_frame x1 y1 \<longrightarrow> fb' (pix x1 y1) = c)"

lemma line_drawn_last: "line_drawn x y c fb (fst (g3d_plot x y zi c (fb, None)))"
  using plot_changes [of x y zi c fb None] by (auto simp: line_drawn_def plot_in)

lemma line_drawn_plot:
  "line_drawn x1 y1 c (fst (g3d_plot x y zi c (fb, None))) fb' \<Longrightarrow> line_drawn x1 y1 c fb fb'"
  using plot_changes [of x y zi c fb None] unfolding line_drawn_def by metis

lemma line_loop_x_major:
  assumes "0 \<le> dy" "dy \<le> dx" "0 < dx" "stx \<noteq> 0" "x1 = x0 + dx * stx" "y1 = y0 + dy * sty"
    and "i \<le> dx" "err_ok dx dy ((j + 1) * dx - (i + 1) * dy)"
  shows "\<exists>fb'. line_loop x1 y1 dx dy stx sty c (x0 + i * stx) (y0 + j * sty) ((j + 1) * dx - (i + 1) * dy) fb = Some fb' \<and>
    line_drawn x1 y1 c fb fb'"
  using assms(7,8)
proof (induction "nat (dx - i)" arbitrary: i j fb)
  case 0
  then have i: "i = dx" by simp
  then have "j = dy" using err_ok_end [OF assms(1,3)] 0(3) by simp
  then show ?case using i assms(5,6) line_drawn_last [of x1 y1 c fb] by (subst line_loop.simps) (simp add: Let_def)
next
  case (Suc n)
  then have lt: "i < dx" by simp
  let ?e = "(j + 1) * dx - (i + 1) * dy"
  let ?fb = "fst (g3d_plot (x0 + i * stx) (y0 + j * sty) 0 c (fb, None))"
  let ?j = "if 2 * ?e < dx then j + 1 else j"
  have ne: "x0 + i * stx \<noteq> x1" using lt assms(4,5) by simp
  have xs: "- dy < 2 * ?e" using Suc.prems(2) by (simp add: err_ok_def)
  have "(if 2 * ?e < dx then ?e - dy + dx else ?e - dy) = (?j + 1) * dx - ((i + 1) + 1) * dy"
    by (simp add: algebra_simps)
  then have ok: "err_ok dx dy ((?j + 1) * dx - ((i + 1) + 1) * dy)"
    using err_ok_step [OF assms(1,2) Suc.prems(2)] by simp
  have "line_loop x1 y1 dx dy stx sty c (x0 + i * stx) (y0 + j * sty) ?e fb =
     line_loop x1 y1 dx dy stx sty c (x0 + (i + 1) * stx) (y0 + ?j * sty) ((?j + 1) * dx - ((i + 1) + 1) * dy) ?fb"
    using ne xs by (subst line_loop.simps) (simp add: Let_def algebra_simps)
  moreover have "\<exists>fb'. line_loop x1 y1 dx dy stx sty c (x0 + (i + 1) * stx) (y0 + ?j * sty)
      ((?j + 1) * dx - ((i + 1) + 1) * dy) ?fb = Some fb' \<and> line_drawn x1 y1 c ?fb fb'"
    using Suc.hyps(2) lt ok by (intro Suc.hyps(1)) simp_all
  ultimately show ?case using line_drawn_plot by auto
qed

lemma line_loop_y_major:
  assumes "0 \<le> dx" "dx \<le> dy" "0 < dy" "sty \<noteq> 0" "x1 = x0 + dx * stx" "y1 = y0 + dy * sty"
    and "j \<le> dy" "err_ok dy dx ((i + 1) * dy - (j + 1) * dx)"
  shows "\<exists>fb'. line_loop x1 y1 dx dy stx sty c (x0 + i * stx) (y0 + j * sty) ((j + 1) * dx - (i + 1) * dy) fb = Some fb' \<and>
    line_drawn x1 y1 c fb fb'"
  using assms(7,8)
proof (induction "nat (dy - j)" arbitrary: i j fb)
  case 0
  then have j: "j = dy" by simp
  then have "i = dx" using err_ok_end [OF assms(1,3)] 0(3) by simp
  then show ?case using j assms(5,6) line_drawn_last [of x1 y1 c fb] by (subst line_loop.simps) (simp add: Let_def)
next
  case (Suc n)
  then have lt: "j < dy" by simp
  let ?e = "(i + 1) * dy - (j + 1) * dx"
  let ?fb = "fst (g3d_plot (x0 + i * stx) (y0 + j * sty) 0 c (fb, None))"
  let ?i = "if 2 * ?e < dy then i + 1 else i"
  have ne: "y0 + j * sty \<noteq> y1" using lt assms(4,6) by simp
  have neg: "(j + 1) * dx - (i + 1) * dy = - ?e" by simp
  have ys: "2 * - ?e < dx" using Suc.prems(2) by (simp add: err_ok_def)
  have "(if 2 * ?e < dy then ?e - dx + dy else ?e - dx) = (?i + 1) * dy - ((j + 1) + 1) * dx"
    by (simp add: algebra_simps)
  then have ok: "err_ok dy dx ((?i + 1) * dy - ((j + 1) + 1) * dx)"
    using err_ok_step [OF assms(1,2) Suc.prems(2)] by simp
  have "line_loop x1 y1 dx dy stx sty c (x0 + i * stx) (y0 + j * sty) ((j + 1) * dx - (i + 1) * dy) fb =
     line_loop x1 y1 dx dy stx sty c (x0 + ?i * stx) (y0 + (j + 1) * sty) (((j + 1) + 1) * dx - (?i + 1) * dy) ?fb"
    using ne ys by (subst line_loop.simps) (simp add: Let_def algebra_simps)
  moreover have "\<exists>fb'. line_loop x1 y1 dx dy stx sty c (x0 + ?i * stx) (y0 + (j + 1) * sty)
      (((j + 1) + 1) * dx - (?i + 1) * dy) ?fb = Some fb' \<and> line_drawn x1 y1 c ?fb fb'"
    using Suc.hyps(2) lt ok by (intro Suc.hyps(1)) simp_all
  ultimately show ?case using line_drawn_plot by auto
qed

lemma line_loop_start:
  assumes "stx = 1 \<or> stx = -1" "sty = 1 \<or> sty = -1" "0 \<le> dx" "0 \<le> dy" "x1 = x0 + dx * stx" "y1 = y0 + dy * sty"
  shows "\<exists>fb'. line_loop x1 y1 dx dy stx sty c x0 y0 (dx - dy) fb = Some fb' \<and> line_drawn x1 y1 c fb fb'"
proof -
  consider "dx = 0" "dy = 0" | "0 < dx" "dy \<le> dx" | "0 < dy" "dx \<le> dy" using assms(3,4) by linarith
  then show ?thesis
  proof cases
    case 1
    then show ?thesis using assms(5,6) line_drawn_last [of x1 y1 c fb 0] by (subst line_loop.simps) (simp add: Let_def)
  next
    case 2
    then show ?thesis
      using line_loop_x_major [of dy dx stx x1 x0 y1 y0 sty 0 0 c fb] assms by (auto simp: err_ok_def)
  next
    case 3
    then show ?thesis
      using line_loop_y_major [of dx dy sty x1 x0 stx y1 y0 0 0 c fb] assms by (auto simp: err_ok_def)
  qed
qed

lemma plot_idem: "fst (g3d_plot x y zi c (fst (g3d_plot x y zi c (fb, None)), None)) = fst (g3d_plot x y zi c (fb, None))"
  by (auto simp: g3d_plot_def Let_def)

lemma line_loop_plotted:
  "line_loop x1 y1 dx dy stx sty c x y e (fst (g3d_plot x y 0 c (fb, None))) = line_loop x1 y1 dx dy stx sty c x y e fb"
  by (subst (1 2) line_loop.simps) (simp add: plot_idem)

text \<open>
  \<open>g3d_line\<close> returns for all end points: its endless loop meets the end point. It
  writes no colour but its own, and colours both ends that lie in the frame.
\<close>

theorem g3d_line_ends:
  "\<exists>fb'. g3d_line x0 y0 x1 y1 c fb = Some fb' \<and> (\<forall>k. fb' k = fb k \<or> fb' k = c) \<and>
     (in_frame x0 y0 \<longrightarrow> fb' (pix x0 y0) = c) \<and> (in_frame x1 y1 \<longrightarrow> fb' (pix x1 y1) = c)"
proof -
  let ?fb = "fst (g3d_plot x0 y0 0 c (fb, None))"
  have "\<exists>fb'. g3d_line x0 y0 x1 y1 c ?fb = Some fb' \<and> line_drawn x1 y1 c ?fb fb'"
    unfolding g3d_line_def Let_def by (rule line_loop_start) auto
  then obtain fb' where f: "g3d_line x0 y0 x1 y1 c ?fb = Some fb'" "line_drawn x1 y1 c ?fb fb'" by blast
  have "g3d_line x0 y0 x1 y1 c ?fb = g3d_line x0 y0 x1 y1 c fb"
    by (simp only: g3d_line_def Let_def line_loop_plotted)
  moreover have "in_frame x0 y0 \<longrightarrow> fb' (pix x0 y0) = c"
  proof
    assume "in_frame x0 y0"
    then have "?fb (pix x0 y0) = c" by (simp add: plot_in)
    moreover have "fb' (pix x0 y0) = ?fb (pix x0 y0) \<or> fb' (pix x0 y0) = c" using f(2) by (simp add: line_drawn_def)
    ultimately show "fb' (pix x0 y0) = c" by auto
  qed
  moreover note line_drawn_plot [OF f(2)]
  ultimately show ?thesis using f(1) unfolding line_drawn_def by metis
qed

theorem g3d_line_ends_witness:
  "\<exists>fb'. g3d_line 3 2 40 47 \<lparr>cr = 255, cg = 0, cb = 0\<rparr> (\<lambda>_. \<lparr>cr = 0, cg = 0, cb = 0\<rparr>) = Some fb' \<and>
     fb' (pix 3 2) = \<lparr>cr = 255, cg = 0, cb = 0\<rparr> \<and> fb' (pix 40 47) = \<lparr>cr = 255, cg = 0, cb = 0\<rparr>"
  using g3d_line_ends [of 3 2 40 47 "\<lparr>cr = 255, cg = 0, cb = 0\<rparr>" "\<lambda>_. \<lparr>cr = 0, cg = 0, cb = 0\<rparr>"]
  by (auto simp: in_frame_def G3D_W_def G3D_H_def)

subsection \<open>Triangles in row bands\<close>

lemma wrap32_is_int: "is_int (wrap32 x)"
  using sint_greater_eq [of "word_of_int x :: u32"] sint_lt [of "word_of_int x :: u32"]
  by (simp add: wrap32_def is_int_def)

lemma fold_skip: "fold (\<lambda>y f. if P y then g y f else f) xs f = fold g (filter P xs) f"
  by (induction xs arbitrary: f) auto

lemma filter_split_sorted:
  assumes "sorted xs" "\<And>y. P y \<Longrightarrow> y < m" "\<And>y. Q y \<Longrightarrow> m \<le> (y :: int)"
  shows "filter P xs @ filter Q xs = filter (\<lambda>y. P y \<or> Q y) xs"
  using assms(1)
proof (induction xs)
  case (Cons a xs)
  have "filter P xs = []" if "m \<le> a"
    using that Cons.prems assms(2) by (fastforce simp: filter_empty_conv)
  moreover have "m \<le> a \<Longrightarrow> \<not> P a" "a < m \<Longrightarrow> \<not> Q a" using assms(2,3) [of a] by auto
  ultimately show ?case using Cons by (cases "m \<le> a") (simp_all add: not_le)
qed simp

lemma fold_commutes:
  assumes "\<And>x y s. x \<in> set xs \<Longrightarrow> y \<in> set ys \<Longrightarrow> f x (g y s) = g y (f x s)"
  shows "fold f xs (fold g ys s) = fold g ys (fold f xs s)"
proof -
  have "f x (fold g ys s) = fold g ys (f x s)" if "x \<in> set xs" for x s
    using assms [OF that] by (induction ys arbitrary: s) auto
  then show ?thesis by (induction xs arbitrary: s) auto
qed

text \<open>The work of one scanline without its band check, as the list of plots it makes.\<close>

definition row_span :: "g3d_vert2 \<Rightarrow> g3d_vert2 \<Rightarrow> g3d_vert2 \<Rightarrow> int \<Rightarrow> int list \<times> (int \<Rightarrow> g3d_fx)" where
  "row_span a b c y =
     (let y0 = sy a; y1 = sy b; y2 = sy c;
          xl = lerp_i (sx a) (sx c) (y - y0) (y2 - y0);
          zl = lerp_z (sz a) (sz c) (y - y0) (y2 - y0);
          right = (if y < y1 \<and> y1 \<noteq> y0 then
                     Some (lerp_i (sx a) (sx b) (y - y0) (y1 - y0), lerp_z (sz a) (sz b) (y - y0) (y1 - y0))
                   else if y2 \<noteq> y1 then
                     Some (lerp_i (sx b) (sx c) (y - y1) (y2 - y1), lerp_z (sz b) (sz c) (y - y1) (y2 - y1))
                   else None)
      in case right of
           None \<Rightarrow> ([], \<lambda>_. 0)
         | Some (xr, zr) \<Rightarrow>
             (let (xl, zl, xr, zr) = (if xl > xr then (xr, zr, xl, zl) else (xl, zl, xr, zr))
              in ([xl..xr], \<lambda>x. lerp_z zl zr (x - xl) (xr - xl))))"

lemma scanline_row: "scanline a b c col l h y f =
  (if l \<le> y \<and> y < h then fold (\<lambda>x. g3d_plot x y (snd (row_span a b c y) x) col) (fst (row_span a b c y)) f else f)"
  by (auto simp: scanline_def row_span_def Let_def split: option.splits)

lemma lerp_i_is_int: "is_int a \<Longrightarrow> is_int (lerp_i a b n d)"
  by (simp add: lerp_i_def wrap32_is_int)

text \<open>A corner's fields are \<open>int\<close>s.\<close>

definition vert_ok :: "g3d_vert2 \<Rightarrow> bool" where
  "vert_ok v \<longleftrightarrow> is_int (sx v) \<and> is_int (sy v)"

lemma row_span_is_int:
  assumes "vert_ok a" "vert_ok b" "vert_ok c" "x \<in> set (fst (row_span a b c y))"
  shows "is_int x"
proof -
  have between: "is_int x" if "l \<le> x" "x \<le> r" "is_int l" "is_int r" for l r
    using that by (auto simp: is_int_def)
  show ?thesis
    using assms by (auto simp: row_span_def Let_def vert_ok_def split: if_splits intro: between lerp_i_is_int)
qed

definition row_draw :: "g3d_vert2 \<Rightarrow> g3d_vert2 \<Rightarrow> g3d_vert2 \<Rightarrow> g3d_rgb \<Rightarrow> int \<Rightarrow> fbuf \<times> zbuf option \<Rightarrow> fbuf \<times> zbuf option" where
  "row_draw a b c col y = fold (\<lambda>x. g3d_plot x y (snd (row_span a b c y) x) col) (fst (row_span a b c y))"

lemma row_draw_commute:
  assumes "vert_ok a" "vert_ok b" "vert_ok c" "vert_ok a'" "vert_ok b'" "vert_ok c'" "is_int y" "is_int y'" "y \<noteq> y'"
  shows "row_draw a b c col y (row_draw a' b' c' col' y' f) = row_draw a' b' c' col' y' (row_draw a b c col y f)"
  unfolding row_draw_def
  by (rule fold_commutes) (use assms in \<open>auto intro: plot_commute row_span_is_int\<close>)

text \<open>A triangle drawn in a band is the list of its rows in the band, clipped to the frame.\<close>

definition band_rows :: "g3d_vert2 \<Rightarrow> g3d_vert2 \<Rightarrow> int \<Rightarrow> int \<Rightarrow> int list" where
  "band_rows a c l h = (if sy c = sy a then [] else filter (\<lambda>y. max 0 l \<le> y \<and> y < min G3D_H h) [sy a..sy c])"

lemma fold_scanline:
  "fold (scanline a b c col l h) ys f = fold (row_draw a b c col) (filter (\<lambda>y. l \<le> y \<and> y < h) ys) f"
proof -
  have "scanline a b c col l h = (\<lambda>y f. if l \<le> y \<and> y < h then row_draw a b c col y f else f)"
    by (intro ext) (simp add: scanline_row row_draw_def)
  then show ?thesis by (simp only: fold_skip)
qed

lemma g3d_triangle_rows:
  assumes "sort_corners a b c = (p, q, r)"
  shows "g3d_triangle a b c col l h f = fold (row_draw p q r col) (band_rows p r l h) f"
proof -
  have "(if l < 0 then 0 else l) = max 0 l" "(if h > G3D_H then G3D_H else h) = min G3D_H h" by auto
  then show ?thesis by (simp add: g3d_triangle_def band_rows_def fold_scanline assms)
qed

lemma sort_corners_ok:
  assumes "sort_corners a b c = (p, q, r)" "vert_ok a" "vert_ok b" "vert_ok c"
  shows "vert_ok p \<and> vert_ok q \<and> vert_ok r"
  using assms by (auto simp: sort_corners_def Let_def split: if_splits)

lemma band_rows_split:
  assumes "l \<le> m" "m \<le> h"
  shows "band_rows a c l m @ band_rows a c m h = band_rows a c l h"
proof -
  let ?P = "\<lambda>y. max 0 l \<le> y \<and> y < min G3D_H m" and ?Q = "\<lambda>y. max 0 m \<le> y \<and> y < min G3D_H h"
  have "filter ?P [sy a..sy c] @ filter ?Q [sy a..sy c] = filter (\<lambda>y. ?P y \<or> ?Q y) [sy a..sy c]"
    by (rule filter_split_sorted [of _ _ m]) auto
  also have "\<dots> = filter (\<lambda>y. max 0 l \<le> y \<and> y < min G3D_H h) [sy a..sy c]"
    using assms by (intro filter_cong) auto
  finally show ?thesis by (simp add: band_rows_def)
qed

lemma g3d_triangle_split:
  assumes "l \<le> m" "m \<le> h"
  shows "g3d_triangle a b c col m h (g3d_triangle a b c col l m f) = g3d_triangle a b c col l h f"
proof -
  obtain p q r where s: "sort_corners a b c = (p, q, r)" by (cases "sort_corners a b c")
  have "fold g (band_rows p r m h) (fold g (band_rows p r l m) f) = fold g (band_rows p r l m @ band_rows p r m h) f" for g
    by simp
  then show ?thesis by (simp only: g3d_triangle_rows [OF s] band_rows_split [OF assms])
qed

lemma g3d_triangle_commute:
  assumes "vert_ok a" "vert_ok b" "vert_ok c" "vert_ok a'" "vert_ok b'" "vert_ok c'" "h \<le> l'"
  shows "g3d_triangle a b c col l h (g3d_triangle a' b' c' col' l' h' f) =
    g3d_triangle a' b' c' col' l' h' (g3d_triangle a b c col l h f)"
proof -
  obtain p q r where s: "sort_corners a b c = (p, q, r)" by (cases "sort_corners a b c")
  obtain p' q' r' where s': "sort_corners a' b' c' = (p', q', r')" by (cases "sort_corners a' b' c'")
  have row: "is_int y \<and> l \<le> y \<and> y < h" if "y \<in> set (band_rows p r l h)" for y p r l h
    using that by (auto simp: band_rows_def is_int_def G3D_H_def split: if_splits)
  show ?thesis
    unfolding g3d_triangle_rows [OF s] g3d_triangle_rows [OF s']
  proof (rule fold_commutes)
    fix y y' f
    assume "y \<in> set (band_rows p r l h)" "y' \<in> set (band_rows p' r' l' h')"
    from row [OF this(1)] row [OF this(2)] have "is_int y" "is_int y'" "y \<noteq> y'" using assms(7) by auto
    then show "row_draw p q r col y (row_draw p' q' r' col' y' f) = row_draw p' q' r' col' y' (row_draw p q r col y f)"
      using sort_corners_ok [OF s assms(1-3)] sort_corners_ok [OF s' assms(4-6)] by (intro row_draw_commute) auto
  qed
qed

text \<open>
  The rasteriser is safe across disjoint row bands: drawing a list of triangles in two
  adjacent bands, in either order of the bands, gives the buffers that drawing them in the whole
  band gives.
\<close>

theorem g3d_bands:
  assumes "l \<le> m" "m \<le> h" "\<And>a b c col. (a, b, c, col) \<in> set ts \<Longrightarrow> vert_ok a \<and> vert_ok b \<and> vert_ok c"
  defines "draw \<equiv> \<lambda>l h. fold (\<lambda>(a, b, c, col). g3d_triangle a b c col l h) ts"
  shows "draw m h (draw l m f) = draw l h f \<and> draw l m (draw m h f) = draw l h f"
proof -
  let ?t = "\<lambda>l h (a, b, c, col). g3d_triangle a b c col l h"
  have com: "fold (?t m h) us (fold (?t l m) vs s) = fold (?t l m) vs (fold (?t m h) us s)"
    if "set us \<subseteq> set ts" "set vs \<subseteq> set ts" for us vs s
    using that assms(3) by (intro fold_commutes) (auto intro!: g3d_triangle_commute [symmetric])
  have "fold (?t m h) us (fold (?t l m) us s) = fold (?t l h) us s" if "set us \<subseteq> set ts" for us s
    using that
  proof (induction us arbitrary: s)
    case (Cons t us)
    have "?t m h t (fold (?t l m) us (?t l m t s)) = fold (?t l m) us (?t m h t (?t l m t s))"
      using com [of "[t]" us] Cons.prems by simp
    then show ?case using Cons g3d_triangle_split [OF assms(1,2)] by (auto split: prod.splits)
  qed simp
  then show ?thesis using com unfolding draw_def by auto
qed

theorem g3d_bands_witness:
  "\<forall>f. let ts = [(\<lparr>sx = 3, sy = 2, sz = 65536\<rparr>, \<lparr>sx = 60, sy = 9, sz = 65536\<rparr>, \<lparr>sx = 20, sy = 45, sz = 131072\<rparr>, \<lparr>cr = 200, cg = 0, cb = 9\<rparr>)];
     draw = \<lambda>l h. fold (\<lambda>(a, b, c, col). g3d_triangle a b c col l h) ts
   in draw 24 48 (draw 0 24 f) = draw 0 48 f \<and> draw 0 24 (draw 24 48 f) = draw 0 48 f"
proof -
  let ?ts = "[(\<lparr>sx = 3, sy = 2, sz = 65536\<rparr>, \<lparr>sx = 60, sy = 9, sz = 65536\<rparr>, \<lparr>sx = 20, sy = 45, sz = 131072\<rparr>, \<lparr>cr = 200, cg = 0, cb = 9\<rparr>)]"
  show ?thesis using g3d_bands [of 0 24 48 ?ts] by (simp add: Let_def vert_ok_def is_int_def)
qed

subsection \<open>Terminal output\<close>

text \<open>
  When both halves of a cell have one colour, \<open>g3d_present\<close> sends only the background escape and
  records the colour as the foreground too. A next cell whose lower half has that colour then
  sends no foreground escape: its glyph is drawn in whatever foreground the terminal had.
\<close>

lemma present_stale_fg:
  assumes "\<not> g3d_rgb_eq c d" "\<not> g3d_rgb_eq c bg"
  shows "present_cell d c (present_cell c c (bg, fg, out)) =
    (d, c, out @ put_rgb 52 c @ [32] @ put_rgb 52 d @ [0xE2, 0x96, 0x83])"
  using assms by (auto simp: present_cell_def g3d_rgb_eq_def)

text \<open>After a line break a background colour \<open>(1, g, b)\<close> is not sent again, though it was reset to black.\<close>

lemma present_stale_bg:
  assumes "cr bg = 1" "\<not> g3d_rgb_eq bg d" "\<not> g3d_rgb_eq d fg"
  shows "present_cell bg d (bg\<lparr>cr := 1\<rparr>, fg, out) = (bg, d, out @ put_rgb 51 d @ [0xE2, 0x96, 0x83])"
  using assms by (auto simp: present_cell_def g3d_rgb_eq_def)

end
