(* ===== verification/Rtl_Model.thy ===== *)
theory Rtl_Model
  imports Emulator
begin

text \<open>
  The C++ driver around the Verilated core, \<^verbatim>\<open>src/sim/rtl/rtl_model.h\<close>. The Verilated model
  itself (\<open>Vsystem\<close>) is generated from the Chisel sources: its state is a type parameter, and
  its evaluation and ports are the functions of a record that every definition takes as an
  argument. Waveform dumps have no effect on the simulated machine and are left out; of the
  terminal, the bytes printed are kept.
\<close>

unbundle bit_operations_syntax

subsection \<open>The Verilated model\<close>

record 'v vsystem =
  v_eval :: "'v \<Rightarrow> 'v"
  v_set_clock :: "bool \<Rightarrow> 'v \<Rightarrow> 'v"
  v_set_reset :: "bool \<Rightarrow> 'v \<Rightarrow> 'v"
  v_set_finishedProgramming :: "bool \<Rightarrow> 'v \<Rightarrow> 'v"
  v_set_programmer_valid :: "bool \<Rightarrow> 'v \<Rightarrow> 'v"
  v_set_programmer_byte :: "u64 \<Rightarrow> 'v \<Rightarrow> 'v"
  v_set_programmer_offset :: "u64 \<Rightarrow> 'v \<Rightarrow> 'v"
  v_set_prober_offset :: "u64 \<Rightarrow> 'v \<Rightarrow> 'v"
  v_prober_accessLong :: "'v \<Rightarrow> u64"
  v_commitFired :: "nat \<Rightarrow> 'v \<Rightarrow> bool"
  v_interrupt :: "nat \<Rightarrow> 'v \<Rightarrow> bool"
  v_pc :: "nat \<Rightarrow> 'v \<Rightarrow> u64"
  v_registersOut :: "nat \<Rightarrow> nat \<Rightarrow> 'v \<Rightarrow> u64"
  v_msipShared :: "nat \<Rightarrow> 'v \<Rightarrow> u32"
  v_mtime :: "'v \<Rightarrow> u64"
  v_mtimecmpShared :: "nat \<Rightarrow> 'v \<Rightarrow> u64"
  v_mepc :: "nat \<Rightarrow> 'v \<Rightarrow> u64"
  v_mtvec :: "nat \<Rightarrow> 'v \<Rightarrow> u64"
  v_mcause :: "nat \<Rightarrow> 'v \<Rightarrow> u64"
  v_outChar_valid :: "nat \<Rightarrow> 'v \<Rightarrow> bool"
  v_outChar_byte :: "nat \<Rightarrow> 'v \<Rightarrow> u8"
  v_memory :: "'v \<Rightarrow> u8 list"
  v_set_memory :: "u8 list \<Rightarrow> 'v \<Rightarrow> 'v"

subsection \<open>Simulator state\<close>

record 'v simulator =
  tb :: 'v
  prev_pc :: u64
  prev_hart :: nat
  last_commit_pc :: "u64 list"
  tickcount :: u64
  dump_tick :: u32
  tx_prev_valid :: "bool list"
  tx_out :: "u8 list"

definition cycles :: "'v simulator \<Rightarrow> u64" where
  "cycles s = tickcount s + ucast (dump_tick s)"

text \<open>The \<open>switch\<close>es over the hart number send every number but 1, 2 and 3 to core 0.\<close>

definition core_of :: "int \<Rightarrow> nat" where
  "core_of n = (if n = 1 then 1 else if n = 2 then 2 else if n = 3 then 3 else 0)"

definition commit_fired :: "'v vsystem \<Rightarrow> int \<Rightarrow> 'v simulator \<Rightarrow> bool" where
  "commit_fired V n s = v_commitFired V (core_of n) (tb s)"

definition commit_interrupt :: "'v vsystem \<Rightarrow> int \<Rightarrow> 'v simulator \<Rightarrow> bool" where
  "commit_interrupt V n s = v_interrupt V (core_of n) (tb s)"

definition core_pc :: "'v vsystem \<Rightarrow> int \<Rightarrow> 'v simulator \<Rightarrow> u64" where
  "core_pc V n s = v_pc V (core_of n) (tb s)"

definition rtl_msip :: "'v vsystem \<Rightarrow> int \<Rightarrow> 'v simulator \<Rightarrow> u32" where
  "rtl_msip V h s = v_msipShared V (core_of h) (tb s) AND 1"

definition rtl_mtime :: "'v vsystem \<Rightarrow> 'v simulator \<Rightarrow> u64" where
  "rtl_mtime V s = v_mtime V (tb s)"

definition rtl_mtimecmp :: "'v vsystem \<Rightarrow> int \<Rightarrow> 'v simulator \<Rightarrow> u64" where
  "rtl_mtimecmp V h s = v_mtimecmpShared V (core_of h) (tb s)"

definition rtl_mepc :: "'v vsystem \<Rightarrow> int \<Rightarrow> 'v simulator \<Rightarrow> u64" where
  "rtl_mepc V h s = v_mepc V (core_of h) (tb s)"

definition rtl_mtvec :: "'v vsystem \<Rightarrow> int \<Rightarrow> 'v simulator \<Rightarrow> u64" where
  "rtl_mtvec V h s = v_mtvec V (core_of h) (tb s)"

definition rtl_mcause :: "'v vsystem \<Rightarrow> int \<Rightarrow> 'v simulator \<Rightarrow> u64" where
  "rtl_mcause V h s = v_mcause V (core_of h) (tb s)"

subsection \<open>Registers\<close>

definition reg :: "'v vsystem \<Rightarrow> int \<Rightarrow> int \<Rightarrow> 'v simulator \<Rightarrow> u64" where
  "reg V hart i s =
     (if hart < 0 \<or> hart > 3 \<or> i < 0 \<or> i > 32 then 0 else v_registersOut V (nat hart) (nat i) (tb s))"

fun check_from :: "'v vsystem \<Rightarrow> int \<Rightarrow> u64 list \<Rightarrow> u64 \<Rightarrow> nat list \<Rightarrow> 'v simulator \<Rightarrow> int" where
  "check_from V hart correct mst [] s = (if reg V hart 32 s \<noteq> mst then 32 else 0)"
| "check_from V hart correct mst (i # is) s =
     (if reg V hart (int i) s \<noteq> correct ! i then int i else check_from V hart correct mst is s)"

definition check_registers :: "'v vsystem \<Rightarrow> int \<Rightarrow> u64 list \<Rightarrow> u64 \<Rightarrow> 'v simulator \<Rightarrow> int" where
  "check_registers V hart correct mst s = check_from V hart correct mst [1..<32] s"

subsection \<open>Clocking\<close>

definition tick_nodump :: "'v vsystem \<Rightarrow> 'v \<Rightarrow> 'v" where
  "tick_nodump V v = v_eval V (v_set_clock V False (v_eval V (v_set_clock V True (v_eval V v))))"

definition show_port :: "'v vsystem \<Rightarrow> nat \<Rightarrow> 'v simulator \<Rightarrow> 'v simulator" where
  "show_port V p s =
     (let valid = v_outChar_valid V p (tb s);
          s = (if valid \<and> \<not> tx_prev_valid s ! p then s\<lparr>tx_out := tx_out s @ [v_outChar_byte V p (tb s)]\<rparr> else s)
      in s\<lparr>tx_prev_valid := (tx_prev_valid s)[p := valid]\<rparr>)"

definition advance :: "'v vsystem \<Rightarrow> bool \<Rightarrow> bool \<Rightarrow> 'v simulator \<Rightarrow> 'v simulator" where
  "advance V show_terminal dump s =
     (let s = (if dump then s\<lparr>dump_tick := dump_tick s + 1\<rparr> else s\<lparr>tickcount := tickcount s + 1\<rparr>);
          s = s\<lparr>tb := tick_nodump V (tb s)\<rparr>
      in if show_terminal then fold (show_port V) [0, 1, 2, 3] s else s)"

definition note_commit :: "'v vsystem \<Rightarrow> nat \<Rightarrow> u8 \<times> bool \<times> 'v simulator \<Rightarrow> u8 \<times> bool \<times> 'v simulator" where
  "note_commit V h = (\<lambda>(m, any_irq, s).
     if \<not> commit_fired V (int h) s then (m, any_irq, s)
     else (m OR push_bit h 1, any_irq \<or> commit_interrupt V (int h) s,
           s\<lparr>last_commit_pc := (last_commit_pc s)[h := core_pc V (int h) s]\<rparr>))"

fun lowest :: "u8 \<Rightarrow> nat list \<Rightarrow> 'v simulator \<Rightarrow> 'v simulator" where
  "lowest m [] s = s"
| "lowest m (h # hs) s =
     (if m AND push_bit h 1 \<noteq> 0 then s\<lparr>prev_hart := h, prev_pc := last_commit_pc s ! h\<rparr> else lowest m hs s)"

fun step_until_commits :: "'v vsystem \<Rightarrow> bool \<Rightarrow> bool \<Rightarrow> nat \<Rightarrow> 'v simulator \<Rightarrow> int \<times> u8 \<times> 'v simulator" where
  "step_until_commits V show_terminal dump 0 s =
     (1, 0, s\<lparr>prev_pc := v_pc V 0 (tb s), prev_hart := 0\<rparr>)"
| "step_until_commits V show_terminal dump (Suc n) s =
     (case fold (note_commit V) [0, 1, 2, 3] (0, False, advance V show_terminal dump s) of
        (m, any_irq, s) \<Rightarrow>
          if m \<noteq> 0 then (if any_irq then 2 else 0, m, lowest m [0, 1, 2, 3] s)
          else step_until_commits V show_terminal dump n s)"

fun commit_loop :: "'v vsystem \<Rightarrow> bool \<Rightarrow> bool \<Rightarrow> nat \<Rightarrow> 'v simulator \<Rightarrow> 'v simulator" where
  "commit_loop V show_terminal dump 0 s = s"
| "commit_loop V show_terminal dump (Suc n) s =
     (if v_commitFired V 0 (tb s) then s else commit_loop V show_terminal dump n (advance V show_terminal dump s))"

definition run_until_commit :: "'v vsystem \<Rightarrow> bool \<Rightarrow> bool \<Rightarrow> nat \<Rightarrow> 'v simulator \<Rightarrow> int \<times> 'v simulator" where
  "run_until_commit V show_terminal dump step_timeout s =
     (let s = commit_loop V show_terminal dump step_timeout (advance V show_terminal dump s);
          s = s\<lparr>prev_pc := v_pc V 0 (tb s)\<rparr>
      in if v_interrupt V 0 (tb s) \<and> v_commitFired V 0 (tb s) then (2, s)
         else if v_commitFired V 0 (tb s) then (0, s) else (1, s))"

subsection \<open>Loading\<close>

datatype load_error = CannotOpen | OverflowsDram

text \<open>A file that does not open is \<open>None\<close>; the process exits on an error.\<close>

definition load_segment :: "'v vsystem \<Rightarrow> u8 list option \<Rightarrow> nat \<Rightarrow> 'v \<Rightarrow> load_error + 'v" where
  "load_segment V file base v =
     (case file of
        None \<Rightarrow> Inl CannotOpen
      | Some buffer \<Rightarrow>
          let mem = v_memory V v in
          if base + length buffer > length mem then Inl OverflowsDram
          else Inr (v_set_memory V (take base mem @ buffer @ drop (base + length buffer) mem) v))"

definition read_dram64 :: "'v vsystem \<Rightarrow> u64 \<Rightarrow> 'v simulator \<Rightarrow> u64" where
  "read_dram64 V phys s =
     (if phys < 0x80000000 then 0
      else
        (let off = (phys - 0x80000000) AND NOT 7 in
         if unat off + 8 > length (v_memory V (tb s)) then 0
         else le_word (take 8 (drop (unat off) (v_memory V (tb s))))))"

definition sim_init :: "'v vsystem \<Rightarrow> u8 list option \<Rightarrow> u8 list option \<Rightarrow> u8 list option \<Rightarrow> 'v \<Rightarrow>
    load_error + 'v simulator" where
  "sim_init V img dtb boot v =
     (let v = (tick_nodump V ^^ 20) (v_set_reset V True v);
          v = (tick_nodump V ^^ 20) (v_set_reset V False v) in
      case load_segment V img 0 v of
        Inl e \<Rightarrow> Inl e
      | Inr v \<Rightarrow>
          case load_segment V dtb 0x07e00000 v of
            Inl e \<Rightarrow> Inl e
          | Inr v \<Rightarrow>
              case load_segment V boot 0x07ffff00 v of
                Inl e \<Rightarrow> Inl e
              | Inr v \<Rightarrow>
                  let v = tick_nodump V (v_set_programmer_valid V False (v_set_finishedProgramming V True v));
                      v = tick_nodump V (v_set_programmer_valid V False (v_set_finishedProgramming V False v))
                  in Inr \<lparr>tb = v, prev_pc = 0x80000000, prev_hart = 0, last_commit_pc = replicate 4 0,
                          tickcount = 0, dump_tick = 0, tx_prev_valid = replicate 4 False, tx_out = []\<rparr>)"

text \<open>A restored model is neither reset nor loaded.\<close>

definition init_no_image :: "'v \<Rightarrow> 'v simulator" where
  "init_no_image v =
     \<lparr>tb = v, prev_pc = 0, prev_hart = 0, last_commit_pc = replicate 4 0, tickcount = 0, dump_tick = 0,
      tx_prev_valid = replicate 4 False, tx_out = []\<rparr>"

definition set_probe :: "'v vsystem \<Rightarrow> u64 \<Rightarrow> 'v simulator \<Rightarrow> 'v simulator" where
  "set_probe V address s = s\<lparr>tb := v_set_prober_offset V address (tb s)\<rparr>"

definition step_any :: "'v vsystem \<Rightarrow> bool \<Rightarrow> bool \<Rightarrow> nat \<Rightarrow> 'v simulator \<Rightarrow> int \<times> 'v simulator" where
  "step_any V show_terminal dump step_timeout s =
     (case step_until_commits V show_terminal dump step_timeout s of (rc, _, s) \<Rightarrow> (rc, s))"

subsection \<open>Stepping to the next commit\<close>

definition any_commit :: "'v vsystem \<Rightarrow> 'v simulator \<Rightarrow> bool" where
  "any_commit V s \<longleftrightarrow> (\<exists>h<4. commit_fired V (int h) s)"

text \<open>What one look at the four commit ports must report.\<close>

definition commit_report :: "'v vsystem \<Rightarrow> 'v simulator \<Rightarrow> int \<Rightarrow> u8 \<Rightarrow> 'v simulator \<Rightarrow> bool" where
  "commit_report V s rc m s' \<longleftrightarrow>
     tb s' = tb s \<and> (\<forall>h<4. bit m h \<longleftrightarrow> commit_fired V (int h) s) \<and>
     (\<forall>h<4. last_commit_pc s' ! h = (if commit_fired V (int h) s then core_pc V (int h) s else last_commit_pc s ! h)) \<and>
     rc = (if \<exists>h<4. commit_fired V (int h) s \<and> commit_interrupt V (int h) s then 2 else 0) \<and>
     commit_fired V (int (prev_hart s')) s \<and> (\<forall>h<prev_hart s'. \<not> commit_fired V (int h) s) \<and>
     prev_pc s' = core_pc V (int (prev_hart s')) s"

lemma all_less_4: "(\<forall>h<4. P h) \<longleftrightarrow> P 0 \<and> P 1 \<and> P 2 \<and> P (3 :: nat)"
  by (auto simp: numeral_eq_Suc less_Suc_eq)

lemma ex_less_4: "(\<exists>h<4. P h) \<longleftrightarrow> P 0 \<or> P 1 \<or> P 2 \<or> P (3 :: nat)"
  by (auto simp: numeral_eq_Suc less_Suc_eq)

lemma ports_last_commit_pc [simp]:
  "commit_fired V n (s\<lparr>last_commit_pc := l\<rparr>) = commit_fired V n s"
  "commit_interrupt V n (s\<lparr>last_commit_pc := l\<rparr>) = commit_interrupt V n s"
  "core_pc V n (s\<lparr>last_commit_pc := l\<rparr>) = core_pc V n s"
  by (simp_all add: commit_fired_def commit_interrupt_def core_pc_def)

definition mask_of :: "(nat \<Rightarrow> bool) \<Rightarrow> nat list \<Rightarrow> u8 \<Rightarrow> u8" where
  "mask_of F hs m = fold (\<lambda>h m. if F h then m OR push_bit h 1 else m) hs m"

definition pcs_of :: "(nat \<Rightarrow> bool) \<Rightarrow> (nat \<Rightarrow> u64) \<Rightarrow> nat list \<Rightarrow> u64 list \<Rightarrow> u64 list" where
  "pcs_of F pc hs l = fold (\<lambda>h l. if F h then l[h := pc h] else l) hs l"

lemma fold_note_commit:
  "fold (note_commit V) hs (m, irq, s\<lparr>last_commit_pc := l\<rparr>) =
     (mask_of (\<lambda>h. commit_fired V (int h) s) hs m,
      irq \<or> (\<exists>h\<in>set hs. commit_fired V (int h) s \<and> commit_interrupt V (int h) s),
      s\<lparr>last_commit_pc := pcs_of (\<lambda>h. commit_fired V (int h) s) (\<lambda>h. core_pc V (int h) s) hs l\<rparr>)"
proof (induction hs arbitrary: m irq l)
  case (Cons h hs)
  show ?case
    using Cons.IH [of m irq l] Cons.IH [of "m OR push_bit h 1" "irq \<or> commit_interrupt V (int h) s" "l[h := core_pc V (int h) s]"]
    by (auto simp: note_commit_def mask_of_def pcs_of_def)
qed (simp add: mask_of_def pcs_of_def)

lemma mask_of_simps [simp]:
  "mask_of F [] m = m" "mask_of F (a # hs) m = mask_of F hs (if F a then m OR push_bit a 1 else m)"
  by (simp_all add: mask_of_def)

lemma pcs_of_simps [simp]:
  "pcs_of F pc [] l = l" "pcs_of F pc (a # hs) l = pcs_of F pc hs (if F a then l[a := pc a] else l)"
  by (simp_all add: pcs_of_def)

lemma bit_push_1: "bit (push_bit a (1 :: u8)) h \<longleftrightarrow> h = a \<and> h < 8"
  by (auto simp: bit_exp_iff possible_bit_def)

lemma bit_mask_of: "bit (mask_of F hs m) h \<longleftrightarrow> bit m h \<or> h < 8 \<and> h \<in> set hs \<and> F h"
  by (induction hs arbitrary: m) (auto simp: bit_or_iff bit_push_1 simp del: push_bit_of_1)

lemma nth_pcs_of: "h < length l \<Longrightarrow> pcs_of F pc hs l ! h = (if h \<in> set hs \<and> F h then pc h else l ! h)"
proof (induction hs arbitrary: l)
  case (Cons a hs)
  then show ?case by (cases "a = h") (auto simp: nth_list_update)
qed simp

lemma test_bit_and: "h < 8 \<Longrightarrow> (m :: u8) AND push_bit h 1 \<noteq> 0 \<longleftrightarrow> bit m h"
  by (auto simp: bit_eq_iff [of _ 0] bit_and_iff bit_push_1 simp del: push_bit_of_1)

lemma lowest_first:
  assumes "\<exists>h\<in>set hs. bit m h" "\<forall>h\<in>set hs. h < 8"
  shows "\<exists>h us vs. hs = us @ h # vs \<and> bit m h \<and> (\<forall>u\<in>set us. \<not> bit m u) \<and>
    lowest m hs s = s\<lparr>prev_hart := h, prev_pc := last_commit_pc s ! h\<rparr>"
  using assms
proof (induction hs)
  case (Cons a hs)
  show ?case
  proof (cases "bit m a")
    case True
    then show ?thesis using Cons.prems(2) test_bit_and [of a m] by (intro exI [of _ a] exI [of _ "[]"] exI [of _ hs]) simp
  next
    case False
    then obtain h us vs where "hs = us @ h # vs" "bit m h" "\<forall>u\<in>set us. \<not> bit m u"
      "lowest m hs s = s\<lparr>prev_hart := h, prev_pc := last_commit_pc s ! h\<rparr>" using Cons by auto
    then show ?thesis using False Cons.prems(2) test_bit_and [of a m]
      by (intro exI [of _ h] exI [of _ "a # us"] exI [of _ vs]) simp
  qed
qed simp

lemma upt_4: "[0, 1, 2, 3] = [0..<4]"
  by (simp add: upt_rec)

lemma note_all:
  assumes "length (last_commit_pc s) = 4" "fold (note_commit V) [0, 1, 2, 3] (0, False, s) = (m, irq, s1)"
  shows "m \<noteq> 0 \<longleftrightarrow> any_commit V s" "\<not> any_commit V s \<Longrightarrow> s1 = s"
    "any_commit V s \<Longrightarrow> commit_report V s (if irq then 2 else 0) m (lowest m [0, 1, 2, 3] s1)"
proof -
  let ?F = "\<lambda>h. commit_fired V (int h) s" and ?pc = "\<lambda>h. core_pc V (int h) s"
  have e: "m = mask_of ?F [0..<4] 0" "irq \<longleftrightarrow> (\<exists>h<4. ?F h \<and> commit_interrupt V (int h) s)"
    "s1 = s\<lparr>last_commit_pc := pcs_of ?F ?pc [0..<4] (last_commit_pc s)\<rparr>"
    using assms(2) fold_note_commit [where l = "last_commit_pc s" and s = s and hs = "[0..<4]" and m = 0 and irq = False and V = V] unfolding upt_4 by (auto simp: Bex_def)
  have b: "bit m h \<longleftrightarrow> h < 4 \<and> ?F h" for h by (auto simp: e(1) bit_mask_of)
  have l: "last_commit_pc s1 ! h = (if ?F h then ?pc h else last_commit_pc s ! h)" if "h < 4" for h
    using that assms(1) nth_pcs_of [of h "last_commit_pc s" ?F ?pc "[0..<4]"] by (simp add: e(3))
  have "m \<noteq> 0 \<longleftrightarrow> (\<exists>h. bit m h)" by (metis bit_0_eq bit_word_eqI bot_apply bot_bool_def)
  then show "m \<noteq> 0 \<longleftrightarrow> any_commit V s" by (simp add: any_commit_def b)
  show "s1 = s" if "\<not> any_commit V s"
  proof -
    have "pcs_of ?F ?pc hs x = x" if "set hs \<subseteq> {..<4}" for hs x
      using that \<open>\<not> any_commit V s\<close> by (induction hs) (auto simp: pcs_of_def any_commit_def)
    from this [of "[0..<4]"] show ?thesis by (simp add: e(3) lessThan_atLeast0)
  qed
  show "commit_report V s (if irq then 2 else 0) m (lowest m [0, 1, 2, 3] s1)" if c: "any_commit V s"
  proof -
    have "\<exists>h\<in>set [0..<4]. bit m h" "\<forall>h\<in>set [0..<4]. h < 8" using c by (auto simp: any_commit_def b)
    then obtain h us vs where h: "[0..<4] = us @ h # vs" "bit m h" "\<forall>u\<in>set us. \<not> bit m u"
      and low: "lowest m [0..<4] s1 = s1\<lparr>prev_hart := h, prev_pc := last_commit_pc s1 ! h\<rparr>"
      using lowest_first [of "[0..<4]" m s1] by blast
    have lt: "h < 4" using h(2) b by simp
    have k: "length us < 4" using arg_cong [OF h(1), of length] by simp
    have "us = take (length us) [0..<4]" "h = [0..<4] ! length us" by (simp_all add: h(1))
    then have "us = [0..<h]" using k by (simp add: take_upt)
    then have n: "\<forall>u<h. \<not> ?F u" using h(3) lt b by auto
    have "tb (lowest m [0..<4] s1) = tb s" "prev_hart (lowest m [0..<4] s1) = h"
      "prev_pc (lowest m [0..<4] s1) = core_pc V (int h) s"
      "last_commit_pc (lowest m [0..<4] s1) = last_commit_pc s1"
      using l [OF lt] h(2) b e(3) unfolding low by simp_all
    then show ?thesis unfolding commit_report_def upt_4 using n l h(2) b e(2) by simp
  qed
qed

lemma advance_last_commit_pc [simp]: "last_commit_pc (advance V st dump s) = last_commit_pc s"
proof -
  have "last_commit_pc (fold (show_port V) ps s) = last_commit_pc s" for ps s
    by (induction ps arbitrary: s) (simp_all add: show_port_def Let_def)
  from this [of "[0, 1, 2, 3]"] show ?thesis by (simp add: advance_def Let_def)
qed

text \<open>
  C36: \<open>step_until_commits\<close> stops at the first of at most \<open>STEP_TIMEOUT\<close> clocks in which some
  hart commits; the mask, the per-hart program counters, the lowest committing hart and the
  interrupt code describe exactly the commits of that clock. If no clock commits it has advanced
  the full timeout and returns 1.
\<close>

theorem step_until_commits_first:
  fixes V :: "'v vsystem" and st dump :: bool
  assumes "length (last_commit_pc s) = 4"
  defines "after k \<equiv> (advance V st dump ^^ k) s"
  shows "case step_until_commits V st dump n s of (rc, m, s') \<Rightarrow>
    (\<exists>k<n. (\<forall>j<k. \<not> any_commit V (after (Suc j))) \<and> any_commit V (after (Suc k)) \<and> commit_report V (after (Suc k)) rc m s') \<or>
    (\<forall>k<n. \<not> any_commit V (after (Suc k))) \<and> rc = 1 \<and> m = 0 \<and>
      s' = (after n)\<lparr>prev_pc := v_pc V 0 (tb (after n)), prev_hart := 0\<rparr>"
  using assms(1) unfolding after_def
proof (induction n arbitrary: s)
  case (Suc n)
  let ?s = "advance V st dump s"
  have l: "length (last_commit_pc ?s) = 4" using Suc.prems by simp
  obtain m irq s1 where f: "fold (note_commit V) [0, 1, 2, 3] (0, False, ?s) = (m, irq, s1)" by (metis prod_cases3)
  note obs = note_all [OF l f]
  show ?case
  proof (cases "any_commit V ?s")
    case True
    then show ?thesis using obs f by auto
  next
    case False
    obtain rc m' s' where r: "step_until_commits V st dump n ?s = (rc, m', s')" by (metis prod_cases3)
    have e: "step_until_commits V st dump (Suc n) s = (rc, m', s')" using False obs f r by simp
    let ?a = "\<lambda>k. (advance V st dump ^^ k) s"
    have a: "(advance V st dump ^^ k) ?s = ?a (Suc k)" for k by (simp add: funpow_swap1)
    have first: "\<forall>j<Suc k. \<not> any_commit V (?a (Suc j))" if "\<forall>j<k. \<not> any_commit V (?a (Suc (Suc j)))" for k
      using that False by (auto simp: less_Suc_eq_0_disj)
    have "(\<exists>k<n. (\<forall>j<k. \<not> any_commit V (?a (Suc (Suc j)))) \<and> any_commit V (?a (Suc (Suc k))) \<and>
          commit_report V (?a (Suc (Suc k))) rc m' s') \<or>
        (\<forall>k<n. \<not> any_commit V (?a (Suc (Suc k)))) \<and> rc = 1 \<and> m' = 0 \<and>
          s' = (?a (Suc n))\<lparr>prev_pc := v_pc V 0 (tb (?a (Suc n))), prev_hart := 0\<rparr>"
      using Suc.IH [OF l] unfolding r prod.case a .
    then show ?thesis
    proof (elim disjE exE conjE)
      fix k assume "k < n" "\<forall>j<k. \<not> any_commit V (?a (Suc (Suc j)))" "any_commit V (?a (Suc (Suc k)))"
        "commit_report V (?a (Suc (Suc k))) rc m' s'"
      then show ?thesis using first [of k] unfolding e prod.case by (intro disjI1 exI [of _ "Suc k"]) simp
    next
      assume "\<forall>k<n. \<not> any_commit V (?a (Suc (Suc k)))" "rc = 1" "m' = 0"
        "s' = (?a (Suc n))\<lparr>prev_pc := v_pc V 0 (tb (?a (Suc n))), prev_hart := 0\<rparr>"
      then show ?thesis using first [of n] unfolding e prod.case by (intro disjI2) simp
    qed
  qed
qed simp

text \<open>
  A concrete model for the witnesses: the state counts evaluations, and harts 1 and 3 commit in
  every clock from the third on.
\<close>

definition sample_v :: "nat vsystem" where
  "sample_v = \<lparr>v_eval = Suc, v_set_clock = (\<lambda>_ v. v), v_set_reset = (\<lambda>_ v. v), v_set_finishedProgramming = (\<lambda>_ v. v),
     v_set_programmer_valid = (\<lambda>_ v. v), v_set_programmer_byte = (\<lambda>_ v. v), v_set_programmer_offset = (\<lambda>_ v. v),
     v_set_prober_offset = (\<lambda>_ v. v), v_prober_accessLong = (\<lambda>_. 0),
     v_commitFired = (\<lambda>h v. 9 \<le> v \<and> (h = 1 \<or> h = 3)), v_interrupt = (\<lambda>h v. False), v_pc = (\<lambda>h v. of_nat (4 * v + h)),
     v_registersOut = (\<lambda>h i v. of_nat i), v_msipShared = (\<lambda>_ _. 0), v_mtime = of_nat, v_mtimecmpShared = (\<lambda>_ _. 0),
     v_mepc = (\<lambda>_ _. 0), v_mtvec = (\<lambda>_ _. 0), v_mcause = (\<lambda>_ _. 0), v_outChar_valid = (\<lambda>_ _. False),
     v_outChar_byte = (\<lambda>_ _. 0), v_memory = (\<lambda>_. []), v_set_memory = (\<lambda>_ v. v)\<rparr>"

definition sample_sim :: "'v \<Rightarrow> 'v simulator" where
  "sample_sim v = \<lparr>tb = v, prev_pc = 0, prev_hart = 0, last_commit_pc = [0, 0, 0, 0], tickcount = 0, dump_tick = 0,
     tx_prev_valid = [False, False, False, False], tx_out = []\<rparr>"

theorem step_until_commits_first_witness:
  "\<exists>rc m s'. step_until_commits sample_v False False 10 (sample_sim 0) = (rc, m, s') \<and>
     (\<exists>k<10. commit_report sample_v ((advance sample_v False False ^^ Suc k) (sample_sim 0)) rc m s')"
proof -
  let ?a = "\<lambda>k. (advance sample_v False False ^^ k) (sample_sim (0 :: nat))"
  obtain rc m s' where r: "step_until_commits sample_v False False 10 (sample_sim 0) = (rc, m, s')" by (metis prod_cases3)
  have "?a (Suc 2) = (sample_sim 9)\<lparr>tickcount := 3\<rparr>"
    by (simp add: numeral_eq_Suc advance_def tick_nodump_def sample_v_def sample_sim_def)
  then have "any_commit sample_v (?a (Suc 2))"
    by (auto simp: any_commit_def commit_fired_def sample_v_def sample_sim_def core_of_def intro!: exI [of _ 1])
  then have some: "\<not> (\<forall>k<10. \<not> any_commit sample_v (?a (Suc k)))" by (intro notI) (drule spec [of _ 2], simp)
  have "length (last_commit_pc (sample_sim (0 :: nat))) = 4" by (simp add: sample_sim_def)
  from step_until_commits_first [where V = sample_v and st = False and dump = False and n = 10, OF this] r some show ?thesis by auto
qed

subsection \<open>Comparing registers\<close>

lemma check_from_spec:
  assumes "distinct is" "sorted is" "\<forall>i\<in>set is. 0 < i \<and> i < 32"
  shows "(check_from V hart correct mst is s = 0 \<longleftrightarrow>
      (\<forall>i\<in>set is. reg V hart (int i) s = correct ! i) \<and> reg V hart 32 s = mst) \<and>
    0 \<le> check_from V hart correct mst is s \<and> check_from V hart correct mst is s \<le> 32"
  using assms by (induction "is") auto

lemma check_registers_0:
  "check_registers V hart correct mst s = 0 \<longleftrightarrow>
     (\<forall>i. 0 < i \<longrightarrow> i < 32 \<longrightarrow> reg V hart (int i) s = correct ! i) \<and> reg V hart 32 s = mst"
  using check_from_spec [of "[1..<32]" V hart correct mst s] by (auto simp: check_registers_def)

lemma check_from_first:
  assumes "check_from V hart correct mst [a..<32] s = int r" "0 < r" "0 < a" "a \<le> 32"
  shows "a \<le> r \<and> r \<le> 32 \<and> (\<forall>i. a \<le> i \<longrightarrow> i < r \<longrightarrow> reg V hart (int i) s = correct ! i) \<and>
    (r < 32 \<longrightarrow> reg V hart (int r) s \<noteq> correct ! r)"
  using assms
proof (induction "32 - a" arbitrary: a)
  case 0
  then show ?case by (auto split: if_splits)
next
  case (Suc n)
  then have a: "[a..<32] = a # [Suc a..<32]" by (simp add: upt_conv_Cons)
  show ?case
  proof (cases "reg V hart (int a) s = correct ! a")
    case True
    then have "check_from V hart correct mst [Suc a..<32] s = int r" using Suc.prems(1) a by simp
    then have ih: "Suc a \<le> r" "r \<le> 32" "\<forall>i. Suc a \<le> i \<longrightarrow> i < r \<longrightarrow> reg V hart (int i) s = correct ! i"
      "r < 32 \<longrightarrow> reg V hart (int r) s \<noteq> correct ! r"
      using Suc.hyps(1) [of "Suc a"] Suc.hyps(2) Suc.prems(2,3,4) by simp_all
    have "i = a \<or> Suc a \<le> i" if "a \<le> i" for i using that by linarith
    then show ?thesis using ih True by (metis Suc_leD)
  next
    case False
    then show ?thesis using Suc.prems a by auto
  qed
qed

text \<open>A nonzero result of \<open>check_registers\<close> is the first register that differs, 32 for \<open>mstatus\<close>.\<close>

lemmas check_registers_first = check_from_first [of _ _ _ _ 1, folded check_registers_def]

subsection \<open>Loading and reading DRAM\<close>

lemma load_segment_bytes:
  assumes "load_segment V (Some file) base v = Inr v'" "\<And>m w. v_memory V (v_set_memory V m w) = m"
  shows "length (v_memory V v') = length (v_memory V v)"
    "i < length (v_memory V v) \<Longrightarrow>
       v_memory V v' ! i = (if base \<le> i \<and> i < base + length file then file ! (i - base) else v_memory V v ! i)"
  using assms by (auto simp: load_segment_def Let_def nth_append split: if_splits)

end
