(* ===== verification/Lockstep.thy ===== *)
theory Lockstep
  imports Rtl_Model Reservation
begin

text \<open>
  The four-hart lock-step harness, \<^verbatim>\<open>src/sim/harness/lockstep_quad.cpp\<close>: after every clock in
  which the RTL commits, each committing hart of the golden model is compared with it and then
  stepped. The RTL is the parameter of \<open>Rtl_Model\<close>; the golden model is \<open>Emulator\<close>, built with
  \<open>LOCKSTEP\<close>. The log files and messages are left out.
\<close>

unbundle bit_operations_syntax

subsection \<open>State\<close>

record memop =
  mo_valid :: bool
  mo_kind :: int
  mo_rd :: int
  mo_width :: int
  mo_funct5 :: u32
  mo_addr :: u64
  mo_rs2val :: u64
  mo_oldword :: u64

record 'v lockstep =
  golden :: emulator
  bench :: "'v simulator"
  msip_latch :: "u32 list"
  pending_mtime_rd :: "int list"
  last_memop :: "memop list"
  racy_fixups :: u64

datatype ls_error = Golden abort | CsrRunaway

definition attempt :: "abort + 'a \<Rightarrow> ('a \<Rightarrow> ls_error + 'b) \<Rightarrow> ls_error + 'b" where
  "attempt m f = (case m of Inl e \<Rightarrow> Inl (Golden e) | Inr x \<Rightarrow> f x)"

definition on_golden :: "abort + emulator \<Rightarrow> 'v lockstep \<Rightarrow> ls_error + 'v lockstep" where
  "on_golden m st = attempt m (\<lambda>e. Inr (st\<lparr>golden := e\<rparr>))"

definition kClintMtime :: u64 where "kClintMtime = 0x0200bff8"

definition memop_none :: memop where
  "memop_none = \<lparr>mo_valid = False, mo_kind = 0, mo_rd = 0, mo_width = 8, mo_funct5 = 0, mo_addr = 0, mo_rs2val = 0, mo_oldword = 0\<rparr>"

definition lockstep_init :: "emulator \<Rightarrow> 'v simulator \<Rightarrow> 'v lockstep" where
  "lockstep_init e b = \<lparr>golden = e, bench = b, msip_latch = [0, 0, 0, 0], pending_mtime_rd = [-1, -1, -1, -1],
     last_memop = replicate 4 memop_none, racy_fixups = 0\<rparr>"

subsection \<open>Reconstructing a racy memory operation\<close>

definition sext32 :: "u64 \<Rightarrow> u64" where
  "sext32 v = scast (ucast v :: u32)"

definition amo_result :: "u32 \<Rightarrow> int \<Rightarrow> u64 \<Rightarrow> u64 \<Rightarrow> u64" where
  "amo_result funct5 width oldv v2 =
     (let (oldv, v2) = (if width = 4 then (sext32 oldv, sext32 v2) else (oldv, v2)) in
      if funct5 = 0x00 then oldv + v2
      else if funct5 = 0x01 then v2
      else if funct5 = 0x04 then oldv XOR v2
      else if funct5 = 0x08 then oldv OR v2
      else if funct5 = 0x0c then oldv AND v2
      else if funct5 = 0x10 then (if sint oldv < sint v2 then oldv else v2)
      else if funct5 = 0x14 then (if sint oldv > sint v2 then oldv else v2)
      else if funct5 = 0x18 then (if oldv < v2 then oldv else v2)
      else if funct5 = 0x1c then (if oldv > v2 then oldv else v2)
      else oldv)"

definition splice_word :: "u64 \<Rightarrow> u64 \<Rightarrow> int \<Rightarrow> u64 \<Rightarrow> u64" where
  "splice_word word8 addr width v =
     (if width = 8 then v
      else if addr AND 4 \<noteq> 0 then (word8 AND 0x00000000ffffffff) OR push_bit 32 v
      else (word8 AND 0xffffffff00000000) OR (v AND 0xffffffff))"

definition reconcile_racy :: "'v vsystem \<Rightarrow> nat \<Rightarrow> int \<Rightarrow> 'v lockstep \<Rightarrow> ls_error + bool \<times> 'v lockstep" where
  "reconcile_racy V h r st =
     (let op = last_memop st ! h in
      if r < 1 \<or> r > 31 \<or> \<not> mo_valid op \<or> r \<noteq> mo_rd op then Inr (False, st)
      else
        (let rtl_rd = reg V (int h) r (bench st); gold_rd = reg_file (harts (golden st) ! h) ! nat r;
             a8 = mo_addr op AND NOT 7 in
         attempt (emu_set_register (word_of_int r) rtl_rd h (golden st)) (\<lambda>e.
         attempt
           (if mo_kind op = 3 then
              (case read_mem64 e a8 of
                 Inl x \<Rightarrow> Inl x
               | Inr w8 \<Rightarrow>
                   if rtl_rd = 0 \<and> gold_rd \<noteq> 0 then write_mem64 a8 (splice_word w8 (mo_addr op) (mo_width op) (mo_rs2val op)) e
                   else if rtl_rd \<noteq> 0 \<and> gold_rd = 0 then write_mem64 a8 (mo_oldword op) e
                   else Inr e)
            else if mo_kind op = 4 then
              (case read_mem64 e a8 of
                 Inl x \<Rightarrow> Inl x
               | Inr w8 \<Rightarrow>
                   write_mem64 a8 (splice_word w8 (mo_addr op) (mo_width op)
                     (amo_result (mo_funct5 op) (mo_width op) rtl_rd (mo_rs2val op))) e)
            else Inr e) (\<lambda>e.
         Inr (True, st\<lparr>golden := e, racy_fixups := racy_fixups st + 1\<rparr>)))))"

subsection \<open>Stepping the golden model\<close>

definition emu_get_instruction :: "nat \<Rightarrow> emulator \<Rightarrow> abort + u32 \<times> emulator" where
  "emu_get_instruction i e =
     (if length (harts e) \<le> i then Inl OutOfRange
      else (case get_instruction (harts e ! i, world e) of
              Inl x \<Rightarrow> Inl x | Inr (w, h) \<Rightarrow> Inr (w, e\<lparr>harts := (harts e)[i := h]\<rparr>)))"

text \<open>
  CSR instructions do not appear on the commit port, so the golden model runs through them. The
  source loops without a bound; the model counts down and reports a run of CSR instructions
  that is longer.
\<close>

fun csr_skip :: "nat \<Rightarrow> nat \<Rightarrow> emulator \<Rightarrow> ls_error + emulator" where
  "csr_skip 0 h e = Inl CsrRunaway"
| "csr_skip (Suc n) h e =
     attempt (emu_get_instruction h e) (\<lambda>(w, e).
       if w AND 0x7f \<noteq> 0x73 then Inr e
       else attempt (emu_get_instruction h e) (\<lambda>(w, e).
         if w AND 0x7000 = 0 then Inr e
         else attempt (step_hart_only True h e) (csr_skip n h)))"

definition step_past_csrs :: "nat \<Rightarrow> nat \<Rightarrow> emulator \<Rightarrow> ls_error + emulator" where
  "step_past_csrs n h e = attempt (step_hart_only True h e) (csr_skip n h)"

definition apply_pending_mtime_rd :: "'v vsystem \<Rightarrow> nat \<Rightarrow> 'v lockstep \<Rightarrow> ls_error + 'v lockstep" where
  "apply_pending_mtime_rd V h st =
     (let r = pending_mtime_rd st ! h in
      if r < 0 then Inr st
      else
        (let st = st\<lparr>pending_mtime_rd := (pending_mtime_rd st)[h := -1]\<rparr> in
         if r = 0 then Inr st
         else on_golden (emu_set_register (word_of_int r) (reg V (int h) (uint (word_of_int r :: u8)) (bench st)) h (golden st)) st))"

text \<open>The memory operation about to be executed, and the destination of a load from \<open>mtime\<close>.\<close>

definition classify :: "u32 \<Rightarrow> emulator \<Rightarrow> nat \<Rightarrow> memop \<Rightarrow> abort + int \<times> memop" where
  "classify insn e h op =
     (let op = op\<lparr>mo_valid := False\<rparr>; regs = reg_file (harts e ! h);
          i0 = drop_bit 7 insn AND 0x1f; i1 = drop_bit 15 insn AND 0x1f in
      if insn AND 0x7f = 0x03 then
        (let imm = signed_drop_bit 20 (scast insn :: u64); addr = regs ! unat i1 + imm;
             mtime_rd = (if addr AND NOT 7 = kClintMtime then uint i0 else -1) in
         Inr (mtime_rd,
           if i0 \<noteq> 0 \<and> 0x80000000 \<le> addr then
             \<lparr>mo_valid = True, mo_kind = 1, mo_rd = uint i0, mo_width = 8, mo_funct5 = 0, mo_addr = addr, mo_rs2val = 0, mo_oldword = 0\<rparr>
           else op))
      else if insn AND 0x7f = 0x2f then
        (let i2 = drop_bit 20 insn AND 0x1f; funct5 = drop_bit 27 insn;
             width = (if drop_bit 12 insn AND 7 = 2 then 4 else 8); addr = regs ! unat i1;
             kind = (if funct5 = 0x02 then 2 else if funct5 = 0x03 then 3 else 4) in
         if i0 \<noteq> 0 \<and> 0x80000000 \<le> addr then
           (case read_mem64 e (addr AND NOT 7) of
              Inl x \<Rightarrow> Inl x
            | Inr w \<Rightarrow> Inr (-1, \<lparr>mo_valid = True, mo_kind = kind, mo_rd = uint i0, mo_width = width, mo_funct5 = funct5,
                 mo_addr = addr, mo_rs2val = regs ! unat i2, mo_oldword = w\<rparr>))
         else Inr (-1, op))
      else Inr (-1, op))"

definition golden_step_hart :: "'v vsystem \<Rightarrow> nat \<Rightarrow> nat \<Rightarrow> 'v lockstep \<Rightarrow> ls_error + 'v lockstep" where
  "golden_step_hart V n h st =
     attempt (emu_clear_wfi h (golden st)) (\<lambda>e.
     let st = (if rtl_msip V (int h) (bench st) = 0 then st\<lparr>msip_latch := (msip_latch st)[h := 0]\<rparr> else st);
         e = emu_set_msip (of_nat h) (msip_latch st ! h) e in
     attempt (emu_get_instruction h e) (\<lambda>(insn_before, e).
     attempt (classify insn_before e h (last_memop st ! h)) (\<lambda>(mtime_rd, op).
     case step_past_csrs n h e of
       Inl x \<Rightarrow> Inl x
     | Inr e \<Rightarrow>
         let st = st\<lparr>golden := e, last_memop := (last_memop st)[h := op]\<rparr>;
             st = (if insn_before = 0x10500073 then st\<lparr>msip_latch := (msip_latch st)[h := rtl_msip V (int h) (bench st)]\<rparr> else st);
             st = (if 0 \<le> mtime_rd then st\<lparr>pending_mtime_rd := (pending_mtime_rd st)[h := mtime_rd]\<rparr> else st)
         in Inr st)))"

subsection \<open>Interrupts the RTL took first\<close>

definition in_entry :: "u64 \<Rightarrow> u64 \<Rightarrow> bool" where
  "in_entry tv pc \<longleftrightarrow> tv \<le> pc \<and> pc < tv + 16"

fun run_entry :: "nat \<Rightarrow> nat \<Rightarrow> nat \<Rightarrow> u64 \<Rightarrow> u64 \<Rightarrow> emulator \<Rightarrow> ls_error + emulator" where
  "run_entry n 0 h rp tv e = Inr e"
| "run_entry n (Suc g) h rp tv e =
     (let gpc = PC (harts e ! h) in
      if gpc = rp then Inr e
      else if \<not> (in_entry tv gpc \<and> gpc < rp) then Inr e
      else (case step_past_csrs n h e of Inl x \<Rightarrow> Inl x | Inr e \<Rightarrow> run_entry n g h rp tv e))"

fun copy_registers :: "'v vsystem \<Rightarrow> nat \<Rightarrow> nat list \<Rightarrow> 'v simulator \<Rightarrow> emulator \<Rightarrow> abort + emulator" where
  "copy_registers V h [] b e = Inr e"
| "copy_registers V h (r # rs) b e =
     (case emu_set_register (of_nat r) (reg V (int h) (int r) b) h e of
        Inl x \<Rightarrow> Inl x | Inr e \<Rightarrow> copy_registers V h rs b e)"

definition force_take_if_needed :: "'v vsystem \<Rightarrow> nat \<Rightarrow> nat \<Rightarrow> 'v lockstep \<Rightarrow> ls_error + bool \<times> 'v lockstep" where
  "force_take_if_needed V n h st =
     (let b = bench st; e = golden st; rp = last_commit_pc b ! h; gp = PC (harts e ! h); tv = rtl_mtvec V (int h) b;
          rtl_in_trap_entry = (tv \<noteq> 0 \<and> in_entry tv rp); golden_still_guest = (\<not> in_entry tv gp) in
      if rp = gp \<or> \<not> golden_still_guest then Inr (False, st)
      else if \<not> (commit_interrupt V (int h) b \<or> rtl_in_trap_entry) then Inr (False, st)
      else
        attempt (if rtl_mcause V (int h) b = 0x8000000000000003 then emu_take_machine_soft_irq h e
                 else emu_take_machine_timer_irq h e) (\<lambda>e.
        attempt (if rtl_mepc V (int h) b \<noteq> 0 then emu_set_mepc h (rtl_mepc V (int h) b) e else Inr e) (\<lambda>e.
        case run_entry n 32 h rp tv e of
          Inl x \<Rightarrow> Inl x
        | Inr e \<Rightarrow>
            attempt
              (if PC (harts e ! h) = rp then
                 (case copy_registers V h [1..<32] b e of
                    Inl x \<Rightarrow> Inl x | Inr e \<Rightarrow> emu_set_mstatus h (reg V (int h) 32 b) e)
               else Inr e) (\<lambda>e. Inr (True, st\<lparr>golden := e\<rparr>)))))"

subsection \<open>One committing hart\<close>

datatype verdict = Matched | PcMismatch | RegMismatch int

definition check_hart :: "'v vsystem \<Rightarrow> nat \<Rightarrow> 'v lockstep \<Rightarrow> int" where
  "check_hart V h st =
     check_registers V (int h) (reg_file (harts (golden st) ! h)) (mstatus_read_reg (mstatus (harts (golden st) ! h))) (bench st)"

definition compare_hart :: "'v vsystem \<Rightarrow> nat \<Rightarrow> nat \<Rightarrow> 'v lockstep \<Rightarrow> ls_error + verdict \<times> 'v lockstep" where
  "compare_hart V n h st =
     (case apply_pending_mtime_rd V h st of Inl x \<Rightarrow> Inl x | Inr st \<Rightarrow>
      case force_take_if_needed V n h st of Inl x \<Rightarrow> Inl x | Inr (_, st) \<Rightarrow>
      let emu_pc = PC (harts (golden st) ! h) in
      attempt (emu_get_instruction h (golden st)) (\<lambda>(insn, e).
        let st = st\<lparr>golden := e\<rparr> in
        if last_commit_pc (bench st) ! h \<noteq> emu_pc then Inr (PcMismatch, st)
        else
          (let r = check_hart V h st in
           case (if r \<noteq> 0 then reconcile_racy V h r st else Inr (False, st)) of
             Inl x \<Rightarrow> Inl x
           | Inr (fixed, st) \<Rightarrow>
               let r = (if fixed then check_hart V h st else r) in
               if r \<noteq> 0 then Inr (RegMismatch r, st) else Inr (Matched, st))))"

definition hart_round :: "'v vsystem \<Rightarrow> nat \<Rightarrow> nat \<Rightarrow> 'v lockstep \<Rightarrow> ls_error + verdict \<times> 'v lockstep" where
  "hart_round V n h st =
     (case compare_hart V n h st of
        Inl x \<Rightarrow> Inl x
      | Inr (Matched, st) \<Rightarrow>
          (case golden_step_hart V n h st of Inl x \<Rightarrow> Inl x | Inr st \<Rightarrow> Inr (Matched, st))
      | Inr (v, st) \<Rightarrow> Inr (v, st))"

subsection \<open>The main loop\<close>

datatype outcome = Completed u64 | Mismatch nat verdict u64 | Stall u64

fun each_hart :: "'v vsystem \<Rightarrow> nat \<Rightarrow> (u64 \<Rightarrow> u64 \<Rightarrow> bool) \<Rightarrow> u8 \<Rightarrow> nat list \<Rightarrow> u64 \<Rightarrow> bool \<Rightarrow> 'v lockstep \<Rightarrow>
    ls_error + (nat \<times> verdict) option \<times> u64 \<times> bool \<times> 'v lockstep" where
  "each_hart V n hit commits [] matched finished st = Inr (None, matched, finished, st)"
| "each_hart V n hit commits (h # hs) matched finished st =
     (if commits AND push_bit h 1 = 0 then each_hart V n hit commits hs matched finished st
      else
        (let rtl_pc = last_commit_pc (bench st) ! h in
         case hart_round V n h st of
           Inl x \<Rightarrow> Inl x
         | Inr (v, st) \<Rightarrow>
             if v \<noteq> Matched then Inr (Some (h, v), matched, finished, st)
             else each_hart V n hit commits hs (matched + 1)
               (finished \<or> h = 0 \<and> hit rtl_pc (reg V 0 10 (bench st))) st))"

definition sync_timers :: "'v vsystem \<Rightarrow> 'v simulator \<Rightarrow> emulator \<Rightarrow> emulator" where
  "sync_timers V b e =
     fold (\<lambda>h. emu_set_mtimecmp (of_nat h) (rtl_mtimecmp V (int h) b)) [0, 1, 2, 3] (emu_set_mtime (rtl_mtime V b) e)"

text \<open>The log of a round fetches the next instruction of every golden hart.\<close>

fun log_fetches :: "nat list \<Rightarrow> emulator \<Rightarrow> abort + emulator" where
  "log_fetches [] e = Inr e"
| "log_fetches (h # hs) e = (case emu_get_instruction h e of Inl x \<Rightarrow> Inl x | Inr (_, e) \<Rightarrow> log_fetches hs e)"

text \<open>One iteration: the RTL runs to its next commits, then every committing hart is compared and stepped.\<close>

definition lockstep_round :: "'v vsystem \<Rightarrow> nat \<Rightarrow> nat \<Rightarrow> bool \<Rightarrow> (u64 \<Rightarrow> u64 \<Rightarrow> bool) \<Rightarrow> u64 \<Rightarrow> 'v lockstep \<Rightarrow>
    ls_error + outcome option \<times> u64 \<times> 'v lockstep" where
  "lockstep_round V step_timeout n dump_waves hit matched st =
     (case step_until_commits V False dump_waves step_timeout (bench st) of
        (x, commits, b) \<Rightarrow>
          let st = st\<lparr>bench := b\<rparr> in
          if x = 1 then Inr (Some (Stall matched), matched, st)
          else attempt (log_fetches [0, 1, 2, 3] (sync_timers V b (golden st))) (\<lambda>e.
            case each_hart V n hit commits [0, 1, 2, 3] matched False (st\<lparr>golden := e\<rparr>) of
              Inl e \<Rightarrow> Inl e
            | Inr (Some (h, v), matched, _, st) \<Rightarrow> Inr (Some (Mismatch h v matched), matched, st)
            | Inr (None, matched, finished, st) \<Rightarrow>
                Inr (if finished then Some (Completed matched) else None, matched, st)))"

fun lockstep_main :: "'v vsystem \<Rightarrow> nat \<Rightarrow> nat \<Rightarrow> bool \<Rightarrow> (u64 \<Rightarrow> u64 \<Rightarrow> bool) \<Rightarrow> nat \<Rightarrow> u64 \<Rightarrow> 'v lockstep \<Rightarrow>
    (ls_error + outcome \<times> 'v lockstep) option" where
  "lockstep_main V step_timeout n dump_waves hit 0 matched st = None"
| "lockstep_main V step_timeout n dump_waves hit (Suc k) matched st =
     (case lockstep_round V step_timeout n dump_waves hit matched st of
        Inl e \<Rightarrow> Some (Inl e)
      | Inr (Some oc, _, st) \<Rightarrow> Some (Inr (oc, st))
      | Inr (None, matched, st) \<Rightarrow> lockstep_main V step_timeout n dump_waves hit k matched st)"

definition exit_code :: "outcome \<Rightarrow> int" where
  "exit_code oc = (case oc of Completed _ \<Rightarrow> 0 | _ \<Rightarrow> 1)"

subsection \<open>What a match means\<close>

text \<open>The architectural state of a golden hart agrees with the RTL's read-out ports.\<close>

definition agrees :: "'v vsystem \<Rightarrow> nat \<Rightarrow> 'v lockstep \<Rightarrow> bool" where
  "agrees V h st \<longleftrightarrow>
     PC (harts (golden st) ! h) = last_commit_pc (bench st) ! h \<and>
     (\<forall>i. 0 < i \<longrightarrow> i < 32 \<longrightarrow> reg_file (harts (golden st) ! h) ! i = reg V (int h) (int i) (bench st)) \<and>
     mstatus_read_reg (mstatus (harts (golden st) ! h)) = reg V (int h) 32 (bench st)"

lemma check_hart_0: "check_hart V h st = 0 \<longleftrightarrow>
  (\<forall>i. 0 < i \<longrightarrow> i < 32 \<longrightarrow> reg_file (harts (golden st) ! h) ! i = reg V (int h) (int i) (bench st)) \<and>
  mstatus_read_reg (mstatus (harts (golden st) ! h)) = reg V (int h) 32 (bench st)"
  unfolding check_hart_def check_registers_0 by metis

lemma agrees_iff: "agrees V h st \<longleftrightarrow> PC (harts (golden st) ! h) = last_commit_pc (bench st) ! h \<and> check_hart V h st = 0"
  unfolding agrees_def check_hart_0 ..

lemma attempt_Inr: "attempt m f = Inr y \<Longrightarrow> \<exists>x. m = Inr x \<and> f x = Inr y"
  by (auto simp: attempt_def split: sum.splits)

lemma set_register_PC: "emu_set_register r v h e = Inr e' \<Longrightarrow> PC (harts e' ! h) = PC (harts e ! h) \<and> length (harts e') = length (harts e)"
  by (auto simp: emu_set_register_def on_hart_def set_register_with_value_def split: if_splits)

lemma mem64_harts: "write_mem64 a v e = Inr e' \<Longrightarrow> harts e' = harts e"
  by (auto simp: write_mem64_def Let_def split: if_splits)

lemma reconcile_keeps:
  assumes "reconcile_racy V h r st = Inr (b, st')"
  shows "bench st' = bench st \<and> PC (harts (golden st') ! h) = PC (harts (golden st) ! h)"
  using assms unfolding reconcile_racy_def Let_def
  by (auto split: if_splits sum.splits dest!: attempt_Inr mem64_harts set_register_PC)

lemma fetch_keeps:
  assumes "emu_get_instruction h e = Inr (w, e')"
  shows "PC (harts e' ! h) = PC (harts e ! h)"
  using assms
  by (auto simp: emu_get_instruction_def get_instruction_def hart_fetch_instruction_def split: if_splits sum.splits)

lemma fixed_match:
  assumes "(case (if r \<noteq> 0 then R else Inr (False, s)) of
        Inl x \<Rightarrow> Inl x
      | Inr (fixed, st) \<Rightarrow>
          let r' = (if fixed then ck st else r) in
          if r' \<noteq> 0 then Inr (RegMismatch r', st) else Inr (Matched, st)) = Inr (Matched, st')" "r \<noteq> 0"
  shows "R = Inr (True, st') \<and> ck st' = 0"
proof (cases R)
  case (Inl x)
  then show ?thesis using assms by simp
next
  case (Inr p)
  obtain b t where p: "p = (b, t)" by (cases p)
  have "b" "ck t = 0" "t = st'" using assms unfolding Inr p by (auto simp only: if_True if_False sum.case prod.case Let_def simp_thms prod.inject sum.inject verdict.distinct split: if_splits)
  then show ?thesis using Inr p by simp
qed

text \<open>
  A committing hart that the harness accepts agrees with the RTL, also after a reconciled
  race: the golden program counter is the committed one, and the 31 registers and \<open>mstatus\<close> have
  the RTL's values.
\<close>

lemma matched_agrees:
  assumes "compare_hart V n h st = Inr (Matched, st')"
  shows "agrees V h st'"
proof -
  obtain st1 where 1: "apply_pending_mtime_rd V h st = Inr st1"
    using assms by (auto simp: compare_hart_def split: sum.splits)
  obtain f st2 where 2: "force_take_if_needed V n h st1 = Inr (f, st2)"
    using assms 1 by (auto simp: compare_hart_def split: sum.splits)
  obtain w e where 3: "emu_get_instruction h (golden st2) = Inr (w, e)"
    using assms 1 2 by (auto simp: compare_hart_def Let_def dest!: attempt_Inr)
  define st3 where "st3 = st2\<lparr>golden := e\<rparr>"
  have pc: "PC (harts e ! h) = PC (harts (golden st2) ! h)" by (rule fetch_keeps [OF 3])
  have rest: "last_commit_pc (bench st2) ! h = PC (harts (golden st2) ! h)"
    "(case (if check_hart V h st3 \<noteq> 0 then reconcile_racy V h (check_hart V h st3) st3 else Inr (False, st3)) of
        Inl x \<Rightarrow> Inl x
      | Inr (fixed, st) \<Rightarrow>
          let r = (if fixed then check_hart V h st else check_hart V h st3) in
          if r \<noteq> 0 then Inr (RegMismatch r, st) else Inr (Matched, st)) = Inr (Matched, st')"
    using assms 1 2 3 unfolding st3_def by (auto simp: compare_hart_def Let_def attempt_def split: if_splits)
  show ?thesis
  proof (cases "check_hart V h st3 = 0")
    case True
    have "st' = st3" using rest(2) unfolding True by simp
    moreover have "PC (harts (golden st3) ! h) = last_commit_pc (bench st3) ! h"
      unfolding st3_def using trans [OF pc rest(1) [symmetric]] by simp
    ultimately show ?thesis unfolding agrees_iff using True by blast
  next
    case False
    have r: "reconcile_racy V h (check_hart V h st3) st3 = Inr (True, st')" "check_hart V h st' = 0"
      using fixed_match [OF rest(2) False] by blast+
    have "PC (harts (golden st3) ! h) = last_commit_pc (bench st3) ! h"
      unfolding st3_def using trans [OF pc rest(1) [symmetric]] by simp
    then show ?thesis unfolding agrees_iff using reconcile_keeps [OF r(1)] r(2) by metis
  qed
qed

subsection \<open>Reconciled atomics\<close>

lemma ucast_sext32: "(ucast (sext32 v) :: u32) = ucast v"
  by (simp add: sext32_def ucast_scast_32)

lemma sint_sext32: "sint (sext32 v) = sint (ucast v :: u32)"
  unfolding sext32_def by (rule sint_up_scast) (simp add: is_up)

lemma signed_mod_wrap:
  assumes "- m \<le> k" "k < (m :: int)"
  shows "k mod m = (if 0 \<le> k then k else k + m)"
proof (cases "0 \<le> k")
  case False
  have "k mod m = (k + m) mod m" by simp
  also have "\<dots> = k + m" using False assms by (intro mod_pos_pos_trivial) simp_all
  finally show ?thesis using False by simp
qed (use assms in simp)

lemma scast_less_iff: "(scast x :: u64) < scast y \<longleftrightarrow> (x :: u32) < y"
proof -
  have z: "- (2 ^ 31) \<le> sint z \<and> sint z < 2 ^ 31" for z :: u32 using sint_greater_eq [of z] sint_lt [of z] by simp
  have "(scast z :: u64) = word_of_int (sint z)" for z :: u32 by (rule scast_eq)
  then have a: "uint (scast z :: u64) = sint z mod 2 ^ 64" for z :: u32 by (simp only: uint_word_of_int) simp
  have b: "uint z = sint z mod 2 ^ 32" for z :: u32
    using uint_word_of_int [where 'a = 32, of "sint z"] by simp
  have p: "uint (scast z :: u64) = sint z" "uint z = sint z" if "0 \<le> sint z" for z :: u32
    unfolding a b [of z] using z [of z] that by (simp_all add: signed_mod_wrap)
  have m: "uint (scast z :: u64) = sint z + 18446744073709551616" "uint z = sint z + 4294967296" if "sint z < 0" for z :: u32
    unfolding a b [of z] using z [of z] that by (simp_all add: signed_mod_wrap)
  consider "0 \<le> sint x" "0 \<le> sint y" | "0 \<le> sint x" "sint y < 0" | "sint x < 0" "0 \<le> sint y" | "sint x < 0" "sint y < 0"
    by linarith
  then show ?thesis
  proof cases
    case 1
    then show ?thesis unfolding word_less_def by (simp only: p)
  next
    case 2
    have "sint x < 2 ^ 31" "- (2 ^ 31) \<le> sint y" using z [of x] z [of y] by auto
    then show ?thesis unfolding word_less_def p [OF 2(1)] m [OF 2(2)] by simp
  next
    case 3
    have "sint y < 2 ^ 31" "- (2 ^ 31) \<le> sint x" using z [of x] z [of y] by auto
    then show ?thesis unfolding word_less_def m [OF 3(1)] p [OF 3(2)] by simp
  next
    case 4
    then show ?thesis unfolding word_less_def by (simp only: m add_less_cancel_right)
  qed
qed

lemma less_sext32: "sext32 v < sext32 w \<longleftrightarrow> (ucast v :: u32) < ucast w"
  unfolding sext32_def by (rule scast_less_iff)

lemma pick_simps:
  "(if sint x < sint y then x else y) = (if sint x \<le> sint y then x else (y :: 'a :: len word))"
  "(if sint y < sint x then x else y) = (if sint x \<le> sint y then y else (x :: 'a :: len word))"
  "(if x < y then x else y) = (if x \<le> y then x else y)" "(if y < x then x else y) = (if x \<le> y then y else x)"
  using signed_word_eqI [of x y] by auto

lemma le_sext32: "sext32 v \<le> sext32 w \<longleftrightarrow> (ucast v :: u32) \<le> ucast w"
  using less_sext32 [of w v] by (simp add: linorder_not_less [symmetric])

lemma splice_word_lane:
  assumes "unat a mod 8 = 0 \<or> unat a mod 8 = 4"
  shows "splice_word w a 4 v = lane_update (unat a mod 8) 4 w v"
proof -
  have a4: "a AND 4 = (a AND 7) AND 4" by (simp add: and.assoc)
  have b: "a AND 4 \<noteq> 0 \<longleftrightarrow> unat a mod 8 = 4"
    using assms
  proof
    assume "unat a mod 8 = 0"
    then have "a AND 7 = 0" by (simp only: and_7_eq_iff)
    then show ?thesis using a4 \<open>unat a mod 8 = 0\<close> by simp
  next
    assume "unat a mod 8 = 4"
    then have "a AND 7 = 4" by (simp only: and_7_eq_iff)
    then show ?thesis using a4 \<open>unat a mod 8 = 4\<close> by simp
  qed
  have "splice_word w a 4 v = (if unat a mod 8 = 4 then (w AND mask 32) OR push_bit 32 v else (w AND NOT (mask 32)) OR take_bit 32 v)"
  proof -
    have m: "(0xffffffff00000000 :: u64) = NOT (mask 32)" "(0xffffffff :: u64) = mask 32" by (simp_all add: mask_eq_exp_minus_1)
    show ?thesis unfolding splice_word_def m take_bit_eq_mask using b by auto
  qed
  also have "\<dots> = lane_update (unat a mod 8) 4 w v"
    using assms by (auto simp: lane_update_def intro!: bit_word_eqI) (auto simp: bit_simps)
  finally show ?thesis .
qed

text \<open>
  C34: when the harness repairs the golden memory after a racy atomic, the word it writes is the
  one the RISC-V manual prescribes for the value the RTL read, at both widths, and the other four
  bytes of a 32-bit atomic are kept.
\<close>

theorem amo_repair_refines:
  assumes "op \<in> amo_codes"
  shows "splice_word w a 8 (amo_result (ucast op) 8 old v2) = rv_amo op old v2 \<and>
    (unat a mod 8 = 0 \<or> unat a mod 8 = 4 \<longrightarrow>
      splice_word w a 4 (amo_result (ucast op) 4 old v2) =
        lane_update (unat a mod 8) 4 w (ucast (rv_amo op (ucast old :: u32) (ucast v2))))"
proof (intro conjI impI)
  have "amo_result (ucast op) 8 old v2 = rv_amo op old v2"
    using assms unfolding amo_codes_def
    by (elim insertE emptyE) (simp_all add: amo_result_def rv_amo_def pick_simps)
  then show "splice_word w a 8 (amo_result (ucast op) 8 old v2) = rv_amo op old v2" by (simp add: splice_word_def)
  have "ucast (amo_result (ucast op) 4 old v2) = rv_amo op (ucast old :: u32) (ucast v2)"
    using assms unfolding amo_codes_def
    by (elim insertE emptyE)
      (simp_all add: amo_result_def rv_amo_def ucast_sext32 low_32_simps ucast_down_ring sint_sext32 less_sext32 le_sext32 if_distrib [of ucast] pick_simps)
  moreover assume "unat a mod 8 = 0 \<or> unat a mod 8 = 4"
  ultimately show "splice_word w a 4 (amo_result (ucast op) 4 old v2) =
      lane_update (unat a mod 8) 4 w (ucast (rv_amo op (ucast old :: u32) (ucast v2)))"
    using take_32_ucast [of "amo_result (ucast op) 4 old v2"] take_32_ucast [of "ucast (rv_amo op (ucast old :: u32) (ucast v2))"]
    by (simp add: splice_word_lane lane_update_def ucast_ucast_up_down)
qed

subsection \<open>What the reconciliation hides\<close>

lemma compare_hart_run:
  assumes "pending_mtime_rd st ! h = -1" "emu_get_instruction h (golden st) = Inr (w, golden st)"
    and "last_commit_pc (bench st) ! h = PC (harts (golden st) ! h)"
  shows "compare_hart V n h st =
     (case (if check_hart V h st \<noteq> 0 then reconcile_racy V h (check_hart V h st) st else Inr (False, st)) of
        Inl x \<Rightarrow> Inl x
      | Inr (fixed, st') \<Rightarrow>
          let r = (if fixed then check_hart V h st' else check_hart V h st) in
          if r \<noteq> 0 then Inr (RegMismatch r, st') else Inr (Matched, st'))"
proof -
  have "st\<lparr>golden := golden st\<rparr> = st" by simp
  then show ?thesis
    using assms by (simp only: compare_hart_def apply_pending_mtime_rd_def force_take_if_needed_def Let_def attempt_def
        sum.case prod.case if_True if_False simp_thms) (simp split: sum.split prod.split)
qed

text \<open>The harness raises no false alarm on a hart that agrees.\<close>

lemma agrees_matched:
  assumes "pending_mtime_rd st ! h = -1" "emu_get_instruction h (golden st) = Inr (w, golden st)" "agrees V h st"
  shows "compare_hart V n h st = Inr (Matched, st)"
  using assms(3) compare_hart_run [OF assms(1,2)] by (simp add: agrees_iff)

lemma check_hart_single:
  assumes "check_hart V h st \<noteq> 0" "0 < r" "r < 32"
    and "\<And>i. 0 < i \<Longrightarrow> i < 32 \<Longrightarrow> i \<noteq> r \<Longrightarrow> reg_file (harts (golden st) ! h) ! i = reg V (int h) (int i) (bench st)"
    and "mstatus_read_reg (mstatus (harts (golden st) ! h)) = reg V (int h) 32 (bench st)"
  shows "check_hart V h st = int r"
proof -
  let ?c = "reg_file (harts (golden st) ! h)" and ?m = "mstatus_read_reg (mstatus (harts (golden st) ! h))"
  have "0 \<le> check_hart V h st" "check_hart V h st \<le> 32"
    using check_from_spec [of "[1..<32]" V "int h" ?c ?m "bench st"] by (auto simp: check_hart_def check_registers_def)
  then obtain k where k: "check_hart V h st = int k" using nonneg_int_cases by blast
  have k0: "0 < k" using assms(1) k by simp
  note first = check_registers_first [OF k [unfolded check_hart_def] k0]
  have bad: "reg V (int h) (int r) (bench st) \<noteq> ?c ! r" using assms(1,4,5) unfolding check_hart_0 by metis
  show ?thesis
  proof (cases "k < 32")
    case True
    then have "reg V (int h) (int k) (bench st) \<noteq> ?c ! k" using first by simp
    then have "k = r" using assms(4) [of k] k0 True by metis
    then show ?thesis using k by simp
  next
    case False
    then have "reg V (int h) (int r) (bench st) = ?c ! r" using first assms(2,3) by simp
    then show ?thesis using bad by simp
  qed
qed

text \<open>
  A load from DRAM is not checked: if the RTL's destination register holds any value while
  everything else agrees, the harness takes over the RTL's value and counts a match.
\<close>

theorem load_value_unchecked:
  assumes "h < length (harts (golden st))" "length (reg_file (harts (golden st) ! h)) = 32" "pending_mtime_rd st ! h = -1"
    and "emu_get_instruction h (golden st) = Inr (w, golden st)"
    and "mo_valid (last_memop st ! h)" "mo_kind (last_memop st ! h) = 1" "mo_rd (last_memop st ! h) = int r" "0 < r" "r < 32"
    and "agrees V h (st\<lparr>golden := (golden st)\<lparr>harts := (harts (golden st))[h := (harts (golden st) ! h)
      \<lparr>reg_file := (reg_file (harts (golden st) ! h))[r := reg V (int h) (int r) (bench st)]\<rparr>]\<rparr>\<rparr>)"
  shows "\<exists>st'. compare_hart V n h st = Inr (Matched, st') \<and>
    reg_file (harts (golden st') ! h) ! r = reg V (int h) (int r) (bench st)"
proof -
  define g where "g = harts (golden st) ! h"
  define v where "v = reg V (int h) (int r) (bench st)"
  define e where "e = (golden st)\<lparr>harts := (harts (golden st))[h := g\<lparr>reg_file := (reg_file g)[r := v]\<rparr>]\<rparr>"
  have g': "harts e ! h = g\<lparr>reg_file := (reg_file g)[r := v]\<rparr>" using assms(1) by (simp add: e_def)
  have ag: "agrees V h (st\<lparr>golden := e\<rparr>)" using assms(10) unfolding e_def g_def v_def .
  have pc: "last_commit_pc (bench st) ! h = PC g" using ag g' by (simp add: agrees_iff)
  have ok: "check_hart V h (st\<lparr>golden := e, racy_fixups := f\<rparr>) = 0" for f
    using ag unfolding agrees_iff by (simp add: check_hart_def)
  have others: "reg_file g ! i = reg V (int h) (int i) (bench st)" if "0 < i" "i < 32" "i \<noteq> r" for i
  proof -
    have "(reg_file g)[r := v] ! i = reg V (int h) (int i) (bench st)" using ag that(1,2) g' by (simp add: agrees_def)
    then show ?thesis using that(3) by simp
  qed
  have mst: "mstatus_read_reg (mstatus g) = reg V (int h) 32 (bench st)" using ag g' by (simp add: agrees_def)
  have run: "compare_hart V n h st =
     (case (if check_hart V h st \<noteq> 0 then reconcile_racy V h (check_hart V h st) st else Inr (False, st)) of
        Inl x \<Rightarrow> Inl x
      | Inr (fixed, st') \<Rightarrow>
          let r = (if fixed then check_hart V h st' else check_hart V h st) in
          if r \<noteq> 0 then Inr (RegMismatch r, st') else Inr (Matched, st'))"
    using pc by (intro compare_hart_run [OF assms(3,4)]) (simp add: g_def)
  show ?thesis
  proof (cases "check_hart V h st = 0")
    case True
    then show ?thesis using run assms(8,9) by (simp add: check_hart_0)
  next
    case False
    have k: "check_hart V h st = int r" by (rule check_hart_single [OF False assms(8,9)]) (simp_all add: others mst g_def [symmetric])
    have "reconcile_racy V h (int r) st = Inr (True, st\<lparr>golden := e, racy_fixups := racy_fixups st + 1\<rparr>)"
      using assms(1,5-9)
      by (simp add: reconcile_racy_def emu_set_register_def on_hart_def attempt_def set_register_with_value_def e_def g_def v_def
          unat_of_nat Let_def)
    then have "compare_hart V n h st = Inr (Matched, st\<lparr>golden := e, racy_fixups := racy_fixups st + 1\<rparr>)"
      using run False ok unfolding k by simp
    moreover have "reg_file (harts e ! h) ! r = v" using g' assms(2,9) by (simp add: g_def)
    ultimately show ?thesis by (simp add: v_def)
  qed
qed

subsection \<open>Witnesses\<close>

text \<open>The golden model after reset, and an RTL that shows its registers.\<close>

definition reset_emu :: emulator where "reset_emu = emulator_new True 0 0 []"

definition mirror_v :: "u64 \<Rightarrow> nat vsystem" where
  "mirror_v x5 = sample_v\<lparr>v_registersOut := (\<lambda>h i _. if i = 32 then mstatus_read_reg (mstatus (harts reset_emu ! h))
     else if i = 5 then x5 else reg_file (harts reset_emu ! h) ! i)\<rparr>"

definition mirror_state :: "memop \<Rightarrow> nat lockstep" where
  "mirror_state op = (lockstep_init reset_emu ((sample_sim 0)\<lparr>last_commit_pc := [PC (harts reset_emu ! 0), 0, 0, 0]\<rparr>))
     \<lparr>last_memop := [op, memop_none, memop_none, memop_none]\<rparr>"

lemma reset_fetch: "emu_get_instruction 0 reset_emu = Inr (0, reset_emu)" "length (reg_file (harts reset_emu ! 0)) = 32"
  "length (harts reset_emu) = 4"
proof -
  let ?h = "hart_init True 0 hart_fresh"
  show l: "length (harts reset_emu) = 4" by (simp add: reset_emu_def emulator_new_def NUM_HARTS_def)
  have h: "harts reset_emu ! 0 = ?h" by (simp add: reset_emu_def emulator_new_def NUM_HARTS_def)
  show "length (reg_file (harts reset_emu ! 0)) = 32" by (simp add: h hart_init_def hart_fresh_def)
  have "get_instruction (?h, world reset_emu) = Inr (0, ?h)"
    by (simp add: get_instruction_def hart_fetch_instruction_def hart_init_def DRAM_BASE_def getINST_def MEM_WORDS_def
        reset_emu_def emulator_new_def shared_init_def)
  moreover have "(harts reset_emu)[0 := ?h] = harts reset_emu" using l h by (metis list_update_id)
  ultimately show "emu_get_instruction 0 reset_emu = Inr (0, reset_emu)" using l by (simp add: emu_get_instruction_def h)
qed

lemma mirror_agrees: "agrees (mirror_v (reg_file (harts reset_emu ! 0) ! 5)) 0 (mirror_state op)"
  by (auto simp: agrees_def mirror_v_def mirror_state_def lockstep_init_def sample_v_def sample_sim_def reg_def)

theorem amo_repair_refines_witness:
  "splice_word 0x1111111122222222 0x80000004 4 (amo_result 20 4 5 9) = lane_update 4 4 0x1111111122222222 (ucast (rv_amo 20 (5 :: u32) 9))"
  using amo_repair_refines [where op = 20 and a = "0x80000004" and w = "0x1111111122222222" and old = 5 and ?v2.0 = 9] by (simp add: amo_codes_def)

theorem load_value_unchecked_witness:
  "\<exists>st'. compare_hart (mirror_v 0xBAD) 1 0 (mirror_state (memop_none\<lparr>mo_valid := True, mo_kind := 1, mo_rd := 5\<rparr>)) = Inr (Matched, st') \<and>
     reg_file (harts (golden st') ! 0) ! 5 = 0xBAD"
proof -
  let ?op = "memop_none\<lparr>mo_valid := True, mo_kind := 1, mo_rd := 5\<rparr>"
  have r: "reg (mirror_v 0xBAD) 0 5 (bench (mirror_state ?op)) = 0xBAD" by (simp add: reg_def mirror_v_def)
  have a: "agrees (mirror_v 0xBAD) 0 ((mirror_state ?op)\<lparr>golden := (golden (mirror_state ?op))\<lparr>harts := (harts (golden (mirror_state ?op)))[0 := (harts (golden (mirror_state ?op)) ! 0)
      \<lparr>reg_file := (reg_file (harts (golden (mirror_state ?op)) ! 0))[5 := reg (mirror_v 0xBAD) (int 0) (int 5) (bench (mirror_state ?op))]\<rparr>]\<rparr>\<rparr>)"
    using reset_fetch
    by (auto simp: agrees_def r mirror_state_def lockstep_init_def sample_sim_def nth_list_update)
      (auto simp: reg_def mirror_v_def sample_v_def)
  show ?thesis
    using load_value_unchecked [where st = "mirror_state ?op" and h = 0 and r = 5 and V = "mirror_v 0xBAD" and n = 1 and w = 0, OF _ _ _ _ _ _ _ _ _ a] reset_fetch r
    by (simp add: mirror_state_def lockstep_init_def memop_none_def)
qed

end
