(* ===== verification/Lockstep_Linux.thy ===== *)
theory Lockstep_Linux
  imports Lockstep
begin

text \<open>
  The lock-step harness for a Linux image, \<^verbatim>\<open>src/sim/harness/lockstep_linux.cpp\<close>. The file has its
  own copy of the routines of \<^verbatim>\<open>lockstep_quad.cpp\<close>, transcribed here from that copy, over the same
  static state (\<open>lockstep\<close>); its loop takes a forced interrupt and a racy register in line, keeps
  a ring of the last 128 commits and may compare program counters only. The messages and the
  waveform window after a failure are left out.
\<close>

unbundle bit_operations_syntax

subsection \<open>The repeated routines\<close>

definition lx_sext32 :: "u64 \<Rightarrow> u64" where
  "lx_sext32 v = scast (ucast v :: u32)"

definition lx_amo_result :: "u32 \<Rightarrow> int \<Rightarrow> u64 \<Rightarrow> u64 \<Rightarrow> u64" where
  "lx_amo_result funct5 width oldv v2 =
     (let (oldv, v2) = (if width = 4 then (lx_sext32 oldv, lx_sext32 v2) else (oldv, v2)) in
      if funct5 = 0x00 then oldv + v2
      else if funct5 = 0x01 then v2
      else if funct5 = 0x04 then oldv XOR v2
      else if funct5 = 0x08 then oldv OR v2
      else if funct5 = 0x0c then oldv AND v2
      else if funct5 = 0x10 then (if sint oldv < sint v2 then oldv else v2)
      else if funct5 = 0x14 then (if sint oldv > sint v2 then oldv else v2)
      else if funct5 = 0x18 then (if oldv < v2 then oldv else v2)
      else if funct5 = 0x1c then (if oldv > v2 then oldv else v2)
      else oldv)"

definition lx_splice_word :: "u64 \<Rightarrow> u64 \<Rightarrow> int \<Rightarrow> u64 \<Rightarrow> u64" where
  "lx_splice_word word8 addr width v =
     (if width = 8 then v
      else if addr AND 4 \<noteq> 0 then (word8 AND 0x00000000ffffffff) OR push_bit 32 v
      else (word8 AND 0xffffffff00000000) OR (v AND 0xffffffff))"

fun lx_csr_skip :: "nat \<Rightarrow> nat \<Rightarrow> emulator \<Rightarrow> ls_error + emulator" where
  "lx_csr_skip 0 h e = Inl CsrRunaway"
| "lx_csr_skip (Suc n) h e =
     attempt (emu_get_instruction h e) (\<lambda>(w, e).
       if w AND 0x7f \<noteq> 0x73 then Inr e
       else attempt (emu_get_instruction h e) (\<lambda>(w, e).
         if w AND 0x7000 = 0 then Inr e
         else attempt (step_hart_only True h e) (lx_csr_skip n h)))"

definition lx_step_past_csrs :: "nat \<Rightarrow> nat \<Rightarrow> emulator \<Rightarrow> ls_error + emulator" where
  "lx_step_past_csrs n h e = attempt (step_hart_only True h e) (lx_csr_skip n h)"

definition lx_apply_pending_mtime_rd :: "'v vsystem \<Rightarrow> nat \<Rightarrow> 'v lockstep \<Rightarrow> ls_error + 'v lockstep" where
  "lx_apply_pending_mtime_rd V h st =
     (let r = pending_mtime_rd st ! h in
      if r < 0 then Inr st
      else
        (let st = st\<lparr>pending_mtime_rd := (pending_mtime_rd st)[h := -1]\<rparr> in
         if r = 0 then Inr st
         else on_golden (emu_set_register (word_of_int r) (reg V (int h) (uint (word_of_int r :: u8)) (bench st)) h (golden st)) st))"

definition lx_classify :: "u32 \<Rightarrow> emulator \<Rightarrow> nat \<Rightarrow> memop \<Rightarrow> abort + int \<times> memop" where
  "lx_classify insn e h op =
     (let op = op\<lparr>mo_valid := False\<rparr>; regs = reg_file (harts e ! h);
          i0 = drop_bit 7 insn AND 0x1f; i1 = drop_bit 15 insn AND 0x1f in
      if insn AND 0x7f = 0x03 then
        (let imm = signed_drop_bit 20 (scast insn :: u64); addr = regs ! unat i1 + imm;
             mtime_rd = (if addr AND NOT 7 = kClintMtime then uint i0 else -1) in
         Inr (mtime_rd,
           if i0 \<noteq> 0 \<and> 0x80000000 \<le> addr then
             \<lparr>mo_valid = True, mo_kind = 1, mo_rd = uint i0, mo_width = 8, mo_funct5 = 0, mo_addr = addr, mo_rs2val = 0, mo_oldword = 0\<rparr>
           else op))
      else if insn AND 0x7f = 0x2f then
        (let i2 = drop_bit 20 insn AND 0x1f; funct5 = drop_bit 27 insn;
             width = (if drop_bit 12 insn AND 7 = 2 then 4 else 8); addr = regs ! unat i1;
             kind = (if funct5 = 0x02 then 2 else if funct5 = 0x03 then 3 else 4) in
         if i0 \<noteq> 0 \<and> 0x80000000 \<le> addr then
           (case read_mem64 e (addr AND NOT 7) of
              Inl x \<Rightarrow> Inl x
            | Inr w \<Rightarrow> Inr (-1, \<lparr>mo_valid = True, mo_kind = kind, mo_rd = uint i0, mo_width = width, mo_funct5 = funct5,
                 mo_addr = addr, mo_rs2val = regs ! unat i2, mo_oldword = w\<rparr>))
         else Inr (-1, op))
      else Inr (-1, op))"

definition lx_golden_step_hart :: "'v vsystem \<Rightarrow> nat \<Rightarrow> nat \<Rightarrow> 'v lockstep \<Rightarrow> ls_error + 'v lockstep" where
  "lx_golden_step_hart V n h st =
     attempt (emu_clear_wfi h (golden st)) (\<lambda>e.
     let st = (if rtl_msip V (int h) (bench st) = 0 then st\<lparr>msip_latch := (msip_latch st)[h := 0]\<rparr> else st);
         e = emu_set_msip (of_nat h) (msip_latch st ! h) e in
     attempt (emu_get_instruction h e) (\<lambda>(insn_before, e).
     attempt (lx_classify insn_before e h (last_memop st ! h)) (\<lambda>(mtime_rd, op).
     case lx_step_past_csrs n h e of
       Inl x \<Rightarrow> Inl x
     | Inr e \<Rightarrow>
         let st = st\<lparr>golden := e, last_memop := (last_memop st)[h := op]\<rparr>;
             st = (if insn_before = 0x10500073 then st\<lparr>msip_latch := (msip_latch st)[h := rtl_msip V (int h) (bench st)]\<rparr> else st);
             st = (if 0 \<le> mtime_rd then st\<lparr>pending_mtime_rd := (pending_mtime_rd st)[h := mtime_rd]\<rparr> else st)
         in Inr st)))"

definition lx_sync_timers :: "'v vsystem \<Rightarrow> 'v simulator \<Rightarrow> emulator \<Rightarrow> emulator" where
  "lx_sync_timers V b e =
     fold (\<lambda>h. emu_set_mtimecmp (of_nat h) (rtl_mtimecmp V (int h) b)) [0, 1, 2, 3] (emu_set_mtime (rtl_mtime V b) e)"

subsection \<open>The ring of recent commits\<close>

definition RING :: nat where "RING = 128"

record ring_entry =
  rg_cycle :: u64
  rg_hart :: nat
  rg_emu_pc :: u64
  rg_rtl_pc :: u64
  rg_insn :: u64

record ring =
  ring_buf :: "ring_entry list"
  ring_i :: nat
  ring_n :: nat

text \<open>The array starts uninitialised; no entry is read before it is written.\<close>

definition ring_init :: ring where
  "ring_init = \<lparr>ring_buf = replicate RING \<lparr>rg_cycle = 0, rg_hart = 0, rg_emu_pc = 0, rg_rtl_pc = 0, rg_insn = 0\<rparr>, ring_i = 0, ring_n = 0\<rparr>"

definition ring_note :: "ring_entry \<Rightarrow> ring \<Rightarrow> ring" where
  "ring_note e r = \<lparr>ring_buf = (ring_buf r)[ring_i r := e], ring_i = (ring_i r + 1) mod RING,
     ring_n = (if ring_n r < RING then ring_n r + 1 else ring_n r)\<rparr>"

definition ring_dump :: "ring \<Rightarrow> ring_entry list" where
  "ring_dump r = map (\<lambda>k. ring_buf r ! ((ring_i r + RING - ring_n r + k) mod RING)) [0..<ring_n r]"

subsection \<open>Forced interrupts\<close>

fun lx_entry_loop :: "nat \<Rightarrow> nat \<Rightarrow> nat \<Rightarrow> u64 \<Rightarrow> u64 \<Rightarrow> emulator \<Rightarrow> ls_error + emulator" where
  "lx_entry_loop n 0 h rp tv e = Inr e"
| "lx_entry_loop n (Suc g) h rp tv e =
     (let gpc = PC (harts e ! h) in
      if gpc = rp then Inr e
      else if \<not> (tv \<le> gpc \<and> gpc < tv + 16 \<and> gpc < rp) then Inr e
      else (case lx_step_past_csrs n h e of Inl x \<Rightarrow> Inl x | Inr e \<Rightarrow> lx_entry_loop n g h rp tv e))"

fun lx_adopt_gprs :: "'v vsystem \<Rightarrow> nat \<Rightarrow> nat list \<Rightarrow> 'v simulator \<Rightarrow> emulator \<Rightarrow> abort + emulator" where
  "lx_adopt_gprs V h [] b e = Inr e"
| "lx_adopt_gprs V h (r # rs) b e =
     (case emu_set_register (of_nat r) (reg V (int h) (int r) b) h e of
        Inl x \<Rightarrow> Inl x | Inr e \<Rightarrow> lx_adopt_gprs V h rs b e)"

definition lx_force_take :: "'v vsystem \<Rightarrow> nat \<Rightarrow> nat \<Rightarrow> 'v lockstep \<Rightarrow> ls_error + 'v lockstep" where
  "lx_force_take V n h st =
     (let b = bench st; e = golden st; rp = last_commit_pc b ! h; gp = PC (harts e ! h); tv = rtl_mtvec V (int h) b;
          rtl_in_trap_entry = (tv \<noteq> 0 \<and> (tv \<le> rp \<and> rp < tv + 16)); golden_still_guest = (\<not> (tv \<le> gp \<and> gp < tv + 16)) in
      if rp \<noteq> gp \<and> golden_still_guest \<and> (commit_interrupt V (int h) b \<or> rtl_in_trap_entry) then
        attempt (if rtl_mcause V (int h) b = 0x8000000000000003 then emu_take_machine_soft_irq h e
                 else emu_take_machine_timer_irq h e) (\<lambda>e.
        attempt (if rtl_mepc V (int h) b \<noteq> 0 then emu_set_mepc h (rtl_mepc V (int h) b) e else Inr e) (\<lambda>e.
        case lx_entry_loop n 32 h rp tv e of
          Inl x \<Rightarrow> Inl x
        | Inr e \<Rightarrow>
            if PC (harts e ! h) = rp then
              attempt (lx_adopt_gprs V h [1..<32] b e) (\<lambda>e.
              attempt (emu_set_mstatus h (reg V (int h) 32 b) e) (\<lambda>e. Inr (st\<lparr>golden := e\<rparr>)))
            else Inr (st\<lparr>golden := e\<rparr>)))
      else Inr st)"

subsection \<open>Register compare\<close>

definition lx_check :: "'v vsystem \<Rightarrow> nat \<Rightarrow> 'v lockstep \<Rightarrow> int" where
  "lx_check V h st =
     check_registers V (int h) (reg_file (harts (golden st) ! h)) (mstatus_read_reg (mstatus (harts (golden st) ! h))) (bench st)"

definition lx_patch_memory :: "memop \<Rightarrow> u64 \<Rightarrow> u64 \<Rightarrow> emulator \<Rightarrow> abort + emulator" where
  "lx_patch_memory op rtl_rd gold_rd e =
     (if mo_kind op = 3 then
        (case read_mem64 e (mo_addr op AND NOT 7) of
           Inl x \<Rightarrow> Inl x
         | Inr w8 \<Rightarrow>
             if rtl_rd = 0 \<and> gold_rd \<noteq> 0 then
               write_mem64 (mo_addr op AND NOT 7) (lx_splice_word w8 (mo_addr op) (mo_width op) (mo_rs2val op)) e
             else if rtl_rd \<noteq> 0 \<and> gold_rd = 0 then write_mem64 (mo_addr op AND NOT 7) (mo_oldword op) e
             else Inr e)
      else if mo_kind op = 4 then
        (let neww = lx_amo_result (mo_funct5 op) (mo_width op) rtl_rd (mo_rs2val op) in
         case read_mem64 e (mo_addr op AND NOT 7) of
           Inl x \<Rightarrow> Inl x
         | Inr w8 \<Rightarrow> write_mem64 (mo_addr op AND NOT 7) (lx_splice_word w8 (mo_addr op) (mo_width op) neww) e)
      else Inr e)"

definition lx_registers :: "'v vsystem \<Rightarrow> nat \<Rightarrow> 'v lockstep \<Rightarrow> ls_error + int \<times> 'v lockstep" where
  "lx_registers V h st =
     (let r = lx_check V h st; op = last_memop st ! h in
      if 1 \<le> r \<and> r \<le> 31 \<and> mo_valid op \<and> r = mo_rd op then
        (let rtl_rd = reg V (int h) r (bench st); gold_rd = reg_file (harts (golden st) ! h) ! nat r in
         attempt (emu_set_register (word_of_int r) rtl_rd h (golden st)) (\<lambda>e.
         attempt (lx_patch_memory op rtl_rd gold_rd e) (\<lambda>e.
         let st = st\<lparr>golden := e, racy_fixups := racy_fixups st + 1\<rparr> in Inr (lx_check V h st, st))))
      else Inr (r, st))"

subsection \<open>The loop\<close>

definition lx_compare :: "'v vsystem \<Rightarrow> nat \<Rightarrow> bool \<Rightarrow> nat \<Rightarrow> ring \<times> 'v lockstep \<Rightarrow>
    ls_error + verdict \<times> ring \<times> 'v lockstep" where
  "lx_compare V n pc_only h = (\<lambda>(rg, st).
     case lx_apply_pending_mtime_rd V h st of Inl x \<Rightarrow> Inl x | Inr st \<Rightarrow>
     case lx_force_take V n h st of Inl x \<Rightarrow> Inl x | Inr st \<Rightarrow>
     let rtl_pc = last_commit_pc (bench st) ! h; emu_pc = PC (harts (golden st) ! h) in
     attempt (emu_get_instruction h (golden st)) (\<lambda>(insn, e).
       let st = st\<lparr>golden := e\<rparr>;
           rg = ring_note \<lparr>rg_cycle = cycles (bench st), rg_hart = h, rg_emu_pc = emu_pc, rg_rtl_pc = rtl_pc, rg_insn = ucast insn\<rparr> rg in
       if rtl_pc \<noteq> emu_pc then Inr (PcMismatch, rg, st)
       else if pc_only then Inr (Matched, rg, st)
       else (case lx_registers V h st of
               Inl x \<Rightarrow> Inl x
             | Inr (r, st) \<Rightarrow> if r \<noteq> 0 then Inr (RegMismatch r, rg, st) else Inr (Matched, rg, st))))"

fun lx_each_hart :: "'v vsystem \<Rightarrow> nat \<Rightarrow> bool \<Rightarrow> u8 \<Rightarrow> nat list \<Rightarrow> u64 \<Rightarrow> ring \<times> 'v lockstep \<Rightarrow>
    ls_error + (nat \<times> verdict) option \<times> u64 \<times> ring \<times> 'v lockstep" where
  "lx_each_hart V n pc_only commits [] matched s = Inr (None, matched, s)"
| "lx_each_hart V n pc_only commits (h # hs) matched s =
     (if commits AND push_bit h 1 = 0 then lx_each_hart V n pc_only commits hs matched s
      else (case lx_compare V n pc_only h s of
              Inl x \<Rightarrow> Inl x
            | Inr (v, rg, st) \<Rightarrow>
                if v \<noteq> Matched then Inr (Some (h, v), matched, rg, st)
                else (case lx_golden_step_hart V n h st of
                        Inl x \<Rightarrow> Inl x
                      | Inr st \<Rightarrow> lx_each_hart V n pc_only commits hs (matched + 1) (rg, st))))"

text \<open>The harness ends on a stall or a mismatch only, in both cases with exit code 1; the ring goes to the log.\<close>

datatype lx_outcome = LxStall u64 "ring_entry list" | LxMismatch nat verdict u64 "ring_entry list"

definition lx_round :: "'v vsystem \<Rightarrow> nat \<Rightarrow> nat \<Rightarrow> bool \<Rightarrow> u64 \<Rightarrow> ring \<times> 'v lockstep \<Rightarrow>
    ls_error + lx_outcome option \<times> u64 \<times> ring \<times> 'v lockstep" where
  "lx_round V step_timeout n pc_only matched = (\<lambda>(rg, st).
     case step_until_commits V True False step_timeout (bench st) of
       (x, commits, b) \<Rightarrow>
         let st = st\<lparr>bench := b\<rparr> in
         if x = 1 then Inr (Some (LxStall matched (ring_dump rg)), matched, rg, st)
         else (case lx_each_hart V n pc_only commits [0, 1, 2, 3] matched (rg, st\<lparr>golden := lx_sync_timers V b (golden st)\<rparr>) of
                 Inl x \<Rightarrow> Inl x
               | Inr (Some (h, v), matched, rg, st) \<Rightarrow> Inr (Some (LxMismatch h v matched (ring_dump rg)), matched, rg, st)
               | Inr (None, matched, rg, st) \<Rightarrow> Inr (None, matched, rg, st)))"

fun lx_main :: "'v vsystem \<Rightarrow> nat \<Rightarrow> nat \<Rightarrow> bool \<Rightarrow> nat \<Rightarrow> u64 \<Rightarrow> ring \<times> 'v lockstep \<Rightarrow>
    (ls_error + lx_outcome \<times> ring \<times> 'v lockstep) option" where
  "lx_main V step_timeout n pc_only 0 matched s = None"
| "lx_main V step_timeout n pc_only (Suc k) matched s =
     (case lx_round V step_timeout n pc_only matched s of
        Inl e \<Rightarrow> Some (Inl e)
      | Inr (Some oc, _, s) \<Rightarrow> Some (Inr (oc, s))
      | Inr (None, matched, s) \<Rightarrow> lx_main V step_timeout n pc_only k matched s)"

subsection \<open>The two harnesses agree\<close>

lemma lx_copies:
  "lx_sext32 = sext32" "lx_amo_result = amo_result" "lx_splice_word = splice_word" "lx_csr_skip n h e = csr_skip n h e"
  "lx_step_past_csrs n h e = step_past_csrs n h e" "lx_apply_pending_mtime_rd V h st = apply_pending_mtime_rd V h st"
  "lx_classify = classify" "lx_golden_step_hart V n h st = golden_step_hart V n h st" "lx_sync_timers = sync_timers"
proof -
  show s: "lx_sext32 = sext32" by (rule ext) (simp add: lx_sext32_def sext32_def)
  show "lx_amo_result = amo_result" by (intro ext) (simp only: lx_amo_result_def amo_result_def s)
  show "lx_splice_word = splice_word" by (intro ext) (simp only: lx_splice_word_def splice_word_def)
  have k: "lx_csr_skip n h = csr_skip n h" for n h
  proof (induction n)
    case 0
    show ?case by (rule ext) simp
  next
    case (Suc n)
    show ?case by (rule ext) (simp only: lx_csr_skip.simps csr_skip.simps Suc)
  qed
  show "lx_csr_skip n h e = csr_skip n h e" by (simp only: k)
  have p: "lx_step_past_csrs n h e = step_past_csrs n h e" for n h e by (simp only: lx_step_past_csrs_def step_past_csrs_def k)
  show "lx_step_past_csrs n h e = step_past_csrs n h e" by (rule p)
  show "lx_apply_pending_mtime_rd V h st = apply_pending_mtime_rd V h st"
    by (simp only: lx_apply_pending_mtime_rd_def apply_pending_mtime_rd_def)
  show c: "lx_classify = classify" by (intro ext) (simp only: lx_classify_def classify_def)
  show "lx_golden_step_hart V n h st = golden_step_hart V n h st" by (simp only: lx_golden_step_hart_def golden_step_hart_def c p)
  show "lx_sync_timers = sync_timers" by (intro ext) (simp only: lx_sync_timers_def sync_timers_def)
qed

lemma lx_entry_loop_eq: "lx_entry_loop n g h rp tv e = run_entry n g h rp tv e"
  by (induction g arbitrary: e) (simp_all add: Let_def lx_copies in_entry_def split: sum.splits)

lemma lx_adopt_eq: "lx_adopt_gprs V h rs b e = copy_registers V h rs b e"
  by (induction rs arbitrary: e) (simp_all split: sum.splits)

lemma attempt_proj:
  "(case attempt m f of Inl x \<Rightarrow> Inl x | Inr y \<Rightarrow> g y) = attempt m (\<lambda>x. case f x of Inl x \<Rightarrow> Inl x | Inr y \<Rightarrow> g y)"
  by (cases m) (simp_all add: attempt_def)

lemma attempt_cong: "(\<And>x. f x = g x) \<Longrightarrow> attempt m f = attempt m g"
  by (cases m) (simp_all add: attempt_def)

lemma lx_force_take_eq:
  "lx_force_take V n h st = (case force_take_if_needed V n h st of Inl x \<Rightarrow> Inl x | Inr (_, st') \<Rightarrow> Inr st')"
proof -
  define b tv rp gp where "b = bench st" "tv = rtl_mtvec V (int h) b" "rp = last_commit_pc b ! h" "gp = PC (harts (golden st) ! h)"
  note d = this
  show ?thesis
  proof (cases "rp \<noteq> gp \<and> \<not> (tv \<le> gp \<and> gp < tv + 16) \<and> (commit_interrupt V (int h) b \<or> tv \<noteq> 0 \<and> tv \<le> rp \<and> rp < tv + 16)")
    case True
    then have q: "\<not> (rp = gp \<or> \<not> \<not> in_entry tv gp)" "\<not> \<not> (commit_interrupt V (int h) b \<or> tv \<noteq> 0 \<and> in_entry tv rp)"
      by (auto simp: in_entry_def)
    show ?thesis
      unfolding lx_force_take_def force_take_if_needed_def Let_def d [symmetric] if_P [OF True] if_not_P [OF q(1)] if_not_P [OF q(2)]
        attempt_proj lx_entry_loop_eq lx_adopt_eq
      by (intro attempt_cong) (auto simp: attempt_def split: sum.splits)
  next
    case False
    then show ?thesis
      unfolding lx_force_take_def force_take_if_needed_def Let_def d [symmetric] by (auto simp: in_entry_def)
  qed
qed

lemma lx_patch_memory_eq:
  "lx_patch_memory op rtl_rd gold_rd e =
     (let a8 = mo_addr op AND NOT 7 in
      if mo_kind op = 3 then
        (case read_mem64 e a8 of
           Inl x \<Rightarrow> Inl x
         | Inr w8 \<Rightarrow>
             if rtl_rd = 0 \<and> gold_rd \<noteq> 0 then write_mem64 a8 (splice_word w8 (mo_addr op) (mo_width op) (mo_rs2val op)) e
             else if rtl_rd \<noteq> 0 \<and> gold_rd = 0 then write_mem64 a8 (mo_oldword op) e
             else Inr e)
      else if mo_kind op = 4 then
        (case read_mem64 e a8 of
           Inl x \<Rightarrow> Inl x
         | Inr w8 \<Rightarrow>
             write_mem64 a8 (splice_word w8 (mo_addr op) (mo_width op)
               (amo_result (mo_funct5 op) (mo_width op) rtl_rd (mo_rs2val op))) e)
      else Inr e)"
  by (simp only: lx_patch_memory_def lx_copies Let_def)

lemma lx_check_eq: "lx_check V h st = check_hart V h st"
  by (simp only: lx_check_def check_hart_def)

lemma lx_registers_eq:
  "lx_registers V h st =
     (let r = check_hart V h st in
      case (if r \<noteq> 0 then reconcile_racy V h r st else Inr (False, st)) of
        Inl x \<Rightarrow> Inl x
      | Inr (fixed, st') \<Rightarrow> Inr (if fixed then check_hart V h st' else r, st'))"
proof -
  define r where "r = check_hart V h st"
  define op where "op = last_memop st ! h"
  show ?thesis
  proof (cases "1 \<le> r \<and> r \<le> 31 \<and> mo_valid op \<and> r = mo_rd op")
    case True
    then have "r \<noteq> 0" "\<not> (r < 1 \<or> r > 31 \<or> \<not> mo_valid op \<or> r \<noteq> mo_rd op)" by auto
    then show ?thesis
      using True unfolding lx_registers_def lx_check_eq Let_def r_def [symmetric] op_def [symmetric] reconcile_racy_def lx_patch_memory_eq
      by (simp add: attempt_def split: sum.splits)
  next
    case False
    then have "r < 1 \<or> r > 31 \<or> \<not> mo_valid op \<or> r \<noteq> mo_rd op" by auto
    then show ?thesis
      using False unfolding lx_registers_def lx_check_eq Let_def r_def [symmetric] op_def [symmetric] reconcile_racy_def
      by (auto split: sum.splits)
  qed
qed

lemma lx_compare_eq:
  "compare_hart V n h st = (case lx_compare V n False h (rg, st) of Inl x \<Rightarrow> Inl x | Inr (v, _, st') \<Rightarrow> Inr (v, st'))"
proof (cases "apply_pending_mtime_rd V h st")
  case (Inr st1)
  note 1 = Inr
  show ?thesis
  proof (cases "force_take_if_needed V n h st1")
    case (Inr p)
    obtain f st2 where 2: "force_take_if_needed V n h st1 = Inr (f, st2)" using Inr by (cases p) auto
    show ?thesis
    proof (cases "emu_get_instruction h (golden st2)")
      case (Inr q)
      obtain w e where 3: "emu_get_instruction h (golden st2) = Inr (w, e)" using Inr by (cases q) auto
      define st3 where "st3 = st2\<lparr>golden := e\<rparr>"
      show ?thesis
        unfolding compare_hart_def lx_compare_def lx_copies lx_force_take_eq
        by (cases "check_hart V h st3 = 0"; cases "reconcile_racy V h (check_hart V h st3) st3")
          (simp_all add: 1 2 3 attempt_def Let_def lx_registers_eq split_beta flip: st3_def)
    qed (simp add: compare_hart_def lx_compare_def lx_copies lx_force_take_eq 1 2 attempt_def)
  qed (simp add: compare_hart_def lx_compare_def lx_copies lx_force_take_eq 1)
qed (simp add: compare_hart_def lx_compare_def lx_copies)

text \<open>
  C35: with the register compare on, the Linux harness and the quad harness treat the harts of one
  clock alike. From the same state and for the same commits they report the same hart and verdict
  or the same failure, count the same matches and leave the golden model, the bench and the
  reconciliation state the same.
\<close>

theorem lx_agrees_with_quad:
  "(case lx_each_hart V n False commits hs matched (rg, st) of Inl x \<Rightarrow> Inl x | Inr (v, m, _, st') \<Rightarrow> Inr (v, m, st'))
   = (case each_hart V n (\<lambda>_ _. False) commits hs matched finished st of Inl x \<Rightarrow> Inl x | Inr (v, m, _, st') \<Rightarrow> Inr (v, m, st'))"
proof (induction hs arbitrary: matched finished rg st)
  case (Cons h hs)
  show ?case
  proof (cases "commits AND push_bit h 1 = 0")
    case True
    then show ?thesis using Cons.IH by simp
  next
    case fired: False
    show ?thesis
    proof (cases "lx_compare V n False h (rg, st)")
      case (Inr p)
      obtain v rg1 st1 where p: "p = (v, rg1, st1)" by (cases p)
      have c: "compare_hart V n h st = Inr (v, st1)" using lx_compare_eq [of V n h st rg] Inr p by simp
      show ?thesis
      proof (cases "v = Matched")
        case True
        then show ?thesis
          using fired Inr p c Cons.IH [of "matched + 1" rg1 _ finished]
          by (cases "golden_step_hart V n h st1") (simp_all add: hart_round_def lx_copies Let_def)
      next
        case False
        then have "hart_round V n h st = Inr (v, st1)" by (simp add: hart_round_def c split: verdict.splits)
        then show ?thesis using fired Inr p False by (simp add: Let_def)
      qed
    next
      case (Inl x)
      then have "compare_hart V n h st = Inl x" using lx_compare_eq [of V n h st rg] by simp
      then show ?thesis using fired Inl by (simp add: hart_round_def Let_def)
    qed
  qed
qed simp

subsection \<open>The ring holds the last commits\<close>

lemma mod_window_inj:
  assumes "m < n" "n < m + d"
  shows "m mod d \<noteq> n mod (d :: nat)"
proof
  assume "m mod d = n mod d"
  then have "(n - m) mod d = 0" using assms(1) by (metis less_imp_le mod_eq_dvd_iff_nat mod_0_imp_dvd dvd_imp_mod_0)
  then show False using assms by simp
qed

lemma ring_holds:
  "length (ring_buf (fold ring_note es ring_init)) = 128 \<and> ring_i (fold ring_note es ring_init) = length es mod 128
   \<and> ring_n (fold ring_note es ring_init) = min (length es) 128
   \<and> (\<forall>m<length es. length es \<le> m + 128 \<longrightarrow> ring_buf (fold ring_note es ring_init) ! (m mod 128) = es ! m)"
proof (induction es rule: rev_induct)
  case Nil
  show ?case by (simp add: ring_init_def RING_def)
next
  case (snoc e es)
  define r where "r = fold ring_note es ring_init"
  let ?n = "length es"
  have r: "fold ring_note (es @ [e]) ring_init = ring_note e r" by (simp add: r_def)
  note IH = snoc.IH [folded r_def]
  have "ring_buf (ring_note e r) ! (m mod 128) = (es @ [e]) ! m" if "m < Suc ?n" "Suc ?n \<le> m + 128" for m
  proof (cases "m = ?n")
    case True
    then show ?thesis using IH by (simp add: ring_note_def)
  next
    case False
    then have "m < ?n" "?n < m + 128" using that by auto
    then show ?thesis using IH mod_window_inj [of m ?n 128] by (simp add: ring_note_def nth_append)
  qed
  then show ?case using IH unfolding r by (simp add: ring_note_def RING_def mod_Suc_eq)
qed

text \<open>
  After any sequence of commits the ring written to the log on a failure is the last 128 of
  them, or all of them when there were fewer, oldest first.
\<close>

theorem ring_dump_last: "ring_dump (fold ring_note es ring_init) = drop (length es - 128) es"
proof (rule nth_equalityI)
  let ?r = "fold ring_note es ring_init" and ?n = "length es"
  show "length (ring_dump ?r) = length (drop (?n - 128) es)" using ring_holds [of es] by (simp add: ring_dump_def)
  fix k assume "k < length (ring_dump ?r)"
  then have k: "k < min ?n 128" using ring_holds [of es] by (simp add: ring_dump_def)
  let ?m = "?n - min ?n 128 + k"
  have "(?n mod 128 + 128 - min ?n 128 + k) mod 128 = (?n mod 128 + (128 - min ?n 128 + k)) mod 128"
    by (intro arg_cong [of _ _ "\<lambda>x. x mod 128"]) auto
  also have "\<dots> = (?n + (128 - min ?n 128 + k)) mod 128" by (rule mod_add_left_eq)
  also have "?n + (128 - min ?n 128 + k) = ?m + 128" by auto
  also have "(?m + 128) mod 128 = ?m mod 128" by (rule mod_add_self2)
  finally have i: "(?n mod 128 + 128 - min ?n 128 + k) mod 128 = ?m mod 128" .
  have "ring_dump ?r ! k = ring_buf ?r ! (?m mod 128)"
  proof -
    have "ring_dump ?r ! k = ring_buf ?r ! ((?n mod 128 + 128 - min ?n 128 + k) mod 128)"
      using k ring_holds [of es] unfolding ring_dump_def RING_def by simp
    then show ?thesis unfolding i .
  qed
  also have "\<dots> = es ! ?m" using ring_holds [of es] k by auto
  also have "\<dots> = drop (?n - 128) es ! k" using k by (simp add: min_def)
  finally show "ring_dump ?r ! k = drop (?n - 128) es ! k" .
qed

end
