(* ===== verification/Checker.thy ===== *)
theory Checker
  imports Main
begin

text \<open>
  The contract between a lock-step loop and the comparison it runs: for every committing hart in
  turn the comparison gives a verdict, a hart that passes is advanced, the first other verdict or
  failure stops the loop. The loop's lemmas are proved once and reach the harnesses by
  interpretation.
\<close>

fun check_loop :: "(nat \<Rightarrow> 's \<Rightarrow> 'e + 'v \<times> 's) \<Rightarrow> (nat \<Rightarrow> 's \<Rightarrow> 'e + 's) \<Rightarrow> 'v \<Rightarrow> nat list \<Rightarrow> 's \<Rightarrow>
    'e + (nat \<times> 'v) option \<times> nat \<times> 's" where
  "check_loop cmp adv ok [] s = Inr (None, 0, s)"
| "check_loop cmp adv ok (h # hs) s =
     (case cmp h s of
        Inl e \<Rightarrow> Inl e
      | Inr (v, s) \<Rightarrow>
          if v \<noteq> ok then Inr (Some (h, v), 0, s)
          else (case adv h s of
                  Inl e \<Rightarrow> Inl e
                | Inr s \<Rightarrow>
                    (case check_loop cmp adv ok hs s of
                       Inl e \<Rightarrow> Inl e | Inr (r, n, s) \<Rightarrow> Inr (r, Suc n, s))))"

text \<open>A chain of accepted harts: each state was compared, accepted as good and advanced to the next.\<close>

inductive accepted :: "(nat \<Rightarrow> 's \<Rightarrow> 'e + 'v \<times> 's) \<Rightarrow> (nat \<Rightarrow> 's \<Rightarrow> 'e + 's) \<Rightarrow> 'v \<Rightarrow> (nat \<Rightarrow> 's \<Rightarrow> bool) \<Rightarrow>
    nat list \<Rightarrow> 's \<Rightarrow> 's \<Rightarrow> bool" for cmp adv ok good where
  accepted_Nil: "accepted cmp adv ok good [] s s"
| accepted_Cons: "cmp h s = Inr (ok, s1) \<Longrightarrow> good h s1 \<Longrightarrow> adv h s1 = Inr s2 \<Longrightarrow>
    accepted cmp adv ok good hs s2 s' \<Longrightarrow> accepted cmp adv ok good (h # hs) s s'"

inductive_simps accepted_simps: "accepted cmp adv ok good [] s s'" "accepted cmp adv ok good (h # hs) s s'"

locale hart_checker =
  fixes cmp :: "nat \<Rightarrow> 's \<Rightarrow> 'e + 'v \<times> 's" and adv :: "nat \<Rightarrow> 's \<Rightarrow> 'e + 's" and ok :: 'v
    and good :: "nat \<Rightarrow> 's \<Rightarrow> bool"
  assumes sound: "cmp h s = Inr (ok, s') \<Longrightarrow> good h s'"
    and complete: "good h s \<Longrightarrow> cmp h s = Inr (v, s') \<Longrightarrow> v = ok"
begin

lemma loop_accepted:
  "check_loop cmp adv ok hs s = Inr (None, n, s') \<Longrightarrow> n = length hs \<and> accepted cmp adv ok good hs s s'"
proof (induction hs arbitrary: s n)
  case (Cons h hs)
  obtain s1 s2 m where c: "cmp h s = Inr (ok, s1)" "adv h s1 = Inr s2" "check_loop cmp adv ok hs s2 = Inr (None, m, s')" "n = Suc m"
    using Cons.prems by (auto split: sum.splits if_splits)
  then show ?case using Cons.IH [of s2 m] sound [OF c(1)] by (auto simp: accepted_simps)
qed (simp add: accepted_simps)

lemma loop_rejected:
  "check_loop cmp adv ok hs s = Inr (Some (h, v), n, s') \<Longrightarrow>
     \<exists>us vs t. hs = us @ h # vs \<and> n = length us \<and> accepted cmp adv ok good us s t \<and> cmp h t = Inr (v, s') \<and> \<not> good h t"
proof (induction hs arbitrary: s n)
  case (Cons a hs)
  show ?case
  proof (cases "cmp a s")
    case (Inr p)
    obtain w s1 where p: "cmp a s = Inr (w, s1)" using Inr by (cases p) auto
    show ?thesis
    proof (cases "w = ok")
      case True
      then obtain s2 m where c: "adv a s1 = Inr s2" "check_loop cmp adv ok hs s2 = Inr (Some (h, v), m, s')" "n = Suc m"
        using Cons.prems p by (auto split: sum.splits)
      from Cons.IH [OF c(2)] obtain us vs t where
        u: "hs = us @ h # vs" "m = length us" "accepted cmp adv ok good us s2 t" "cmp h t = Inr (v, s')" "\<not> good h t" by blast
      have "accepted cmp adv ok good (a # us) s t"
        using p True sound [of a s s1] c(1) u(3) by (auto simp: accepted_simps)
      then show ?thesis using u c(3) by (intro exI [of _ "a # us"] exI [of _ vs] exI [of _ t]) simp
    next
      case False
      then have "h = a" "v = w" "s' = s1" "n = 0" using Cons.prems p by auto
      moreover have "\<not> good a s" using complete [of a s w s1] p False by blast
      ultimately show ?thesis using p by (intro exI [of _ "[]"] exI [of _ hs] exI [of _ s]) (simp add: accepted_simps)
    qed
  qed (use Cons.prems in simp)
qed simp

end

end
