(* ===== verification/Lockstep_Correct.thy ===== *)
theory Lockstep_Correct
  imports Lockstep_Linux Checker
begin

text \<open>
  The two four-hart lock-step harnesses as instances of the checker contract: their comparison
  accepts a hart only when it agrees with the RTL and rejects only a hart that does not, so a
  clock passes exactly when every committing hart agreed at its turn.
\<close>

unbundle bit_operations_syntax

subsection \<open>The comparison raises no false alarm\<close>

lemma nth_update_agree: "xs ! i = y \<Longrightarrow> (i = k \<Longrightarrow> v = y) \<Longrightarrow> xs[k := v] ! i = y"
  by (cases "k < length xs"; cases "i = k") (simp_all add: list_update_beyond)

lemma pending_agrees:
  assumes "agrees V h st" "apply_pending_mtime_rd V h st = Inr st1"
  shows "agrees V h st1"
proof -
  define r where "r = pending_mtime_rd st ! h"
  consider "r < 0" | "r = 0" | "0 < r" by linarith
  then show ?thesis
  proof cases
    case 3
    let ?w = "word_of_int r :: u8" and ?g = "harts (golden st) ! h"
    let ?v = "reg V (int h) (uint ?w) (bench st)"
    have h: "h < length (harts (golden st))"
      and st1: "golden st1 = (golden st)\<lparr>harts := (harts (golden st))[h := ?g\<lparr>reg_file := (reg_file ?g)[unat ?w := ?v]\<rparr>]\<rparr>" "bench st1 = bench st"
      using assms(2) 3 unfolding apply_pending_mtime_rd_def r_def [symmetric] Let_def on_golden_def attempt_def emu_set_register_def on_hart_def
        set_register_with_value_def
      by (auto split: if_splits)
    have "(reg_file ?g)[unat ?w := ?v] ! i = reg V (int h) (int i) (bench st)" if "0 < i" "i < 32" for i
    proof (rule nth_update_agree)
      show "reg_file ?g ! i = reg V (int h) (int i) (bench st)" using assms(1) that by (simp add: agrees_def)
      show "?v = reg V (int h) (int i) (bench st)" if "i = unat ?w" unfolding that by (simp only: uint_nat)
    qed
    then show ?thesis using assms(1) h unfolding agrees_def st1 by simp
  qed (use assms in \<open>auto simp: apply_pending_mtime_rd_def r_def Let_def agrees_def check_hart_def\<close>)
qed

lemma fetch_registers:
  assumes "emu_get_instruction h e = Inr (w, e')"
  shows "reg_file (harts e' ! h) = reg_file (harts e ! h) \<and> mstatus (harts e' ! h) = mstatus (harts e ! h) \<and> PC (harts e' ! h) = PC (harts e ! h)"
  using assms
  by (auto simp: emu_get_instruction_def get_instruction_def hart_fetch_instruction_def split: if_splits sum.splits)

lemma force_take_idle:
  "PC (harts (golden st) ! h) = last_commit_pc (bench st) ! h \<Longrightarrow> force_take_if_needed V n h st = Inr (False, st)"
  by (simp add: force_take_if_needed_def Let_def)

lemma agrees_accepted:
  assumes "agrees V h st" "compare_hart V n h st = Inr (v, st')"
  shows "v = Matched"
proof -
  obtain st1 where 1: "apply_pending_mtime_rd V h st = Inr st1"
    using assms(2) by (auto simp: compare_hart_def split: sum.splits)
  have a: "agrees V h st1" by (rule pending_agrees [OF assms(1) 1])
  then have pc: "PC (harts (golden st1) ! h) = last_commit_pc (bench st1) ! h" by (simp add: agrees_def)
  obtain w e where 2: "emu_get_instruction h (golden st1) = Inr (w, e)"
    using assms(2) 1 force_take_idle [OF pc] by (auto simp: compare_hart_def Let_def dest!: attempt_Inr)
  have "check_hart V h (st1\<lparr>golden := e\<rparr>) = 0"
    using a fetch_registers [OF 2] unfolding agrees_iff check_hart_def by simp
  then show ?thesis using assms(2) 1 2 force_take_idle [OF pc] pc by (simp add: compare_hart_def Let_def attempt_def)
qed

interpretation quad: hart_checker "compare_hart V n" "golden_step_hart V n" Matched "agrees V" for V n
  by unfold_locales (fact matched_agrees, fact agrees_accepted)

subsection \<open>The quad harness\<close>

definition committing :: "u8 \<Rightarrow> nat list \<Rightarrow> nat list" where
  "committing commits hs = filter (\<lambda>h. commits AND push_bit h 1 \<noteq> 0) hs"

lemma each_hart_loop:
  "(case each_hart V n hit commits hs matched fin st of Inl x \<Rightarrow> Inl x | Inr (r, m, _, st') \<Rightarrow> Inr (r, m, st')) =
   (case check_loop (compare_hart V n) (golden_step_hart V n) Matched (committing commits hs) st of
      Inl x \<Rightarrow> Inl x | Inr (r, k, st') \<Rightarrow> Inr (r, matched + of_nat k, st'))"
proof (induction hs arbitrary: matched fin st)
  case (Cons h hs)
  show ?case
  proof (cases "commits AND push_bit h 1 = 0")
    case True
    then show ?thesis using Cons.IH by (simp add: committing_def)
  next
    case fired: False
    show ?thesis
    proof (cases "compare_hart V n h st")
      case (Inr p)
      obtain v st1 where p: "compare_hart V n h st = Inr (v, st1)" using Inr by (cases p) auto
      show ?thesis
      proof (cases "v = Matched")
        case False
        then have "hart_round V n h st = Inr (v, st1)" by (simp add: hart_round_def p split: verdict.splits)
        then show ?thesis using fired p False by (simp add: committing_def Let_def)
      next
        case True
        show ?thesis
        proof (cases "golden_step_hart V n h st1")
          case (Inl x)
          then show ?thesis using fired p True by (simp add: committing_def hart_round_def Let_def)
        next
          case (Inr st2)
          then have "each_hart V n hit commits (h # hs) matched fin st =
              each_hart V n hit commits hs (matched + 1) (fin \<or> h = 0 \<and> hit (last_commit_pc (bench st) ! h) (reg V 0 10 (bench st2))) st2"
            using fired p True by (simp add: hart_round_def Let_def)
          then show ?thesis
            using fired p True Inr
              Cons.IH [of "matched + 1" "fin \<or> h = 0 \<and> hit (last_commit_pc (bench st) ! h) (reg V 0 10 (bench st2))" st2]
            by (cases "check_loop (compare_hart V n) (golden_step_hart V n) Matched (committing commits hs) st2")
              (auto simp: committing_def split: sum.splits)
        qed
      qed
    next
      case (Inl x)
      then show ?thesis using fired by (simp add: committing_def hart_round_def Let_def)
    qed
  qed
qed (simp add: committing_def)

definition checked :: "'v vsystem \<Rightarrow> nat \<Rightarrow> nat list \<Rightarrow> 'v lockstep \<Rightarrow> 'v lockstep \<Rightarrow> bool" where
  "checked V n = accepted (compare_hart V n) (golden_step_hart V n) Matched (agrees V)"


text \<open>The golden model after reset against an RTL that shows another value in \<open>x5\<close>.\<close>

lemma mirror_mismatch:
  "compare_hart (mirror_v 0xBAD) n 0 (mirror_state memop_none) = Inr (RegMismatch 5, mirror_state memop_none)"
proof -
  let ?st = "mirror_state memop_none" and ?V = "mirror_v 0xBAD"
  have z: "reg_file (harts reset_emu ! 0) ! 5 = 0"
    by (simp add: reset_emu_def emulator_new_def NUM_HARTS_def hart_init_def hart_fresh_def)
  have "check_hart ?V 0 ?st \<noteq> 0"
    unfolding check_hart_0 using z
    by (auto simp: mirror_v_def mirror_state_def lockstep_init_def reg_def intro!: exI [of _ 5])
  then have "check_hart ?V 0 ?st = int 5"
    by (rule check_hart_single) (auto simp: mirror_v_def mirror_state_def lockstep_init_def reg_def)
  moreover have "reconcile_racy ?V 0 5 ?st = Inr (False, ?st)"
    by (simp add: reconcile_racy_def Let_def mirror_state_def memop_none_def)
  moreover have "pending_mtime_rd ?st ! 0 = -1" "emu_get_instruction 0 (golden ?st) = Inr (0, golden ?st)"
    "last_commit_pc (bench ?st) ! 0 = PC (harts (golden ?st) ! 0)"
    using reset_fetch(1) by (simp_all add: mirror_state_def lockstep_init_def)
  ultimately show ?thesis using compare_hart_run [of ?st 0 0 ?V n] by simp
qed


subsection \<open>The Linux harness\<close>

definition lx_good :: "'v vsystem \<Rightarrow> bool \<Rightarrow> nat \<Rightarrow> ring \<times> 'v lockstep \<Rightarrow> bool" where
  "lx_good V pc_only h s \<longleftrightarrow>
     (if pc_only then PC (harts (golden (snd s)) ! h) = last_commit_pc (bench (snd s)) ! h else agrees V h (snd s))"

definition lx_step :: "'v vsystem \<Rightarrow> nat \<Rightarrow> nat \<Rightarrow> ring \<times> 'v lockstep \<Rightarrow> ls_error + ring \<times> 'v lockstep" where
  "lx_step V n h = (\<lambda>(rg, st). case lx_golden_step_hart V n h st of Inl x \<Rightarrow> Inl x | Inr st \<Rightarrow> Inr (rg, st))"

lemma pending_keeps_pc:
  assumes "apply_pending_mtime_rd V h st = Inr st1"
  shows "PC (harts (golden st1) ! h) = PC (harts (golden st) ! h) \<and> bench st1 = bench st"
  using assms
  by (auto simp: apply_pending_mtime_rd_def Let_def on_golden_def dest!: attempt_Inr set_register_PC split: if_splits)

lemma lx_pc_sound:
  assumes "lx_compare V n True h (rg, st) = Inr (Matched, rg', st')"
  shows "PC (harts (golden st') ! h) = last_commit_pc (bench st') ! h"
proof -
  obtain st1 where 1: "apply_pending_mtime_rd V h st = Inr st1"
    using assms by (auto simp: lx_compare_def lx_copies split: sum.splits)
  obtain st2 where 2: "lx_force_take V n h st1 = Inr st2"
    using assms 1 by (auto simp: lx_compare_def lx_copies split: sum.splits)
  obtain w e where 3: "emu_get_instruction h (golden st2) = Inr (w, e)"
    using assms 1 2 by (auto simp: lx_compare_def lx_copies Let_def dest!: attempt_Inr)
  show ?thesis
    using assms fetch_registers [OF 3] by (auto simp: lx_compare_def lx_copies 1 2 3 Let_def attempt_def split: if_splits)
qed

lemma lx_pc_complete:
  assumes "PC (harts (golden st) ! h) = last_commit_pc (bench st) ! h" "lx_compare V n True h (rg, st) = Inr (v, s')"
  shows "v = Matched"
proof -
  obtain st1 where 1: "apply_pending_mtime_rd V h st = Inr st1"
    using assms(2) by (auto simp: lx_compare_def lx_copies split: sum.splits)
  have pc: "PC (harts (golden st1) ! h) = last_commit_pc (bench st1) ! h" using pending_keeps_pc [OF 1] assms(1) by simp
  then show ?thesis
    using assms(2) force_take_idle [OF pc, of V n]
    by (auto simp: lx_compare_def lx_copies 1 lx_force_take_eq Let_def dest!: attempt_Inr)
qed

interpretation linux: hart_checker "lx_compare V n pc_only" "lx_step V n" Matched "lx_good V pc_only" for V n pc_only
proof unfold_locales
  fix h s s'
  assume c: "lx_compare V n pc_only h s = Inr (Matched, s')"
  obtain rg st rg' st' where s: "s = (rg, st)" "s' = (rg', st')" by (cases s; cases s') auto
  show "lx_good V pc_only h s'"
  proof (cases pc_only)
    case True
    then show ?thesis using lx_pc_sound [of V n h rg st rg' st'] c s by (simp add: lx_good_def)
  next
    case False
    then show ?thesis using lx_compare_eq [of V n h st rg] matched_agrees [of V n h st st'] c s by (simp add: lx_good_def)
  qed
next
  fix h s v s'
  assume g: "lx_good V pc_only h s" and c: "lx_compare V n pc_only h s = Inr (v, s')"
  obtain rg st where s: "s = (rg, st)" by (cases s)
  show "v = Matched"
  proof (cases pc_only)
    case True
    then show ?thesis using lx_pc_complete [of st h V n rg v s'] c g s by (simp add: lx_good_def)
  next
    case False
    then show ?thesis
      using lx_compare_eq [of V n h st rg] agrees_accepted [of V h st n v "snd (snd (v, s'))"] c g s
      by (cases s') (auto simp: lx_good_def dest: agrees_accepted)
  qed
qed

lemma lx_each_hart_loop:
  "lx_each_hart V n pc_only commits hs matched s =
   (case check_loop (lx_compare V n pc_only) (lx_step V n) Matched (committing commits hs) s of
      Inl x \<Rightarrow> Inl x | Inr (r, k, s') \<Rightarrow> Inr (r, matched + of_nat k, s'))"
proof (induction hs arbitrary: matched s)
  case (Cons h hs)
  show ?case
  proof (cases "commits AND push_bit h 1 = 0")
    case True
    then show ?thesis using Cons.IH by (simp add: committing_def)
  next
    case fired: False
    show ?thesis
    proof (cases "lx_compare V n pc_only h s")
      case (Inr p)
      obtain v rg st1 where p: "lx_compare V n pc_only h s = Inr (v, rg, st1)" using Inr by (cases p) auto
      show ?thesis
        using fired p Cons.IH [of "matched + 1"]
        by (cases "v = Matched"; cases "lx_golden_step_hart V n h st1")
          (auto simp: committing_def lx_step_def split: sum.splits)
    qed (use fired in \<open>simp add: committing_def\<close>)
  qed
qed (simp add: committing_def)

text \<open>
  The Linux lock-step passes a clock only when every committing hart agreed with the RTL at its
  turn, in program counter and registers or, with \<open>CHIRON_LOCKSTEP_PC_ONLY\<close>, in the program counter,
  and it stops only at a hart that did not, whatever the ring and the reconciliation state hold.
\<close>

theorem linux_clock_checked:
  assumes "lx_each_hart V n pc_only commits hs matched s = Inr (r, matched', s')"
  shows "case r of
      None \<Rightarrow> matched' = matched + of_nat (length (committing commits hs)) \<and>
        accepted (lx_compare V n pc_only) (lx_step V n) Matched (lx_good V pc_only) (committing commits hs) s s'
    | Some (h, v) \<Rightarrow> \<exists>us vs t. committing commits hs = us @ h # vs \<and> matched' = matched + of_nat (length us) \<and>
        accepted (lx_compare V n pc_only) (lx_step V n) Matched (lx_good V pc_only) us s t \<and> \<not> lx_good V pc_only h t"
proof -
  obtain k where k: "check_loop (lx_compare V n pc_only) (lx_step V n) Matched (committing commits hs) s = Inr (r, k, s')"
    "matched' = matched + of_nat k"
    using lx_each_hart_loop [of V n pc_only commits hs matched s] assms by (auto split: sum.splits)
  show ?thesis
  proof (cases r)
    case None
    then show ?thesis using linux.loop_accepted [of V n pc_only "committing commits hs" s k s'] k by simp
  next
    case (Some p)
    obtain h v where "r = Some (h, v)" using Some by (cases p) auto
    then show ?thesis using linux.loop_rejected [of V n pc_only "committing commits hs" s h v k s'] k by auto
  qed
qed

theorem linux_clock_checked_witness:
  "\<not> lx_good (mirror_v 0xBAD) False 0 (ring_init, mirror_state memop_none)"
proof -
  obtain rg where "lx_compare (mirror_v 0xBAD) 1 False 0 (ring_init, mirror_state memop_none) = Inr (RegMismatch 5, rg, mirror_state memop_none)"
    using lx_compare_eq [of "mirror_v 0xBAD" 1 0 "mirror_state memop_none" ring_init] mirror_mismatch by (auto split: sum.splits)
  then have "lx_each_hart (mirror_v 0xBAD) 1 False 1 [0] 7 (ring_init, mirror_state memop_none)
      = Inr (Some (0, RegMismatch 5), 7, rg, mirror_state memop_none)" by simp
  from linux_clock_checked [OF this] show ?thesis
    by (auto simp: committing_def accepted_simps Cons_eq_append_conv)
qed

end
