(* ===== verification/Harness_Common.thy ===== *)
theory Harness_Common
  imports Rtl_Model Image_Correct
begin

text \<open>
  What the harnesses share, \<^verbatim>\<open>src/sim/harness/common\<close>: the argument scanner (\<^verbatim>\<open>args.h\<close>), the
  completion tests (\<^verbatim>\<open>completion.h\<close>) and the bring-up of the raw Verilated model with the image
  loader (\<^verbatim>\<open>image.h\<close>). \<open>argv\<close> is the list of all arguments, the program name first.
\<close>

unbundle bit_operations_syntax

subsection \<open>Arguments\<close>

fun scan_arg :: "string list \<Rightarrow> string \<Rightarrow> string option \<Rightarrow> string option" where
  "scan_arg (a # b # rest) flag dflt = (if a = flag then Some b else scan_arg (b # rest) flag dflt)"
| "scan_arg _ flag dflt = dflt"

definition find_arg :: "string list \<Rightarrow> string \<Rightarrow> string option \<Rightarrow> string option" where
  "find_arg argv flag dflt = scan_arg (tl argv) flag dflt"

definition has_flag :: "string list \<Rightarrow> string \<Rightarrow> bool" where
  "has_flag argv flag \<longleftrightarrow> flag \<in> set (tl argv)"

text \<open>\<open>strtoull\<close> with base 0: blanks, a sign, the prefix that selects the base, the longest run of digits.\<close>

definition digit_of :: "char \<Rightarrow> nat" where
  "digit_of c =
     (let n = of_char c :: nat in
      if 48 \<le> n \<and> n \<le> 57 then n - 48
      else if 97 \<le> n \<and> n \<le> 122 then n - 87
      else if 65 \<le> n \<and> n \<le> 90 then n - 55 else 99)"

definition is_space :: "char \<Rightarrow> bool" where
  "is_space c \<longleftrightarrow> (of_char c :: nat) \<in> {9, 10, 11, 12, 13, 32}"

definition digits_value :: "nat \<Rightarrow> string \<Rightarrow> nat" where
  "digits_value base cs = foldl (\<lambda>v c. base * v + digit_of c) 0 (takeWhile (\<lambda>c. digit_of c < base) cs)"

definition magnitude :: "string \<Rightarrow> nat" where
  "magnitude s =
     (case s of
        c # d # e # cs \<Rightarrow>
          if c = CHR ''0'' \<and> (d = CHR ''x'' \<or> d = CHR ''X'') \<and> digit_of e < 16 then digits_value 16 (e # cs)
          else if c = CHR ''0'' then digits_value 8 s else digits_value 10 s
      | c # cs \<Rightarrow> if c = CHR ''0'' then digits_value 8 s else digits_value 10 s
      | [] \<Rightarrow> 0)"

definition strtoull :: "string \<Rightarrow> u64" where
  "strtoull s =
     (let s = dropWhile is_space s;
          (neg, s) = (case s of c # cs \<Rightarrow> if c = CHR ''-'' then (True, cs) else if c = CHR ''+'' then (False, cs) else (False, s)
                      | [] \<Rightarrow> (False, [])) in
      if 2 ^ 64 \<le> magnitude s then -1
      else if neg then - of_nat (magnitude s) else of_nat (magnitude s))"

fun collect_args :: "string list \<Rightarrow> string \<Rightarrow> u64 list" where
  "collect_args (a # b # rest) flag =
     (if a = flag then strtoull b # collect_args (b # rest) flag else collect_args (b # rest) flag)"
| "collect_args _ flag = []"

definition collect_hex_args :: "string list \<Rightarrow> string \<Rightarrow> u64 list" where
  "collect_hex_args argv flag = collect_args (tl argv) flag"

subsection \<open>Completion\<close>

record Completion =
  done_pcs :: "u64 list"
  have_a0 :: bool
  a0_val :: u64

definition parse :: "string list \<Rightarrow> Completion" where
  "parse argv =
     (let a0 = find_arg argv ''--done-a0'' None in
      \<lparr>done_pcs = collect_hex_args argv ''--done-pc'', have_a0 = (a0 \<noteq> None),
       a0_val = (case a0 of Some s \<Rightarrow> strtoull s | None \<Rightarrow> 0)\<rparr>)"

definition active :: "Completion \<Rightarrow> bool" where
  "active c \<longleftrightarrow> done_pcs c \<noteq> []"

fun hit_from :: "u64 list \<Rightarrow> Completion \<Rightarrow> u64 \<Rightarrow> u64 \<Rightarrow> bool" where
  "hit_from [] c pc a0 = False"
| "hit_from (dpc # ds) c pc a0 = (if pc = dpc then \<not> have_a0 c \<or> a0 = a0_val c else hit_from ds c pc a0)"

definition hit :: "Completion \<Rightarrow> u64 \<Rightarrow> u64 \<Rightarrow> bool" where
  "hit c pc a0 = hit_from (done_pcs c) c pc a0"

datatype IsaResult = Running | Pass | Fail

definition isa_test_status :: "u64 \<Rightarrow> u64 \<Rightarrow> IsaResult" where
  "isa_test_status gp a7 = (if a7 \<noteq> 93 then Running else if gp = 1 then Pass else Fail)"

subsection \<open>Bring-up and image loading\<close>

definition image_tick :: "'v vsystem \<Rightarrow> 'v \<Rightarrow> 'v" where
  "image_tick V v = v_eval V (v_set_clock V False (v_eval V (v_set_clock V True (v_eval V v))))"

definition image_reset :: "'v vsystem \<Rightarrow> u64 \<Rightarrow> 'v \<Rightarrow> u64 \<times> 'v" where
  "image_reset V t v =
     (let v = (image_tick V ^^ 20) (v_set_reset V True v); v = (image_tick V ^^ 20) (v_set_reset V False v) in (t + 40, v))"

definition pad8 :: "u8 list \<Rightarrow> u8 list" where
  "pad8 buf = buf @ replicate ((length buf + 7) div 8 * 8 - length buf) 0"

function load_words :: "'v vsystem \<Rightarrow> nat \<Rightarrow> u8 list \<Rightarrow> u64 \<times> 'v \<Rightarrow> u64 \<times> 'v" where
  "load_words V i buf = (\<lambda>(t, v).
     if i + 7 < length buf then
       load_words V (i + 8) buf
         (t + 1, image_tick V (v_set_programmer_offset V (of_nat i) (v_set_programmer_byte V (le_word (take 8 (drop i buf))) v)))
     else (t, v))"
  by pat_completeness auto
termination by (relation "measure (\<lambda>(_, i, buf). length buf - i)") auto

declare load_words.simps [simp del]

definition load_image :: "'v vsystem \<Rightarrow> u8 list option \<Rightarrow> u64 \<Rightarrow> 'v \<Rightarrow> bool \<times> u64 \<times> 'v" where
  "load_image V file t v =
     (case file of
        None \<Rightarrow> (False, t, v)
      | Some buffer \<Rightarrow>
          case load_words V 0 (pad8 buffer) (t, v_set_programmer_valid V True v) of (t, v) \<Rightarrow>
            let v = image_tick V (v_set_programmer_valid V False (v_set_finishedProgramming V True v));
                v = image_tick V (v_set_finishedProgramming V False v)
            in (True, t + 2, v))"

subsection \<open>Scanning and completion\<close>

lemma scan_arg_first:
  "scan_arg as flag dflt =
     (case filter (\<lambda>i. as ! i = flag) [0..<length as - 1] of [] \<Rightarrow> dflt | i # _ \<Rightarrow> Some (as ! Suc i))"
proof (induction as flag dflt rule: scan_arg.induct)
  case (1 a b rest flag dflt)
  have "[0..<length (a # b # rest) - 1] = 0 # map Suc [0..<length (b # rest) - 1]"
    by (simp add: map_Suc_upt upt_conv_Cons del: upt_Suc)
  then show ?case using 1 by (auto simp: filter_map o_def split: list.splits)
qed simp_all

lemma hit_iff: "hit c pc a0 \<longleftrightarrow> pc \<in> set (done_pcs c) \<and> (have_a0 c \<longrightarrow> a0 = a0_val c)"
proof -
  have "hit_from ds c pc a0 \<longleftrightarrow> pc \<in> set ds \<and> (have_a0 c \<longrightarrow> a0 = a0_val c)" for ds by (induction ds) auto
  then show ?thesis by (simp add: hit_def)
qed

subsection \<open>Every byte of an image reaches the programmer port\<close>

definition write8 :: "nat \<Rightarrow> u64 \<Rightarrow> (nat \<Rightarrow> u8) \<Rightarrow> nat \<Rightarrow> u8" where
  "write8 a w m = (\<lambda>i. if a \<le> i \<and> i < a + 8 then ucast (drop_bit (8 * (i - a)) w) else m i)"

text \<open>
  What the loader relies on: while \<open>programmer_valid\<close> is up, a clock stores the presented word at
  the presented offset; the clocks of the final handshake store nothing.
\<close>

definition programmer_port :: "'v vsystem \<Rightarrow> ('v \<Rightarrow> bool) \<Rightarrow> ('v \<Rightarrow> nat \<Rightarrow> u8) \<Rightarrow> bool" where
  "programmer_port V up dram \<longleftrightarrow>
     (\<forall>v. up (v_set_programmer_valid V True v) \<and> dram (v_set_programmer_valid V True v) = dram v) \<and>
     (\<forall>v a w. up v \<longrightarrow>
        up (image_tick V (v_set_programmer_offset V a (v_set_programmer_byte V w v))) \<and>
        dram (image_tick V (v_set_programmer_offset V a (v_set_programmer_byte V w v))) = write8 (unat a) w (dram v)) \<and>
     (\<forall>v. dram (image_tick V (v_set_finishedProgramming V False
        (image_tick V (v_set_programmer_valid V False (v_set_finishedProgramming V True v))))) = dram v)"

lemma le_word_byte:
  assumes "length bs = 8" "k < 8"
  shows "(ucast (drop_bit (8 * k) (le_word bs)) :: u8) = bs ! k"
proof (rule bit_word_eqI)
  fix i assume i: "i < LENGTH(8)"
  then have "(8 * k + i) div 8 = k" "(8 * k + i) mod 8 = i" by simp_all
  then show "bit (ucast (drop_bit (8 * k) (le_word bs)) :: u8) i \<longleftrightarrow> bit (bs ! k) i"
    using assms i by (simp add: bit_simps bit_le_word)
qed

lemma load_words_bytes:
  assumes "programmer_port V up dram" "length buf < 2 ^ 64" "up v" "i + 8 * n = length buf"
    and "load_words V i buf (t, v) = (t', v')"
  shows "dram v' = (\<lambda>k. if i \<le> k \<and> k < length buf then buf ! k else dram v k) \<and> t' = t + of_nat n"
  using assms(3-5)
proof (induction n arbitrary: i t v)
  case 0
  then show ?case by (subst (asm) load_words.simps) (auto simp: fun_eq_iff)
next
  case (Suc n)
  define w where "w = le_word (take 8 (drop i buf))"
  define u where "u = image_tick V (v_set_programmer_offset V (of_nat i) (v_set_programmer_byte V w v))"
  have i: "unat (of_nat i :: u64) = i" using Suc.prems(2) assms(2) by (simp add: unat_of_nat)
  have u: "up u" "dram u = write8 i w (dram v)"
    using assms(1) Suc.prems(1) unfolding programmer_port_def u_def by (metis i)+
  have "load_words V (i + 8) buf (t + 1, u) = (t', v')"
    using Suc.prems(2,3) by (subst (asm) load_words.simps) (simp add: u_def w_def)
  then have ih: "dram v' = (\<lambda>k. if i + 8 \<le> k \<and> k < length buf then buf ! k else dram u k)" "t' = t + 1 + of_nat n"
    using Suc.IH [OF u(1), of "i + 8" "t + 1"] Suc.prems(2) by simp_all
  have "dram u k = buf ! k" if "i \<le> k" "k < i + 8" for k
    using that Suc.prems(2) le_word_byte [of "take 8 (drop i buf)" "k - i"] by (simp add: u(2) write8_def w_def)
  moreover have "dram u k = dram v k" if "\<not> (i \<le> k \<and> k < i + 8)" for k
    using that unfolding u(2) write8_def by (rule if_not_P)
  ultimately show ?case using ih Suc.prems(2) by (auto simp: fun_eq_iff not_le)
qed

lemma length_pad8: "length (pad8 buf) = 8 * ((length buf + 7) div 8)"
proof -
  have "length buf \<le> (length buf + 7) div 8 * 8" by presburger
  then show ?thesis by (simp add: pad8_def)
qed

lemma load_image_bytes:
  assumes "programmer_port V up dram" "length file + 7 < 2 ^ 64" "load_image V (Some file) t v = (ok, t', v')"
  shows "ok \<and> t' = t + of_nat ((length file + 7) div 8) + 2 \<and>
    dram v' = (\<lambda>k. if k < length file then file ! k else if k < 8 * ((length file + 7) div 8) then 0 else dram v k)"
proof -
  obtain t1 v1 where l: "load_words V 0 (pad8 file) (t, v_set_programmer_valid V True v) = (t1, v1)" by (metis prod.exhaust)
  have "length (pad8 file) < 2 ^ 64" using assms(2) by (simp add: length_pad8)
  moreover have "up (v_set_programmer_valid V True v)" "dram (v_set_programmer_valid V True v) = dram v"
    using assms(1) by (simp_all add: programmer_port_def)
  ultimately have d: "dram v1 = (\<lambda>k. if k < length (pad8 file) then pad8 file ! k else dram v k)"
    "t1 = t + of_nat ((length file + 7) div 8)"
    using load_words_bytes [OF assms(1) _ _ _ l, of "(length file + 7) div 8"] by (auto simp: length_pad8)
  have "dram v' = dram v1" "ok" "t' = t1 + 2"
    using assms(1,3) l by (auto simp: load_image_def Let_def programmer_port_def)
  moreover have "pad8 file ! k = (if k < length file then file ! k else 0)" if "k < length (pad8 file)" for k
    using that by (auto simp: pad8_def nth_append)
  moreover have "length file \<le> 8 * ((length file + 7) div 8)" by presburger
  ultimately show ?thesis using d by (auto simp: length_pad8 fun_eq_iff)
qed

text \<open>
  the image loader presents every byte of the image to the programmer port, the last partial
  word padded with zeros, and takes one clock per 64-bit word and two for the handshake.
\<close>

theorem load_image_delivers:
  assumes "programmer_port V up dram" "length file + 7 < 2 ^ 64" "load_image V (Some file) t v = (ok, t', v')"
  shows "ok \<and> t' = t + of_nat ((length file + 7) div 8) + 2 \<and>
    dram v' = (\<lambda>k. if k < length file then file ! k else if k < 8 * ((length file + 7) div 8) then 0 else dram v k)"
  using load_image_bytes [OF assms] .

text \<open>A concrete port for the witness: the state holds the three input ports and the memory.\<close>

definition port_v :: "(bool \<times> u64 \<times> u64 \<times> (nat \<Rightarrow> u8)) vsystem" where
  "port_v = \<lparr>v_eval = id, v_set_clock = (\<lambda>c (b, a, w, m). (b, a, w, if c \<and> b then write8 (unat a) w m else m)),
     v_set_reset = (\<lambda>_ v. v), v_set_finishedProgramming = (\<lambda>_ v. v),
     v_set_programmer_valid = (\<lambda>b (_, r). (b, r)), v_set_programmer_byte = (\<lambda>w (b, a, _, m). (b, a, w, m)),
     v_set_programmer_offset = (\<lambda>a (b, _, r). (b, a, r)),
     v_set_prober_offset = (\<lambda>_ v. v), v_prober_accessLong = (\<lambda>_. 0),
     v_commitFired = (\<lambda>_ _. False), v_interrupt = (\<lambda>_ _. False), v_pc = (\<lambda>_ _. 0),
     v_registersOut = (\<lambda>_ _ _. 0), v_msipShared = (\<lambda>_ _. 0), v_mtime = (\<lambda>_. 0), v_mtimecmpShared = (\<lambda>_ _. 0),
     v_mepc = (\<lambda>_ _. 0), v_mtvec = (\<lambda>_ _. 0), v_mcause = (\<lambda>_ _. 0), v_outChar_valid = (\<lambda>_ _. False),
     v_outChar_byte = (\<lambda>_ _. 0), v_memory = (\<lambda>_. []), v_set_memory = (\<lambda>_ v. v)\<rparr>"

lemma port_v_programmer: "programmer_port port_v fst (\<lambda>(_, _, _, m). m)"
  by (auto simp: programmer_port_def port_v_def image_tick_def)

theorem load_image_delivers_witness:
  "\<exists>ok t' v'. load_image port_v (Some [7, 8, 9]) 0 (False, 0, 0, \<lambda>_. 1) = (ok, t', v') \<and> ok \<and> t' = 3 \<and>
     (case v' of (_, _, _, m) \<Rightarrow> m 2 = 9 \<and> m 7 = 0 \<and> m 8 = 1)"
proof -
  obtain ok t' v' where l: "load_image port_v (Some [7, 8, 9]) 0 (False, 0, 0, \<lambda>_. 1) = (ok, t', v')" by (metis prod_cases3)
  from load_image_delivers [OF port_v_programmer _ l] show ?thesis using l by (auto split: prod.splits)
qed

end
