(* ===== verification/Invariants.thy ===== *)
theory Invariants
  imports Chiron_Prelude
begin

text \<open>
  The always-on checks of the reorder buffer, \<^verbatim>\<open>src/sim/harness/invariants.h\<close>: every cycle each
  core's ports are sampled and judged against the ports of the cycle before. The sampling of
  the Verilated nets is the argument \<open>core_sample\<close>; a printed line is an event. The diagnostic
  histories that only widen a printed line are kept as state.
\<close>

unbundle bit_operations_syntax

subsection \<open>Samples and state\<close>

definition CHIRON_ROB_DEPTH :: nat where "CHIRON_ROB_DEPTH = 16"
definition CHIRON_WEDGE_CYCLES :: u64 where "CHIRON_WEDGE_CYCLES = 2000000"

record core_sample =
  readPtr :: u32
  writePtr :: u32
  allocFired :: bool
  bevValid :: bool
  bevPassed :: u32
  bevRob :: u32
  aluValid :: bool
  aluRob :: u32
  mValid :: bool
  mRob :: u32
  loadValid :: bool
  aceRespRob :: u32
  aceReadRob :: u32
  periphRespRob :: u32
  loadPrf :: u32
  loadInsn :: u32
  bevMask :: u32
  rbOpValid :: bool
  rbReqType :: u32
  rbAddr :: u32
  allocMask :: u32
  mrValid :: bool
  mrMask :: u32
  mrAddr :: u32
  rbRob :: u32
  rbMask :: u32
  rbBrValid :: u32
  ready :: "bool list"
  insn :: "u32 list"

type_synonym sq_ev = "u64 \<times> u32 \<times> u32 \<times> u32"
type_synonym lk_ev = "u64 \<times> u32 \<times> u32 \<times> u32 \<times> u32 \<times> u32"
type_synonym mr_ev = "u64 \<times> u32 \<times> u32"

record core_st =
  seen :: bool
  prevReady :: "bool list"
  pendingResolve :: "bool list"
  prevRead :: u32
  lastCommitCyc :: u64
  wedgeReported :: bool
  pBev :: bool
  pBrob :: u32
  pAlloc :: bool
  pWrite :: u32
  pAluV :: bool
  pAluRob :: u32
  pMV :: bool
  pMRob :: u32
  pLoadV :: bool
  pAceRespRob :: u32
  pAceReadRob :: u32
  pPeriphRespRob :: u32
  pLoadPrf :: u32
  pLoadInsn :: u32
  pBevMask :: u32
  pRbRob :: u32
  pRbMask :: u32
  pRbBrValid :: u32
  lastAllocCyc :: "u64 list"
  lastReadyCyc :: "u64 list"
  lastRetireCyc :: "u64 list"
  sq :: "sq_ev list"
  sqn :: u32
  lk :: "lk_ev list"
  lkn :: u32
  slotMask :: "u32 list"
  mr :: "mr_ev list"
  mrn :: u32
  n_ready_no_resolve :: u64
  first_rnr :: u64
  n_ready_outside_window :: u64
  first_row :: u64
  n_double_resolve :: u64
  first_dr :: u64
  n_wedged :: u64
  first_wedge :: u64
  by_alu :: u64
  by_mext :: u64
  by_other :: u64

definition st_init :: core_st where
  "st_init = \<lparr>seen = False, prevReady = replicate CHIRON_ROB_DEPTH False, pendingResolve = replicate CHIRON_ROB_DEPTH False,
     prevRead = 0xffff, lastCommitCyc = 0, wedgeReported = False, pBev = False, pBrob = 0, pAlloc = False, pWrite = 0,
     pAluV = False, pAluRob = 0, pMV = False, pMRob = 0, pLoadV = False, pAceRespRob = 0, pAceReadRob = 0, pPeriphRespRob = 0,
     pLoadPrf = 0, pLoadInsn = 0, pBevMask = 0, pRbRob = 0, pRbMask = 0, pRbBrValid = 0, lastAllocCyc = replicate CHIRON_ROB_DEPTH 0,
     lastReadyCyc = replicate CHIRON_ROB_DEPTH 0, lastRetireCyc = replicate CHIRON_ROB_DEPTH 0,
     sq = replicate 16 (0, 0, 0, 0), sqn = 0, lk = replicate 48 (0, 0, 0, 0, 0, 0), lkn = 0,
     slotMask = replicate CHIRON_ROB_DEPTH 0, mr = replicate 48 (0, 0, 0), mrn = 0,
     n_ready_no_resolve = 0, first_rnr = 0, n_ready_outside_window = 0, first_row = 0, n_double_resolve = 0, first_dr = 0,
     n_wedged = 0, first_wedge = 0, by_alu = 0, by_mext = 0, by_other = 0\<rparr>"

datatype inv_event =
  WedgedEv u64
| DoubleResolve u64 u32
| BranchReadyNoResolve u64 nat
| ReadyOutsideWindow u64 nat

text \<open>ROB entry layout: PC in bits 101 to 38, instruction in 37 to 6, destination in 5 to 0.\<close>

definition insn_of :: "u32 list \<Rightarrow> u32" where
  "insn_of w = ucast (fold (\<lambda>i v. v OR push_bit i (ucast (drop_bit ((6 + i) AND 31) (w ! ((6 + i) div 32)) AND 1))) [0..<32] (0 :: u64))"

definition in_window :: "u32 \<Rightarrow> u32 \<Rightarrow> u32 \<Rightarrow> bool" where
  "in_window i rp wp =
     (let occ = (wp - rp) AND (of_nat CHIRON_ROB_DEPTH - 1) in
      if occ = 0 then True else (i - rp) AND (of_nat CHIRON_ROB_DEPTH - 1) < occ)"

subsection \<open>One check\<close>

definition stamp :: "u64 \<Rightarrow> u64 \<Rightarrow> u64" where
  "stamp f cyc = (if f = 0 then cyc else f)"

definition check_progress :: "core_sample \<Rightarrow> u64 \<Rightarrow> core_st \<Rightarrow> core_st \<times> inv_event list" where
  "check_progress s cyc x =
     (let x = (if prevRead x \<noteq> 0xffff \<and> readPtr s \<noteq> prevRead x then x\<lparr>lastCommitCyc := cyc\<rparr> else x);
          x = (if prevRead x = 0xffff then x\<lparr>lastCommitCyc := cyc\<rparr> else x);
          (x, ev) = (if \<not> wedgeReported x \<and> cyc > lastCommitCyc x + CHIRON_WEDGE_CYCLES
                     then (x\<lparr>wedgeReported := True, n_wedged := n_wedged x + 1, first_wedge := stamp (first_wedge x) cyc\<rparr>, [WedgedEv cyc])
                     else (x, []));
          x = (if readPtr s \<noteq> prevRead x then x\<lparr>wedgeReported := False\<rparr> else x)
      in (x, ev))"

fun retire_walk :: "nat \<Rightarrow> u64 \<Rightarrow> u32 \<Rightarrow> u32 \<Rightarrow> u64 list \<Rightarrow> u64 list option" where
  "retire_walk 0 cyc r rp l = (if r = rp then Some l else None)"
| "retire_walk (Suc n) cyc r rp l =
     (if r = rp then Some l
      else retire_walk n cyc ((r + 1) AND (of_nat CHIRON_ROB_DEPTH - 1)) rp (l[unat r := cyc]))"

definition note_history :: "core_sample \<Rightarrow> u64 \<Rightarrow> core_st \<Rightarrow> core_st option" where
  "note_history s cyc x =
     (let x = (if allocFired s then
                 x\<lparr>lastAllocCyc := (lastAllocCyc x)[unat (writePtr s) := cyc], slotMask := (slotMask x)[unat (writePtr s) := allocMask s]\<rparr>
               else x);
          x = (if mrValid s then x\<lparr>mr := (mr x)[unat (mrn x mod 48) := (cyc, mrMask s, mrAddr s)], mrn := mrn x + 1\<rparr> else x);
          l = (if prevRead x \<noteq> 0xffff \<and> readPtr s \<noteq> prevRead x
               then retire_walk CHIRON_ROB_DEPTH cyc (prevRead x) (readPtr s) (lastRetireCyc x) else Some (lastRetireCyc x)) in
      case l of
        None \<Rightarrow> None
      | Some l \<Rightarrow>
          let x = x\<lparr>lastRetireCyc := l\<rparr> in
          Some (if rbOpValid s then
                  x\<lparr>lk := (lk x)[unat (lkn x mod 48) := (cyc, rbRob s, rbMask s, rbBrValid s, rbReqType s, rbAddr s)], lkn := lkn x + 1\<rparr>
                else x))"

definition check_resolve :: "core_sample \<Rightarrow> u64 \<Rightarrow> core_st \<Rightarrow> core_st \<times> inv_event list" where
  "check_resolve s cyc x =
     (let (x, ev) =
        (if bevValid s then
           (let b = unat (bevRob s);
                (x, ev) = (if pendingResolve x ! b
                           then (x\<lparr>n_double_resolve := n_double_resolve x + 1, first_dr := stamp (first_dr x) cyc\<rparr>, [DoubleResolve cyc (bevRob s)])
                           else (x, []))
            in (x\<lparr>pendingResolve := (pendingResolve x)[b := True],
                  sq := (sq x)[unat (sqn x AND 15) := (cyc, bevRob s, bevPassed s, bevMask s)], sqn := sqn x + 1\<rparr>, ev))
         else (x, []))
      in (if allocFired s then x\<lparr>pendingResolve := (pendingResolve x)[unat (writePtr s) := False]\<rparr> else x, ev))"

text \<open>V1: only a resolution or an allocation may ready a conditional branch.\<close>

definition slot_branch :: "core_sample \<Rightarrow> u64 \<Rightarrow> nat \<Rightarrow> core_st \<times> inv_event list \<Rightarrow> core_st \<times> inv_event list" where
  "slot_branch s cyc i = (\<lambda>(x, ev).
     let k = of_nat i;
         named = (pBev x \<and> pBrob x = k); alloc = (pAlloc x \<and> pWrite x = k);
         aluHit = (pAluV x \<and> pAluRob x = k); mHit = (pMV x \<and> pMRob x = k)
     in if insn s ! i AND 0x7f = 0x63 \<and> \<not> named \<and> \<not> alloc then
          (let x = x\<lparr>n_ready_no_resolve := n_ready_no_resolve x + 1, first_rnr := stamp (first_rnr x) cyc\<rparr>;
               x = (if aluHit then x\<lparr>by_alu := by_alu x + 1\<rparr> else if mHit then x\<lparr>by_mext := by_mext x + 1\<rparr>
                    else x\<lparr>by_other := by_other x + 1\<rparr>)
           in (x, ev @ [BranchReadyNoResolve cyc i]))
        else (x, ev))"

text \<open>V2: no port may ready a slot outside the window, now and in the cycle before.\<close>

definition slot_window :: "core_sample \<Rightarrow> u64 \<Rightarrow> nat \<Rightarrow> core_st \<times> inv_event list \<Rightarrow> core_st \<times> inv_event list" where
  "slot_window s cyc i = (\<lambda>(x, ev).
     let k = of_nat i; alloc = (pAlloc x \<and> pWrite x = k)
     in if \<not> alloc \<and> \<not> in_window k (readPtr s) (writePtr s) then
          (let wasIn = (prevRead x \<noteq> 0xffff \<and> in_window k (prevRead x) (pWrite x)) in
           if \<not> wasIn then
             (x\<lparr>n_ready_outside_window := n_ready_outside_window x + 1, first_row := stamp (first_row x) cyc\<rparr>,
              ev @ [ReadyOutsideWindow cyc i])
           else (x, ev))
        else (x, ev))"

definition check_slot :: "core_sample \<Rightarrow> u64 \<Rightarrow> nat \<Rightarrow> core_st \<times> inv_event list \<Rightarrow> core_st \<times> inv_event list" where
  "check_slot s cyc i = (\<lambda>(x, ev).
     let rose = (ready s ! i \<and> \<not> prevReady x ! i);
         (x, ev) = (if rose then slot_window s cyc i (slot_branch s cyc i (x, ev)) else (x, ev));
         x = (if rose then x\<lparr>lastReadyCyc := (lastReadyCyc x)[i := cyc]\<rparr> else x)
     in (x\<lparr>prevReady := (prevReady x)[i := ready s ! i]\<rparr>, ev))"

definition remember :: "core_sample \<Rightarrow> core_st \<Rightarrow> core_st" where
  "remember s x = x\<lparr>prevRead := readPtr s, pBev := bevValid s, pBrob := bevRob s, pAlloc := allocFired s, pWrite := writePtr s,
     pAluV := aluValid s, pAluRob := aluRob s, pMV := mValid s, pMRob := mRob s, pLoadV := loadValid s,
     pAceRespRob := aceRespRob s, pAceReadRob := aceReadRob s, pPeriphRespRob := periphRespRob s, pLoadPrf := loadPrf s,
     pLoadInsn := loadInsn s, pBevMask := bevMask s, pRbRob := rbRob s, pRbMask := rbMask s, pRbBrValid := rbBrValid s\<rparr>"

definition check :: "core_sample \<Rightarrow> u64 \<Rightarrow> core_st \<Rightarrow> (core_st \<times> inv_event list) option" where
  "check s cyc x =
     (case check_progress s cyc (x\<lparr>seen := True\<rparr>) of (x, ev1) \<Rightarrow>
      case note_history s cyc x of
        None \<Rightarrow> None
      | Some x \<Rightarrow>
          case check_resolve s cyc x of (x, ev2) \<Rightarrow>
          case fold (check_slot s cyc) [0..<CHIRON_ROB_DEPTH] (x, ev1 @ ev2) of (x, ev) \<Rightarrow>
          Some (remember s x, ev))"

subsection \<open>Four cores\<close>

definition violations :: "core_st list \<Rightarrow> u64" where
  "violations st = fold (\<lambda>x n. n + (n_ready_no_resolve x + n_ready_outside_window x + n_double_resolve x + n_wedged x)) st 0"

definition report :: "core_st list \<Rightarrow> int" where
  "report st = (if violations st = 0 then 0 else 1)"

fun tick_cores :: "core_sample list \<Rightarrow> u64 \<Rightarrow> core_st list \<Rightarrow> (core_st list \<times> inv_event list) option" where
  "tick_cores (s # ss) cyc (x # xs) =
     (case check s cyc x of
        None \<Rightarrow> None
      | Some (x, ev) \<Rightarrow> (case tick_cores ss cyc xs of None \<Rightarrow> None | Some (xs, ev') \<Rightarrow> Some (x # xs, ev @ ev')))"
| "tick_cores _ cyc _ = Some ([], [])"

fun run_cores :: "(u64 \<times> core_sample list) list \<Rightarrow> core_st list \<Rightarrow> (core_st list \<times> inv_event list) option" where
  "run_cores [] st = Some (st, [])"
| "run_cores ((cyc, ss) # rest) st =
     (case tick_cores ss cyc st of
        None \<Rightarrow> None
      | Some (st, ev) \<Rightarrow> (case run_cores rest st of None \<Rightarrow> None | Some (st, ev') \<Rightarrow> Some (st, ev @ ev')))"

subsection \<open>The counters count the events\<close>

definition vcount :: "core_st \<Rightarrow> u64" where
  "vcount x = n_ready_no_resolve x + n_ready_outside_window x + n_double_resolve x + n_wedged x"

definition attributed :: "core_st \<Rightarrow> bool" where
  "attributed x \<longleftrightarrow> n_ready_no_resolve x = by_alu x + by_mext x + by_other x"

lemma check_progress_count:
  assumes "check_progress s cyc x = (x', ev)"
  shows "vcount x' = vcount x + of_nat (length ev)" "attributed x' = attributed x"
  using assms by (auto simp: check_progress_def Let_def vcount_def attributed_def split: if_splits)

lemma note_history_count:
  assumes "note_history s cyc x = Some x'"
  shows "vcount x' = vcount x" "attributed x' = attributed x"
  using assms by (auto simp: note_history_def Let_def vcount_def attributed_def split: if_splits option.splits)

lemma check_resolve_count:
  assumes "check_resolve s cyc x = (x', ev)"
  shows "vcount x' = vcount x + of_nat (length ev)" "attributed x' = attributed x"
  using assms by (auto simp: check_resolve_def Let_def vcount_def attributed_def split: if_splits)

text \<open>Any relation between the states and events before and after that the two rules and the bookkeeping keep.\<close>

lemma check_slot_keeps:
  assumes "\<And>x ev. R (x, ev) (slot_branch s cyc i (x, ev))" "\<And>x ev. R (x, ev) (slot_window s cyc i (x, ev))"
    and "\<And>x ev l r. R (x, ev) (x\<lparr>lastReadyCyc := l, prevReady := r\<rparr>, ev)" "\<And>x ev r. R (x, ev) (x\<lparr>prevReady := r\<rparr>, ev)"
    and "\<And>a b c. R a b \<Longrightarrow> R b c \<Longrightarrow> R a c"
  shows "R (x, ev) (check_slot s cyc i (x, ev))"
proof (cases "ready s ! i \<and> \<not> prevReady x ! i")
  case True
  obtain x1 ev1 where 1: "slot_branch s cyc i (x, ev) = (x1, ev1)" by (metis prod.exhaust)
  obtain x2 ev2 where 2: "slot_window s cyc i (x1, ev1) = (x2, ev2)" by (metis prod.exhaust)
  have "R (x, ev) (x2, ev2)" using assms(1) [of x ev] assms(2) [of x1 ev1] assms(5) 1 2 by metis
  moreover have "check_slot s cyc i (x, ev) = (x2\<lparr>lastReadyCyc := (lastReadyCyc x2)[i := cyc], prevReady := (prevReady x2)[i := ready s ! i]\<rparr>, ev2)"
    using True 1 2 by (simp add: check_slot_def)
  ultimately show ?thesis using assms(3) assms(5) by metis
next
  case False
  then have f: "(ready s ! i \<and> \<not> prevReady x ! i) = False" by simp
  have "check_slot s cyc i (x, ev) = (x\<lparr>prevReady := (prevReady x)[i := ready s ! i]\<rparr>, ev)"
    by (simp only: check_slot_def prod.case f Let_def if_False)
  then show ?thesis using assms(4) by simp
qed

definition same_balance :: "core_st \<times> inv_event list \<Rightarrow> core_st \<times> inv_event list \<Rightarrow> bool" where
  "same_balance = (\<lambda>(x, ev) (x', ev'). vcount x' - of_nat (length ev') = vcount x - of_nat (length ev) \<and> (attributed x \<longrightarrow> attributed x'))"

lemma check_slot_balance: "same_balance (x, ev) (check_slot s cyc i (x, ev))"
proof (rule check_slot_keeps)
  show "same_balance (x, ev) (slot_branch s cyc i (x, ev))" for x ev
    by (simp add: same_balance_def slot_branch_def Let_def vcount_def attributed_def algebra_simps)
  show "same_balance (x, ev) (slot_window s cyc i (x, ev))" for x ev
    by (simp add: same_balance_def slot_window_def Let_def vcount_def attributed_def algebra_simps)
qed (auto simp: same_balance_def vcount_def attributed_def)

lemma check_slot_count:
  assumes "check_slot s cyc i (x, ev) = (x', ev')"
  shows "vcount x' + of_nat (length ev) = vcount x + of_nat (length ev')" "attributed x \<Longrightarrow> attributed x'"
  using check_slot_balance [of x ev s cyc i] unfolding assms same_balance_def prod.case by (auto simp: algebra_simps)

lemma fold_check_slot_count:
  assumes "fold (check_slot s cyc) is (x, ev) = (x', ev')"
  shows "vcount x' + of_nat (length ev) = vcount x + of_nat (length ev') \<and> (attributed x \<longrightarrow> attributed x')"
  using assms
proof (induction "is" arbitrary: x ev)
  case (Cons i "is")
  obtain x1 ev1 where s: "check_slot s cyc i (x, ev) = (x1, ev1)" by (metis prod.exhaust)
  then have "fold (check_slot s cyc) is (x1, ev1) = (x', ev')" using Cons.prems by simp
  note ih = Cons.IH [OF this] and c = check_slot_count [OF s]
  have "(vcount x' + of_nat (length ev1)) + (vcount x1 + of_nat (length ev)) =
      (vcount x1 + of_nat (length ev')) + (vcount x + of_nat (length ev1))"
    using ih c by (simp only:)
  then have "vcount x' + of_nat (length ev) = vcount x + of_nat (length ev')" by (simp add: algebra_simps)
  then show ?case using ih c(2) by blast
qed simp

lemma check_count:
  assumes "check s cyc x = Some (x', ev)"
  shows "vcount x' = vcount x + of_nat (length ev) \<and> (attributed x \<longrightarrow> attributed x')"
proof -
  obtain x1 ev1 where 1: "check_progress s cyc (x\<lparr>seen := True\<rparr>) = (x1, ev1)" by (metis prod.exhaust)
  then obtain x2 where 2: "note_history s cyc x1 = Some x2" using assms by (auto simp: check_def split: option.splits)
  obtain x3 ev2 where 3: "check_resolve s cyc x2 = (x3, ev2)" by (metis prod.exhaust)
  obtain x4 ev3 where 4: "fold (check_slot s cyc) [0..<CHIRON_ROB_DEPTH] (x3, ev1 @ ev2) = (x4, ev3)" by (metis prod.exhaust)
  have r: "x' = remember s x4" "ev = ev3" using assms 1 2 3 4 by (simp_all add: check_def)
  have "vcount (x\<lparr>seen := True\<rparr>) = vcount x" "attributed (x\<lparr>seen := True\<rparr>) = attributed x"
    "vcount x' = vcount x4" "attributed x' = attributed x4"
    by (simp_all add: r(1) vcount_def attributed_def remember_def)
  then show ?thesis
    using check_progress_count [OF 1] note_history_count [OF 2] check_resolve_count [OF 3] fold_check_slot_count [OF 4] r(2)
    by (auto simp: algebra_simps)
qed

lemma violations_sum: "violations st = sum_list (map vcount st)"
proof -
  have "fold (\<lambda>x n. n + vcount x) st m = m + sum_list (map vcount st)" for m by (induction st arbitrary: m) (simp_all add: add.assoc)
  from this [of 0] show ?thesis by (simp add: violations_def vcount_def)
qed

lemma tick_cores_count:
  assumes "tick_cores ss cyc st = Some (st', ev)" "length ss = length st"
  shows "violations st' = violations st + of_nat (length ev) \<and> length st' = length st \<and>
    ((\<forall>x\<in>set st. attributed x) \<longrightarrow> (\<forall>x\<in>set st'. attributed x))"
  using assms
proof (induction ss cyc st arbitrary: st' ev rule: tick_cores.induct)
  case (1 s ss cyc x xs)
  then obtain x1 ev1 xs1 ev2 where c: "check s cyc x = Some (x1, ev1)" "tick_cores ss cyc xs = Some (xs1, ev2)"
    "st' = x1 # xs1" "ev = ev1 @ ev2" by (auto split: option.splits)
  show ?case using check_count [OF c(1)] 1(1) [OF c(1) refl c(2)] 1(3) c by (simp add: violations_sum)
qed (auto simp: violations_sum)

lemma run_cores_count:
  assumes "run_cores samples st0 = Some (st, ev)" "\<forall>(cyc, ss)\<in>set samples. length ss = 4" "length st0 = 4" "\<forall>x\<in>set st0. attributed x"
  shows "violations st = violations st0 + of_nat (length ev) \<and> (\<forall>x\<in>set st. attributed x)"
  using assms
proof (induction samples st0 arbitrary: st ev rule: run_cores.induct)
  case (2 cyc ss rest st0)
  then obtain st1 ev1 ev2 where c: "tick_cores ss cyc st0 = Some (st1, ev1)" "run_cores rest st1 = Some (st, ev2)" "ev = ev1 @ ev2"
    by (auto split: option.splits)
  then show ?case using 2(1) [OF c(1) refl c(2)] tick_cores_count [OF c(1)] 2(3-5) by (simp add: algebra_simps)
qed simp


subsection \<open>Wedges\<close>

fun run_check :: "u64 \<Rightarrow> core_sample list \<Rightarrow> core_st \<Rightarrow> (core_st \<times> inv_event list list) option" where
  "run_check cyc [] x = Some (x, [])"
| "run_check cyc (s # ss) x =
     (case check s cyc x of
        None \<Rightarrow> None
      | Some (x, ev) \<Rightarrow> (case run_check (cyc + 1) ss x of None \<Rightarrow> None | Some (x, evs) \<Rightarrow> Some (x, ev # evs)))"

definition progress_of :: "core_st \<Rightarrow> u32 \<times> u64 \<times> bool" where
  "progress_of x = (prevRead x, lastCommitCyc x, wedgeReported x)"

lemma check_slot_progress:
  assumes "check_slot s cyc i (x, ev) = (x', ev')"
  shows "progress_of x' = progress_of x \<and> (WedgedEv c \<in> set ev' \<longleftrightarrow> WedgedEv c \<in> set ev)"
proof -
  let ?R = "\<lambda>(x, ev) (x', ev'). progress_of x' = progress_of x \<and> (WedgedEv c \<in> set ev' \<longleftrightarrow> WedgedEv c \<in> set ev)"
  have "?R (x, ev) (check_slot s cyc i (x, ev))"
  proof (rule check_slot_keeps)
    show "?R (x, ev) (slot_branch s cyc i (x, ev))" for x ev by (simp add: slot_branch_def Let_def progress_of_def)
    show "?R (x, ev) (slot_window s cyc i (x, ev))" for x ev by (simp add: slot_window_def Let_def progress_of_def)
  qed (auto simp: progress_of_def)
  then show ?thesis unfolding assms by simp
qed

lemma fold_check_slot_progress:
  assumes "fold (check_slot s cyc) is (x, ev) = (x', ev')"
  shows "progress_of x' = progress_of x \<and> (WedgedEv c \<in> set ev' \<longleftrightarrow> WedgedEv c \<in> set ev)"
  using assms
proof (induction "is" arbitrary: x ev)
  case (Cons i "is")
  obtain x1 ev1 where s: "check_slot s cyc i (x, ev) = (x1, ev1)" by (metis prod.exhaust)
  then have "fold (check_slot s cyc) is (x1, ev1) = (x', ev')" using Cons.prems by simp
  from Cons.IH [OF this] check_slot_progress [OF s] show ?case by simp
qed simp

lemma note_history_progress: "note_history s cyc x = Some x' \<Longrightarrow> progress_of x' = progress_of x"
  by (auto simp: note_history_def Let_def progress_of_def split: if_splits option.splits)

lemma check_resolve_progress:
  "check_resolve s cyc x = (x', ev) \<Longrightarrow> progress_of x' = progress_of x \<and> WedgedEv c \<notin> set ev"
  by (auto simp: check_resolve_def Let_def progress_of_def split: if_splits)

text \<open>The part of a check that watches the commits.\<close>

definition commit_cycle :: "core_sample \<Rightarrow> u64 \<Rightarrow> core_st \<Rightarrow> u64" where
  "commit_cycle s cyc x = (if prevRead x = 0xffff \<or> readPtr s \<noteq> prevRead x then cyc else lastCommitCyc x)"

lemma check_progress_parts:
  assumes "check s cyc x = Some (x', ev)"
  shows "prevRead x' = readPtr s" "lastCommitCyc x' = commit_cycle s cyc x"
    "wedgeReported x' \<longleftrightarrow> readPtr s = prevRead x \<and> (wedgeReported x \<or> cyc > commit_cycle s cyc x + CHIRON_WEDGE_CYCLES)"
    "WedgedEv c \<in> set ev \<longleftrightarrow> c = cyc \<and> \<not> wedgeReported x \<and> cyc > commit_cycle s cyc x + CHIRON_WEDGE_CYCLES"
proof -
  obtain x1 ev1 where 1: "check_progress s cyc (x\<lparr>seen := True\<rparr>) = (x1, ev1)" by (metis prod.exhaust)
  then obtain x2 where 2: "note_history s cyc x1 = Some x2" using assms by (auto simp: check_def split: option.splits)
  obtain x3 ev2 where 3: "check_resolve s cyc x2 = (x3, ev2)" by (metis prod.exhaust)
  obtain x4 ev3 where 4: "fold (check_slot s cyc) [0..<CHIRON_ROB_DEPTH] (x3, ev1 @ ev2) = (x4, ev3)" by (metis prod.exhaust)
  have r: "x' = remember s x4" "ev = ev3" using assms 1 2 3 4 by (simp_all add: check_def)
  have p: "progress_of x4 = progress_of x1" "WedgedEv c \<in> set ev \<longleftrightarrow> WedgedEv c \<in> set ev1"
    using note_history_progress [OF 2] check_resolve_progress [OF 3, of c] fold_check_slot_progress [OF 4, of c] r(2) by auto
  have q: "lastCommitCyc x1 = commit_cycle s cyc x"
    "wedgeReported x1 \<longleftrightarrow> readPtr s = prevRead x \<and> (wedgeReported x \<or> cyc > commit_cycle s cyc x + CHIRON_WEDGE_CYCLES)"
    "WedgedEv c \<in> set ev1 \<longleftrightarrow> c = cyc \<and> \<not> wedgeReported x \<and> cyc > commit_cycle s cyc x + CHIRON_WEDGE_CYCLES"
    using 1 by (auto simp: check_progress_def Let_def commit_cycle_def split: if_splits)
  have "lastCommitCyc x' = lastCommitCyc x4" "wedgeReported x' = wedgeReported x4" by (simp_all add: r(1) remember_def)
  then show "lastCommitCyc x' = commit_cycle s cyc x"
    "wedgeReported x' \<longleftrightarrow> readPtr s = prevRead x \<and> (wedgeReported x \<or> cyc > commit_cycle s cyc x + CHIRON_WEDGE_CYCLES)"
    using p(1) q by (simp_all add: progress_of_def)
  show "prevRead x' = readPtr s" by (simp add: r(1) remember_def)
  show "WedgedEv c \<in> set ev \<longleftrightarrow> c = cyc \<and> \<not> wedgeReported x \<and> cyc > commit_cycle s cyc x + CHIRON_WEDGE_CYCLES"
    using p(2) q(3) by simp
qed

text \<open>How many cycles the read pointer has stood still, at each sample.\<close>

fun still :: "u32 \<Rightarrow> nat \<Rightarrow> u32 list \<Rightarrow> nat list" where
  "still p d [] = []"
| "still p d (r # rs) = (let d' = (if r = p then Suc d else 0) in d' # still r d' rs)"

definition stalls :: "u32 list \<Rightarrow> nat list" where
  "stalls rs = (case rs of [] \<Rightarrow> [] | r # rs \<Rightarrow> 0 # still r 0 rs)"

definition wedge_seen :: "inv_event list \<Rightarrow> bool" where
  "wedge_seen ev \<longleftrightarrow> (\<exists>c. WedgedEv c \<in> set ev)"

lemma unat_wedge: "unat CHIRON_WEDGE_CYCLES = 2000000"
  by (simp add: CHIRON_WEDGE_CYCLES_def)

lemma past_wedge:
  assumes "unat c + d = unat cyc" "unat cyc + 2000000 < 2 ^ 64"
  shows "cyc > c + CHIRON_WEDGE_CYCLES \<longleftrightarrow> d > 2000000"
proof -
  have "unat (c + CHIRON_WEDGE_CYCLES) = unat c + 2000000" using assms by (simp add: unat_plus_if' unat_wedge)
  then show ?thesis using assms(1) by (auto simp: word_less_nat_alt)
qed

lemma run_check_wedges:
  assumes "run_check cyc ss x = Some (x', evs)" "unat cyc + length ss + 2000000 < 2 ^ 64" "\<forall>s\<in>set ss. readPtr s \<noteq> 0xffff"
    and "prevRead x \<noteq> 0xffff" "unat (lastCommitCyc x) + Suc d = unat cyc" "wedgeReported x \<longleftrightarrow> d > 2000000"
  shows "map wedge_seen evs = map (\<lambda>d. d = 2000001) (still (prevRead x) d (map readPtr ss))"
  using assms
proof (induction ss arbitrary: cyc x d evs)
  case (Cons s ss)
  obtain x1 ev evs' where c: "check s cyc x = Some (x1, ev)" "run_check (cyc + 1) ss x1 = Some (x', evs')" "evs = ev # evs'"
    using Cons.prems(1) by (auto split: option.splits)
  define d' where "d' = (if readPtr s = prevRead x then Suc d else 0)"
  note parts = check_progress_parts [OF c(1)]
  have cc: "unat (commit_cycle s cyc x) + d' = unat cyc"
    using Cons.prems(4,5) by (simp add: commit_cycle_def d'_def)
  have past: "cyc > commit_cycle s cyc x + CHIRON_WEDGE_CYCLES \<longleftrightarrow> d' > 2000000"
    using cc Cons.prems(2) by (intro past_wedge) simp_all
  have u: "unat (cyc + 1) = unat cyc + 1" using Cons.prems(2) by (simp add: unat_plus_if')
  have "map wedge_seen evs' = map (\<lambda>d. d = 2000001) (still (prevRead x1) d' (map readPtr ss))"
  proof (rule Cons.IH [OF c(2)])
    show "wedgeReported x1 \<longleftrightarrow> d' > 2000000"
      unfolding parts(3) past using Cons.prems(6) by (auto simp: d'_def)
  qed (use Cons.prems(2,3) u cc parts in auto)
  moreover have "wedge_seen ev \<longleftrightarrow> d' = 2000001"
    unfolding wedge_seen_def parts(4) past using Cons.prems(6) by (auto simp: d'_def)
  ultimately show ?case using c(3) parts(1) by (simp add: d'_def Let_def)
qed simp

text \<open>
  C38: sampled in consecutive cycles, the checker reports a wedge exactly in the cycle in which
  the read pointer has stood still for one cycle more than \<open>CHIRON_WEDGE_CYCLES\<close>: once per stall,
  never on a core that retires.
\<close>

theorem wedge_reported_once:
  assumes "run_check cyc ss st_init = Some (x, evs)" "unat cyc + length ss + 2000000 < 2 ^ 64" "\<forall>s\<in>set ss. readPtr s \<noteq> 0xffff"
  shows "map wedge_seen evs = map (\<lambda>d. d = 2000001) (stalls (map readPtr ss))"
proof (cases ss)
  case (Cons s rest)
  obtain x1 ev evs' where c: "check s cyc st_init = Some (x1, ev)" "run_check (cyc + 1) rest x1 = Some (x, evs')" "evs = ev # evs'"
    using assms(1) Cons by (auto split: option.splits)
  note parts = check_progress_parts [OF c(1)]
  have i: "prevRead st_init = 0xffff" "\<not> wedgeReported st_init" by (simp_all add: st_init_def)
  have cc: "commit_cycle s cyc st_init = cyc" by (simp add: commit_cycle_def i)
  have no: "\<not> cyc > cyc + CHIRON_WEDGE_CYCLES" using assms(2) past_wedge [of cyc 0 cyc] by simp
  have u: "unat (cyc + 1) = unat cyc + 1" using assms(2) by (simp add: unat_plus_if')
  have "map wedge_seen evs' = map (\<lambda>d. d = 2000001) (still (prevRead x1) 0 (map readPtr rest))"
    using assms(2,3) Cons u parts cc no i by (intro run_check_wedges [OF c(2)]) auto
  moreover have "\<not> wedge_seen ev" unfolding wedge_seen_def parts(4) cc using no by blast
  ultimately show ?thesis using c(3) Cons parts(1) by (simp add: stalls_def)
qed (use assms(1) in \<open>simp add: stalls_def\<close>)

subsection \<open>The window of allocated slots\<close>

lemma and_15_diff: "uint ((a - b) AND 15 :: u32) = (uint a - uint b) mod 16"
proof -
  have "(a - b) AND 15 = take_bit 4 (a - b)" by (simp add: word_mask)
  then have "uint ((a - b) AND 15) = uint (a - b) mod 16"
    by (simp only: unsigned_take_bit_eq) (simp add: take_bit_eq_mod)
  also have "\<dots> = ((uint a - uint b) mod 2 ^ 32) mod 16" by (simp only: uint_word_ariths) simp
  also have "\<dots> = (uint a - uint b) mod 16" by (simp add: mod_mod_cancel)
  finally show ?thesis .
qed

text \<open>
  A slot is in the window iff it is one of the slots from the read pointer up to the write
  pointer, in a ring of 16; equal pointers give no verdict.
\<close>

lemma in_window_iff:
  assumes "uint i < 16" "uint rp < 16" "uint wp < 16"
  shows "in_window i rp wp \<longleftrightarrow> rp = wp \<or> (\<exists>k. 0 \<le> k \<and> k < (uint wp - uint rp) mod 16 \<and> uint i = (uint rp + k) mod 16)"
proof -
  have d: "of_nat CHIRON_ROB_DEPTH - 1 = (15 :: u32)" by (simp add: CHIRON_ROB_DEPTH_def)
  have z: "(wp - rp) AND 15 = 0 \<longleftrightarrow> rp = wp"
  proof
    assume "(wp - rp) AND 15 = 0"
    then have "(uint wp - uint rp) mod 16 = 0" using and_15_diff [of wp rp] by simp
    moreover have "x = y" if "(x - y) mod 16 = 0" "0 \<le> x" "x < 16" "0 \<le> y" "y < 16" for x y :: int using that by presburger
    ultimately have "uint wp = uint rp" using assms by simp
    then show "rp = wp" by (metis word_of_int_uint)
  qed simp
  have "(i - rp) AND 15 < (wp - rp) AND 15 \<longleftrightarrow> (uint i - uint rp) mod 16 < (uint wp - uint rp) mod 16"
    by (simp add: word_less_def and_15_diff)
  also have "\<dots> \<longleftrightarrow> (\<exists>k. 0 \<le> k \<and> k < (uint wp - uint rp) mod 16 \<and> uint i = (uint rp + k) mod 16)"
  proof
    assume "(uint i - uint rp) mod 16 < (uint wp - uint rp) mod 16"
    moreover have "uint i = (uint rp + (uint i - uint rp) mod 16) mod 16" using assms by (simp add: mod_add_right_eq)
    ultimately show "\<exists>k. 0 \<le> k \<and> k < (uint wp - uint rp) mod 16 \<and> uint i = (uint rp + k) mod 16"
      by (intro exI [of _ "(uint i - uint rp) mod 16"]) simp
  next
    assume "\<exists>k. 0 \<le> k \<and> k < (uint wp - uint rp) mod 16 \<and> uint i = (uint rp + k) mod 16"
    then obtain k where k: "0 \<le> k" "k < (uint wp - uint rp) mod 16" "uint i = (uint rp + k) mod 16" by blast
    have "k < 16" using k(2) pos_mod_bound [of 16 "uint wp - uint rp"] by linarith
    moreover have "(uint i - uint rp) mod 16 = k mod 16" unfolding k(3) by (simp add: mod_diff_left_eq)
    ultimately show "(uint i - uint rp) mod 16 < (uint wp - uint rp) mod 16" using k(1,2) by simp
  qed
  finally show ?thesis by (auto simp: in_window_def Let_def d z)
qed

subsection \<open>Witnesses\<close>

definition idle :: "u32 \<Rightarrow> core_sample" where
  "idle r = \<lparr>readPtr = r, writePtr = r, allocFired = False, bevValid = False, bevPassed = 0, bevRob = 0, aluValid = False, aluRob = 0,
     mValid = False, mRob = 0, loadValid = False, aceRespRob = 0, aceReadRob = 0, periphRespRob = 0, loadPrf = 0, loadInsn = 0,
     bevMask = 0, rbOpValid = False, rbReqType = 0, rbAddr = 0, allocMask = 0, mrValid = False, mrMask = 0, mrAddr = 0,
     rbRob = 0, rbMask = 0, rbBrValid = 0, ready = replicate 16 False, insn = replicate 16 0\<rparr>"

definition stray :: core_sample where
  "stray = (idle 3)\<lparr>ready := (replicate 16 False)[5 := True], insn := (replicate 16 0)[5 := 0x63]\<rparr>"

lemma stray_run: "map_option snd (run_cores [(7, [idle 3, idle 3, stray, idle 3])] (replicate 4 st_init)) = Some [BranchReadyNoResolve 7 5]"
  by code_simp


lemma idle_run: "map_option (\<lambda>(x, evs). evs) (run_check 5 [idle 3, idle 3, idle 4] st_init) = Some [[], [], []]"
  by code_simp

theorem wedge_reported_once_witness:
  "\<exists>x evs. run_check 5 [idle 3, idle 3, idle 4] st_init = Some (x, evs) \<and> map wedge_seen evs = [False, False, False]"
proof -
  obtain x evs where r: "run_check 5 [idle 3, idle 3, idle 4] st_init = Some (x, evs)" using idle_run by auto
  then show ?thesis using wedge_reported_once [OF r] by (simp add: idle_def stalls_def Let_def)
qed

end
