(* ===== verification/Profiler.thy ===== *)
theory Profiler
  imports Complex_Main Chiron_Prelude
begin

text \<open>
  The performance counters, \<^verbatim>\<open>src/sim/rtl/profiler.h\<close> and \<^verbatim>\<open>src/sim/rtl/profiler_quad.h\<close>. The
  counter ports of the Verilated model are the argument \<open>P\<close>: core and slot to value. The type of
  the derived metrics is a parameter with a product, a quotient and the conversion \<open>D\<close> from
  \<open>uint64_t\<close>, so the results hold for \<open>double\<close> with its rounding. Of the printed report, the keys
  and values are kept, not the layout.
\<close>

subsection \<open>Metrics\<close>

record perf_raw =
  pm_cycles :: u64
  pm_inst_retired :: u64
  pm_branch_total :: u64
  pm_branches_passed :: u64
  pm_scheduler_stalls :: u64
  pm_rob_stalls :: u64
  pm_decode_ready :: u64
  pm_decode_fired :: u64
  pm_icache_stalls :: u64
  pm_dcache_reqs :: u64
  pm_dcache_miss :: u64
  pm_dcache_rd_beats :: u64
  pm_dcache_wr_beats :: u64
  pm_icache_miss :: u64
  pm_icache_rd_beats :: u64
  pm_l2_to_mem_rd_reqs :: u64
  pm_l2_to_mem_rd_beats :: u64
  pm_l2_to_mem_wr_beats :: u64
  pm_fe_fetch_not_ready :: u64
  pm_fe_decode_not_ready :: u64
  pm_fe_expected_block :: u64
  pm_fe_resp_valid_idle :: u64
  pm_fe_cache_not_prod :: u64
  pm_fe_req_fire :: u64
  pm_fe_req_refused :: u64
  pm_ds_prf_exhausted :: u64
  pm_ds_branch_mask_full :: u64
  pm_ds_rename_collide :: u64
  pm_flush_branch :: u64
  pm_flush_coherent :: u64
  pm_retired_branch :: u64
  pm_rob_head_not_ready :: u64
  pm_rob_ready_blocked :: u64
  pm_hnr_load :: u64
  pm_hnr_branch :: u64
  pm_hnr_mext :: u64
  pm_hnr_amo :: u64
  pm_hnr_other :: u64
  pm_rnr_store_gate :: u64
  pm_rnr_wb_gate :: u64
  pm_rnr_load_gate :: u64

record 'f perf_derived =
  pm_ipc :: 'f
  pm_ip_per_sec :: 'f
  pm_branch_accuracy_pct :: 'f
  pm_icache_miss_rate_pct :: 'f
  pm_dcache_miss_rate_pct :: 'f
  pm_l1d_read_bw_bytes_per_cycle :: 'f
  pm_l1d_write_bw_bytes_per_cycle :: 'f
  pm_l1i_read_bw_bytes_per_cycle :: 'f
  pm_dram_read_bw_MB_per_sec :: 'f
  pm_dram_write_bw_MB_per_sec :: 'f
  pm_scheduler_stall_pct :: 'f
  pm_rob_stall_pct :: 'f
  pm_decode_efficiency_pct :: 'f
  pm_dcache_mem_reqs_per_million_cycles :: 'f

type_synonym 'f PerfMetrics = "perf_raw \<times> 'f perf_derived"

definition safe_max1 :: "u64 \<Rightarrow> u64" where
  "safe_max1 v = (if v > 0 then v else 1)"

definition get_perf_counter :: "(nat \<Rightarrow> nat \<Rightarrow> u64) \<Rightarrow> int \<Rightarrow> u64" where
  "get_perf_counter P k = (if 0 \<le> k \<and> k \<le> 40 then P 0 (nat k) else 0)"

definition read_raw :: "(nat \<Rightarrow> nat \<Rightarrow> u64) \<Rightarrow> perf_raw" where
  "read_raw P = (let g = get_perf_counter P in \<lparr>
     pm_cycles = g 0, pm_inst_retired = g 1, pm_branch_total = g 2, pm_branches_passed = g 3, pm_scheduler_stalls = g 4,
     pm_rob_stalls = g 5, pm_decode_ready = g 6, pm_decode_fired = g 7, pm_icache_stalls = g 8, pm_dcache_reqs = g 9,
     pm_dcache_miss = g 10, pm_dcache_rd_beats = g 11, pm_dcache_wr_beats = g 12, pm_icache_miss = g 13,
     pm_icache_rd_beats = g 14, pm_l2_to_mem_rd_reqs = g 15, pm_l2_to_mem_rd_beats = g 16, pm_l2_to_mem_wr_beats = g 17,
     pm_fe_fetch_not_ready = g 18, pm_fe_decode_not_ready = g 19, pm_fe_expected_block = g 20, pm_fe_resp_valid_idle = 0,
     pm_fe_cache_not_prod = 0, pm_fe_req_fire = 0, pm_fe_req_refused = 0, pm_ds_prf_exhausted = g 21,
     pm_ds_branch_mask_full = g 22, pm_ds_rename_collide = g 23, pm_flush_branch = g 24, pm_flush_coherent = g 25,
     pm_retired_branch = g 26, pm_rob_head_not_ready = g 29, pm_rob_ready_blocked = g 30, pm_hnr_load = g 31,
     pm_hnr_branch = g 32, pm_hnr_mext = g 33, pm_hnr_amo = g 34, pm_hnr_other = g 35, pm_rnr_store_gate = g 36,
     pm_rnr_wb_gate = g 37, pm_rnr_load_gate = g 38\<rparr>)"

definition derive :: "(u64 \<Rightarrow> 'f :: {times, inverse}) \<Rightarrow> perf_raw \<Rightarrow> 'f perf_derived" where
  "derive D m =
     (let clock_hz = D 75000000; bytes_per_beat = D 8;
          safe_cycles = safe_max1 (pm_cycles m); safe_decode_ready = safe_max1 (pm_decode_ready m);
          safe_branch_total = safe_max1 (pm_branch_total m); safe_dcache_reqs = safe_max1 (pm_dcache_reqs m);
          i = D (pm_inst_retired m) / D safe_cycles in \<lparr>
     pm_ipc = i,
     pm_ip_per_sec = i * clock_hz,
     pm_branch_accuracy_pct = D 100 * D (pm_branches_passed m) / D safe_branch_total,
     pm_icache_miss_rate_pct = D 100 * D (pm_icache_miss m) / D safe_decode_ready,
     pm_dcache_miss_rate_pct = D 100 * D (pm_dcache_miss m) / D safe_dcache_reqs,
     pm_l1d_read_bw_bytes_per_cycle = D (pm_dcache_rd_beats m) * bytes_per_beat / D safe_cycles,
     pm_l1d_write_bw_bytes_per_cycle = D (pm_dcache_wr_beats m) * bytes_per_beat / D safe_cycles,
     pm_l1i_read_bw_bytes_per_cycle = D (pm_icache_rd_beats m) * bytes_per_beat / D safe_cycles,
     pm_dram_read_bw_MB_per_sec = D (pm_l2_to_mem_rd_beats m) * bytes_per_beat / D safe_cycles * clock_hz / D 1000000,
     pm_dram_write_bw_MB_per_sec = D (pm_l2_to_mem_wr_beats m) * bytes_per_beat / D safe_cycles * clock_hz / D 1000000,
     pm_scheduler_stall_pct = D 100 * D (pm_scheduler_stalls m) / D safe_decode_ready,
     pm_rob_stall_pct = D 100 * D (pm_rob_stalls m) / D safe_decode_ready,
     pm_decode_efficiency_pct = D 100 * D (pm_decode_fired m) / D safe_decode_ready,
     pm_dcache_mem_reqs_per_million_cycles = D (pm_dcache_reqs m) / D safe_cycles * D 1000000\<rparr>)"

definition compute_metrics :: "(u64 \<Rightarrow> 'f :: {times, inverse}) \<Rightarrow> (nat \<Rightarrow> nat \<Rightarrow> u64) \<Rightarrow> 'f PerfMetrics" where
  "compute_metrics D P = (let m = read_raw P in (m, derive D m))"

subsection \<open>The quad-core reader\<close>

definition get_core_counter :: "(nat \<Rightarrow> nat \<Rightarrow> u64) \<Rightarrow> int \<Rightarrow> int \<Rightarrow> u64" where
  "get_core_counter P core k =
     (if core \<in> {0, 1, 2, 3} \<and> (0 \<le> k \<and> k \<le> 26 \<or> 29 \<le> k \<and> k \<le> 40) then P (nat core) (nat k) else 0)"

definition read_counters :: "(nat \<Rightarrow> nat \<Rightarrow> u64) \<Rightarrow> int \<Rightarrow> u64 list" where
  "read_counters P c = map (\<lambda>k. get_core_counter P c (int k)) [0..<41]"

definition raw_from :: "u64 list \<Rightarrow> perf_raw" where
  "raw_from r = \<lparr>
     pm_cycles = r ! 0, pm_inst_retired = r ! 1, pm_branch_total = r ! 2, pm_branches_passed = r ! 3,
     pm_scheduler_stalls = r ! 4, pm_rob_stalls = r ! 5, pm_decode_ready = r ! 6, pm_decode_fired = r ! 7,
     pm_icache_stalls = r ! 8, pm_dcache_reqs = r ! 9, pm_dcache_miss = r ! 10, pm_dcache_rd_beats = r ! 11,
     pm_dcache_wr_beats = r ! 12, pm_icache_miss = r ! 13, pm_icache_rd_beats = r ! 14, pm_l2_to_mem_rd_reqs = r ! 15,
     pm_l2_to_mem_rd_beats = r ! 16, pm_l2_to_mem_wr_beats = r ! 17, pm_fe_fetch_not_ready = r ! 18,
     pm_fe_decode_not_ready = r ! 19, pm_fe_expected_block = r ! 20, pm_fe_resp_valid_idle = 0, pm_fe_cache_not_prod = 0,
     pm_fe_req_fire = 0, pm_fe_req_refused = 0, pm_ds_prf_exhausted = r ! 21, pm_ds_branch_mask_full = r ! 22,
     pm_ds_rename_collide = r ! 23, pm_flush_branch = r ! 24, pm_flush_coherent = r ! 25, pm_retired_branch = r ! 26,
     pm_rob_head_not_ready = r ! 29, pm_rob_ready_blocked = r ! 30, pm_hnr_load = r ! 31, pm_hnr_branch = r ! 32,
     pm_hnr_mext = r ! 33, pm_hnr_amo = r ! 34, pm_hnr_other = r ! 35, pm_rnr_store_gate = r ! 36, pm_rnr_wb_gate = r ! 37,
     pm_rnr_load_gate = r ! 38\<rparr>"

definition derive_quad :: "(u64 \<Rightarrow> 'f :: {times, inverse}) \<Rightarrow> perf_raw \<Rightarrow> 'f perf_derived" where
  "derive_quad D m =
     (let clock_hz = D 75000000; bytes_per_beat = D 8;
          sc = safe_max1 (pm_cycles m); sdr = safe_max1 (pm_decode_ready m);
          sbt = safe_max1 (pm_branch_total m); sdq = safe_max1 (pm_dcache_reqs m);
          i = D (pm_inst_retired m) / D sc in \<lparr>
     pm_ipc = i,
     pm_ip_per_sec = i * clock_hz,
     pm_branch_accuracy_pct = D 100 * D (pm_branches_passed m) / D sbt,
     pm_icache_miss_rate_pct = D 100 * D (pm_icache_miss m) / D sdr,
     pm_dcache_miss_rate_pct = D 100 * D (pm_dcache_miss m) / D sdq,
     pm_l1d_read_bw_bytes_per_cycle = D (pm_dcache_rd_beats m) * bytes_per_beat / D sc,
     pm_l1d_write_bw_bytes_per_cycle = D (pm_dcache_wr_beats m) * bytes_per_beat / D sc,
     pm_l1i_read_bw_bytes_per_cycle = D (pm_icache_rd_beats m) * bytes_per_beat / D sc,
     pm_dram_read_bw_MB_per_sec = D (pm_l2_to_mem_rd_beats m) * bytes_per_beat / D sc * clock_hz / D 1000000,
     pm_dram_write_bw_MB_per_sec = D (pm_l2_to_mem_wr_beats m) * bytes_per_beat / D sc * clock_hz / D 1000000,
     pm_scheduler_stall_pct = D 100 * D (pm_scheduler_stalls m) / D sdr,
     pm_rob_stall_pct = D 100 * D (pm_rob_stalls m) / D sdr,
     pm_decode_efficiency_pct = D 100 * D (pm_decode_fired m) / D sdr,
     pm_dcache_mem_reqs_per_million_cycles = D (pm_dcache_reqs m) / D sc * D 1000000\<rparr>)"

definition metrics_from :: "(u64 \<Rightarrow> 'f :: {times, inverse}) \<Rightarrow> u64 list \<Rightarrow> 'f PerfMetrics" where
  "metrics_from D r = (let m = raw_from r in (m, derive_quad D m))"

definition compute_core_metrics :: "(u64 \<Rightarrow> 'f :: {times, inverse}) \<Rightarrow> (nat \<Rightarrow> nat \<Rightarrow> u64) \<Rightarrow> int \<Rightarrow> 'f PerfMetrics" where
  "compute_core_metrics D P c = metrics_from D (read_counters P c)"

subsection \<open>The work window\<close>

definition BLOCK_COMMITS :: nat where "BLOCK_COMMITS = 64"
definition WORK_SPAN_BYTES :: u64 where "WORK_SPAN_BYTES = 16"

record WorkWin =
  blk_lo :: u64
  blk_hi :: u64
  blk_n :: nat
  commits :: u64
  spin_commits :: u64
  spin_lo :: u64
  spin_hi :: u64
  work_cycle :: u64
  snap :: "u64 list"
  have_snap :: bool

definition win_init :: WorkWin where
  "win_init = \<lparr>blk_lo = -1, blk_hi = 0, blk_n = 0, commits = 0, spin_commits = 0, spin_lo = -1, spin_hi = 0, work_cycle = 0,
     snap = replicate 41 0, have_snap = False\<rparr>"

definition sample_commit :: "u64 \<Rightarrow> u64 \<Rightarrow> u64 list \<Rightarrow> WorkWin \<Rightarrow> WorkWin" where
  "sample_commit cycle pc counters w =
     (let w = w\<lparr>commits := commits w + 1\<rparr>;
          w = (if pc < blk_lo w then w\<lparr>blk_lo := pc\<rparr> else w);
          w = (if pc > blk_hi w then w\<lparr>blk_hi := pc\<rparr> else w);
          w = w\<lparr>blk_n := blk_n w + 1\<rparr> in
      if blk_n w < BLOCK_COMMITS then w
      else
        (let w = (if blk_hi w - blk_lo w > WORK_SPAN_BYTES then
                    w\<lparr>work_cycle := cycle, snap := counters, have_snap := True\<rparr>
                  else
                    (let w = w\<lparr>spin_commits := spin_commits w + of_nat BLOCK_COMMITS\<rparr>;
                         w = (if blk_lo w < spin_lo w then w\<lparr>spin_lo := blk_lo w\<rparr> else w)
                     in if blk_hi w > spin_hi w then w\<lparr>spin_hi := blk_hi w\<rparr> else w))
         in w\<lparr>blk_lo := -1, blk_hi := 0, blk_n := 0\<rparr>))"

definition sample :: "(nat \<Rightarrow> nat \<Rightarrow> u64) \<Rightarrow> (nat \<Rightarrow> bool) \<Rightarrow> (nat \<Rightarrow> u64) \<Rightarrow> u64 \<Rightarrow> WorkWin list \<Rightarrow> WorkWin list" where
  "sample P fired pcs cycle win =
     map (\<lambda>i. if fired i then sample_commit cycle (pcs i) (read_counters P (int i)) (win ! i) else win ! i) [0..<4]"

definition spin_commit_pct :: "(u64 \<Rightarrow> 'f :: {times, inverse}) \<Rightarrow> WorkWin \<Rightarrow> 'f" where
  "spin_commit_pct D w = D 100 * D (spin_commits w) / D (safe_max1 (commits w))"

definition compute_core_metrics_work :: "(u64 \<Rightarrow> 'f :: {times, inverse}) \<Rightarrow> (nat \<Rightarrow> nat \<Rightarrow> u64) \<Rightarrow> WorkWin list \<Rightarrow> nat \<Rightarrow> 'f PerfMetrics" where
  "compute_core_metrics_work D P win c =
     (if \<not> have_snap (win ! c) then compute_core_metrics D P (int c) else metrics_from D (snap (win ! c)))"

subsection \<open>Aggregates\<close>

definition aggregate :: "perf_raw list \<Rightarrow> u64 \<times> u64" where
  "aggregate c = fold (\<lambda>m (agg_inst, agg_cyc).
     (agg_inst + pm_inst_retired m, if pm_cycles m > agg_cyc then pm_cycles m else agg_cyc)) c (0, 0)"

definition aggregate_ipc :: "(u64 \<Rightarrow> 'f :: {times, inverse}) \<Rightarrow> perf_raw list \<Rightarrow> 'f" where
  "aggregate_ipc D c = (case aggregate c of (agg_inst, agg_cyc) \<Rightarrow> D agg_inst / D (safe_max1 agg_cyc))"

subsection \<open>Reports\<close>

datatype 'f json = JInt u64 | JSInt int | JDbl 'f | JBool bool | JStr string | JObj "(string \<times> 'f json) list" | JArr "'f json list"

definition json_raw :: "perf_raw \<Rightarrow> (string \<times> 'f json) list" where
  "json_raw m = [
     (''cycles'', JInt (pm_cycles m)), (''inst_retired'', JInt (pm_inst_retired m)),
     (''branch_total'', JInt (pm_branch_total m)), (''branches_passed'', JInt (pm_branches_passed m)),
     (''scheduler_stalls'', JInt (pm_scheduler_stalls m)), (''rob_stalls'', JInt (pm_rob_stalls m)),
     (''decode_ready'', JInt (pm_decode_ready m)), (''decode_fired'', JInt (pm_decode_fired m)),
     (''icache_stalls'', JInt (pm_icache_stalls m)), (''dcache_reqs'', JInt (pm_dcache_reqs m)),
     (''dcache_miss'', JInt (pm_dcache_miss m)), (''dcache_rd_beats'', JInt (pm_dcache_rd_beats m)),
     (''dcache_wr_beats'', JInt (pm_dcache_wr_beats m)), (''icache_miss'', JInt (pm_icache_miss m)),
     (''icache_rd_beats'', JInt (pm_icache_rd_beats m)), (''l2_to_mem_rd_reqs'', JInt (pm_l2_to_mem_rd_reqs m)),
     (''l2_to_mem_rd_beats'', JInt (pm_l2_to_mem_rd_beats m)), (''l2_to_mem_wr_beats'', JInt (pm_l2_to_mem_wr_beats m)),
     (''fe_fetch_not_ready'', JInt (pm_fe_fetch_not_ready m)), (''fe_decode_not_ready'', JInt (pm_fe_decode_not_ready m)),
     (''fe_expected_block'', JInt (pm_fe_expected_block m)), (''ds_prf_exhausted'', JInt (pm_ds_prf_exhausted m)),
     (''ds_branch_mask_full'', JInt (pm_ds_branch_mask_full m)), (''ds_rename_collide'', JInt (pm_ds_rename_collide m)),
     (''flush_branch'', JInt (pm_flush_branch m)), (''flush_coherent'', JInt (pm_flush_coherent m)),
     (''retired_branch'', JInt (pm_retired_branch m)), (''rob_head_not_ready'', JInt (pm_rob_head_not_ready m)),
     (''rob_ready_blocked'', JInt (pm_rob_ready_blocked m)), (''hnr_load'', JInt (pm_hnr_load m)),
     (''hnr_branch'', JInt (pm_hnr_branch m)), (''hnr_mext'', JInt (pm_hnr_mext m)), (''hnr_amo'', JInt (pm_hnr_amo m)),
     (''hnr_other'', JInt (pm_hnr_other m)), (''rnr_store_gate'', JInt (pm_rnr_store_gate m)),
     (''rnr_wb_gate'', JInt (pm_rnr_wb_gate m)), (''rnr_load_gate'', JInt (pm_rnr_load_gate m))]"

definition json_derived :: "'f perf_derived \<Rightarrow> (string \<times> 'f json) list" where
  "json_derived m = [
     (''ipc'', JDbl (pm_ipc m)), (''ip_per_sec'', JDbl (pm_ip_per_sec m)),
     (''branch_accuracy_pct'', JDbl (pm_branch_accuracy_pct m)), (''icache_miss_rate_pct'', JDbl (pm_icache_miss_rate_pct m)),
     (''dcache_miss_rate_pct'', JDbl (pm_dcache_miss_rate_pct m)),
     (''l1d_read_bw_bytes_per_cycle'', JDbl (pm_l1d_read_bw_bytes_per_cycle m)),
     (''l1d_write_bw_bytes_per_cycle'', JDbl (pm_l1d_write_bw_bytes_per_cycle m)),
     (''l1i_read_bw_bytes_per_cycle'', JDbl (pm_l1i_read_bw_bytes_per_cycle m)),
     (''dram_read_bw_MB_per_sec'', JDbl (pm_dram_read_bw_MB_per_sec m)),
     (''dram_write_bw_MB_per_sec'', JDbl (pm_dram_write_bw_MB_per_sec m)),
     (''scheduler_stall_pct'', JDbl (pm_scheduler_stall_pct m)), (''rob_stall_pct'', JDbl (pm_rob_stall_pct m)),
     (''decode_efficiency_pct'', JDbl (pm_decode_efficiency_pct m)),
     (''dcache_mem_reqs_per_million_cycles'', JDbl (pm_dcache_mem_reqs_per_million_cycles m))]"

definition print_json :: "(u64 \<Rightarrow> 'f :: {times, inverse}) \<Rightarrow> (nat \<Rightarrow> nat \<Rightarrow> u64) \<Rightarrow> string \<Rightarrow> 'f json" where
  "print_json D P benchmark_name =
     (let (m, d) = compute_metrics D P in
      JObj [(''benchmark'', JStr benchmark_name), (''raw'', JObj (json_raw m)), (''derived'', JObj (json_derived d))])"

definition json_core_raw :: "perf_raw \<Rightarrow> (string \<times> 'f json) list" where
  "json_core_raw m = [
     (''cycles'', JInt (pm_cycles m)), (''inst_retired'', JInt (pm_inst_retired m)),
     (''branch_total'', JInt (pm_branch_total m)), (''branches_passed'', JInt (pm_branches_passed m)),
     (''scheduler_stalls'', JInt (pm_scheduler_stalls m)), (''rob_stalls'', JInt (pm_rob_stalls m)),
     (''decode_ready'', JInt (pm_decode_ready m)), (''decode_fired'', JInt (pm_decode_fired m)),
     (''icache_stalls'', JInt (pm_icache_stalls m)), (''dcache_reqs'', JInt (pm_dcache_reqs m)),
     (''dcache_miss'', JInt (pm_dcache_miss m)), (''dcache_rd_beats'', JInt (pm_dcache_rd_beats m)),
     (''dcache_wr_beats'', JInt (pm_dcache_wr_beats m)), (''icache_miss'', JInt (pm_icache_miss m)),
     (''icache_rd_beats'', JInt (pm_icache_rd_beats m)), (''l2_to_mem_rd_reqs'', JInt (pm_l2_to_mem_rd_reqs m)),
     (''l2_to_mem_rd_beats'', JInt (pm_l2_to_mem_rd_beats m)), (''l2_to_mem_wr_beats'', JInt (pm_l2_to_mem_wr_beats m)),
     (''fe_fetch_not_ready'', JInt (pm_fe_fetch_not_ready m)), (''fe_decode_not_ready'', JInt (pm_fe_decode_not_ready m)),
     (''fe_expected_block'', JInt (pm_fe_expected_block m)), (''ds_prf_exhausted'', JInt (pm_ds_prf_exhausted m)),
     (''ds_branch_mask_full'', JInt (pm_ds_branch_mask_full m)), (''ds_rename_collide'', JInt (pm_ds_rename_collide m)),
     (''flush_branch'', JInt (pm_flush_branch m)), (''flush_coherent'', JInt (pm_flush_coherent m)),
     (''retired_branch'', JInt (pm_retired_branch m)), (''rob_head_not_ready'', JInt (pm_rob_head_not_ready m)),
     (''rob_ready_blocked'', JInt (pm_rob_ready_blocked m)), (''hnr_load'', JInt (pm_hnr_load m)),
     (''hnr_branch'', JInt (pm_hnr_branch m)), (''hnr_mext'', JInt (pm_hnr_mext m)), (''hnr_amo'', JInt (pm_hnr_amo m)),
     (''hnr_other'', JInt (pm_hnr_other m)), (''rnr_store_gate'', JInt (pm_rnr_store_gate m)),
     (''rnr_wb_gate'', JInt (pm_rnr_wb_gate m)), (''rnr_load_gate'', JInt (pm_rnr_load_gate m))]"

definition json_core_derived :: "'f perf_derived \<Rightarrow> (string \<times> 'f json) list" where
  "json_core_derived m = [
     (''ipc'', JDbl (pm_ipc m)), (''branch_accuracy_pct'', JDbl (pm_branch_accuracy_pct m)),
     (''icache_miss_rate_pct'', JDbl (pm_icache_miss_rate_pct m)),
     (''dcache_miss_rate_pct'', JDbl (pm_dcache_miss_rate_pct m)),
     (''l1d_read_bw_bytes_per_cycle'', JDbl (pm_l1d_read_bw_bytes_per_cycle m)),
     (''l1d_write_bw_bytes_per_cycle'', JDbl (pm_l1d_write_bw_bytes_per_cycle m)),
     (''scheduler_stall_pct'', JDbl (pm_scheduler_stall_pct m)), (''rob_stall_pct'', JDbl (pm_rob_stall_pct m)),
     (''decode_efficiency_pct'', JDbl (pm_decode_efficiency_pct m))]"

definition json_core_work :: "(u64 \<Rightarrow> 'f :: {times, inverse}) \<Rightarrow> 'f PerfMetrics \<Rightarrow> WorkWin \<Rightarrow> (string \<times> 'f json) list" where
  "json_core_work D w x =
     (let (m, d) = w; swc = safe_max1 (pm_cycles m); pct = (\<lambda>n. D 100 * D n / D swc) in [
     (''cycles'', JInt (pm_cycles m)), (''inst_retired'', JInt (pm_inst_retired m)), (''ipc'', JDbl (pm_ipc d)),
     (''spin_commit_pct'', JDbl (spin_commit_pct D x)), (''spin_pc_lo'', JInt (spin_lo x)),
     (''spin_pc_hi'', JInt (spin_hi x)), (''rob_head_not_ready_pct'', JDbl (pct (pm_rob_head_not_ready m))),
     (''hnr_load_pct'', JDbl (pct (pm_hnr_load m))), (''hnr_mext_pct'', JDbl (pct (pm_hnr_mext m))),
     (''hnr_other_pct'', JDbl (pct (pm_hnr_other m))), (''rob_ready_blocked_pct'', JDbl (pct (pm_rob_ready_blocked m))),
     (''rnr_store_gate_pct'', JDbl (pct (pm_rnr_store_gate m))), (''icache_stall_pct'', JDbl (pct (pm_icache_stalls m))),
     (''dcache_reqs'', JInt (pm_dcache_reqs m)), (''dcache_miss'', JInt (pm_dcache_miss m)),
     (''dcache_miss_rate_pct'', JDbl (pm_dcache_miss_rate_pct d)), (''dcache_rd_beats'', JInt (pm_dcache_rd_beats m)),
     (''dcache_wr_beats'', JInt (pm_dcache_wr_beats m)), (''retired_branch'', JInt (pm_retired_branch m))])"

definition json_core :: "(u64 \<Rightarrow> 'f :: {times, inverse}) \<Rightarrow> (nat \<Rightarrow> nat \<Rightarrow> u64) \<Rightarrow> WorkWin list \<Rightarrow> nat \<Rightarrow> 'f PerfMetrics \<Rightarrow> 'f json" where
  "json_core D P win i m =
     JObj [(''core'', JSInt (int i)), (''raw'', JObj (json_core_raw (fst m))),
       (''work'', JObj (json_core_work D (compute_core_metrics_work D P win i) (win ! i))),
       (''derived'', JObj (json_core_derived (snd m)))]"

definition print_json_quad :: "(u64 \<Rightarrow> 'f :: {times, inverse}) \<Rightarrow> (nat \<Rightarrow> nat \<Rightarrow> u64) \<Rightarrow> WorkWin list \<Rightarrow> string \<Rightarrow> int \<Rightarrow> int \<Rightarrow> 'f json" where
  "print_json_quad D P win benchmark_name harness_exit bench_error =
     (let c = map (\<lambda>i. compute_core_metrics D P (int i)) [0..<4]; (agg_inst, agg_cyc) = aggregate (map fst c);
          agg_ipc = aggregate_ipc D (map fst c) in
      JObj [(''benchmark'', JStr benchmark_name),
        (''aggregate'', JObj [(''total_inst_retired'', JInt agg_inst), (''max_cycles'', JInt agg_cyc), (''aggregate_ipc'', JDbl agg_ipc)]),
        (''result'', JObj [(''complete'', JBool (harness_exit = 0)), (''harness_exit'', JSInt harness_exit), (''bench_error'', JSInt bench_error)]),
        (''cores'', JArr (map (\<lambda>i. json_core D P win i (c ! i)) [0..<4]))])"

definition print_summary :: "(u64 \<Rightarrow> 'f :: {times, inverse}) \<Rightarrow> (nat \<Rightarrow> nat \<Rightarrow> u64) \<Rightarrow> (string \<times> 'f json list) list" where
  "print_summary D P =
     (let (m, d) = compute_metrics D P; g = get_perf_counter P; sc = D (safe_max1 (pm_cycles m));
          srb = D (safe_max1 (pm_retired_branch m)); pct = (\<lambda>n. D 100 * D n / sc) in [
     (''Cycles'', [JInt (pm_cycles m)]), (''Instructions'', [JInt (pm_inst_retired m)]), (''IPC'', [JDbl (pm_ipc d)]),
     (''IP/sec (75 MHz)'', [JDbl (pm_ip_per_sec d)]), (''Branch total'', [JInt (pm_branch_total m)]),
     (''Branches passed'', [JInt (pm_branches_passed m)]), (''Accuracy'', [JDbl (pm_branch_accuracy_pct d)]),
     (''I-Cache misses'', [JInt (pm_icache_miss m)]), (''I-Cache miss rate'', [JDbl (pm_icache_miss_rate_pct d)]),
     (''D-Cache req cyc'', [JInt (pm_dcache_reqs m)]), (''D-Cache misses'', [JInt (pm_dcache_miss m)]),
     (''D-Cache miss rate'', [JDbl (pm_dcache_miss_rate_pct d)]),
     (''L1D read BW'', [JDbl (pm_l1d_read_bw_bytes_per_cycle d)]),
     (''L1D write BW'', [JDbl (pm_l1d_write_bw_bytes_per_cycle d)]),
     (''L1I read BW'', [JDbl (pm_l1i_read_bw_bytes_per_cycle d)]), (''DRAM read BW'', [JDbl (pm_dram_read_bw_MB_per_sec d)]),
     (''DRAM write BW'', [JDbl (pm_dram_write_bw_MB_per_sec d)]), (''Scheduler stalls'', [JDbl (pm_scheduler_stall_pct d)]),
     (''ROB stalls'', [JDbl (pm_rob_stall_pct d)]), (''Decode efficiency'', [JDbl (pm_decode_efficiency_pct d)]),
     (''D$ req/Mcyc'', [JDbl (pm_dcache_mem_reqs_per_million_cycles d)]),
     (''Fetch not ready'', [JDbl (pct (pm_fe_fetch_not_ready m)), JInt (pm_fe_fetch_not_ready m)]),
     (''Decode backpress'', [JDbl (pct (pm_fe_decode_not_ready m)), JInt (pm_fe_decode_not_ready m)]),
     (''Expected mismatch'', [JDbl (pct (pm_fe_expected_block m)), JInt (pm_fe_expected_block m)]),
     (''PRF exhausted'', [JDbl (pct (pm_ds_prf_exhausted m)), JInt (pm_ds_prf_exhausted m)]),
     (''Branch mask full'', [JDbl (pct (pm_ds_branch_mask_full m)), JInt (pm_ds_branch_mask_full m)]),
     (''Rename collision'', [JDbl (pct (pm_ds_rename_collide m)), JInt (pm_ds_rename_collide m)]),
     (''Retired branches'', [JInt (pm_retired_branch m)]),
     (''Branch mispredict'', [JInt (pm_flush_branch m), JDbl (D 100 * D (pm_flush_branch m) / srb)]),
     (''Coherent squash'', [JInt (pm_flush_coherent m)]), (''head not ready'', [JDbl (pct (g 29)), JInt (g 29)]),
     (''ready, no retire'', [JDbl (pct (g 30)), JInt (g 30)]), (''load'', [JDbl (pct (g 31)), JInt (g 31)]),
     (''branch/jump'', [JDbl (pct (g 32)), JInt (g 32)]), (''M-ext (mul/div)'', [JDbl (pct (g 33)), JInt (g 33)]),
     (''AMO'', [JDbl (pct (g 34)), JInt (g 34)]), (''other (ALU/sys)'', [JDbl (pct (g 35)), JInt (g 35)]),
     (''store wr-commit'', [JDbl (pct (g 36)), JInt (g 36)]), (''writeback port'', [JDbl (pct (g 37)), JInt (g 37)]),
     (''load commit'', [JDbl (pct (g 38)), JInt (g 38)]), (''issue >=2 ready'', [JDbl (pct (g 39)), JInt (g 39)]),
     (''commit 2 ready'', [JDbl (pct (g 40)), JInt (g 40)])])"

definition print_summary_quad :: "(u64 \<Rightarrow> 'f :: {times, inverse}) \<Rightarrow> (nat \<Rightarrow> nat \<Rightarrow> u64) \<Rightarrow> (string \<times> 'f json list) list" where
  "print_summary_quad D P =
     (let c = map (\<lambda>i. compute_core_metrics D P (int i)) [0..<4]; (agg_inst, agg_cyc) = aggregate (map fst c);
          agg_ipc = aggregate_ipc D (map fst c) in
      [(''Aggregate IPC'', [JDbl agg_ipc]), (''Total instructions'', [JInt agg_inst]), (''Max cycles'', [JInt agg_cyc])]
      @ map (\<lambda>i. case c ! i of (m, d) \<Rightarrow> (''Core | Cycles | Insts | IPC | D$miss | I$miss'',
          [JSInt (int i), JInt (pm_cycles m), JInt (pm_inst_retired m), JDbl (pm_ipc d), JDbl (pm_dcache_miss_rate_pct d),
           JDbl (pm_icache_miss_rate_pct d)])) [0..<4]
      @ map (\<lambda>i. case c ! i of (m, d) \<Rightarrow> (''Core | Sched-stall | ROB-stall | Dec-eff | BPred'',
          [JSInt (int i), JDbl (pm_scheduler_stall_pct d), JDbl (pm_rob_stall_pct d), JDbl (pm_decode_efficiency_pct d),
           JDbl (pm_branch_accuracy_pct d)])) [0..<4]
      @ map (\<lambda>i. case c ! i of (m, d) \<Rightarrow> (''Core | I$stall | I$miss | D$req | D$miss | L2rd beats | hnr_load'',
          [JSInt (int i), JDbl (D 100 * D (pm_icache_stalls m) / D (safe_max1 (pm_cycles m))), JInt (pm_icache_miss m),
           JInt (pm_dcache_reqs m), JInt (pm_dcache_miss m), JInt (pm_l2_to_mem_rd_beats m),
           JDbl (D 100 * D (pm_hnr_load m) / D (safe_max1 (pm_cycles m)))])) [0..<4])"

definition print_compact :: "(u64 \<Rightarrow> 'f :: {times, inverse}) \<Rightarrow> (nat \<Rightarrow> nat \<Rightarrow> u64) \<Rightarrow> (string \<times> 'f json list) list" where
  "print_compact D P =
     (let c = map (\<lambda>i. compute_core_metrics D P (int i)) [0..<4]; (agg_inst, agg_cyc) = aggregate (map fst c) in
      (''[prof]'', [JInt agg_cyc, JDbl (D agg_inst / D (safe_max1 agg_cyc)), JInt agg_inst])
      # map (\<lambda>i. case c ! i of (m, d) \<Rightarrow> (''C ipc I$ D$ br I$st rob'',
          [JSInt (int i), JDbl (pm_ipc d), JDbl (pm_icache_miss_rate_pct d), JDbl (pm_dcache_miss_rate_pct d),
           JDbl (pm_branch_accuracy_pct d), JDbl (D 100 * D (pm_icache_stalls m) / D (safe_max1 (pm_cycles m))),
           JDbl (pm_rob_stall_pct d)])) [0..<4])"

subsection \<open>The two readers agree\<close>

lemma get_core_counter_port:
  "c < 4 \<Longrightarrow> k \<le> 26 \<or> 29 \<le> k \<and> k \<le> 40 \<Longrightarrow> get_core_counter P (int c) (int k) = P c k"
  by (auto simp: get_core_counter_def)

lemma read_counters_nth:
  assumes "c < 4" "k \<le> 26 \<or> 29 \<le> k \<and> k \<le> 40"
  shows "read_counters P (int c) ! k = P c k"
proof -
  have "k < 41" using assms(2) by auto
  then show ?thesis using get_core_counter_port [OF assms] by (simp add: read_counters_def del: upt_Suc)
qed

lemma get_perf_counter_port: "0 \<le> k \<Longrightarrow> k \<le> 40 \<Longrightarrow> get_perf_counter P k = P 0 (nat k)"
  by (simp add: get_perf_counter_def)

lemma raw_agree: "c < 4 \<Longrightarrow> raw_from (read_counters P (int c)) = read_raw (\<lambda>_. P c)"
  by (simp add: raw_from_def read_raw_def Let_def read_counters_nth get_perf_counter_port)

lemma derive_agree: "derive_quad D m = derive D m"
  by (simp add: derive_quad_def derive_def Let_def)

text \<open>
  On every core the quad-core reader computes, raw and derived, what the single-core profiler
  computes from that core's ports (core 0's own ports for core 0), and the two JSON reports list
  the same raw counters under the same keys.
\<close>

theorem quad_single_agree:
  "c < 4 \<Longrightarrow> compute_core_metrics D P (int c) = compute_metrics D (\<lambda>_. P c) \<and> json_core_raw m = json_raw m"
  by (simp add: compute_core_metrics_def compute_metrics_def metrics_from_def raw_agree derive_agree
    json_core_raw_def json_raw_def)

theorem quad_single_agree_witness:
  "compute_core_metrics (\<lambda>n. real (unat n)) (\<lambda>c k. of_nat (100 * c + k)) (int 3)
     = compute_metrics (\<lambda>n. real (unat n)) (\<lambda>_ k. of_nat (300 + k))
   \<and> json_core_raw (read_raw (\<lambda>_ _. 5)) = (json_raw (read_raw (\<lambda>_ _. 5)) :: (string \<times> real json) list)"
  using quad_single_agree [of 3 "\<lambda>n. real (unat n)" "\<lambda>c k. of_nat (100 * c + k)" "read_raw (\<lambda>_ _. 5)"] by simp

subsection \<open>The work window as a function of the whole run\<close>

type_synonym commit_ev = "u64 \<times> u64 \<times> u64 list"

definition sample_ev :: "commit_ev \<Rightarrow> WorkWin \<Rightarrow> WorkWin" where
  "sample_ev e w = (case e of (cycle, pc, counters) \<Rightarrow> sample_commit cycle pc counters w)"

abbreviation ev_pc :: "commit_ev \<Rightarrow> u64" where
  "ev_pc e \<equiv> fst (snd e)"

function blocks :: "'a list \<Rightarrow> 'a list list" where
  "blocks xs = (if length xs < 64 then [] else take 64 xs # blocks (drop 64 xs))"
  by auto
termination by (relation "measure length") auto

declare blocks.simps [simp del]

definition work_block :: "commit_ev list \<Rightarrow> bool" where
  "work_block b = (16 < Max (set (map ev_pc b)) - Min (set (map ev_pc b)))"

definition fresh :: "WorkWin \<Rightarrow> bool" where
  "fresh w = (blk_lo w = -1 \<and> blk_hi w = 0 \<and> blk_n w = 0)"

lemma fold_min_Min: "xs \<noteq> [] \<Longrightarrow> fold min xs (-1 :: u64) = Min (set xs)"
  by (cases xs) (simp_all add: Min.set_eq_fold [symmetric] min_absorb2)

lemma fold_max_Max: "xs \<noteq> [] \<Longrightarrow> fold max xs (0 :: u64) = Max (set xs)"
  by (cases xs) (simp_all add: Max.set_eq_fold [symmetric] max_absorb2)

lemma keep_min: "(if x < blk_lo w then w\<lparr>blk_lo := x\<rparr> else w) = w\<lparr>blk_lo := min x (blk_lo w)\<rparr>"
  by (cases w) (auto simp: min_def)

lemma keep_max: "(if blk_hi w < x then w\<lparr>blk_hi := x\<rparr> else w) = w\<lparr>blk_hi := max x (blk_hi w)\<rparr>"
  by (cases w) (auto simp: max_def)

lemma keep_spin_min: "(if x < spin_lo w then w\<lparr>spin_lo := x\<rparr> else w) = w\<lparr>spin_lo := min x (spin_lo w)\<rparr>"
  by (cases w) (auto simp: min_def)

lemma keep_spin_max: "(if spin_hi w < x then w\<lparr>spin_hi := x\<rparr> else w) = w\<lparr>spin_hi := max x (spin_hi w)\<rparr>"
  by (cases w) (auto simp: max_def)

definition note_pc :: "u64 \<Rightarrow> WorkWin \<Rightarrow> WorkWin" where
  "note_pc pc w = w\<lparr>commits := commits w + 1, blk_lo := min pc (blk_lo w), blk_hi := max pc (blk_hi w), blk_n := blk_n w + 1\<rparr>"

definition end_block :: "u64 \<Rightarrow> u64 list \<Rightarrow> WorkWin \<Rightarrow> WorkWin" where
  "end_block cycle counters w = (if 16 < blk_hi w - blk_lo w
     then w\<lparr>work_cycle := cycle, snap := counters, have_snap := True, blk_lo := -1, blk_hi := 0, blk_n := 0\<rparr>
     else w\<lparr>spin_commits := spin_commits w + 64, spin_lo := min (blk_lo w) (spin_lo w), spin_hi := max (blk_hi w) (spin_hi w),
       blk_lo := -1, blk_hi := 0, blk_n := 0\<rparr>)"

lemma sample_commit_steps:
  "sample_commit cycle pc counters w =
     (if blk_n w < 63 then note_pc pc w else end_block cycle counters (note_pc pc w))"
proof -
  have e: "sample_commit cycle pc counters w = (let w = note_pc pc w in if blk_n w < 64 then w else end_block cycle counters w)"
    unfolding sample_commit_def keep_min keep_max keep_spin_min keep_spin_max BLOCK_COMMITS_def WORK_SPAN_BYTES_def
    by (simp add: note_pc_def) (simp add: Let_def end_block_def)
  show ?thesis by (simp add: e note_pc_def Let_def)
qed

lemma sample_open:
  assumes "fresh w" "length b < 64"
  shows "fold sample_ev b w = w\<lparr>commits := commits w + of_nat (length b), blk_lo := fold min (map ev_pc b) (-1),
    blk_hi := fold max (map ev_pc b) 0, blk_n := length b\<rparr>"
  using assms(2)
proof (induction b rule: rev_induct)
  case Nil
  then show ?case using assms(1) by (simp add: fresh_def)
next
  case (snoc e b)
  obtain cy pc k where e: "e = (cy, pc, k)" by (cases e)
  have "fold sample_ev (b @ [e]) w = sample_commit cy pc k (fold sample_ev b w)" by (simp add: e sample_ev_def)
  then show ?case using snoc by (simp add: e sample_commit_steps note_pc_def add.assoc)
qed

definition close_block :: "commit_ev list \<Rightarrow> WorkWin \<Rightarrow> WorkWin" where
  "close_block b w = (if work_block b
     then w\<lparr>commits := commits w + 64, work_cycle := fst (last b), snap := snd (snd (last b)), have_snap := True\<rparr>
     else w\<lparr>commits := commits w + 64, spin_commits := spin_commits w + 64,
        spin_lo := min (Min (set (map ev_pc b))) (spin_lo w), spin_hi := max (Max (set (map ev_pc b))) (spin_hi w)\<rparr>)"

lemma fresh_idem: "fresh w \<Longrightarrow> w\<lparr>blk_lo := -1, blk_hi := 0, blk_n := 0\<rparr> = w"
  by (cases w) (simp add: fresh_def)

lemma sample_block:
  assumes "fresh w" "length b = 64"
  shows "fold sample_ev b w = close_block b w"
proof -
  have ne: "b \<noteq> []" using assms(2) by auto
  obtain cy pc k where l: "last b = (cy, pc, k)" by (cases "last b")
  define a where "a = butlast b"
  have b: "b = a @ [(cy, pc, k)]" using l ne by (metis a_def append_butlast_last_id)
  have len: "length a = 63" using assms(2) b by simp
  have lo: "min pc (fold min (map ev_pc a) (-1)) = Min (set (map ev_pc b))"
    and hi: "max pc (fold max (map ev_pc a) 0) = Max (set (map ev_pc b))"
    using ne fold_min_Min [of "map ev_pc b"] fold_max_Max [of "map ev_pc b"] by (simp_all add: b)
  define w' where "w' = fold sample_ev a w"
  have w': "w' = w\<lparr>commits := commits w + 63, blk_lo := fold min (map ev_pc a) (-1), blk_hi := fold max (map ev_pc a) 0, blk_n := 63\<rparr>"
    using sample_open [OF assms(1), of a] len by (simp add: w'_def)
  have n: "note_pc pc w' = w\<lparr>commits := commits w + 64, blk_lo := Min (set (map ev_pc b)), blk_hi := Max (set (map ev_pc b)), blk_n := 64\<rparr>"
    using lo hi by (simp add: note_pc_def w')
  have "fold sample_ev b w = end_block cy k (note_pc pc w')"
    by (simp add: b sample_ev_def sample_commit_steps flip: w'_def) (simp add: w')
  also have "\<dots> = close_block b w"
    using fresh_idem [OF assms(1)] unfolding n end_block_def close_block_def work_block_def l by (cases w) simp
  finally show ?thesis .
qed

lemma blocks_length: "64 * length (blocks xs) \<le> length xs"
proof (induction xs rule: blocks.induct)
  case (1 xs)
  then show ?case by (cases "length xs < 64") (auto simp: blocks.simps [of xs])
qed

lemma close_block_fresh: "fresh w \<Longrightarrow> fresh (close_block b w)"
  by (simp add: fresh_def close_block_def)

lemma win_init_fresh: "fresh win_init"
  by (simp add: fresh_def win_init_def)

lemma run_blocks:
  assumes "fresh w"
  shows "fresh (fold close_block (blocks xs) w)
    \<and> fold sample_ev xs w = fold sample_ev (drop (64 * length (blocks xs)) xs) (fold close_block (blocks xs) w)
    \<and> length (drop (64 * length (blocks xs)) xs) < 64"
  using assms
proof (induction xs arbitrary: w rule: blocks.induct)
  case (1 xs)
  show ?case
  proof (cases "length xs < 64")
    case True
    then show ?thesis using "1.prems" by (simp add: blocks.simps [of xs])
  next
    case False
    have b: "blocks xs = take 64 xs # blocks (drop 64 xs)" using False by (simp add: blocks.simps [of xs])
    have "fold sample_ev xs w = fold sample_ev (drop 64 xs) (fold sample_ev (take 64 xs) w)"
      by (metis append_take_drop_id fold_append comp_apply)
    also have "fold sample_ev (take 64 xs) w = close_block (take 64 xs) w"
      using sample_block [OF "1.prems"] False by simp
    finally show ?thesis
      using "1.IH" [OF False close_block_fresh [OF "1.prems"], of "take 64 xs"] by (simp add: b add.commute)
  qed
qed

lemma close_blocks_counts:
  "commits (fold close_block bs w) = commits w + 64 * of_nat (length bs)
   \<and> spin_commits (fold close_block bs w) = spin_commits w + 64 * of_nat (length (filter (\<lambda>b. \<not> work_block b) bs))
   \<and> have_snap (fold close_block bs w) = (have_snap w \<or> filter work_block bs \<noteq> [])
   \<and> snap (fold close_block bs w) = (if filter work_block bs = [] then snap w else snd (snd (last (last (filter work_block bs)))))
   \<and> work_cycle (fold close_block bs w) = (if filter work_block bs = [] then work_cycle w else fst (last (last (filter work_block bs))))"
  by (induction bs arbitrary: w) (simp_all add: close_block_def algebra_simps)

text \<open>A run of the harness is a sequence of clock cycles, each with the ports it shows.\<close>

type_synonym clock_ev = "(nat \<Rightarrow> nat \<Rightarrow> u64) \<times> (nat \<Rightarrow> bool) \<times> (nat \<Rightarrow> u64) \<times> u64"

definition sample_run :: "clock_ev list \<Rightarrow> WorkWin list" where
  "sample_run tr = fold (\<lambda>(P, fired, pcs, cycle). sample P fired pcs cycle) tr (replicate 4 win_init)"

definition hart_commits :: "nat \<Rightarrow> clock_ev list \<Rightarrow> commit_ev list" where
  "hart_commits i tr =
     concat (map (\<lambda>(P, fired, pcs, cycle). if fired i then [(cycle, pcs i, read_counters P (int i))] else []) tr)"

lemma sample_hart:
  "i < 4 \<Longrightarrow> sample P fired pcs cycle win ! i =
     (if fired i then sample_ev (cycle, pcs i, read_counters P (int i)) (win ! i) else win ! i)"
  by (simp add: sample_def sample_ev_def del: upt_Suc)

lemma sample_run_hart: "i < 4 \<Longrightarrow> sample_run tr ! i = fold sample_ev (hart_commits i tr) win_init"
proof (induction tr rule: rev_induct)
  case Nil
  then show ?case by (simp add: sample_run_def hart_commits_def nth_Cons')
next
  case (snoc e tr)
  obtain P fired pcs cycle where e: "e = (P, fired, pcs, cycle)" by (cases e)
  have "sample_run (tr @ [e]) = sample P fired pcs cycle (sample_run tr)" by (simp add: sample_run_def e)
  then show ?case using snoc by (simp add: sample_hart hart_commits_def e)
qed

lemma work_window:
  fixes xs :: "commit_ev list"
  defines "w \<equiv> fold sample_ev xs win_init" and "work \<equiv> filter work_block (blocks xs)"
  shows "commits w = of_nat (length xs)
    \<and> spin_commits w = 64 * of_nat (length (filter (\<lambda>b. \<not> work_block b) (blocks xs)))
    \<and> have_snap w = (work \<noteq> [])
    \<and> (work_cycle w, snap w) = (if work = [] then (0, replicate 41 0) else (fst (last (last work)), snd (snd (last (last work)))))"
proof -
  let ?n = "64 * length (blocks xs)" and ?c = "fold close_block (blocks xs) win_init"
  note r = run_blocks [OF win_init_fresh, of xs]
  have w: "w = ?c\<lparr>commits := commits ?c + of_nat (length (drop ?n xs)), blk_lo := fold min (map ev_pc (drop ?n xs)) (-1),
      blk_hi := fold max (map ev_pc (drop ?n xs)) 0, blk_n := length (drop ?n xs)\<rparr>"
    using r sample_open [of ?c "drop ?n xs"] unfolding w_def by simp
  have len: "?n \<le> length xs" by (rule blocks_length)
  have "commits w = of_nat (length xs)"
    using close_blocks_counts [of "blocks xs" win_init] len by (simp add: w win_init_def of_nat_diff)
  then show ?thesis
    using close_blocks_counts [of "blocks xs" win_init] by (simp add: w win_init_def work_def)
qed

text \<open>
  C39: the streaming work window computes a function of the whole run. Cut the commits of a hart into
  blocks of 64 (a shorter rest is still open) and call a block work when the addresses it committed
  span more than 16 bytes. Then after any run the commit count is the number of commits of that
  hart, the spin count is 64 for every other block, and there is a snapshot exactly when some block
  was work: the counters and the cycle at the last commit of the last such block.
\<close>

theorem work_window_run:
  "i < 4 \<Longrightarrow> (let w = sample_run tr ! i; xs = hart_commits i tr; work = filter work_block (blocks xs) in
     commits w = of_nat (length xs)
     \<and> spin_commits w = 64 * of_nat (length (filter (\<lambda>b. \<not> work_block b) (blocks xs)))
     \<and> have_snap w = (work \<noteq> [])
     \<and> (work_cycle w, snap w) = (if work = [] then (0, replicate 41 0) else (fst (last (last work)), snd (snd (last (last work))))))"
  using work_window [of "hart_commits i tr"] by (simp only: sample_run_hart Let_def)

lemma hart_commits_replicate:
  "fired i \<Longrightarrow> hart_commits i (replicate n (P, fired, pcs, cycle)) = replicate n (cycle, pcs i, read_counters P (int i))"
  by (induction n) (auto simp: hart_commits_def)

lemma blocks_one: "length xs = 64 \<Longrightarrow> blocks xs = [xs]"
  by (simp add: blocks.simps [of xs] blocks.simps [of "[]"])

theorem work_window_run_witness:
  "let w = sample_run (replicate 64 (\<lambda>_ _. 9, \<lambda>i. i = 2, \<lambda>_. 0x80000000, 5)) ! 2
   in commits w = 64 \<and> spin_commits w = 64 \<and> \<not> have_snap w"
proof -
  let ?tr = "replicate 64 (\<lambda>_ _. 9, \<lambda>i. i = (2 :: nat), \<lambda>_. 0x80000000, 5) :: clock_ev list"
  define xs where "xs = hart_commits 2 ?tr"
  have xs: "xs = replicate 64 (5, 0x80000000, read_counters (\<lambda>_ _. 9) (int 2))"
    unfolding xs_def by (rule hart_commits_replicate) simp
  have b: "blocks xs = [xs]" by (rule blocks_one) (simp add: xs)
  have "\<not> work_block xs" by (simp add: xs work_block_def)
  then show ?thesis
    using work_window_run [of 2 ?tr, folded xs_def] unfolding Let_def b by (simp add: xs)
qed

end
