(* ===== verification/Gl_Tty.thy ===== *)
theory Gl_Tty
  imports Workload_Lib
begin

text \<open>
  The console of the demos, \<^verbatim>\<open>src/workloads/demos/common/syscalls.c\<close>, whose transmit does not wait,
  and the terminal graphics of \<^verbatim>\<open>src/workloads/demos/common/GL_tty.h\<close>. The state is the list of
  bytes stored to the transmit register. \<open>int\<close> is 32 bits wide; the clipping arithmetic wraps as
  the RV64 code does, and after the clipping every value is at most a few hundred.
\<close>

unbundle bit_operations_syntax

subsection \<open>Console\<close>

type_synonym tty = "u8 list"

definition dm_send_char :: "u8 \<Rightarrow> tty \<Rightarrow> tty" where
  "dm_send_char c out = out @ [c]"

fun dm_send_string :: "u8 list \<Rightarrow> tty \<Rightarrow> tty" where
  "dm_send_string [] out = out"
| "dm_send_string (c # cs) out = dm_send_string cs (dm_send_char c out)"

definition dm_send_integer :: "int \<Rightarrow> tty \<Rightarrow> lib_error + tty" where
  "dm_send_integer n out =
     (if n = 0 then Inr (dm_send_char 48 out)
      else
        (let out = (if n < 0 then dm_send_char 45 out else out); n = (if n < 0 then wrap32 (- n) else n) in
         case digit_loop n [] of Inl e \<Rightarrow> Inl e | Inr buffer \<Rightarrow> Inr (dm_send_string (rev buffer) out)))"

fun dm_printf :: "u8 list \<Rightarrow> printf_arg list \<Rightarrow> tty \<Rightarrow> lib_error + tty" where
  "dm_printf [] args out = Inr out"
| "dm_printf [c] args out = (if c = 37 then Inl ReadPastEnd else Inr (dm_send_char c out))"
| "dm_printf (c # d # rest) args out =
     (if c = 37 then
        (if d = 100 then
           (case args of
              ArgInt num # args \<Rightarrow>
                (case dm_send_integer num out of Inl e \<Rightarrow> Inl e | Inr out \<Rightarrow> dm_printf rest args out)
            | _ \<Rightarrow> Inl BadArgument)
         else if d = 115 then
           (case args of
              ArgStr str # args \<Rightarrow> dm_printf rest args (dm_send_string str out)
            | _ \<Rightarrow> Inl BadArgument)
         else dm_printf rest args (dm_send_char d out))
      else dm_printf (d # rest) args (dm_send_char c out))"

subsection \<open>Escape sequences\<close>

definition esc :: "string \<Rightarrow> u8 list" where
  "esc s = 27 # ascii s"

definition andthen :: "(tty \<Rightarrow> lib_error + tty) \<Rightarrow> (tty \<Rightarrow> lib_error + tty) \<Rightarrow> tty \<Rightarrow> lib_error + tty" where
  "andthen f g out = (case f out of Inl e \<Rightarrow> Inl e | Inr out \<Rightarrow> g out)"

definition GL_width :: int where "GL_width = 80"
definition GL_height :: int where "GL_height = 25"

definition GL_gotoxy :: "int \<Rightarrow> int \<Rightarrow> tty \<Rightarrow> lib_error + tty" where
  "GL_gotoxy x y = dm_printf (esc ''[%d;%dH'') [ArgInt y, ArgInt x]"

definition GL_setpixelRGBhere :: "u8 \<Rightarrow> u8 \<Rightarrow> u8 \<Rightarrow> tty \<Rightarrow> lib_error + tty" where
  "GL_setpixelRGBhere r g b = dm_printf (esc ''[48;2;%d;%d;%dm '') [ArgInt (uint r), ArgInt (uint g), ArgInt (uint b)]"

definition half_block :: "u8 list" where
  "half_block = [0xE2, 0x96, 0x83]"

definition GL_set2pixelsRGBhere :: "u8 \<Rightarrow> u8 \<Rightarrow> u8 \<Rightarrow> u8 \<Rightarrow> u8 \<Rightarrow> u8 \<Rightarrow> tty \<Rightarrow> lib_error + tty" where
  "GL_set2pixelsRGBhere r1 g1 b1 r2 g2 b2 =
     (if r2 = r1 \<and> g2 = g1 \<and> b2 = b1 then GL_setpixelRGBhere r1 g1 b1
      else andthen (dm_printf (esc ''[48;2;%d;%d;%dm'') [ArgInt (uint r1), ArgInt (uint g1), ArgInt (uint b1)])
        (andthen (dm_printf (esc ''[38;2;%d;%d;%dm'') [ArgInt (uint r2), ArgInt (uint g2), ArgInt (uint b2)])
          (dm_printf half_block [])))"

text \<open>An index outside the colour map is an out-of-bounds read.\<close>

definition cmap_at :: "u8 list list \<Rightarrow> int \<Rightarrow> (u8 list \<Rightarrow> tty \<Rightarrow> lib_error + tty) \<Rightarrow> tty \<Rightarrow> lib_error + tty" where
  "cmap_at cmap c f out = (if 0 \<le> c \<and> c < int (length cmap) then f (cmap ! nat c) out else Inl ReadPastEnd)"

definition GL_setpixelIhere :: "u8 list list \<Rightarrow> int \<Rightarrow> tty \<Rightarrow> lib_error + tty" where
  "GL_setpixelIhere cmap c = cmap_at cmap c (\<lambda>s. dm_printf (esc ''[48;2;%sm '') [ArgStr s])"

definition GL_set2pixelsIhere :: "u8 list list \<Rightarrow> int \<Rightarrow> int \<Rightarrow> tty \<Rightarrow> lib_error + tty" where
  "GL_set2pixelsIhere cmap c1 c2 =
     (if c1 = c2 then GL_setpixelIhere cmap c1
      else andthen (cmap_at cmap c1 (\<lambda>s. dm_printf (esc ''[48;2;%sm'') [ArgStr s]))
        (andthen (cmap_at cmap c2 (\<lambda>s. dm_printf (esc ''[38;2;%sm'') [ArgStr s])) (dm_printf half_block [])))"

definition GL_newline :: "tty \<Rightarrow> lib_error + tty" where
  "GL_newline = andthen (dm_printf (esc ''[38;2;0;0;0m'') []) (dm_printf (esc ''[48;2;0;0;0m'' @ [10]) [])"

definition GL_setpixelRGB :: "int \<Rightarrow> int \<Rightarrow> u8 \<Rightarrow> u8 \<Rightarrow> u8 \<Rightarrow> tty \<Rightarrow> lib_error + tty" where
  "GL_setpixelRGB x y r g b = andthen (GL_gotoxy x y) (GL_setpixelRGBhere r g b)"

definition GL_restore_default_colors :: "tty \<Rightarrow> lib_error + tty" where
  "GL_restore_default_colors = dm_printf (esc ''[48;5;16m'' @ esc ''[38;5;15m'') []"

definition GL_clear :: "tty \<Rightarrow> lib_error + tty" where
  "GL_clear = andthen GL_restore_default_colors (dm_printf (esc ''[2J'') [])"

definition GL_home :: "tty \<Rightarrow> lib_error + tty" where
  "GL_home = dm_printf (esc ''[H'') []"

definition GL_init :: "tty \<Rightarrow> lib_error + tty" where
  "GL_init = andthen (dm_printf (esc ''[?25l'') []) (andthen GL_home GL_clear)"

definition GL_terminate :: "tty \<Rightarrow> lib_error + tty" where
  "GL_terminate = andthen GL_restore_default_colors (andthen (GL_gotoxy 0 GL_height) (dm_printf (esc ''[?25h'') []))"

subsection \<open>Scanning an image\<close>

fun scan_cells :: "(int \<Rightarrow> int \<Rightarrow> u8 \<times> u8 \<times> u8) \<Rightarrow> int \<Rightarrow> int \<Rightarrow> nat list \<Rightarrow> tty \<Rightarrow> lib_error + tty" where
  "scan_cells do_pixel width j [] out = Inr out"
| "scan_cells do_pixel width j (i # is) out =
     (case do_pixel (int i) j of (r1, g1, b1) \<Rightarrow>
      case do_pixel (int i) (j + 1) of (r2, g2, b2) \<Rightarrow>
      case GL_set2pixelsRGBhere r1 g1 b1 r2 g2 b2 out of
        Inl e \<Rightarrow> Inl e
      | Inr out \<Rightarrow>
          if int i = width - 1 then
            (case GL_newline out of Inl e \<Rightarrow> Inl e | Inr out \<Rightarrow> scan_cells do_pixel width j is out)
          else scan_cells do_pixel width j is out)"

function scan_rows :: "(int \<Rightarrow> int \<Rightarrow> u8 \<times> u8 \<times> u8) \<Rightarrow> int \<Rightarrow> int \<Rightarrow> int \<Rightarrow> tty \<Rightarrow> lib_error + tty" where
  "scan_rows do_pixel width height j out =
     (if j < height then
        (case scan_cells do_pixel width j [0..<nat width] out of
           Inl e \<Rightarrow> Inl e | Inr out \<Rightarrow> scan_rows do_pixel width height (j + 2) out)
      else Inr out)"
  by pat_completeness auto
termination by (relation "measure (\<lambda>(_, _, height, j, _). nat (height - j))") auto

declare scan_rows.simps [simp del]

definition GL_scan_RGB :: "int \<Rightarrow> int \<Rightarrow> (int \<Rightarrow> int \<Rightarrow> u8 \<times> u8 \<times> u8) \<Rightarrow> tty \<Rightarrow> lib_error + tty" where
  "GL_scan_RGB width height do_pixel = andthen GL_home (scan_rows do_pixel width height 0)"

subsection \<open>Lines\<close>

definition XMAX :: int where "XMAX = GL_width - 1"
definition YMAX :: int where "YMAX = GL_height - 1"

definition clip_code :: "int \<Rightarrow> int \<Rightarrow> int" where
  "clip_code x y = of_bool (x < 0) OR push_bit 1 (of_bool (x > XMAX)) OR push_bit 2 (of_bool (y < 0)) OR push_bit 3 (of_bool (y > YMAX))"

text \<open>The quotient \<open>a + (b - a) * (m - c) / (d - c)\<close> of the intersections.\<close>

definition cross_at :: "int \<Rightarrow> int \<Rightarrow> int \<Rightarrow> int \<Rightarrow> int \<Rightarrow> int" where
  "cross_at a b c d m = wrap32 (a + wrap32 (wrap32 (wrap32 (b - a) * wrap32 (m - c)) sdiv wrap32 (d - c)))"

definition intersection :: "int \<Rightarrow> int \<Rightarrow> int \<Rightarrow> int \<Rightarrow> int \<Rightarrow> int \<times> int" where
  "intersection codeout x1 y1 x2 y2 =
     (if codeout AND 8 \<noteq> 0 then (cross_at x1 x2 y1 y2 YMAX, YMAX)
      else if codeout AND 4 \<noteq> 0 then (cross_at x1 x2 y1 y2 0, 0)
      else if codeout AND 2 \<noteq> 0 then (XMAX, cross_at y1 y2 x1 x2 XMAX)
      else (0, cross_at y1 y2 x1 x2 0))"

datatype clipped = Rejected | Inside int int int int

text \<open>The loop has no bound of its own: the count that runs out is \<open>None\<close>.\<close>

primrec clip_loop :: "nat \<Rightarrow> int \<Rightarrow> int \<Rightarrow> int \<Rightarrow> int \<Rightarrow> clipped option" where
  "clip_loop 0 x1 y1 x2 y2 = None"
| "clip_loop (Suc n) x1 y1 x2 y2 =
     (let code1 = clip_code x1 y1; code2 = clip_code x2 y2 in
      if code1 = 0 \<and> code2 = 0 then Some (Inside x1 y1 x2 y2)
      else if code1 AND code2 \<noteq> 0 then Some Rejected
      else
        (let codeout = (if code1 \<noteq> 0 then code1 else code2); (x, y) = intersection codeout x1 y1 x2 y2 in
         if codeout = code1 then clip_loop n x y x2 y2 else clip_loop n x1 y1 x y))"

text \<open>What the two drawing loops send, in order: a pixel at a position, or a bare blank.\<close>

datatype gl_op = Pixel int int | Blank

text \<open>The inner loops do not end when the subtracted step is not positive: \<open>None\<close>.\<close>

function blank_loop :: "int \<Rightarrow> int \<Rightarrow> int \<Rightarrow> (int \<times> int \<times> gl_op list) option" where
  "blank_loop dy x ex =
     (if ex \<ge> 0 then
        (if dy \<le> 0 then None
         else map_option (\<lambda>(x, ex, ops). (x, ex, Blank # ops)) (blank_loop dy (x + 1) (ex - 2 * dy)))
      else Some (x, ex, []))"
  by pat_completeness auto
termination by (relation "measure (\<lambda>(_, _, ex). nat (ex + 1))") auto

declare blank_loop.simps [simp del]

fun steep_loop :: "nat \<Rightarrow> int \<Rightarrow> int \<Rightarrow> int \<Rightarrow> int \<Rightarrow> int \<Rightarrow> int \<Rightarrow> gl_op list option" where
  "steep_loop 0 dx dy sy x y ex = Some []"
| "steep_loop (Suc u) dx dy sy x y ex =
     (let y' = y + sy;
          (x', ex', ops) = (if ex \<ge> 0 then (x + 1, ex - 2 * dy, [Pixel (x + 1) y']) else (x, ex, [])) in
      case blank_loop dy x' ex' of
        None \<Rightarrow> None
      | Some (x'', ex'', ops') \<Rightarrow>
          map_option (\<lambda>rest. Pixel x y # ops @ ops' @ rest) (steep_loop u dx dy sy x'' y' (ex'' + 2 * dx)))"

function rise_loop :: "int \<Rightarrow> int \<Rightarrow> int \<Rightarrow> int \<Rightarrow> int \<Rightarrow> (int \<times> int \<times> gl_op list) option" where
  "rise_loop dx sy x y ey =
     (if ey \<ge> 0 then
        (if dx \<le> 0 then None
         else map_option (\<lambda>(y', ey', ops). (y', ey', Pixel x (y + sy) # ops)) (rise_loop dx sy x (y + sy) (ey - 2 * dx)))
      else Some (y, ey, []))"
  by pat_completeness auto
termination by (relation "measure (\<lambda>(_, _, _, _, ey). nat (ey + 1))") auto

declare rise_loop.simps [simp del]

fun flat_loop :: "nat \<Rightarrow> int \<Rightarrow> int \<Rightarrow> int \<Rightarrow> int \<Rightarrow> int \<Rightarrow> int \<Rightarrow> gl_op list option" where
  "flat_loop 0 dx dy sy x y ey = Some []"
| "flat_loop (Suc u) dx dy sy x y ey =
     (case rise_loop dx sy (x + 1) y ey of
        None \<Rightarrow> None
      | Some (y', ey', ops) \<Rightarrow>
          map_option (\<lambda>rest. Pixel x y # ops @ rest) (flat_loop u dx dy sy (x + 1) y' (ey' + 2 * dy)))"

definition draw_ops :: "int \<Rightarrow> int \<Rightarrow> int \<Rightarrow> int \<Rightarrow> gl_op list option" where
  "draw_ops x1 y1 x2 y2 =
     (let (x1, y1, x2, y2) = (if x2 < x1 then (x2, y2, x1, y1) else (x1, y1, x2, y2));
          dy = y2 - y1; (sy, dy) = (if dy < 0 then (-1, - dy) else (1, dy)); dx = x2 - x1 in
      if dy > dx then steep_loop (nat dy) dx dy sy x1 y1 (2 * dx - dy)
      else flat_loop (nat dx) dx dy sy x1 y1 (2 * dy - dx))"

fun send_ops :: "u8 \<Rightarrow> u8 \<Rightarrow> u8 \<Rightarrow> gl_op list \<Rightarrow> tty \<Rightarrow> lib_error + tty" where
  "send_ops r g b [] out = Inr out"
| "send_ops r g b (Pixel x y # ops) out =
     (case GL_setpixelRGB x y r g b out of Inl e \<Rightarrow> Inl e | Inr out \<Rightarrow> send_ops r g b ops out)"
| "send_ops r g b (Blank # ops) out = send_ops r g b ops (dm_send_char 32 out)"

definition GL_line :: "nat \<Rightarrow> int \<Rightarrow> int \<Rightarrow> int \<Rightarrow> int \<Rightarrow> int \<Rightarrow> int \<Rightarrow> int \<Rightarrow> tty \<Rightarrow> (lib_error + tty) option" where
  "GL_line n x1 y1 x2 y2 r g b out =
     (case clip_loop n x1 y1 x2 y2 of
        None \<Rightarrow> None
      | Some Rejected \<Rightarrow> Some (Inr out)
      | Some (Inside x1 y1 x2 y2) \<Rightarrow>
          map_option (\<lambda>ops. send_ops (word_of_int r) (word_of_int g) (word_of_int b) ops out) (draw_ops x1 y1 x2 y2))"

subsection \<open>Clipping ends inside the screen\<close>

definition on_screen :: "int \<Rightarrow> int \<Rightarrow> bool" where
  "on_screen x y \<longleftrightarrow> 0 \<le> x \<and> x < GL_width \<and> 0 \<le> y \<and> y < GL_height"

lemmas screen_defs = XMAX_def YMAX_def GL_width_def GL_height_def

lemma bit_clip_code:
  "bit (clip_code x y) n \<longleftrightarrow> n = 0 \<and> x < 0 \<or> n = 1 \<and> 79 < x \<or> n = 2 \<and> y < 0 \<or> n = 3 \<and> 24 < y"
  by (auto simp: clip_code_def screen_defs bit_simps)

lemma int_bits_0: "c = 0 \<longleftrightarrow> (\<forall>n. \<not> bit (c :: int) n)"
  by (metis bit_0_eq bit_eqI bot_apply bot_bool_def)

lemma four_bits:
  "(\<forall>n :: nat. \<not> (n = 0 \<and> A \<or> n = 1 \<and> B \<or> n = 2 \<and> C \<or> n = 3 \<and> D)) \<longleftrightarrow> \<not> A \<and> \<not> B \<and> \<not> C \<and> \<not> D"
  "(n = 0 \<and> A \<or> n = 1 \<and> B \<or> n = 2 \<and> C \<or> n = 3 \<and> D) \<and> (n = 0 \<and> A' \<or> n = 1 \<and> B' \<or> n = 2 \<and> C' \<or> n = 3 \<and> D')
     \<longleftrightarrow> n = 0 \<and> A \<and> A' \<or> n = 1 \<and> B \<and> B' \<or> n = 2 \<and> C \<and> C' \<or> n = (3 :: nat) \<and> D \<and> D'"
  by auto

lemma clip_code_0: "clip_code x y = 0 \<longleftrightarrow> on_screen x y"
  unfolding int_bits_0 bit_clip_code four_bits by (auto simp: on_screen_def screen_defs)

lemma clip_code_and:
  "clip_code x1 y1 AND clip_code x2 y2 \<noteq> 0 \<longleftrightarrow>
     x1 < 0 \<and> x2 < 0 \<or> 79 < x1 \<and> 79 < x2 \<or> y1 < 0 \<and> y2 < 0 \<or> 24 < y1 \<and> 24 < y2"
  unfolding int_bits_0 bit_and_iff bit_clip_code four_bits by simp

lemma clip_code_test:
  "clip_code x y AND 8 \<noteq> 0 \<longleftrightarrow> 24 < y" "clip_code x y AND 4 \<noteq> 0 \<longleftrightarrow> y < 0" "clip_code x y AND 2 \<noteq> 0 \<longleftrightarrow> 79 < x"
  using and_exp_eq_0_iff_not_bit [of "clip_code x y" 3] and_exp_eq_0_iff_not_bit [of "clip_code x y" 2]
    and_exp_eq_0_iff_not_bit [of "clip_code x y" 1]
  by (auto simp: bit_clip_code)

lemma wrap32_small: "\<bar>v\<bar> < 2 ^ 31 \<Longrightarrow> wrap32 v = v"
proof -
  assume "\<bar>v\<bar> < 2 ^ 31"
  then have "0 \<le> v + 2 ^ 31" "v + 2 ^ 31 < 2 ^ 32" by auto
  then have "(v + 2 ^ 31) mod 2 ^ 32 = v + 2 ^ 31" by (rule mod_pos_pos_trivial)
  then show ?thesis unfolding wrap32_def int_word_sint by simp
qed

lemma sdiv_between:
  assumes "0 \<le> p \<and> p \<le> q \<and> 0 < q \<or> q \<le> p \<and> p \<le> 0 \<and> q < (0 :: int)"
  shows "min 0 a \<le> (a * p) sdiv q \<and> (a * p) sdiv q \<le> max 0 a"
proof -
  have le: "\<bar>a * p\<bar> div \<bar>q\<bar> \<le> \<bar>a\<bar>"
  proof -
    have "\<bar>a * p\<bar> \<le> \<bar>a\<bar> * \<bar>q\<bar>" using assms by (auto simp: abs_mult intro!: mult_left_mono)
    then have "\<bar>a * p\<bar> div \<bar>q\<bar> \<le> (\<bar>a\<bar> * \<bar>q\<bar>) div \<bar>q\<bar>" using assms by (intro zdiv_mono1) auto
    then show ?thesis using assms by auto
  qed
  moreover have "0 \<le> \<bar>a * p\<bar> div \<bar>q\<bar>" using assms by (auto intro!: pos_imp_zdiv_nonneg_iff [THEN iffD2])
  moreover have "(a * p) sdiv q = sgn a * (\<bar>a * p\<bar> div \<bar>q\<bar>)"
  proof (cases "p = 0")
    case False
    then have "sgn p * sgn q = 1" using assms by (auto simp: sgn_if)
    then show ?thesis by (simp add: signed_divide_int_def sgn_mult mult.assoc)
  qed (simp add: signed_divide_int_def)
  ultimately show ?thesis by (auto simp: sgn_if min_def max_def)
qed

definition small :: "int \<Rightarrow> bool" where
  "small v \<longleftrightarrow> \<bar>v\<bar> \<le> 20000"

lemma cross_between:
  assumes "small a" "small b" "small c" "small d" "c \<le> m \<and> m \<le> d \<or> d \<le> m \<and> m \<le> c" "c \<noteq> d"
  shows "min a b \<le> cross_at a b c d m \<and> cross_at a b c d m \<le> max a b"
proof -
  have q: "0 \<le> m - c \<and> m - c \<le> d - c \<and> 0 < d - c \<or> d - c \<le> m - c \<and> m - c \<le> 0 \<and> d - c < 0" using assms(5,6) by auto
  let ?k = "((b - a) * (m - c)) sdiv (d - c)"
  have k: "min 0 (b - a) \<le> ?k \<and> ?k \<le> max 0 (b - a)" by (rule sdiv_between [OF q])
  have l: "\<bar>b - a\<bar> \<le> 40000" "\<bar>m - c\<bar> \<le> 40000" "\<bar>d - c\<bar> \<le> 40000" using assms by (auto simp: small_def)
  have "\<bar>(b - a) * (m - c)\<bar> \<le> 40000 * 40000" unfolding abs_mult by (intro mult_mono l) auto
  then have w: "wrap32 (b - a) = b - a" "wrap32 (m - c) = m - c" "wrap32 (d - c) = d - c"
    "wrap32 ((b - a) * (m - c)) = (b - a) * (m - c)"
    using l by (auto intro!: wrap32_small)
  have ks: "wrap32 ?k = ?k" "wrap32 (a + ?k) = a + ?k" using k l assms(1) by (auto intro!: wrap32_small simp: small_def min_def max_def split: if_splits)
  have "cross_at a b c d m = a + ?k" unfolding cross_at_def w ks ..
  then show ?thesis using k by (auto simp: min_def max_def split: if_splits)
qed

text \<open>The half planes that some end point violates: every iteration clears one of them.\<close>

definition viol :: "int \<Rightarrow> int \<Rightarrow> int \<Rightarrow> int \<Rightarrow> nat" where
  "viol x1 y1 x2 y2 = of_bool (x1 < 0 \<or> x2 < 0) + of_bool (79 < x1 \<or> 79 < x2) + of_bool (y1 < 0 \<or> y2 < 0) + of_bool (24 < y1 \<or> 24 < y2)"

lemma viol_swap: "viol x2 y2 x1 y1 = viol x1 y1 x2 y2"
  by (simp add: viol_def disj_commute)

lemma intersection_progress:
  assumes s: "small x1" "small y1" "small x2" "small y2" and c: "clip_code x1 y1 AND clip_code x2 y2 = 0" "clip_code xo yo \<noteq> 0"
    and o: "(xo, yo) = (x1, y1) \<and> (xi, yi) = (x2, y2) \<or> (xo, yo) = (x2, y2) \<and> (xi, yi) = (x1, y1)"
    and i: "intersection (clip_code xo yo) x1 y1 x2 y2 = (x, y)"
  shows "small x \<and> small y \<and> viol x y xi yi < viol x1 y1 x2 y2"
proof -
  have n: "\<not> (x1 < 0 \<and> x2 < 0)" "\<not> (79 < x1 \<and> 79 < x2)" "\<not> (y1 < 0 \<and> y2 < 0)" "\<not> (24 < y1 \<and> 24 < y2)"
    using c(1) clip_code_and [of x1 y1 x2 y2] by auto
  have b: "small z" if "min a b \<le> z \<and> z \<le> max a b" "small a" "small b" for a b z
    using that by (auto simp: small_def min_def max_def split: if_splits)
  consider (top) "24 < yo" | (bottom) "yo < 0" "\<not> 24 < yo" | (right) "79 < xo" "\<not> yo < 0" "\<not> 24 < yo"
    | (left) "xo < 0" "\<not> 79 < xo" "\<not> yo < 0" "\<not> 24 < yo"
    using c(2) by (force simp: clip_code_0 on_screen_def screen_defs)
  then show ?thesis
  proof cases
    case top
    have e: "x = cross_at x1 x2 y1 y2 24" "y = 24" using i top clip_code_test [of xo yo] by (auto simp: intersection_def screen_defs)
    have "min x1 x2 \<le> x \<and> x \<le> max x1 x2" unfolding e(1) by (rule cross_between) (use s n o top in auto)
    then show ?thesis using b [of x1 x2 x] s n o top e(2) by (auto simp: viol_def small_def min_def max_def split: if_splits)
  next
    case bottom
    have e: "x = cross_at x1 x2 y1 y2 0" "y = 0" using i bottom clip_code_test [of xo yo] by (auto simp: intersection_def screen_defs)
    have "min x1 x2 \<le> x \<and> x \<le> max x1 x2" unfolding e(1) by (rule cross_between) (use s n o bottom in auto)
    then show ?thesis using b [of x1 x2 x] s n o bottom e(2) by (auto simp: viol_def small_def min_def max_def split: if_splits)
  next
    case right
    have e: "y = cross_at y1 y2 x1 x2 79" "x = 79" using i right clip_code_test [of xo yo] by (auto simp: intersection_def screen_defs)
    have "min y1 y2 \<le> y \<and> y \<le> max y1 y2" unfolding e(1) by (rule cross_between) (use s n o right in auto)
    then show ?thesis using b [of y1 y2 y] s n o right e(2) by (auto simp: viol_def small_def min_def max_def split: if_splits)
  next
    case left
    have e: "y = cross_at y1 y2 x1 x2 0" "x = 0" using i left clip_code_test [of xo yo] by (auto simp: intersection_def screen_defs)
    have "min y1 y2 \<le> y \<and> y \<le> max y1 y2" unfolding e(1) by (rule cross_between) (use s n o left in auto)
    then show ?thesis using b [of y1 y2 y] s n o left e(2) by (auto simp: viol_def small_def min_def max_def split: if_splits)
  qed
qed

lemma clip_loop_ends:
  assumes "small x1" "small y1" "small x2" "small y2" "viol x1 y1 x2 y2 < n"
  shows "clip_loop n x1 y1 x2 y2 = Some Rejected \<or>
    (\<exists>a b c d. clip_loop n x1 y1 x2 y2 = Some (Inside a b c d) \<and> on_screen a b \<and> on_screen c d)"
  using assms
proof (induction n arbitrary: x1 y1 x2 y2)
  case (Suc n)
  let ?c1 = "clip_code x1 y1" and ?c2 = "clip_code x2 y2"
  consider "?c1 = 0 \<and> ?c2 = 0" | "?c1 AND ?c2 \<noteq> 0" | "?c1 AND ?c2 = 0" "?c1 \<noteq> 0" | "?c1 AND ?c2 = 0" "?c1 = 0" "?c2 \<noteq> 0" by blast
  then show ?case
  proof cases
    case 3
    obtain x y where i: "intersection ?c1 x1 y1 x2 y2 = (x, y)" by fastforce
    have p: "small x \<and> small y \<and> viol x y x2 y2 < viol x1 y1 x2 y2"
      by (rule intersection_progress [OF Suc.prems(1-4) 3 _ i]) simp
    have "clip_loop (Suc n) x1 y1 x2 y2 = clip_loop n x y x2 y2" using 3 i by (simp add: Let_def)
    then show ?thesis using Suc.IH [of x y x2 y2] p Suc.prems by simp
  next
    case 4
    obtain x y where i: "intersection ?c2 x1 y1 x2 y2 = (x, y)" by fastforce
    have p: "small x \<and> small y \<and> viol x y x1 y1 < viol x1 y1 x2 y2"
      by (rule intersection_progress [OF Suc.prems(1-4) 4(1,3) _ i]) simp
    have "clip_loop (Suc n) x1 y1 x2 y2 = clip_loop n x1 y1 x y" using 4 i by (simp add: Let_def)
    then show ?thesis using Suc.IH [of x1 y1 x y] p Suc.prems viol_swap [of x y x1 y1] by simp
  qed (auto simp: Let_def clip_code_0)
qed simp

subsection \<open>Drawing stays between the end points\<close>

lemma steep_loop_box:
  assumes "0 \<le> dx" "dx < dy" "ex < 2 * dx" "2 * dy * R = ex - 2 * dx + 2 * dx * int u + dy" "0 \<le> R"
  shows "\<exists>ops. steep_loop u dx dy sy x y ex = Some ops \<and> u \<le> length ops \<and> (u = 0 \<or> hd ops = Pixel x y)
    \<and> (\<forall>op\<in>set ops. \<exists>a j. op = Pixel a (y + j * sy) \<and> x \<le> a \<and> a \<le> x + R \<and> 0 \<le> j \<and> j \<le> int u)"
  using assms(3-5)
proof (induction u arbitrary: x y ex R)
  case (Suc u)
  have stop: "blank_loop dy x' e = Some (x', e, [])" if "e < 0" for x' e using that by (simp add: blank_loop.simps)
  have widen: "\<exists>a j. op = Pixel a (y + j * sy) \<and> x \<le> a \<and> a \<le> x + R \<and> 0 \<le> j \<and> j \<le> int (Suc u)"
    if ex: "\<exists>a j. op = Pixel a (y + sy + j * sy) \<and> x' \<le> a \<and> a \<le> x' + R' \<and> 0 \<le> j \<and> j \<le> int u"
      and le: "x \<le> x'" "x' + R' \<le> x + R" for op x' R'
  proof -
    obtain a j where "op = Pixel a (y + sy + j * sy)" "x' \<le> a" "a \<le> x' + R'" "0 \<le> j" "j \<le> int u" using ex by blast
    then show ?thesis using le by (intro exI [of _ a] exI [of _ "j + 1"]) (simp add: algebra_simps)
  qed
  show ?case
  proof (cases "ex \<ge> 0")
    case True
    have nn: "0 \<le> dx * (int u * 2)" using assms(1) by simp
    have "2 * dy * R = dy + ex + dx * (int u * 2)" using Suc.prems(2) by (simp add: algebra_simps)
    then have "0 < 2 * dy * R" using nn True assms(1,2) by linarith
    then have R: "1 \<le> R" using assms(1,2) by (simp add: zero_less_mult_iff)
    have "\<exists>ops. steep_loop u dx dy sy (x + 1) (y + sy) (ex - 2 * dy + 2 * dx) = Some ops \<and> u \<le> length ops \<and> (u = 0 \<or> hd ops = Pixel (x + 1) (y + sy))
      \<and> (\<forall>op\<in>set ops. \<exists>a j. op = Pixel a (y + sy + j * sy) \<and> x + 1 \<le> a \<and> a \<le> x + 1 + (R - 1) \<and> 0 \<le> j \<and> j \<le> int u)"
      by (rule Suc.IH) (use Suc.prems assms R in \<open>auto simp: algebra_simps\<close>)
    then obtain ops where ops: "steep_loop u dx dy sy (x + 1) (y + sy) (ex - 2 * dy + 2 * dx) = Some ops" "u \<le> length ops"
      "\<forall>op\<in>set ops. \<exists>a j. op = Pixel a (y + sy + j * sy) \<and> x + 1 \<le> a \<and> a \<le> x + 1 + (R - 1) \<and> 0 \<le> j \<and> j \<le> int u" by blast
    have s: "steep_loop (Suc u) dx dy sy x y ex = Some (Pixel x y # Pixel (x + 1) (y + sy) # ops)"
      using True Suc.prems(1) assms(1,2) by (simp add: stop ops(1))
    have "\<exists>a j. op = Pixel a (y + j * sy) \<and> x \<le> a \<and> a \<le> x + R \<and> 0 \<le> j \<and> j \<le> int (Suc u)" if "op \<in> set ops" for op
      by (rule widen [of op "x + 1" "R - 1"]) (use ops(3) that in auto)
    moreover have "\<exists>a j. Pixel (x + 1) (y + sy) = Pixel a (y + j * sy) \<and> x \<le> a \<and> a \<le> x + R \<and> 0 \<le> j \<and> j \<le> int (Suc u)"
      using R by (intro exI [of _ "x + 1"] exI [of _ 1]) simp
    moreover have "\<exists>a j. Pixel x y = Pixel a (y + j * sy) \<and> x \<le> a \<and> a \<le> x + R \<and> 0 \<le> j \<and> j \<le> int (Suc u)"
      using R by (intro exI [of _ x] exI [of _ 0]) simp
    ultimately show ?thesis unfolding s using ops(2) by auto
  next
    case False
    have "\<exists>ops. steep_loop u dx dy sy x (y + sy) (ex + 2 * dx) = Some ops \<and> u \<le> length ops \<and> (u = 0 \<or> hd ops = Pixel x (y + sy))
      \<and> (\<forall>op\<in>set ops. \<exists>a j. op = Pixel a (y + sy + j * sy) \<and> x \<le> a \<and> a \<le> x + R \<and> 0 \<le> j \<and> j \<le> int u)"
      by (rule Suc.IH) (use Suc.prems assms False in \<open>auto simp: algebra_simps\<close>)
    then obtain ops where ops: "steep_loop u dx dy sy x (y + sy) (ex + 2 * dx) = Some ops" "u \<le> length ops"
      "\<forall>op\<in>set ops. \<exists>a j. op = Pixel a (y + sy + j * sy) \<and> x \<le> a \<and> a \<le> x + R \<and> 0 \<le> j \<and> j \<le> int u" by blast
    have s: "steep_loop (Suc u) dx dy sy x y ex = Some (Pixel x y # ops)" using False by (simp add: stop ops(1))
    have "\<exists>a j. op = Pixel a (y + j * sy) \<and> x \<le> a \<and> a \<le> x + R \<and> 0 \<le> j \<and> j \<le> int (Suc u)" if "op \<in> set ops" for op
      by (rule widen [of op x R]) (use ops(3) that in auto)
    moreover have "\<exists>a j. Pixel x y = Pixel a (y + j * sy) \<and> x \<le> a \<and> a \<le> x + R \<and> 0 \<le> j \<and> j \<le> int (Suc u)"
      using Suc.prems(3) by (intro exI [of _ x] exI [of _ 0]) simp
    ultimately show ?thesis unfolding s using ops(2) by auto
  qed
qed simp

lemma flat_loop_box:
  assumes "0 \<le> dy" "dy \<le> dx" "0 < dx" "ey < 2 * dy \<or> ey < 0" "2 * dx * R = ey - 2 * dy + 2 * dy * int u + dx" "0 \<le> R"
  shows "\<exists>ops. flat_loop u dx dy sy x y ey = Some ops \<and> u \<le> length ops \<and> (u = 0 \<or> hd ops = Pixel x y)
    \<and> (\<forall>op\<in>set ops. \<exists>a j. op = Pixel a (y + j * sy) \<and> x \<le> a \<and> a \<le> x + int u \<and> 0 \<le> j \<and> j \<le> R)"
  using assms(4-6)
proof (induction u arbitrary: x y ey R)
  case (Suc u)
  have stop: "rise_loop dx sy x' y' e = Some (y', e, [])" if "e < 0" for x' y' e using that by (simp add: rise_loop.simps)
  have widen: "\<exists>a j. op = Pixel a (y + j * sy) \<and> x \<le> a \<and> a \<le> x + int (Suc u) \<and> 0 \<le> j \<and> j \<le> R"
    if ex: "\<exists>a j. op = Pixel a (y + k * sy + j * sy) \<and> x + 1 \<le> a \<and> a \<le> x + 1 + int u \<and> 0 \<le> j \<and> j \<le> R - k" and le: "0 \<le> k" for op k
  proof -
    obtain a j where "op = Pixel a (y + k * sy + j * sy)" "x + 1 \<le> a" "a \<le> x + 1 + int u" "0 \<le> j" "j \<le> R - k" using ex by blast
    then show ?thesis using le by (intro exI [of _ a] exI [of _ "j + k"]) (simp add: algebra_simps)
  qed
  show ?case
  proof (cases "ey \<ge> 0")
    case True
    have nn: "0 \<le> dy * (int u * 2)" using assms(1) by simp
    have "2 * dx * R = dx + ey + dy * (int u * 2)" using Suc.prems(2) by (simp add: algebra_simps)
    then have "0 < 2 * dx * R" using nn True assms(1-3) by linarith
    then have R: "1 \<le> R" using assms(1-3) by (simp add: zero_less_mult_iff)
    have r: "rise_loop dx sy (x + 1) y ey = Some (y + sy, ey - 2 * dx, [Pixel (x + 1) (y + sy)])"
      using True Suc.prems(1) assms(1-3) by (subst rise_loop.simps) (simp add: stop)
    have "\<exists>ops. flat_loop u dx dy sy (x + 1) (y + sy) (ey - 2 * dx + 2 * dy) = Some ops \<and> u \<le> length ops \<and> (u = 0 \<or> hd ops = Pixel (x + 1) (y + sy))
      \<and> (\<forall>op\<in>set ops. \<exists>a j. op = Pixel a (y + sy + j * sy) \<and> x + 1 \<le> a \<and> a \<le> x + 1 + int u \<and> 0 \<le> j \<and> j \<le> R - 1)"
      by (rule Suc.IH) (use Suc.prems assms(1-3) R in \<open>auto simp: algebra_simps\<close>)
    then obtain ops where ops: "flat_loop u dx dy sy (x + 1) (y + sy) (ey - 2 * dx + 2 * dy) = Some ops" "u \<le> length ops"
      "\<forall>op\<in>set ops. \<exists>a j. op = Pixel a (y + sy + j * sy) \<and> x + 1 \<le> a \<and> a \<le> x + 1 + int u \<and> 0 \<le> j \<and> j \<le> R - 1" by blast
    have s: "flat_loop (Suc u) dx dy sy x y ey = Some (Pixel x y # Pixel (x + 1) (y + sy) # ops)" by (simp add: r ops(1))
    have "\<exists>a j. op = Pixel a (y + j * sy) \<and> x \<le> a \<and> a \<le> x + int (Suc u) \<and> 0 \<le> j \<and> j \<le> R" if "op \<in> set ops" for op
      by (rule widen [of op 1]) (use ops(3) that in auto)
    moreover have "\<exists>a j. Pixel (x + 1) (y + sy) = Pixel a (y + j * sy) \<and> x \<le> a \<and> a \<le> x + int (Suc u) \<and> 0 \<le> j \<and> j \<le> R"
      using R by (intro exI [of _ "x + 1"] exI [of _ 1]) simp
    moreover have "\<exists>a j. Pixel x y = Pixel a (y + j * sy) \<and> x \<le> a \<and> a \<le> x + int (Suc u) \<and> 0 \<le> j \<and> j \<le> R"
      using R by (intro exI [of _ x] exI [of _ 0]) simp
    ultimately show ?thesis unfolding s using ops(2) by auto
  next
    case False
    have "\<exists>ops. flat_loop u dx dy sy (x + 1) y (ey + 2 * dy) = Some ops \<and> u \<le> length ops \<and> (u = 0 \<or> hd ops = Pixel (x + 1) y)
      \<and> (\<forall>op\<in>set ops. \<exists>a j. op = Pixel a (y + j * sy) \<and> x + 1 \<le> a \<and> a \<le> x + 1 + int u \<and> 0 \<le> j \<and> j \<le> R)"
      by (rule Suc.IH) (use Suc.prems assms(1-3) False in \<open>auto simp: algebra_simps\<close>)
    then obtain ops where ops: "flat_loop u dx dy sy (x + 1) y (ey + 2 * dy) = Some ops" "u \<le> length ops"
      "\<forall>op\<in>set ops. \<exists>a j. op = Pixel a (y + j * sy) \<and> x + 1 \<le> a \<and> a \<le> x + 1 + int u \<and> 0 \<le> j \<and> j \<le> R" by blast
    have s: "flat_loop (Suc u) dx dy sy x y ey = Some (Pixel x y # ops)" using False by (simp add: stop ops(1))
    have "\<exists>a j. op = Pixel a (y + j * sy) \<and> x \<le> a \<and> a \<le> x + int (Suc u) \<and> 0 \<le> j \<and> j \<le> R" if "op \<in> set ops" for op
      by (rule widen [of op 0]) (use ops(3) that in auto)
    moreover have "\<exists>a j. Pixel x y = Pixel a (y + j * sy) \<and> x \<le> a \<and> a \<le> x + int (Suc u) \<and> 0 \<le> j \<and> j \<le> R"
      using Suc.prems(3) by (intro exI [of _ x] exI [of _ 0]) simp
    ultimately show ?thesis unfolding s using ops(2) by auto
  qed
qed simp

definition left_end :: "int \<Rightarrow> int \<Rightarrow> int \<Rightarrow> int \<Rightarrow> gl_op" where
  "left_end x1 y1 x2 y2 = (if x2 < x1 then Pixel x2 y2 else Pixel x1 y1)"

lemma draw_ordered:
  assumes "on_screen x1 y1" "on_screen x2 y2" "x1 \<le> x2"
  shows "\<exists>ops. draw_ops x1 y1 x2 y2 = Some ops \<and> nat (max (x2 - x1) \<bar>y2 - y1\<bar>) \<le> length ops
    \<and> ((x1, y1) = (x2, y2) \<or> hd ops = Pixel x1 y1) \<and> (\<forall>op\<in>set ops. \<exists>x y. op = Pixel x y \<and> on_screen x y)"
proof -
  define dx dy sy where "dx = x2 - x1" "dy = \<bar>y2 - y1\<bar>" "sy = (if y2 - y1 < 0 then -1 else 1 :: int)"
  note d = this
  have y: "0 \<le> y1 + j * sy \<and> y1 + j * sy < GL_height" if "0 \<le> j" "j \<le> dy" for j
    using that assms by (auto simp: d on_screen_def split: if_splits)
  have x: "0 \<le> a \<and> a < GL_width" if "x1 \<le> a" "a \<le> x1 + dx" for a
    using that assms by (auto simp: d on_screen_def)
  have run: "draw_ops x1 y1 x2 y2 =
      (if dy > dx then steep_loop (nat dy) dx dy sy x1 y1 (2 * dx - dy) else flat_loop (nat dx) dx dy sy x1 y1 (2 * dy - dx))"
    using assms(3) by (auto simp: draw_ops_def d Let_def)
  show ?thesis
  proof (cases "dy > dx")
    case True
    have "\<exists>ops. steep_loop (nat dy) dx dy sy x1 y1 (2 * dx - dy) = Some ops \<and> nat dy \<le> length ops \<and> (nat dy = 0 \<or> hd ops = Pixel x1 y1)
      \<and> (\<forall>op\<in>set ops. \<exists>a j. op = Pixel a (y1 + j * sy) \<and> x1 \<le> a \<and> a \<le> x1 + dx \<and> 0 \<le> j \<and> j \<le> int (nat dy))"
      by (rule steep_loop_box) (use True assms(3) d in \<open>auto simp: algebra_simps\<close>)
    then obtain ops where o: "steep_loop (nat dy) dx dy sy x1 y1 (2 * dx - dy) = Some ops" "nat dy \<le> length ops" "nat dy = 0 \<or> hd ops = Pixel x1 y1"
      "\<forall>op\<in>set ops. \<exists>a j. op = Pixel a (y1 + j * sy) \<and> x1 \<le> a \<and> a \<le> x1 + dx \<and> 0 \<le> j \<and> j \<le> int (nat dy)" by blast
    have "\<exists>x y. op = Pixel x y \<and> on_screen x y" if "op \<in> set ops" for op
      using o(4) that x y True d(1) assms(3) unfolding on_screen_def by force
    then show ?thesis using o(1-3) True d assms(3) by (intro exI [of _ ops]) (auto simp: run)
  next
    case False
    show ?thesis
    proof (cases "dx = 0")
      case True
      then have "draw_ops x1 y1 x2 y2 = Some []" unfolding run using False by simp
      then show ?thesis using True False d by auto
    next
      case ne: False
      have "\<exists>ops. flat_loop (nat dx) dx dy sy x1 y1 (2 * dy - dx) = Some ops \<and> nat dx \<le> length ops \<and> (nat dx = 0 \<or> hd ops = Pixel x1 y1)
        \<and> (\<forall>op\<in>set ops. \<exists>a j. op = Pixel a (y1 + j * sy) \<and> x1 \<le> a \<and> a \<le> x1 + int (nat dx) \<and> 0 \<le> j \<and> j \<le> dy)"
        by (rule flat_loop_box) (use False ne assms(3) d in \<open>auto simp: algebra_simps\<close>)
      then obtain ops where o: "flat_loop (nat dx) dx dy sy x1 y1 (2 * dy - dx) = Some ops" "nat dx \<le> length ops" "nat dx = 0 \<or> hd ops = Pixel x1 y1"
        "\<forall>op\<in>set ops. \<exists>a j. op = Pixel a (y1 + j * sy) \<and> x1 \<le> a \<and> a \<le> x1 + int (nat dx) \<and> 0 \<le> j \<and> j \<le> dy" by blast
      have "\<exists>x y. op = Pixel x y \<and> on_screen x y" if "op \<in> set ops" for op
        using o(4) that x y d(1) assms(3) unfolding on_screen_def by force
      then show ?thesis using o(1-3) False ne d assms(3) by (intro exI [of _ ops]) (auto simp: run)
    qed
  qed
qed

lemma draw_swap: "x2 < x1 \<Longrightarrow> draw_ops x1 y1 x2 y2 = draw_ops x2 y2 x1 y1"
  by (simp add: draw_ops_def)

lemma draw_on_screen:
  assumes "on_screen x1 y1" "on_screen x2 y2"
  shows "\<exists>ops. draw_ops x1 y1 x2 y2 = Some ops \<and> nat (max \<bar>x2 - x1\<bar> \<bar>y2 - y1\<bar>) \<le> length ops
    \<and> ((x1, y1) = (x2, y2) \<or> hd ops = left_end x1 y1 x2 y2) \<and> (\<forall>op\<in>set ops. \<exists>x y. op = Pixel x y \<and> on_screen x y)"
proof (cases "x2 < x1")
  case True
  then show ?thesis
    using draw_ordered [of x2 y2 x1 y1] assms draw_swap [OF True, of y1 y2] by (simp add: left_end_def abs_minus_commute)
next
  case False
  then show ?thesis using draw_ordered [of x1 y1 x2 y2] assms by (simp add: left_end_def)
qed



end
