(* ===== verification/Demos_3d.thy ===== *)
theory Demos_3d
  imports G3d_Correct Gl_Tty
begin

text \<open>
  The 3D demo programs: \<^verbatim>\<open>src/workloads/demos/mt-cube.c\<close>, \<^verbatim>\<open>mt-solid.c\<close> and the host test
  \<^verbatim>\<open>g3d/host_smoke.c\<close>. A frame is the phases between two barriers; in a phase the harts run in
  some order, each its whole share. The spin on \<open>video_go\<close> before the first barrier only delays the
  secondary harts.
\<close>

unbundle bit_operations_syntax

subsection \<open>The cube\<close>

definition corner :: "int \<Rightarrow> int \<Rightarrow> int \<Rightarrow> g3d_vec3" where
  "corner x y z = \<lparr>vx = x * G3D_ONE, vy = y * G3D_ONE, vz = z * G3D_ONE\<rparr>"

definition cube_obj :: "g3d_vec3 list" where
  "cube_obj = [corner (-1) (-1) (-1), corner 1 (-1) (-1), corner 1 1 (-1), corner (-1) 1 (-1),
     corner (-1) (-1) 1, corner 1 (-1) 1, corner 1 1 1, corner (-1) 1 1]"

definition cube_edge :: "(nat \<times> nat) list" where
  "cube_edge = [(0, 1), (1, 2), (2, 3), (3, 0), (4, 5), (5, 6), (6, 7), (7, 4), (0, 4), (1, 5), (2, 6), (3, 7)]"

record cube_state =
  cb_fb :: fbuf
  cb_projected :: "g3d_vert2 list"
  cb_angle_y :: int
  cb_out :: "u8 list"

text \<open>A vertex behind the near plane leaves the slot as it was.\<close>

definition put_vertex :: "g3d_mat4 \<Rightarrow> nat \<Rightarrow> g3d_vert2 list \<Rightarrow> g3d_vert2 list" where
  "put_vertex world i ps =
     (case g3d_project (g3d_transform world (cube_obj ! i)) (G3D_W div 2) (G3D_H div 2) (g3d_from_int 72) of
        None \<Rightarrow> ps | Some v \<Rightarrow> ps[i := v])"

definition cube_world :: "int \<Rightarrow> g3d_mat4" where
  "cube_world angle_y = g3d_mul_mat (g3d_translate 0 0 (g3d_from_int 4)) (g3d_rotate_y angle_y)"

definition cube_transform :: "nat \<Rightarrow> nat \<Rightarrow> cube_state \<Rightarrow> cube_state" where
  "cube_transform nc cid st =
     (let i0 = cid * 8 div nc; i1 = (cid + 1) * 8 div nc in
      st\<lparr>cb_projected := fold (put_vertex (cube_world (cb_angle_y st))) [i0..<i1] (cb_projected st)\<rparr>)"

fun draw_edges :: "g3d_vert2 list \<Rightarrow> (nat \<times> nat) list \<Rightarrow> fbuf \<Rightarrow> fbuf option" where
  "draw_edges ps [] fb = Some fb"
| "draw_edges ps ((i, j) # es) fb =
     (case g3d_line (sx (ps ! i)) (sy (ps ! i)) (sx (ps ! j)) (sy (ps ! j)) \<lparr>cr = 80, cg = 220, cb = 255\<rparr> fb of
        None \<Rightarrow> None | Some fb \<Rightarrow> draw_edges ps es fb)"

definition cube_draw :: "cube_state \<Rightarrow> cube_state option" where
  "cube_draw st =
     (let fb = fst (g3d_clear (cb_fb st) None \<lparr>cr = 0, cg = 0, cb = 0\<rparr>) in
      case draw_edges (cb_projected st) cube_edge fb of
        None \<Rightarrow> None
      | Some fb \<Rightarrow> Some (st\<lparr>cb_fb := fb, cb_out := cb_out st @ g3d_present fb, cb_angle_y := (cb_angle_y st + 3) AND 255\<rparr>))"

definition cube_frame :: "nat \<Rightarrow> nat list \<Rightarrow> cube_state \<Rightarrow> cube_state option" where
  "cube_frame nc order st = cube_draw (fold (cube_transform nc) order st)"

definition blank_verts :: "g3d_vert2 list" where
  "blank_verts = replicate 8 \<lparr>sx = 0, sy = 0, sz = 0\<rparr>"

definition clear_screen :: "u8 list" where
  "clear_screen = esc ''[?25l'' @ esc ''[H'' @ esc ''[2J''"

definition cube_start :: cube_state where
  "cube_start = \<lparr>cb_fb = (\<lambda>_. \<lparr>cr = 0, cg = 0, cb = 0\<rparr>), cb_projected = blank_verts, cb_angle_y = 20, cb_out = clear_screen\<rparr>"

subsection \<open>The solid cube\<close>

definition cube_tri :: "(nat \<times> nat \<times> nat) list" where
  "cube_tri = [(0, 1, 2), (0, 2, 3), (5, 4, 7), (5, 7, 6), (4, 0, 3), (4, 3, 7),
     (1, 5, 6), (1, 6, 2), (4, 5, 1), (4, 1, 0), (3, 2, 6), (3, 6, 7)]"

definition face_n :: "g3d_vec3 list" where
  "face_n = [corner 0 0 (-1), corner 0 0 (-1), corner 0 0 1, corner 0 0 1, corner (-1) 0 0, corner (-1) 0 0,
     corner 1 0 0, corner 1 0 0, corner 0 (-1) 0, corner 0 (-1) 0, corner 0 1 0, corner 0 1 0]"

definition face_col :: "g3d_rgb list" where
  "face_col = [\<lparr>cr = 220, cg = 70, cb = 70\<rparr>, \<lparr>cr = 70, cg = 200, cb = 80\<rparr>, \<lparr>cr = 70, cg = 110, cb = 230\<rparr>,
     \<lparr>cr = 230, cg = 200, cb = 60\<rparr>, \<lparr>cr = 200, cg = 80, cb = 200\<rparr>, \<lparr>cr = 70, cg = 210, cb = 210\<rparr>]"

record solid_state =
  so_fb :: fbuf
  so_zbuf :: zbuf
  so_projected :: "g3d_vert2 list"
  so_nrot :: "g3d_vec3 list"
  so_angle_x :: int
  so_angle_y :: int
  so_out :: "u8 list"

definition solid_rot :: "int \<Rightarrow> int \<Rightarrow> g3d_mat4" where
  "solid_rot ax ay = g3d_mul_mat (g3d_rotate_y ay) (g3d_rotate_x ax)"

definition solid_world :: "int \<Rightarrow> int \<Rightarrow> g3d_mat4" where
  "solid_world ax ay = g3d_mul_mat (g3d_translate 0 0 (g3d_from_int 4)) (solid_rot ax ay)"

definition rotate_normal :: "g3d_mat4 \<Rightarrow> g3d_vec3 \<Rightarrow> g3d_vec3" where
  "rotate_normal m n = \<lparr>
     vx = wrap32 (g3d_mul (m ! 0) (vx n) + g3d_mul (m ! 1) (vy n) + g3d_mul (m ! 2) (vz n)),
     vy = wrap32 (g3d_mul (m ! 4) (vx n) + g3d_mul (m ! 5) (vy n) + g3d_mul (m ! 6) (vz n)),
     vz = wrap32 (g3d_mul (m ! 8) (vx n) + g3d_mul (m ! 9) (vy n) + g3d_mul (m ! 10) (vz n))\<rparr>"

text \<open>The indices \<open>i = cid; i < n; i += nc\<close>; for no harts the loop would not end.\<close>

function stride :: "nat \<Rightarrow> nat \<Rightarrow> nat \<Rightarrow> nat list" where
  "stride nc i n = (if i < n \<and> 0 < nc then i # stride nc (i + nc) n else [])"
  by auto
termination by (relation "measure (\<lambda>(nc, i, n). n - i)") auto

declare stride.simps [simp del]

definition solid_transform :: "nat \<Rightarrow> nat \<Rightarrow> solid_state \<Rightarrow> solid_state" where
  "solid_transform nc cid st =
     (let rot = solid_rot (so_angle_x st) (so_angle_y st); world = solid_world (so_angle_x st) (so_angle_y st) in
      st\<lparr>so_projected := fold (put_vertex world) (stride nc cid 8) (so_projected st),
         so_nrot := fold (\<lambda>i ns. ns[i := rotate_normal rot (face_n ! i)]) (stride nc cid 12) (so_nrot st)\<rparr>)"

definition clear_band :: "int \<Rightarrow> int \<Rightarrow> fbuf \<times> zbuf option \<Rightarrow> fbuf \<times> zbuf option" where
  "clear_band y_lo y_hi = (\<lambda>(fb, zb).
     (\<lambda>i. if y_lo * G3D_W \<le> int i \<and> int i < y_hi * G3D_W then \<lparr>cr = 8, cg = 8, cb = 16\<rparr> else fb i,
      map_option (\<lambda>z i. if y_lo * G3D_W \<le> int i \<and> int i < y_hi * G3D_W then 0xFFFF else z i) zb))"

definition solid_face :: "g3d_vert2 list \<Rightarrow> g3d_vec3 list \<Rightarrow> int \<Rightarrow> int \<Rightarrow> nat \<Rightarrow> fbuf \<times> zbuf option \<Rightarrow> fbuf \<times> zbuf option" where
  "solid_face ps ns y_lo y_hi i f =
     (case cube_tri ! i of (ia, ib, ic) \<Rightarrow>
        if g3d_facing (ps ! ia) (ps ! ib) (ps ! ic) then f
        else g3d_triangle (ps ! ia) (ps ! ib) (ps ! ic)
          (g3d_shade (face_col ! (i div 2)) (ns ! i) \<lparr>vx = 24576, vy = 24576, vz = -49152\<rparr>) y_lo y_hi f)"

definition solid_fill :: "nat \<Rightarrow> nat \<Rightarrow> solid_state \<Rightarrow> solid_state" where
  "solid_fill nc cid st =
     (let y_lo = int cid * G3D_H div int nc; y_hi = int (cid + 1) * G3D_H div int nc in
      case fold (solid_face (so_projected st) (so_nrot st) y_lo y_hi) [0..<12] (clear_band y_lo y_hi (so_fb st, Some (so_zbuf st))) of
        (fb, zb) \<Rightarrow> st\<lparr>so_fb := fb, so_zbuf := the zb\<rparr>)"

definition solid_present :: "solid_state \<Rightarrow> solid_state" where
  "solid_present st = st\<lparr>so_out := so_out st @ g3d_present (so_fb st), so_angle_y := (so_angle_y st + 3) AND 255,
     so_angle_x := (so_angle_x st + 1) AND 255\<rparr>"

definition solid_frame :: "nat \<Rightarrow> nat list \<Rightarrow> nat list \<Rightarrow> solid_state \<Rightarrow> solid_state" where
  "solid_frame nc order1 order2 st = solid_present (fold (solid_fill nc) order2 (fold (solid_transform nc) order1 st))"

definition solid_start :: solid_state where
  "solid_start = \<lparr>so_fb = (\<lambda>_. \<lparr>cr = 0, cg = 0, cb = 0\<rparr>), so_zbuf = (\<lambda>_. 0), so_projected = blank_verts,
     so_nrot = replicate 12 \<lparr>vx = 0, vy = 0, vz = 0\<rparr>, so_angle_x = 18, so_angle_y = 30, so_out = clear_screen\<rparr>"

text \<open>The frames of a run, one pair of hart orders for each.\<close>

definition solid_run :: "nat \<Rightarrow> (nat list \<times> nat list) list \<Rightarrow> solid_state" where
  "solid_run nc sched = fold (\<lambda>(order1, order2). solid_frame nc order1 order2) sched solid_start"

subsection \<open>The host test\<close>

definition smoke_vertex :: "g3d_mat4 \<Rightarrow> nat \<Rightarrow> nat \<times> int \<times> int \<times> int \<times> int \<Rightarrow> nat \<times> int \<times> int \<times> int \<times> int" where
  "smoke_vertex world i = (\<lambda>(ok, xmin, xmax, ymin, ymax).
     case g3d_project (g3d_transform world (cube_obj ! i)) 32 24 (g3d_from_int 72) of
       None \<Rightarrow> (ok, xmin, xmax, ymin, ymax)
     | Some p \<Rightarrow> (ok + 1, if sx p < xmin then sx p else xmin, if sx p > xmax then sx p else xmax,
         if sy p < ymin then sy p else ymin, if sy p > ymax then sy p else ymax))"

definition smoke_main :: int where
  "smoke_main =
     (case fold (smoke_vertex (solid_world 18 30)) [0..<8] (0, 999, -999, 999, -999) of
        (ok, xmin, xmax, ymin, ymax) \<Rightarrow>
          if ok < 8 then 1
          else if xmax < 0 \<or> xmin \<ge> 64 \<or> ymax < 0 \<or> ymin \<ge> 48 then 2
          else if xmax - xmin < 8 \<or> ymax - ymin < 8 then 3
          else 0)"

subsection \<open>Every vertex is in front of the camera\<close>

lemma sintab_bound: "\<bar>g3d_sin a\<bar> \<le> G3D_ONE" "\<bar>g3d_cos a\<bar> \<le> G3D_ONE"
proof -
  have l: "length g3d_sintab = 256" by (simp add: g3d_sintab_def)
  have b: "list_all (\<lambda>v. \<bar>v\<bar> \<le> 65536) g3d_sintab" by (simp add: g3d_sintab_def)
  have "a AND 255 = take_bit 8 a" for a :: int by (simp add: take_bit_eq_mask mask_eq_exp_minus_1)
  then have "0 \<le> a AND 255 \<and> a AND 255 < 256" for a :: int using take_bit_int_less_exp [of 8 a] by simp
  then have "\<bar>g3d_sintab ! nat (a AND 255)\<bar> \<le> 65536" for a
    using b l by (simp add: list_all_length nat_less_iff)
  then show "\<bar>g3d_sin a\<bar> \<le> G3D_ONE" "\<bar>g3d_cos a\<bar> \<le> G3D_ONE" by (simp_all add: g3d_sin_def g3d_cos_def G3D_ONE_def)
qed

lemma mul_mat_nth:
  "i < 16 \<Longrightarrow> g3d_mul_mat a b ! i = wrap32 ((a ! (i div 4 * 4) * b ! (i mod 4) + a ! (i div 4 * 4 + 1) * b ! (4 + i mod 4)
     + a ! (i div 4 * 4 + 2) * b ! (8 + i mod 4) + a ! (i div 4 * 4 + 3) * b ! (12 + i mod 4)) div 2 ^ 16)"
proof -
  assume i: "i < 16"
  have four: "[0..<4] = [0, 1, 2, 3 :: nat]" by (simp add: upt_rec)
  have n: "map f [0..<16] ! i = f i" for f :: "nat \<Rightarrow> int" using i by (simp only: nth_map length_upt nth_upt) simp
  show ?thesis unfolding g3d_mul_mat_def n four by (simp add: add.assoc)
qed

lemma product_bound:
  assumes "\<bar>a\<bar> \<le> 65536" "\<bar>b\<bar> \<le> (65536 :: int)"
  shows "\<bar>(a * b) div 65536\<bar> \<le> 65536"
proof -
  have "\<bar>a * b\<bar> \<le> 65536 * 65536" unfolding abs_mult using assms by (intro mult_mono) auto
  then show ?thesis by linarith
qed

lemma rot_rows:
  "solid_rot ax ay ! 8 = - g3d_sin ay" "solid_rot ax ay ! 9 = (g3d_cos ay * g3d_sin ax) div 65536"
  "solid_rot ax ay ! 10 = (g3d_cos ay * g3d_cos ax) div 65536" "solid_rot ax ay ! 11 = 0"
  "solid_rot ax ay ! 12 = 0" "solid_rot ax ay ! 13 = 0" "solid_rot ax ay ! 14 = 0" "solid_rot ax ay ! 15 = 65536"
proof -
  note e = g3d_rotate_y_def g3d_rotate_x_def g3d_ident_def G3D_ONE_def Let_def
  have b: "\<bar>g3d_sin a\<bar> \<le> 65536" "\<bar>g3d_cos a\<bar> \<le> 65536" for a using sintab_bound [of a] by (simp_all add: G3D_ONE_def)
  have w: "wrap32 v = v" if "\<bar>v\<bar> \<le> 65536" for v using that by (intro wrap32_small) simp
  have neg: "- (v * 65536) div 65536 = - v" for v :: int using nonzero_mult_div_cancel_right [of 65536 "- v"] by simp
  show "solid_rot ax ay ! 8 = - g3d_sin ay" unfolding solid_rot_def using b by (simp add: mul_mat_nth e w neg)
  show "solid_rot ax ay ! 9 = (g3d_cos ay * g3d_sin ax) div 65536"
    unfolding solid_rot_def using b product_bound by (simp add: mul_mat_nth e w)
  show "solid_rot ax ay ! 10 = (g3d_cos ay * g3d_cos ax) div 65536"
    unfolding solid_rot_def using b product_bound by (simp add: mul_mat_nth e w)
  show "solid_rot ax ay ! 11 = 0" "solid_rot ax ay ! 12 = 0" "solid_rot ax ay ! 13 = 0" "solid_rot ax ay ! 14 = 0"
    "solid_rot ax ay ! 15 = 65536"
    unfolding solid_rot_def by (simp_all add: mul_mat_nth e w)
qed

lemma world_row:
  "solid_world ax ay ! 8 = solid_rot ax ay ! 8" "solid_world ax ay ! 9 = solid_rot ax ay ! 9"
  "solid_world ax ay ! 10 = solid_rot ax ay ! 10" "solid_world ax ay ! 11 = 262144"
  "\<bar>solid_rot ax ay ! 8\<bar> \<le> 65536" "\<bar>solid_rot ax ay ! 9\<bar> \<le> 65536" "\<bar>solid_rot ax ay ! 10\<bar> \<le> 65536"
proof -
  have b: "\<bar>g3d_sin a\<bar> \<le> 65536" "\<bar>g3d_cos a\<bar> \<le> 65536" for a using sintab_bound [of a] by (simp_all add: G3D_ONE_def)
  show r: "\<bar>solid_rot ax ay ! 8\<bar> \<le> 65536" "\<bar>solid_rot ax ay ! 9\<bar> \<le> 65536" "\<bar>solid_rot ax ay ! 10\<bar> \<le> 65536"
    using b product_bound by (simp_all add: rot_rows)
  have w: "wrap32 v = v" if "\<bar>v\<bar> \<le> 262144" for v using that by (intro wrap32_small) simp
  note e = g3d_translate_def g3d_ident_def G3D_ONE_def g3d_from_int_def
  show "solid_world ax ay ! 8 = solid_rot ax ay ! 8" "solid_world ax ay ! 9 = solid_rot ax ay ! 9"
    "solid_world ax ay ! 10 = solid_rot ax ay ! 10" "solid_world ax ay ! 11 = 262144"
    using r unfolding solid_world_def by (simp_all add: mul_mat_nth e w rot_rows(4-8))
qed

lemma mul_unit: "\<bar>m\<bar> \<le> 65536 \<Longrightarrow> k \<in> {-1, 1} \<Longrightarrow> g3d_mul m (k * G3D_ONE) = k * m"
  by (auto simp: g3d_mul_def G3D_ONE_def wrap32_small)

lemma cube_obj_corner: "i < 8 \<Longrightarrow> \<exists>x\<in>{-1, 1}. \<exists>y\<in>{-1, 1}. \<exists>z\<in>{-1, 1}. cube_obj ! i = corner x y z"
  by (auto simp: cube_obj_def numeral_eq_Suc less_Suc_eq)

definition solid_vertex :: "int \<Rightarrow> int \<Rightarrow> nat \<Rightarrow> g3d_vert2" where
  "solid_vertex ax ay i =
     the (g3d_project (g3d_transform (solid_world ax ay) (cube_obj ! i)) (G3D_W div 2) (G3D_H div 2) (g3d_from_int 72))"

lemma solid_in_front:
  assumes "i < 8"
  shows "65536 \<le> vz (g3d_transform (solid_world ax ay) (cube_obj ! i))"
proof -
  obtain x y z where c: "cube_obj ! i = corner x y z" "x \<in> {-1, 1}" "y \<in> {-1, 1}" "z \<in> {-1, 1}"
    using cube_obj_corner [OF assms] by blast
  let ?m = "solid_rot ax ay"
  have "vz (g3d_transform (solid_world ax ay) (cube_obj ! i)) = wrap32 (x * ?m ! 8 + y * ?m ! 9 + z * ?m ! 10 + 262144)"
    using c world_row [of ax ay] by (simp add: g3d_transform_def corner_def mul_unit)
  also have "\<dots> = x * ?m ! 8 + y * ?m ! 9 + z * ?m ! 10 + 262144"
    using c(2-4) world_row(5-7) [of ax ay] by (intro wrap32_small) (auto simp: abs_le_iff)
  finally show ?thesis using c(2-4) world_row(5-7) [of ax ay] by (auto simp: abs_le_iff)
qed

lemma put_vertex_solid: "i < 8 \<Longrightarrow> put_vertex (solid_world ax ay) i ps = ps[i := solid_vertex ax ay i]"
  using solid_in_front [of i ax ay]
  by (auto simp: put_vertex_def solid_vertex_def g3d_project_def G3D_ONE_def signed_divide_int_def split: option.splits)

subsection \<open>The transforms do not depend on the order of the harts\<close>

lemma fold_upd: "fold (\<lambda>i xs. xs[i := f i]) is xs = map (\<lambda>i. if i \<in> set is then f i else xs ! i) [0..<length xs]"
proof (induction "is" arbitrary: xs)
  case Nil
  show ?case by (simp add: map_nth)
next
  case (Cons a "is")
  have "fold (\<lambda>i xs. xs[i := f i]) (a # is) xs = map (\<lambda>i. if i \<in> set is then f i else xs[a := f a] ! i) [0..<length xs]"
    using Cons by simp
  also have "\<dots> = map (\<lambda>i. if i \<in> set (a # is) then f i else xs ! i) [0..<length xs]"
    by (rule map_cong) (auto simp: nth_list_update)
  finally show ?case .
qed

lemma set_stride: "0 < nc \<Longrightarrow> set (stride nc i n) = {k. i \<le> k \<and> k < n \<and> k mod nc = i mod nc}"
proof (induction nc i n rule: stride.induct)
  case (1 nc i n)
  show ?case
  proof (cases "i < n")
    case True
    have "k = i \<or> i + nc \<le> k" if "i \<le> k" "k mod nc = i mod nc" for k
    proof (rule ccontr)
      assume "\<not> (k = i \<or> i + nc \<le> k)"
      then have "0 < k - i" "k - i < nc" using that(1) by auto
      moreover have "(k - i) mod nc = 0" using that by (metis mod_eq_dvd_iff_nat dvd_imp_mod_0)
      ultimately show False by simp
    qed
    then show ?thesis using 1 True by (subst stride.simps) auto
  next
    case False
    then show ?thesis by (subst stride.simps) auto
  qed
qed

lemma strides_cover:
  assumes "0 < nc" "set order = {..<nc}"
  shows "set (concat (map (\<lambda>c. stride nc c n) order)) = {..<n}"
proof -
  have "k \<in> set (stride nc (k mod nc) n) \<and> k mod nc < nc" if "k < n" for k
    using that assms(1) by (simp add: set_stride)
  then show ?thesis using assms by (fastforce simp: set_stride)
qed

lemma strides_all:
  assumes "0 < nc" "set order = {..<nc}" "length xs = n"
  shows "fold (\<lambda>i xs. xs[i := f i]) (concat (map (\<lambda>c. stride nc c n) order)) xs = map f [0..<n]"
  unfolding fold_upd strides_cover [OF assms(1,2)] assms(3) by (rule map_cong) auto

definition solid_normal :: "int \<Rightarrow> int \<Rightarrow> nat \<Rightarrow> g3d_vec3" where
  "solid_normal ax ay i = rotate_normal (solid_rot ax ay) (face_n ! i)"

lemma solid_transform_run:
  "fold (solid_transform nc) order st = st\<lparr>
     so_projected := fold (\<lambda>i ps. ps[i := solid_vertex (so_angle_x st) (so_angle_y st) i]) (concat (map (\<lambda>c. stride nc c 8) order)) (so_projected st),
     so_nrot := fold (\<lambda>i ns. ns[i := solid_normal (so_angle_x st) (so_angle_y st) i]) (concat (map (\<lambda>c. stride nc c 12) order)) (so_nrot st)\<rparr>"
proof (induction order arbitrary: st)
  case (Cons c order)
  have lt: "\<forall>i\<in>set (stride nc c 8). i < 8"
    by (cases "nc = 0") (auto simp: set_stride stride.simps [of 0])
  have "fold (put_vertex (solid_world ax ay)) is ps = fold (\<lambda>i ps. ps[i := solid_vertex ax ay i]) is ps"
    if "\<forall>i\<in>set is. i < 8" for ax ay "is" ps
    using that by (induction "is" arbitrary: ps) (simp_all add: put_vertex_solid)
  from this [OF lt] show ?case using Cons by (simp add: solid_transform_def Let_def solid_normal_def)
qed simp

lemma solid_transform_all:
  assumes "0 < nc" "set order = {..<nc}" "length (so_projected st) = 8" "length (so_nrot st) = 12"
  shows "fold (solid_transform nc) order st = st\<lparr>
     so_projected := map (solid_vertex (so_angle_x st) (so_angle_y st)) [0..<8],
     so_nrot := map (solid_normal (so_angle_x st) (so_angle_y st)) [0..<12]\<rparr>"
  unfolding solid_transform_run by (simp only: strides_all [OF assms(1,2)] assms(3,4))

subsection \<open>A row of the frame is drawn by one hart\<close>

definition same_row :: "int \<Rightarrow> fbuf \<times> zbuf option \<Rightarrow> fbuf \<times> zbuf option \<Rightarrow> bool" where
  "same_row y f g \<longleftrightarrow>
     (\<forall>i. int i div 64 = y \<longrightarrow> fst f i = fst g i \<and> map_option (\<lambda>z. z i) (snd f) = map_option (\<lambda>z. z i) (snd g))"

lemma same_row_refl: "same_row y f f"
  by (simp add: same_row_def)

lemma same_row_trans: "same_row y f g \<Longrightarrow> same_row y g h \<Longrightarrow> same_row y f h"
  by (simp add: same_row_def)

lemma same_row_sym: "same_row y f g \<Longrightarrow> same_row y g f"
  by (simp add: same_row_def)

lemma same_rows_eq:
  assumes "\<And>y. same_row y f g"
  shows "f = g"
proof -
  have e: "fst f i = fst g i" "map_option (\<lambda>z. z i) (snd f) = map_option (\<lambda>z. z i) (snd g)" for i
    using assms [of "int i div 64"] by (auto simp: same_row_def)
  have "snd f = snd g"
    using e(2) by (cases "snd f"; cases "snd g") (auto simp: fun_eq_iff)
  then show ?thesis using e(1) by (simp add: prod_eq_iff fun_eq_iff)
qed

lemma pix_row: "in_frame x y \<Longrightarrow> int (pix x y) div 64 = y"
  by (simp add: in_frame_def pix_def G3D_W_def)

lemma plot_same_row:
  assumes "is_int x" "is_int k" "same_row y f g"
  shows "same_row y (g3d_plot x k zi c f) (g3d_plot x k zi c g)"
proof (cases "in_frame x k")
  case True
  obtain fb zb fb' zb' where f: "f = (fb, zb)" "g = (fb', zb')" by (cases f; cases g) auto
  show ?thesis
    using assms(3) pix_row [OF True] unfolding f plot_in [OF True]
    by (auto simp: same_row_def Let_def split: option.splits)
qed (use assms plot_out in simp)

lemma plot_other_row:
  assumes "is_int x" "is_int k" "k \<noteq> y"
  shows "same_row y (g3d_plot x k zi c f) f"
proof (cases "in_frame x k")
  case True
  obtain fb zb where f: "f = (fb, zb)" by (cases f)
  show ?thesis
    using assms(3) pix_row [OF True] unfolding f plot_in [OF True]
    by (auto simp: same_row_def Let_def split: option.splits)
qed (use assms plot_out in \<open>simp add: same_row_refl\<close>)

lemma fold_same_row:
  assumes "\<And>x f g. x \<in> set xs \<Longrightarrow> same_row y f g \<Longrightarrow> same_row y (F x f) (F x g)" "same_row y f g"
  shows "same_row y (fold F xs f) (fold F xs g)"
  using assms by (induction xs arbitrary: f g) auto

lemma fold_other_row:
  assumes "\<And>x f. x \<in> set xs \<Longrightarrow> same_row y (F x f) f"
  shows "same_row y (fold F xs f) f"
  using assms
proof (induction xs arbitrary: f)
  case (Cons x xs)
  have "same_row y (fold F xs (F x f)) (F x f)" "same_row y (F x f) f" using Cons by auto
  then show ?case by (auto intro: same_row_trans)
qed (simp add: same_row_refl)

lemma row_draw_same:
  assumes "vert_ok a" "vert_ok b" "vert_ok c" "is_int k" "same_row y f g"
  shows "same_row y (row_draw a b c col k f) (row_draw a b c col k g)"
  unfolding row_draw_def
  by (rule fold_same_row [OF plot_same_row assms(5)]) (use assms row_span_is_int in auto)

lemma row_draw_other:
  assumes "vert_ok a" "vert_ok b" "vert_ok c" "is_int k" "k \<noteq> y"
  shows "same_row y (row_draw a b c col k f) f"
  unfolding row_draw_def
  by (rule fold_other_row [OF plot_other_row]) (use assms row_span_is_int in auto)

lemma row_draws_filter:
  assumes "vert_ok a" "vert_ok b" "vert_ok c" "\<forall>k\<in>set ys. is_int k"
  shows "same_row y (fold (row_draw a b c col) ys f) (fold (row_draw a b c col) (filter (\<lambda>k. k = y) ys) f)"
  using assms(4)
proof (induction ys arbitrary: f)
  case (Cons k ys)
  let ?r = "row_draw a b c col"
  show ?case
  proof (cases "k = y")
    case True
    then show ?thesis using Cons by simp
  next
    case False
    have "same_row y (fold ?r ys (?r k f)) (fold ?r ys f)"
      by (rule fold_same_row) (use assms Cons.prems False row_draw_same row_draw_other in auto)
    then show ?thesis using Cons False same_row_trans by fastforce
  qed
qed (simp add: same_row_refl)

lemma triangle_same:
  assumes "vert_ok a" "vert_ok b" "vert_ok c" "same_row y f g"
  shows "same_row y (g3d_triangle a b c col l h f) (g3d_triangle a b c col l h g)"
proof -
  obtain p q r where s: "sort_corners a b c = (p, q, r)" by (cases "sort_corners a b c")
  note ok = sort_corners_ok [OF s assms(1-3)]
  show ?thesis
    unfolding g3d_triangle_rows [OF s]
    by (rule fold_same_row [OF row_draw_same assms(4)]) (use ok in \<open>auto simp: band_rows_def is_int_def G3D_H_def split: if_splits\<close>)
qed

lemma triangle_other:
  assumes "vert_ok a" "vert_ok b" "vert_ok c" "y < l \<or> h \<le> y"
  shows "same_row y (g3d_triangle a b c col l h f) f"
proof -
  obtain p q r where s: "sort_corners a b c = (p, q, r)" by (cases "sort_corners a b c")
  note ok = sort_corners_ok [OF s assms(1-3)]
  show ?thesis
    unfolding g3d_triangle_rows [OF s]
    by (rule fold_other_row [OF row_draw_other]) (use ok assms(4) in \<open>auto simp: band_rows_def is_int_def G3D_H_def split: if_splits\<close>)
qed

lemma triangle_band:
  assumes "vert_ok a" "vert_ok b" "vert_ok c" "l \<le> y" "y < h" "l' \<le> y" "y < h'"
  shows "same_row y (g3d_triangle a b c col l h f) (g3d_triangle a b c col l' h' f)"
proof -
  obtain p q r where s: "sort_corners a b c = (p, q, r)" by (cases "sort_corners a b c")
  note ok = sort_corners_ok [OF s assms(1-3)]
  have e: "filter (\<lambda>k. k = y) (band_rows p r l h) = filter (\<lambda>k. k = y) (band_rows p r l' h')"
    using assms(4-7) by (auto simp: band_rows_def intro!: filter_cong)
  have i: "\<forall>k\<in>set (band_rows p r l h). is_int k" for l h by (auto simp: band_rows_def is_int_def G3D_H_def)
  note d = row_draws_filter [OF _ _ _ i, of p q r y col]
  show ?thesis
    unfolding g3d_triangle_rows [OF s]
    using d [of l h f] same_row_sym [OF d [of l' h' f]] ok same_row_trans unfolding e by blast
qed

definition paint :: "g3d_vert2 list \<Rightarrow> g3d_vec3 list \<Rightarrow> int \<Rightarrow> int \<Rightarrow> fbuf \<times> zbuf option \<Rightarrow> fbuf \<times> zbuf option" where
  "paint ps ns l h f = fold (solid_face ps ns l h) [0..<12] (clear_band l h f)"

definition verts_ok :: "g3d_vert2 list \<Rightarrow> bool" where
  "verts_ok ps \<longleftrightarrow> (\<forall>i<8. vert_ok (ps ! i))"

lemma cube_tri_index: "i < 12 \<Longrightarrow> cube_tri ! i = (ia, ib, ic) \<Longrightarrow> ia < 8 \<and> ib < 8 \<and> ic < 8"
  by (auto simp: cube_tri_def numeral_eq_Suc less_Suc_eq)

lemma face_same: "verts_ok ps \<Longrightarrow> i < 12 \<Longrightarrow> same_row y f g \<Longrightarrow> same_row y (solid_face ps ns l h i f) (solid_face ps ns l h i g)"
  by (auto simp: solid_face_def verts_ok_def dest: cube_tri_index intro!: triangle_same split: prod.splits)

lemma face_other: "verts_ok ps \<Longrightarrow> i < 12 \<Longrightarrow> y < l \<or> h \<le> y \<Longrightarrow> same_row y (solid_face ps ns l h i f) f"
  by (auto simp: solid_face_def verts_ok_def dest: cube_tri_index intro!: triangle_other same_row_refl split: prod.splits)

lemma face_band:
  "verts_ok ps \<Longrightarrow> i < 12 \<Longrightarrow> l \<le> y \<Longrightarrow> y < h \<Longrightarrow> l' \<le> y \<Longrightarrow> y < h' \<Longrightarrow>
     same_row y (solid_face ps ns l h i f) (solid_face ps ns l' h' i f)"
  by (auto simp: solid_face_def verts_ok_def dest: cube_tri_index intro!: triangle_band same_row_refl split: prod.splits)

lemma clear_other: "y < l \<or> h \<le> y \<Longrightarrow> same_row y (clear_band l h f) f"
  by (auto simp: same_row_def clear_band_def G3D_W_def option.map_comp comp_def split: prod.splits option.splits)

lemma clear_rows:
  "l \<le> y \<Longrightarrow> y < h \<Longrightarrow> l' \<le> y \<Longrightarrow> y < h' \<Longrightarrow> snd f = None \<longleftrightarrow> snd g = None \<Longrightarrow> same_row y (clear_band l h f) (clear_band l' h' g)"
  by (auto simp: same_row_def clear_band_def G3D_W_def option.map_comp comp_def split: prod.splits option.splits)

lemma paint_other:
  assumes "verts_ok ps" "y < l \<or> h \<le> y"
  shows "same_row y (paint ps ns l h f) f"
proof -
  have "same_row y (paint ps ns l h f) (clear_band l h f)"
    unfolding paint_def by (rule fold_other_row [OF face_other]) (use assms in auto)
  then show ?thesis using clear_other [OF assms(2)] same_row_trans by blast
qed

lemma paint_band:
  assumes "verts_ok ps" "l \<le> y" "y < h" "l' \<le> y" "y < h'" "snd f = None \<longleftrightarrow> snd g = None"
  shows "same_row y (paint ps ns l h f) (paint ps ns l' h' g)"
proof -
  have "same_row y (fold (solid_face ps ns l h) is u) (fold (solid_face ps ns l' h') is v)"
    if "\<forall>i\<in>set is. i < 12" "same_row y u v" for "is" u v
    using that
  proof (induction "is" arbitrary: u v)
    case (Cons i "is")
    have "same_row y (solid_face ps ns l h i u) (solid_face ps ns l' h' i v)"
      using face_same [OF assms(1), of i y u v ns l h] face_band [OF assms(1) _ assms(2-5), of i ns v] Cons.prems same_row_trans by fastforce
    then show ?case using Cons by simp
  qed simp
  then show ?thesis unfolding paint_def using clear_rows [OF assms(2-6)] by simp
qed

lemma paint_some:
  assumes "verts_ok ps" "0 \<le> h"
  shows "snd (paint ps ns l h f) = None \<longleftrightarrow> snd f = None"
proof -
  have "same_row h (paint ps ns l h f) f" by (rule paint_other [OF assms(1)]) simp
  then have "map_option (\<lambda>z. z (nat (h * 64))) (snd (paint ps ns l h f)) = map_option (\<lambda>z. z (nat (h * 64))) (snd f)"
    using assms(2) by (simp add: same_row_def)
  then show ?thesis by (cases "snd f"; cases "snd (paint ps ns l h f)") auto
qed

definition buf :: "solid_state \<Rightarrow> fbuf \<times> zbuf option" where
  "buf st = (so_fb st, Some (so_zbuf st))"

definition lo :: "nat \<Rightarrow> nat \<Rightarrow> int" where
  "lo nc cid = int cid * 48 div int nc"

lemma lo_nonneg: "0 \<le> lo nc cid"
  by (cases "nc = 0") (simp_all add: lo_def pos_imp_zdiv_nonneg_iff)

lemma buf_fill:
  assumes "verts_ok (so_projected st)"
  shows "buf (solid_fill nc cid st) = paint (so_projected st) (so_nrot st) (lo nc cid) (lo nc (Suc cid)) (buf st)"
    and "solid_fill nc cid st = st\<lparr>so_fb := fst (buf (solid_fill nc cid st)), so_zbuf := the (snd (buf (solid_fill nc cid st)))\<rparr>"
proof -
  let ?p = "paint (so_projected st) (so_nrot st) (lo nc cid) (lo nc (Suc cid)) (buf st)"
  have "0 \<le> lo nc (Suc cid)" by (rule lo_nonneg)
  then have "snd ?p \<noteq> None" using paint_some [OF assms] by (simp add: buf_def)
  then obtain fb z where p: "?p = (fb, Some z)" by (cases ?p) auto
  have f: "solid_fill nc cid st = st\<lparr>so_fb := fb, so_zbuf := z\<rparr>"
    using p by (simp add: solid_fill_def paint_def buf_def lo_def G3D_H_def Let_def add.commute)
  then show "buf (solid_fill nc cid st) = ?p" unfolding p by (simp add: buf_def)
  then show "solid_fill nc cid st = st\<lparr>so_fb := fst (buf (solid_fill nc cid st)), so_zbuf := the (snd (buf (solid_fill nc cid st)))\<rparr>"
    using p f by simp
qed

lemma fill_run:
  assumes "verts_ok (so_projected st)" "\<forall>c\<in>set order. \<forall>y. lo nc c \<le> y \<and> y < lo nc (Suc c) \<longrightarrow> 0 \<le> y \<and> y < 48"
  shows "\<exists>fb z. fold (solid_fill nc) order st = st\<lparr>so_fb := fb, so_zbuf := z\<rparr> \<and>
    same_row y (fb, Some z) (if \<exists>c\<in>set order. lo nc c \<le> y \<and> y < lo nc (Suc c)
      then paint (so_projected st) (so_nrot st) 0 48 (buf st) else buf st)"
  using assms
proof (induction order arbitrary: st)
  case Nil
  show ?case by (intro exI [of _ "so_fb st"] exI [of _ "so_zbuf st"]) (simp add: buf_def same_row_refl)
next
  case (Cons c order)
  let ?st = "solid_fill nc c st" and ?ps = "so_projected st" and ?ns = "so_nrot st"
  note b = buf_fill [OF Cons.prems(1), of nc c]
  have keep: "so_projected ?st = ?ps" "so_nrot ?st = ?ns" by (subst b(2), simp)+
  have rest: "\<forall>c\<in>set order. \<forall>y. lo nc c \<le> y \<and> y < lo nc (Suc c) \<longrightarrow> 0 \<le> y \<and> y < 48"
    using Cons.prems(2) by simp
  obtain fb z where r: "fold (solid_fill nc) order ?st = ?st\<lparr>so_fb := fb, so_zbuf := z\<rparr>"
    "same_row y (fb, Some z) (if \<exists>c\<in>set order. lo nc c \<le> y \<and> y < lo nc (Suc c) then paint ?ps ?ns 0 48 (buf ?st) else buf ?st)"
    using Cons.IH [of ?st, unfolded keep, OF Cons.prems(1) rest] by blast
  have eq: "?st\<lparr>so_fb := fb, so_zbuf := z\<rparr> = st\<lparr>so_fb := fb, so_zbuf := z\<rparr>" by (subst b(2)) simp
  let ?T = "if \<exists>c\<in>set (c # order). lo nc c \<le> y \<and> y < lo nc (Suc c) then paint ?ps ?ns 0 48 (buf st) else buf st"
  have "same_row y (if \<exists>c\<in>set order. lo nc c \<le> y \<and> y < lo nc (Suc c) then paint ?ps ?ns 0 48 (buf ?st) else buf ?st) ?T"
  proof (cases "\<exists>c\<in>set order. lo nc c \<le> y \<and> y < lo nc (Suc c)")
    case True
    then have "0 \<le> y \<and> y < 48" using Cons.prems(2) by auto
    then have "same_row y (paint ?ps ?ns 0 48 (buf ?st)) (paint ?ps ?ns 0 48 (buf st))"
      by (intro paint_band [OF Cons.prems(1)]) (auto simp: buf_def)
    then show ?thesis using True by auto
  next
    case no: False
    show ?thesis
    proof (cases "lo nc c \<le> y \<and> y < lo nc (Suc c)")
      case True
      then have "0 \<le> y \<and> y < 48" using Cons.prems(2) by auto
      then have "same_row y (buf ?st) (paint ?ps ?ns 0 48 (buf st))"
        unfolding b(1) using True by (intro paint_band [OF Cons.prems(1)]) auto
      then show ?thesis using no True by auto
    next
      case False
      then have "same_row y (buf ?st) (buf st)" unfolding b(1) by (intro paint_other [OF Cons.prems(1)]) auto
      then show ?thesis using no False by auto
    qed
  qed
  then show ?case using r same_row_trans unfolding fold_Cons comp_apply r(1) eq by blast
qed

lemma lo_0: "lo nc 0 = 0"
  by (simp add: lo_def)

lemma lo_all: "0 < nc \<Longrightarrow> lo nc nc = 48"
  by (simp add: lo_def)

lemma lo_mono: "c \<le> d \<Longrightarrow> lo nc c \<le> lo nc d"
  by (cases "nc = 0") (simp_all add: lo_def zdiv_mono1)

lemma band_of_row:
  assumes "0 \<le> y" "y < lo nc n"
  shows "\<exists>c<n. lo nc c \<le> y \<and> y < lo nc (Suc c)"
  using assms(2)
proof (induction n)
  case 0
  then show ?case using assms(1) by (simp add: lo_0)
next
  case (Suc n)
  then show ?case by (cases "lo nc n \<le> y") (auto intro: less_SucI)
qed

lemma bands_are_the_frame:
  assumes "0 < nc"
  shows "(\<exists>c\<in>{..<nc}. lo nc c \<le> y \<and> y < lo nc (Suc c)) \<longleftrightarrow> 0 \<le> y \<and> y < 48"
proof -
  have "lo nc (Suc c) \<le> 48" if "c < nc" for c
    using lo_mono [of "Suc c" nc nc] that lo_all [OF assms] by simp
  then show ?thesis
    using band_of_row [of y nc nc] lo_all [OF assms] lo_nonneg by (fastforce intro: order_trans)
qed

lemma fill_all:
  assumes "verts_ok (so_projected st)" "0 < nc" "set order = {..<nc}"
  shows "buf (fold (solid_fill nc) order st) = paint (so_projected st) (so_nrot st) 0 48 (buf st)"
    and "\<exists>fb z. fold (solid_fill nc) order st = st\<lparr>so_fb := fb, so_zbuf := z\<rparr>"
proof -
  let ?P = "paint (so_projected st) (so_nrot st) 0 48 (buf st)"
  have b: "\<forall>c\<in>set order. \<forall>y. lo nc c \<le> y \<and> y < lo nc (Suc c) \<longrightarrow> 0 \<le> y \<and> y < 48"
    using bands_are_the_frame [OF assms(2)] assms(3) by blast
  have r: "\<exists>fb z. fold (solid_fill nc) order st = st\<lparr>so_fb := fb, so_zbuf := z\<rparr> \<and>
    same_row y (fb, Some z) (if 0 \<le> y \<and> y < 48 then ?P else buf st)" for y
    using fill_run [OF assms(1) b, of y] unfolding assms(3) bands_are_the_frame [OF assms(2)] .
  then show "\<exists>fb z. fold (solid_fill nc) order st = st\<lparr>so_fb := fb, so_zbuf := z\<rparr>" by blast
  show "buf (fold (solid_fill nc) order st) = ?P"
  proof (rule same_rows_eq)
    fix y
    have "same_row y (buf st) ?P" if "\<not> (0 \<le> y \<and> y < 48)"
      using that paint_other [OF assms(1), of y 0 48 "so_nrot st" "buf st"] by (auto intro: same_row_sym)
    then have t: "same_row y (if 0 \<le> y \<and> y < 48 then ?P else buf st) ?P" by (simp add: same_row_refl)
    obtain fb z where "fold (solid_fill nc) order st = st\<lparr>so_fb := fb, so_zbuf := z\<rparr>"
      "same_row y (fb, Some z) (if 0 \<le> y \<and> y < 48 then ?P else buf st)" using r [of y] by blast
    then show "same_row y (buf (fold (solid_fill nc) order st)) ?P"
      using t by (simp add: buf_def same_row_trans)
  qed
qed

subsection \<open>The frames of a run\<close>

lemma solid_verts_ok: "verts_ok (map (solid_vertex ax ay) [0..<8])"
  unfolding verts_ok_def
proof (intro allI impI)
  fix i :: nat
  assume i: "i < 8"
  obtain v where v: "g3d_project (g3d_transform (solid_world ax ay) (cube_obj ! i)) (G3D_W div 2) (G3D_H div 2) (g3d_from_int 72) = Some v"
    using solid_in_front [OF i, of ax ay] by (auto simp: g3d_project_def G3D_ONE_def)
  have "vert_ok v" using v by (auto simp: g3d_project_def vert_ok_def wrap32_is_int split: if_splits)
  then show "vert_ok (map (solid_vertex ax ay) [0..<8] ! i)" using v i by (simp add: solid_vertex_def)
qed

text \<open>What one frame does, whichever hart does which part of it.\<close>

definition frame_spec :: "solid_state \<Rightarrow> solid_state" where
  "frame_spec st =
     (let ps = map (solid_vertex (so_angle_x st) (so_angle_y st)) [0..<8];
          ns = map (solid_normal (so_angle_x st) (so_angle_y st)) [0..<12];
          f = paint ps ns 0 48 (buf st) in
      solid_present (st\<lparr>so_projected := ps, so_nrot := ns, so_fb := fst f, so_zbuf := the (snd f)\<rparr>))"

definition tables_ok :: "solid_state \<Rightarrow> bool" where
  "tables_ok st \<longleftrightarrow> length (so_projected st) = 8 \<and> length (so_nrot st) = 12"

lemma frame_spec_ok: "tables_ok (frame_spec st)"
  by (simp add: tables_ok_def frame_spec_def solid_present_def Let_def)

lemma solid_frame_spec:
  assumes "0 < nc" "set order1 = {..<nc}" "set order2 = {..<nc}" "tables_ok st"
  shows "solid_frame nc order1 order2 st = frame_spec st"
proof -
  let ?ps = "map (solid_vertex (so_angle_x st) (so_angle_y st)) [0..<8]"
  let ?ns = "map (solid_normal (so_angle_x st) (so_angle_y st)) [0..<12]"
  let ?st = "st\<lparr>so_projected := ?ps, so_nrot := ?ns\<rparr>"
  have t: "fold (solid_transform nc) order1 st = ?st"
    using assms(4) by (intro solid_transform_all [OF assms(1,2)]) (simp_all add: tables_ok_def)
  have ok: "verts_ok (so_projected ?st)" using solid_verts_ok by simp
  obtain fb z where f: "fold (solid_fill nc) order2 ?st = ?st\<lparr>so_fb := fb, so_zbuf := z\<rparr>"
    using fill_all(2) [OF ok assms(1,3)] by blast
  have "paint ?ps ?ns 0 48 (buf st) = (fb, Some z)"
    using fill_all(1) [OF ok assms(1,3)] unfolding f by (simp add: buf_def)
  then show ?thesis unfolding solid_frame_def t f frame_spec_def Let_def by simp
qed

lemma solid_run_spec:
  assumes "0 < nc" "\<forall>(order1, order2)\<in>set sched. set order1 = {..<nc} \<and> set order2 = {..<nc}"
  shows "solid_run nc sched = (frame_spec ^^ length sched) solid_start"
proof -
  have "fold (\<lambda>(order1, order2). solid_frame nc order1 order2) sched st = (frame_spec ^^ length sched) st"
    if "tables_ok st" for st
    using assms(2) that
    by (induction sched arbitrary: st) (auto simp: solid_frame_spec [OF assms(1)] frame_spec_ok funpow_swap1)
  then show ?thesis unfolding solid_run_def by (simp add: tables_ok_def solid_start_def blank_verts_def)
qed

text \<open>
  C18: the solid-cube demo on any number of harts, whatever order they run their shares of each phase
  in, gives the buffers and sends the bytes that one hart alone gives and sends, frame after frame.
\<close>

theorem solid_run_parallel:
  assumes "0 < nc" "\<forall>(order1, order2)\<in>set sched. set order1 = {..<nc} \<and> set order2 = {..<nc}"
  shows "solid_run nc sched = solid_run 1 (replicate (length sched) ([0], [0]))"
  using solid_run_spec [OF assms] solid_run_spec [of 1 "replicate (length sched) ([0], [0])"]
  by (auto simp: lessThan_Suc)

theorem solid_run_parallel_witness:
  "solid_run 3 [([2, 0, 1], [1, 2, 0]), ([0, 1, 2], [2, 1, 0])] = solid_run 1 [([0], [0]), ([0], [0])]"
  using solid_run_parallel [of 3 "[([2, 0, 1], [1, 2, 0]), ([0, 1, 2], [2, 1, 0])]"]
  by (force simp: numeral_eq_Suc lessThan_Suc)

text \<open>The host test of the 3D library returns success.\<close>

theorem smoke_test_passes: "smoke_main = 0"
  by code_simp

end
