(* ===== verification/Fire.thy ===== *)
theory Fire
  imports Gl_Tty
begin

text \<open>
  The fire demo, \<^verbatim>\<open>src/workloads/demos/mt-fire.c\<close>: an 80 by 50 heat buffer that the harts blur, cool
  and scroll between barriers, and that hart 0 heats and displays. In a phase the harts run in some
  order, each its whole share. An access outside an array is \<open>ReadPastEnd\<close>. The long seeds stay below
  714025, so their arithmetic does not wrap.
\<close>

unbundle bit_operations_syntax

subsection \<open>Arrays and loops\<close>

type_synonym heat = "u8 list"

definition fire_at :: "heat \<Rightarrow> nat \<Rightarrow> lib_error + u8" where
  "fire_at fire i = (if i < length fire then Inr (fire ! i) else Inl ReadPastEnd)"

definition fire_put :: "heat \<Rightarrow> nat \<Rightarrow> u8 \<Rightarrow> lib_error + heat" where
  "fire_put fire i v = (if i < length fire then Inr (fire[i := v]) else Inl ReadPastEnd)"

primrec run_all :: "('a \<Rightarrow> 's \<Rightarrow> lib_error + 's) \<Rightarrow> 'a list \<Rightarrow> 's \<Rightarrow> lib_error + 's" where
  "run_all f [] s = Inr s"
| "run_all f (x # xs) s = (case f x s of Inl e \<Rightarrow> Inl e | Inr s \<Rightarrow> run_all f xs s)"

text \<open>What hart \<open>cid\<close> of \<open>nc\<close> does of \<open>n\<close> items: the last hart takes the remainder.\<close>

definition share :: "nat \<Rightarrow> nat \<Rightarrow> nat \<Rightarrow> nat list" where
  "share n nc cid = (let per = n div nc; start = cid * per in [start..<(if cid = nc - 1 then n else start + per)])"

definition FIRE_W :: nat where "FIRE_W = 80"
definition FIRE_H :: nat where "FIRE_H = 50"

definition palette :: "u8 list list" where
  "palette = map ascii [
     ''0;0;0'', ''0;4;4'', ''0;16;20'', ''0;28;36'', ''0;32;44'', ''0;36;48'', ''60;24;32'', ''100;16;16'',
     ''132;12;12'', ''160;8;8'', ''192;8;8'', ''220;4;4'', ''252;0;0'', ''252;0;0'', ''252;12;0'', ''252;28;0'',
     ''252;40;0'', ''252;52;0'', ''252;64;0'', ''252;80;0'', ''252;92;0'', ''252;104;0'', ''252;116;0'', ''252;132;0'',
     ''252;144;0'', ''252;156;0'', ''252;156;0'', ''252;160;0'', ''252;160;0'', ''252;164;0'', ''252;168;0'', ''252;168;0'',
     ''252;172;0'', ''252;176;0'', ''252;176;0'', ''252;180;0'', ''252;180;0'', ''252;184;0'', ''252;188;0'', ''252;188;0'',
     ''252;192;0'', ''252;196;0'', ''252;196;0'', ''252;200;0'', ''252;204;0'', ''252;204;0'', ''252;208;0'', ''252;212;0'',
     ''252;212;0'', ''252;216;0'', ''252;220;0'', ''252;220;0'', ''252;224;0'', ''252;228;0'', ''252;228;0'', ''252;232;0'',
     ''252;232;0'', ''252;236;0'', ''252;240;0'', ''252;240;0'', ''252;244;0'', ''252;248;0'', ''252;248;0'', ''252;252;0'']
     @ replicate 192 (ascii ''252;252;252'')"

subsection \<open>Blur\<close>

definition third :: "u8 \<Rightarrow> u8 \<Rightarrow> u8 \<Rightarrow> u8" where
  "third a b c = word_of_nat ((unat a + unat b + unat c) div 3)"

text \<open>The count is of the iterations left, so that \<open>i + 2 < nsteps\<close> is \<open>1 < k\<close>.\<close>

primrec blur_loop :: "nat \<Rightarrow> nat \<Rightarrow> nat \<Rightarrow> u8 \<Rightarrow> u8 list \<Rightarrow> heat \<Rightarrow> lib_error + heat" where
  "blur_loop 0 step offset beg circ fire = Inr fire"
| "blur_loop (Suc k) step offset beg circ fire =
     (case fire_put fire offset (third (circ ! 0) (circ ! 1) (circ ! 2)) of
        Inl e \<Rightarrow> Inl e
      | Inr fire \<Rightarrow>
          (case (if 1 < k then fire_at fire (offset + 2 * step) else Inr 0) of
             Inl e \<Rightarrow> Inl e
           | Inr v \<Rightarrow> blur_loop k step (offset + step) (beg + 1) (circ[(unat beg + 2) mod 3 := v]) fire))"

definition line_blur :: "nat \<Rightarrow> nat \<Rightarrow> nat \<Rightarrow> heat \<Rightarrow> lib_error + heat" where
  "line_blur offset step nsteps fire =
     (case fire_at fire offset of Inl e \<Rightarrow> Inl e | Inr a \<Rightarrow>
      case fire_at fire (offset + step) of Inl e \<Rightarrow> Inl e | Inr b \<Rightarrow>
        blur_loop nsteps step offset 1 [0, a, b] fire)"

definition blur_rows :: "nat \<Rightarrow> nat \<Rightarrow> heat \<Rightarrow> lib_error + heat" where
  "blur_rows nc cid = run_all (\<lambda>j. line_blur (j * FIRE_W) 1 FIRE_W) (share FIRE_H nc cid)"

definition blur_cols :: "nat \<Rightarrow> nat \<Rightarrow> heat \<Rightarrow> lib_error + heat" where
  "blur_cols nc cid = run_all (\<lambda>i. line_blur i FIRE_W FIRE_H) (share FIRE_W nc cid)"

subsection \<open>Cooling and heating\<close>

definition myrand :: "nat \<Rightarrow> int list \<Rightarrow> lib_error + int \<times> int list" where
  "myrand cid randomseed =
     (if cid < length randomseed then
        (let r = (randomseed ! cid * 1366 + 150889) smod 714025 in Inr (wrap32 r, randomseed[cid := r]))
      else Inl ReadPastEnd)"

definition cool_pixel :: "nat \<Rightarrow> nat \<Rightarrow> heat \<times> int list \<Rightarrow> lib_error + heat \<times> int list" where
  "cool_pixel cid i = (\<lambda>(fire, seed).
     case myrand cid seed of
       Inl e \<Rightarrow> Inl e
     | Inr (r, seed) \<Rightarrow>
         if r AND 15 \<noteq> 0 then Inr (fire, seed)
         else
           (case fire_at fire i of
              Inl e \<Rightarrow> Inl e
            | Inr v \<Rightarrow> Inr (if v > 0 then fire[i := v - 1] else fire, seed)))"

definition heat_pixel :: "nat \<Rightarrow> nat \<Rightarrow> heat \<times> int list \<Rightarrow> lib_error + heat \<times> int list" where
  "heat_pixel cid i = (\<lambda>(fire, seed).
     let idx = i + (FIRE_H - 1) * FIRE_W in
     case myrand cid seed of
       Inl e \<Rightarrow> Inl e
     | Inr (r, seed) \<Rightarrow>
         if r smod 32 = 0 then
           (case myrand cid seed of
              Inl e \<Rightarrow> Inl e
            | Inr (r, seed) \<Rightarrow>
                (case fire_put fire idx (word_of_int (128 + r smod 128)) of Inl e \<Rightarrow> Inl e | Inr fire \<Rightarrow> Inr (fire, seed)))
         else
           (case fire_at fire idx of Inl e \<Rightarrow> Inl e | Inr v \<Rightarrow> Inr (fire[idx := (if v < 16 then 16 else v)], seed)))"

definition fire_cool :: "nat \<Rightarrow> nat \<Rightarrow> heat \<times> int list \<Rightarrow> lib_error + heat \<times> int list" where
  "fire_cool nc cid st =
     (case run_all (cool_pixel cid) (share (FIRE_W * FIRE_H) nc cid) st of
        Inl e \<Rightarrow> Inl e
      | Inr st \<Rightarrow> if cid = 0 then run_all (heat_pixel cid) [0..<FIRE_W] st else Inr st)"

subsection \<open>Display and scroll\<close>

definition fire_cell :: "heat \<Rightarrow> nat \<Rightarrow> nat \<Rightarrow> tty \<Rightarrow> lib_error + tty" where
  "fire_cell fire j i out =
     (case fire_at fire (i + j * FIRE_W) of Inl e \<Rightarrow> Inl e | Inr c1 \<Rightarrow>
      case fire_at fire (i + (j + 1) * FIRE_W) of Inl e \<Rightarrow> Inl e | Inr c2 \<Rightarrow>
        GL_set2pixelsIhere palette (uint c1) (uint c2) out)"

definition fire_display :: "heat \<Rightarrow> tty \<Rightarrow> lib_error + tty" where
  "fire_display fire =
     andthen GL_home
       (run_all (\<lambda>k. andthen (run_all (fire_cell fire (2 * k)) [0..<FIRE_W]) GL_newline) [0..<FIRE_H div 2])"

definition scroll_pixel :: "nat \<Rightarrow> nat \<Rightarrow> heat \<Rightarrow> lib_error + heat" where
  "scroll_pixel j i fire =
     (case fire_at fire (i + j * FIRE_W) of Inl e \<Rightarrow> Inl e | Inr v \<Rightarrow> fire_put fire (i + (j - 1) * FIRE_W) v)"

definition fire_scroll :: "nat \<Rightarrow> nat \<Rightarrow> heat \<Rightarrow> lib_error + heat" where
  "fire_scroll nc cid =
     (let per = (FIRE_H - 1) div nc; start_j = cid * per + 1; end_j = (if cid = nc - 1 then FIRE_H else start_j + per) in
      run_all (\<lambda>j. run_all (scroll_pixel j) [0..<FIRE_W]) [start_j..<end_j])"

subsection \<open>The frames\<close>

record fire_state =
  fr_fire :: heat
  fr_seed :: "int list"
  fr_out :: tty

definition fire_start :: "lib_error + fire_state" where
  "fire_start = map_sum id (\<lambda>out. \<lparr>fr_fire = replicate (FIRE_W * FIRE_H) 0, fr_seed = [0, 1], fr_out = out\<rparr>) (GL_init [])"

text \<open>Hart 0 displays the buffer before its share of the scrolling, with no barrier in between.\<close>

definition fire_show :: "nat \<Rightarrow> nat \<Rightarrow> fire_state \<Rightarrow> lib_error + fire_state" where
  "fire_show nc cid st =
     (case (if cid = 0 then fire_display (fr_fire st) (fr_out st) else Inr (fr_out st)) of
        Inl e \<Rightarrow> Inl e
      | Inr out \<Rightarrow> map_sum id (\<lambda>fire. st\<lparr>fr_fire := fire, fr_out := out\<rparr>) (fire_scroll nc cid (fr_fire st)))"

definition fire_blur :: "nat \<Rightarrow> nat list \<Rightarrow> nat list \<Rightarrow> heat \<Rightarrow> lib_error + heat" where
  "fire_blur nc order1 order2 fire =
     (case run_all (blur_rows nc) order1 fire of Inl e \<Rightarrow> Inl e | Inr fire \<Rightarrow> run_all (blur_cols nc) order2 fire)"

definition fire_frame :: "nat \<Rightarrow> nat list \<times> nat list \<times> nat list \<times> nat list \<Rightarrow> fire_state \<Rightarrow> lib_error + fire_state" where
  "fire_frame nc orders st =
     (case orders of (order1, order2, order3, order4) \<Rightarrow>
      case fire_blur nc order1 order2 (fr_fire st) of Inl e \<Rightarrow> Inl e | Inr fire \<Rightarrow>
      case run_all (fire_cool nc) order3 (fire, fr_seed st) of Inl e \<Rightarrow> Inl e | Inr (fire, seed) \<Rightarrow>
        run_all (fire_show nc) order4 (st\<lparr>fr_fire := fire, fr_seed := seed\<rparr>))"

subsection \<open>One line\<close>

text \<open>The cells of a line with a border of zeros; cell \<open>s\<close> sits in slot \<open>s mod 3\<close> of the ring.\<close>

definition cell :: "heat \<Rightarrow> nat \<Rightarrow> nat \<Rightarrow> nat \<Rightarrow> nat \<Rightarrow> u8" where
  "cell f off step n s = (if s = 0 \<or> n < s then 0 else f ! (off + (s - 1) * step))"

definition ring_ok :: "heat \<Rightarrow> nat \<Rightarrow> nat \<Rightarrow> nat \<Rightarrow> nat \<Rightarrow> u8 list \<Rightarrow> bool" where
  "ring_ok f off step n i circ \<longleftrightarrow> length circ = 3 \<and> (\<forall>s\<in>{i, i + 1, i + 2}. circ ! (s mod 3) = cell f off step n s)"

lemma mod3_cases: "i mod 3 = 0 \<and> Suc i mod 3 = 1 \<and> Suc (Suc i) mod 3 = 2 \<or> i mod 3 = 1 \<and> Suc i mod 3 = 2 \<and> Suc (Suc i) mod 3 = 0
    \<or> i mod 3 = 2 \<and> Suc i mod 3 = 0 \<and> Suc (Suc i) mod (3 :: nat) = 1"
  by presburger

lemma ring_third:
  "ring_ok f off step n i circ \<Longrightarrow>
     third (circ ! 0) (circ ! 1) (circ ! 2) = third (cell f off step n i) (cell f off step n (i + 1)) (cell f off step n (i + 2))"
  using mod3_cases [of i] by (auto simp: ring_ok_def third_def add_ac)

lemma ring_next:
  assumes "ring_ok f off step n i circ" "j mod 3 = i mod 3"
  shows "ring_ok f off step n (i + 1) (circ[j mod 3 := cell f off step n (i + 3)])"
proof -
  have d: "(i + 1) mod 3 \<noteq> i mod 3" "(i + 2) mod 3 \<noteq> i mod 3" "(i + 3) mod 3 = i mod 3" by presburger+
  have e: "{i + 1, i + 1 + 1, i + 1 + 2} = {i + 1, i + 2, i + 3}" by (simp add: numeral_3_eq_3)
  have "circ[i mod 3 := v] ! ((i + 1) mod 3) = circ ! ((i + 1) mod 3)" "circ[i mod 3 := v] ! ((i + 2) mod 3) = circ ! ((i + 2) mod 3)" for v
    using d by (simp_all only: nth_list_update_neq not_sym)
  moreover have "circ[i mod 3 := v] ! ((i + 3) mod 3) = v" for v using assms(1) unfolding d(3) by (simp add: ring_ok_def)
  ultimately show ?thesis using assms(1) unfolding ring_ok_def e assms(2) by simp
qed

definition blurred_upto :: "heat \<Rightarrow> nat \<Rightarrow> nat \<Rightarrow> nat \<Rightarrow> nat \<Rightarrow> heat \<Rightarrow> bool" where
  "blurred_upto f off step n i g \<longleftrightarrow> length g = length f \<and>
     (\<forall>t<i. g ! (off + t * step) = third (cell f off step n t) (cell f off step n (t + 1)) (cell f off step n (t + 2))) \<and>
     (\<forall>p<length f. (\<forall>t<i. p \<noteq> off + t * step) \<longrightarrow> g ! p = f ! p)"

lemma blurred_put:
  assumes "blurred_upto f off step n i g" "0 < step" "off + i * step < length f"
    "v = third (cell f off step n i) (cell f off step n (i + 1)) (cell f off step n (i + 2))"
  shows "blurred_upto f off step n (Suc i) (g[off + i * step := v])"
  using assms by (auto simp: blurred_upto_def less_Suc_eq nth_list_update)

lemma blur_loop_correct:
  assumes "0 < step" "n < 254" "off + (n - 1) * step < length f"
  shows "i + k = n \<Longrightarrow> ring_ok f off step n i circ \<Longrightarrow> blurred_upto f off step n i g \<Longrightarrow>
    \<exists>h. blur_loop k step (off + i * step) (word_of_nat (i + 1)) circ g = Inr h \<and> blurred_upto f off step n n h"
proof (induction k arbitrary: i circ g)
  case 0
  then show ?case by simp
next
  case (Suc k)
  let ?v = "third (cell f off step n i) (cell f off step n (i + 1)) (cell f off step n (i + 2))"
  let ?g = "g[off + i * step := ?v]"
  have len: "length g = length f" using Suc.prems(3) by (simp add: blurred_upto_def)
  have "i * step \<le> (n - 1) * step" using Suc.prems(1) by (intro mult_le_mono1) simp
  then have i: "off + i * step < length f" using assms(3) by linarith
  have g: "blurred_upto f off step n (i + 1) ?g"
    using blurred_put [OF Suc.prems(3) assms(1) i refl] by (simp only: Suc_eq_plus1)
  have next_cell: "(if 1 < k then fire_at ?g (off + i * step + 2 * step) else Inr 0) = Inr (cell f off step n (i + 3))"
  proof (cases "1 < k")
    case True
    have e: "off + i * step + 2 * step = off + (i + 2) * step" by (simp add: algebra_simps)
    have "(i + 2) * step \<le> (n - 1) * step" using Suc.prems(1) True by (intro mult_le_mono1) simp
    then have b: "off + (i + 2) * step < length f" using assms(3) by linarith
    have "\<forall>t<i + 1. off + (i + 2) * step \<noteq> off + t * step"
      using assms(1) by (simp only: add_left_cancel mult_cancel2) simp
    then have "?g ! (off + (i + 2) * step) = f ! (off + (i + 2) * step)" using g b by (simp add: blurred_upto_def)
    then show ?thesis using True b len Suc.prems(1) unfolding e by (simp add: fire_at_def cell_def numeral_3_eq_3)
  qed (use Suc.prems(1) in \<open>simp add: cell_def\<close>)
  have u: "unat (word_of_nat (i + 1) :: u8) = i + 1"
    using assms(2) Suc.prems(1) by (subst unat_of_nat) simp
  have r: "ring_ok f off step n (i + 1) (circ[(unat (word_of_nat (i + 1) :: u8) + 2) mod 3 := cell f off step n (i + 3)])"
    unfolding u by (rule ring_next [OF Suc.prems(2)]) simp
  have o: "off + i * step + step = off + (i + 1) * step" and b: "word_of_nat (i + 1) + 1 = (word_of_nat (i + 1 + 1) :: u8)"
    by simp_all
  have put: "fire_put g (off + i * step) (third (circ ! 0) (circ ! 1) (circ ! 2)) = Inr ?g"
    unfolding ring_third [OF Suc.prems(2)] using i len by (simp add: fire_put_def)
  have "blur_loop (Suc k) step (off + i * step) (word_of_nat (i + 1)) circ g = blur_loop k step (off + (i + 1) * step)
      (word_of_nat (i + 1 + 1)) (circ[(unat (word_of_nat (i + 1) :: u8) + 2) mod 3 := cell f off step n (i + 3)]) ?g"
    by (simp only: blur_loop.simps put sum.case next_cell o b)
  then show ?case using Suc.IH [OF _ r g] Suc.prems(1) by (simp only: add_Suc_right Suc_eq_plus1 add_ac)
qed

lemma line_blur_correct:
  assumes "0 < step" "2 \<le> n" "n < 254" "off + (n - 1) * step < length f"
  shows "\<exists>h. line_blur off step n f = Inr h \<and> blurred_upto f off step n n h"
proof -
  have "1 * step \<le> (n - 1) * step" using assms(2) by (intro mult_le_mono1) simp
  then have b: "off < length f" "off + step < length f" using assms(4) by linarith+
  have "ring_ok f off step n 0 [0, f ! off, f ! (off + step)]"
    using assms(2) by (simp add: ring_ok_def cell_def)
  moreover have "blurred_upto f off step n 0 f" by (simp add: blurred_upto_def)
  ultimately show ?thesis
    using blur_loop_correct [OF assms(1,3,4), of 0 n] b by (simp add: line_blur_def fire_at_def)
qed

subsection \<open>The shares of the harts\<close>

lemma run_all_append: "run_all f (xs @ ys) s = (case run_all f xs s of Inl e \<Rightarrow> Inl e | Inr s \<Rightarrow> run_all f ys s)"
  by (induction xs arbitrary: s) (simp_all split: sum.splits)

lemma run_all_concat: "run_all (\<lambda>c. run_all f (g c)) cs s = run_all f (concat (map g cs)) s"
  by (induction cs arbitrary: s) (simp_all add: run_all_append split: sum.splits)

lemma in_share:
  assumes "cid < nc"
  shows "x \<in> set (share n nc cid) \<longleftrightarrow> x < n \<and> cid * (n div nc) \<le> x \<and> (x < (cid + 1) * (n div nc) \<or> cid = nc - 1)"
proof -
  have "(cid + 1) * (n div nc) \<le> nc * (n div nc)" using assms by (intro mult_le_mono1) simp
  then have "(cid + 1) * (n div nc) \<le> n" using times_div_less_eq_dividend [of nc n] by linarith
  then show ?thesis by (auto simp: share_def Let_def)
qed

lemma share_owner:
  assumes "0 < nc" "x < n"
  shows "\<exists>cid<nc. x \<in> set (share n nc cid)"
proof (cases "x < (nc - 1) * (n div nc)")
  case True
  let ?c = "x div (n div nc)"
  have d: "0 < n div nc" using True by (cases "n div nc = 0") auto
  have c: "?c < nc - 1" using True d by (simp add: div_less_iff_less_mult)
  have "?c * (n div nc) \<le> x" "x < (?c + 1) * (n div nc)"
    using d div_mult_mod_eq [of x "n div nc"] mod_less_divisor [OF d, of x] by (simp, simp add: dividend_less_times_div)
  then show ?thesis using in_share [of ?c nc x n] c assms by (intro exI [of _ ?c]) auto
next
  case False
  then show ?thesis using in_share [of "nc - 1" nc x n] assms by (intro exI [of _ "nc - 1"]) auto
qed

lemma share_unique:
  assumes "c < nc" "d < nc" "x \<in> set (share n nc c)" "x \<in> set (share n nc d)"
  shows "c = d"
proof -
  have "a = b" if "a \<le> b" "b < nc" "x \<in> set (share n nc a)" "x \<in> set (share n nc b)" for a b
  proof (rule ccontr)
    assume "a \<noteq> b"
    then have "(a + 1) * (n div nc) \<le> b * (n div nc)" using that(1) by (intro mult_le_mono1) simp
    then show False using that \<open>a \<noteq> b\<close> in_share [of a nc x n] in_share [of b nc x n] by auto
  qed
  from this [of c d] this [of d c] show ?thesis using assms by (cases "c \<le> d") auto
qed

lemma distinct_concat_map:
  "distinct cs \<Longrightarrow> (\<And>c. c \<in> set cs \<Longrightarrow> distinct (g c)) \<Longrightarrow>
     (\<And>c d x. c \<in> set cs \<Longrightarrow> d \<in> set cs \<Longrightarrow> x \<in> set (g c) \<Longrightarrow> x \<in> set (g d) \<Longrightarrow> c = d) \<Longrightarrow> distinct (concat (map g cs))"
proof (induction cs)
  case (Cons c cs)
  have "x \<notin> set (g d)" if "x \<in> set (g c)" "d \<in> set cs" for x d
    using Cons.prems(1) Cons.prems(3) [of c d x] that by auto
  moreover have "distinct (concat (map g cs))"
    using Cons.prems(1,2) by (intro Cons.IH) (auto intro: Cons.prems(3))
  ultimately show ?case using Cons.prems(2) [of c] by auto
qed simp

lemma shares_all:
  assumes "0 < nc" "distinct order" "set order = {..<nc}"
  shows "distinct (concat (map (share n nc) order))" "set (concat (map (share n nc) order)) = {..<n}"
proof -
  show "distinct (concat (map (share n nc) order))"
  proof (rule distinct_concat_map [OF assms(2)])
    show "distinct (share n nc c)" for c by (simp add: share_def Let_def)
    show "c = d" if "c \<in> set order" "d \<in> set order" "x \<in> set (share n nc c)" "x \<in> set (share n nc d)" for c d x
      by (rule share_unique [OF _ _ that(3,4)]) (use that(1,2) assms(3) in auto)
  qed
  show "set (concat (map (share n nc) order)) = {..<n}"
  proof (rule set_eqI)
    fix x
    show "x \<in> set (concat (map (share n nc) order)) \<longleftrightarrow> x \<in> {..<n}"
      using share_owner [OF assms(1), of x n] in_share [of _ nc x n] assms(3) by (auto simp del: in_set_conv_nth)
  qed
qed

subsection \<open>Passes over the lines of the buffer\<close>

type_synonym grid = "int \<Rightarrow> int \<Rightarrow> u8"

definition inside :: "int \<Rightarrow> int \<Rightarrow> bool" where
  "inside x y \<longleftrightarrow> 0 \<le> x \<and> x < 80 \<and> 0 \<le> y \<and> y < 50"

definition grid :: "heat \<Rightarrow> grid" where
  "grid f x y = (if inside x y then f ! nat (x + y * 80) else 0)"

definition hblur :: "grid \<Rightarrow> grid" where
  "hblur G x y = (if inside x y then third (G (x - 1) y) (G x y) (G (x + 1) y) else 0)"

definition vblur :: "grid \<Rightarrow> grid" where
  "vblur G x y = (if inside x y then third (G x (y - 1)) (G x y) (G x (y + 1)) else 0)"

text \<open>A pass: an operation per line, that changes that line only and reads no other.\<close>

locale line_pass =
  fixes pass :: "nat \<Rightarrow> heat \<Rightarrow> lib_error + heat" and B :: "grid \<Rightarrow> grid" and line :: "int \<Rightarrow> int \<Rightarrow> int" and m :: nat
  assumes pass_line: "j < m \<Longrightarrow> length f = 4000 \<Longrightarrow>
      \<exists>h. pass j f = Inr h \<and> length h = 4000 \<and> grid h = (\<lambda>x y. if line x y = int j then B (grid f) x y else grid f x y)"
    and local: "(\<And>x' y'. line x' y' = line x y \<Longrightarrow> G x' y' = G' x' y') \<Longrightarrow> B G x y = B G' x y"
    and outside: "\<not> (0 \<le> line x y \<and> line x y < int m) \<Longrightarrow> B (grid f) x y = grid f x y"
begin

lemma lines_run:
  "distinct js \<Longrightarrow> set js \<subseteq> {..<m} \<Longrightarrow> length f = 4000 \<Longrightarrow>
     \<exists>h. run_all pass js f = Inr h \<and> length h = 4000 \<and>
       grid h = (\<lambda>x y. if line x y \<in> int ` set js then B (grid f) x y else grid f x y)"
proof (induction js arbitrary: f)
  case (Cons j js)
  obtain g where g: "pass j f = Inr g" "length g = 4000"
    "grid g = (\<lambda>x y. if line x y = int j then B (grid f) x y else grid f x y)"
    using pass_line [of j f] Cons.prems by auto
  obtain h where h: "run_all pass js g = Inr h" "length h = 4000"
    "grid h = (\<lambda>x y. if line x y \<in> int ` set js then B (grid g) x y else grid g x y)"
    using Cons.IH [of g] Cons.prems g(2) by auto
  have same: "B (grid g) x y = B (grid f) x y" if "line x y \<noteq> int j" for x y
    by (rule local) (use that in \<open>simp add: g(3)\<close>)
  have gv: "grid g x y = (if line x y = int j then B (grid f) x y else grid f x y)" for x y by (simp add: g(3))
  have nj: "int j \<notin> int ` set js" using Cons.prems(1) by auto
  have "grid h = (\<lambda>x y. if line x y \<in> int ` set (j # js) then B (grid f) x y else grid f x y)"
  proof (intro ext)
    fix x y
    show "grid h x y = (if line x y \<in> int ` set (j # js) then B (grid f) x y else grid f x y)"
      using nj same [of x y] unfolding h(3) by (cases "line x y = int j") (simp_all add: gv)
  qed
  then show ?case using g(1) h by simp
qed simp

lemma all_lines:
  assumes "0 < nc" "distinct order" "set order = {..<nc}" "length f = 4000"
  shows "\<exists>h. run_all (\<lambda>cid. run_all pass (share m nc cid)) order f = Inr h \<and> length h = 4000 \<and> grid h = B (grid f)"
proof -
  note all = shares_all [OF assms(1-3), of m]
  obtain h where h: "run_all pass (concat (map (share m nc) order)) f = Inr h" "length h = 4000"
    "grid h = (\<lambda>x y. if line x y \<in> int ` {..<m} then B (grid f) x y else grid f x y)"
    using lines_run [OF all(1) _ assms(4)] unfolding all(2) by blast
  have "k \<in> int ` {..<m} \<longleftrightarrow> 0 \<le> k \<and> k < int m" for k
    by (auto simp: image_iff intro!: bexI [of _ "nat k"])
  then have "grid h = B (grid f)" using outside unfolding h(3) by (auto simp: fun_eq_iff)
  then show ?thesis unfolding run_all_concat using h by blast
qed

end

lemma grid_nat: "x < 80 \<Longrightarrow> y < 50 \<Longrightarrow> grid f (int x) (int y) = f ! (x + y * 80)"
proof -
  assume a: "x < 80" "y < 50"
  have "int x + int y * 80 = int (x + y * 80)" by simp
  then have "nat (int x + int y * 80) = x + y * 80" by (simp only: nat_int)
  then show ?thesis using a by (simp add: grid_def inside_def)
qed

lemma grid_eqI:
  assumes "\<And>x y. x < 80 \<Longrightarrow> y < 50 \<Longrightarrow> h ! (x + y * 80) = F (int x) (int y)" "\<And>x y. \<not> inside x y \<Longrightarrow> F x y = 0"
  shows "grid h = F"
proof (intro ext)
  fix x y
  show "grid h x y = F x y"
  proof (cases "inside x y")
    case True
    then obtain a b where "x = int a" "y = int b" "a < 80" "b < 50"
      by (metis inside_def int_eq_iff of_nat_less_iff of_nat_numeral zero_le_imp_eq_int)
    then show ?thesis using assms(1) by (simp add: grid_nat)
  qed (simp add: assms(2) grid_def)
qed

lemma grid_outside: "\<not> inside x y \<Longrightarrow> grid f x y = 0"
  by (simp add: grid_def)

lemma row_cell: "j < 50 \<Longrightarrow> s \<le> 81 \<Longrightarrow> cell f (j * 80) 1 80 s = grid f (int s - 1) (int j)"
proof (cases s)
  case (Suc t)
  assume a: "j < 50" "s \<le> 81"
  show ?thesis
  proof (cases "t < 80")
    case True
    then show ?thesis using a Suc grid_nat [of t j f] by (simp add: cell_def add.commute)
  qed (use a Suc in \<open>simp add: cell_def grid_outside inside_def\<close>)
qed (simp add: cell_def grid_outside inside_def)

lemma col_cell: "i < 80 \<Longrightarrow> s \<le> 51 \<Longrightarrow> cell f i 80 50 s = grid f (int i) (int s - 1)"
proof (cases s)
  case (Suc t)
  assume a: "i < 80" "s \<le> 51"
  show ?thesis
  proof (cases "t < 50")
    case True
    then show ?thesis using a Suc grid_nat [of i t f] by (simp add: cell_def)
  qed (use a Suc in \<open>simp add: cell_def grid_outside inside_def\<close>)
qed (simp add: cell_def grid_outside inside_def)

lemma row_pass:
  assumes "j < 50" "length f = 4000"
  shows "\<exists>h. line_blur (j * FIRE_W) 1 FIRE_W f = Inr h \<and> length h = 4000 \<and>
    grid h = (\<lambda>x y. if y = int j then hblur (grid f) x y else grid f x y)"
proof -
  obtain h where h: "line_blur (j * 80) 1 80 f = Inr h" "blurred_upto f (j * 80) 1 80 80 h"
    using line_blur_correct [of 1 80 "j * 80" f] assms by auto
  have on: "h ! (x + j * 80) = hblur (grid f) (int x) (int j)" if "x < 80" for x
    using h(2) that assms(1) row_cell [of j x f] row_cell [of j "x + 1" f] row_cell [of j "x + 2" f]
    by (simp add: blurred_upto_def hblur_def inside_def add.commute)
  have off: "h ! (x + y * 80) = grid f (int x) (int y)" if "x < 80" "y < 50" "y \<noteq> j" for x y
  proof -
    have "\<forall>t<80. x + y * 80 \<noteq> j * 80 + t * 1" using that by auto
    then show ?thesis using h(2) that assms(2) by (simp add: blurred_upto_def grid_nat)
  qed
  have "grid h = (\<lambda>x y. if y = int j then hblur (grid f) x y else grid f x y)"
    by (rule grid_eqI) (auto simp: on off hblur_def grid_outside)
  then show ?thesis using h assms(2) by (simp add: FIRE_W_def blurred_upto_def)
qed

lemma col_pass:
  assumes "i < 80" "length f = 4000"
  shows "\<exists>h. line_blur i FIRE_W FIRE_H f = Inr h \<and> length h = 4000 \<and>
    grid h = (\<lambda>x y. if x = int i then vblur (grid f) x y else grid f x y)"
proof -
  obtain h where h: "line_blur i 80 50 f = Inr h" "blurred_upto f i 80 50 50 h"
    using line_blur_correct [of 80 50 i f] assms by auto
  have on: "h ! (i + y * 80) = vblur (grid f) (int i) (int y)" if "y < 50" for y
    using h(2) that assms(1)
    by (simp add: blurred_upto_def col_cell vblur_def inside_def add.commute)
  have off: "h ! (x + y * 80) = grid f (int x) (int y)" if "x < 80" "y < 50" "x \<noteq> i" for x y
  proof -
    have "(x + y * 80) mod 80 = x" "(i + t * 80) mod 80 = i" for t using that assms(1) by simp_all
    then have "\<forall>t<50. x + y * 80 \<noteq> i + t * 80" using that(3) by metis
    then show ?thesis using h(2) that assms(2) by (simp add: blurred_upto_def grid_nat)
  qed
  have "grid h = (\<lambda>x y. if x = int i then vblur (grid f) x y else grid f x y)"
    by (rule grid_eqI) (auto simp: on off vblur_def grid_outside)
  then show ?thesis using h assms(2) by (simp add: FIRE_W_def FIRE_H_def blurred_upto_def)
qed

interpretation rows: line_pass "\<lambda>j. line_blur (j * FIRE_W) 1 FIRE_W" hblur "\<lambda>x y. y" 50
  by unfold_locales (simp only: row_pass, auto simp: hblur_def grid_outside inside_def)

interpretation cols: line_pass "\<lambda>i. line_blur i FIRE_W FIRE_H" vblur "\<lambda>x y. x" 80
  by unfold_locales (simp only: col_pass, auto simp: vblur_def grid_outside inside_def)

text \<open>
  C21: the two blur phases, on any number of harts in any orders, stay inside the buffer and give the
  box blur of the whole image: the mean of three neighbours in each row, then in each column, of the
  values before the phase, with zeros outside the image.
\<close>

theorem fire_blur_parallel:
  assumes "0 < nc" "distinct order1" "set order1 = {..<nc}" "distinct order2" "set order2 = {..<nc}"
    and "length fire = FIRE_W * FIRE_H"
  shows "\<exists>h. fire_blur nc order1 order2 fire = Inr h \<and> length h = FIRE_W * FIRE_H \<and> grid h = vblur (hblur (grid fire))"
proof -
  have l: "length fire = 4000" using assms(6) by (simp add: FIRE_W_def FIRE_H_def)
  obtain g where g: "run_all (blur_rows nc) order1 fire = Inr g" "length g = 4000" "grid g = hblur (grid fire)"
    using rows.all_lines [OF assms(1-3) l] by (auto simp: blur_rows_def [abs_def] FIRE_H_def)
  obtain h where "run_all (blur_cols nc) order2 g = Inr h" "length h = 4000" "grid h = vblur (grid g)"
    using cols.all_lines [OF assms(1,4,5) g(2)] by (auto simp: blur_cols_def [abs_def] FIRE_W_def)
  then show ?thesis using g by (simp add: fire_blur_def FIRE_W_def FIRE_H_def)
qed

theorem fire_blur_parallel_witness:
  "\<exists>h. fire_blur 4 [2, 0, 3, 1] [1, 3, 0, 2] (replicate 4000 90) = Inr h \<and> h ! 0 = 40"
proof -
  have s: "{2, 0, 3, 1} = {..<4 :: nat}" "{1, 3, 0, 2} = {..<4 :: nat}" by auto
  obtain h where h: "fire_blur 4 [2, 0, 3, 1] [1, 3, 0, 2] (replicate 4000 90) = Inr h"
    "grid h = vblur (hblur (grid (replicate 4000 90)))"
    using fire_blur_parallel [of 4 "[2, 0, 3, 1]" "[1, 3, 0, 2]" "replicate 4000 90"] s
    by (auto simp: FIRE_W_def FIRE_H_def)
  have "h ! 0 = grid h 0 0" by (simp add: grid_def inside_def)
  also have "\<dots> = 40" unfolding h(2) by (simp add: vblur_def hblur_def grid_def inside_def third_def)
  finally show ?thesis using h(1) by blast
qed

subsection \<open>Scrolling depends on the order of the harts\<close>

lemma scroll_pixels:
  assumes "1 \<le> j" "j < 50" "length f = 4000"
  shows "k \<le> 80 \<Longrightarrow> \<exists>h. run_all (scroll_pixel j) [0..<k] f = Inr h \<and> length h = 4000 \<and>
    (\<forall>p<4000. h ! p = (if (j - 1) * 80 \<le> p \<and> p < (j - 1) * 80 + k then f ! (p + 80) else f ! p))"
proof (induction k)
  case 0
  then show ?case using assms(3) by auto
next
  case (Suc k)
  then obtain h where h: "run_all (scroll_pixel j) [0..<k] f = Inr h" "length h = 4000"
    "\<forall>p<4000. h ! p = (if (j - 1) * 80 \<le> p \<and> p < (j - 1) * 80 + k then f ! (p + 80) else f ! p)" by auto
  obtain i where i: "j = Suc i" using assms(1) by (cases j) auto
  have b: "k + j * 80 < 4000" "k + (j - 1) * 80 < 4000" using Suc.prems assms(2) i by auto
  have "scroll_pixel j k h = Inr (h[k + (j - 1) * 80 := f ! (k + j * 80)])"
    using h(2,3) b i by (simp add: scroll_pixel_def fire_at_def fire_put_def FIRE_W_def)
  then show ?case using h b i by (auto simp: run_all_append nth_list_update add_ac)
qed

definition shift_up :: "int \<Rightarrow> int \<Rightarrow> grid \<Rightarrow> grid" where
  "shift_up a b G x y = (if a \<le> y \<and> y < b then G x (y + 1) else G x y)"

lemma scroll_row:
  assumes "1 \<le> j" "j < 50" "length f = 4000"
  shows "\<exists>h. run_all (scroll_pixel j) [0..<FIRE_W] f = Inr h \<and> length h = 4000 \<and> grid h = shift_up (int j - 1) (int j) (grid f)"
proof -
  obtain h where h: "run_all (scroll_pixel j) [0..<80] f = Inr h" "length h = 4000"
    "\<forall>p<4000. h ! p = (if (j - 1) * 80 \<le> p \<and> p < (j - 1) * 80 + 80 then f ! (p + 80) else f ! p)"
    using scroll_pixels [OF assms, of 80] by auto
  obtain i where i: "j = Suc i" using assms(1) by (cases j) auto
  have "h ! (x + y * 80) = (if y = i then f ! (x + Suc y * 80) else f ! (x + y * 80))" if "x < 80" "y < 50" for x y
  proof -
    have "i * 80 \<le> x + y * 80 \<and> x + y * 80 < i * 80 + 80 \<longleftrightarrow> y = i" using that by auto
    then show ?thesis using h(3) that i by (simp add: add_ac)
  qed
  moreover have "grid f (int x) (int i + 1) = f ! (x + Suc i * 80)" if "x < 80" for x
    using grid_nat [of x j f] that assms(2) i by (simp add: add_ac)
  ultimately have "grid h = shift_up (int j - 1) (int j) (grid f)"
    using assms(2) i by (intro grid_eqI) (auto simp: shift_up_def grid_nat grid_outside inside_def)
  then show ?thesis using h by (simp add: FIRE_W_def)
qed

lemma scroll_rows:
  assumes "1 \<le> a" "a \<le> b" "b \<le> 50" "length f = 4000"
  shows "\<exists>h. run_all (\<lambda>j. run_all (scroll_pixel j) [0..<FIRE_W]) [a..<b] f = Inr h \<and> length h = 4000 \<and>
    grid h = shift_up (int a - 1) (int b - 1) (grid f)"
  using assms(2,3)
proof (induction b rule: dec_induct)
  case base
  then show ?case using assms(4) by (auto simp: shift_up_def fun_eq_iff)
next
  case (step b)
  then obtain g where g: "run_all (\<lambda>j. run_all (scroll_pixel j) [0..<FIRE_W]) [a..<b] f = Inr g" "length g = 4000"
    "grid g = shift_up (int a - 1) (int b - 1) (grid f)" by auto
  obtain h where "run_all (scroll_pixel b) [0..<FIRE_W] g = Inr h" "length h = 4000"
    "grid h = shift_up (int b - 1) (int b) (grid g)" using scroll_row [of b g] step assms(1) g(2) by auto
  moreover have "shift_up (int b - 1) (int b) (grid g) = shift_up (int a - 1) (int (Suc b) - 1) (grid f)"
    using step.hyps unfolding g(3) by (auto simp: shift_up_def fun_eq_iff)
  ultimately show ?case using step.hyps g by (simp add: run_all_append)
qed

text \<open>The hart below must not overtake the one above: of two harts in the wrong order, row 23 gets row 25.\<close>

theorem fire_scroll_race:
  assumes "length f = 4000"
  shows "\<exists>h. run_all (fire_scroll 2) [0, 1] f = Inr h \<and> grid h = shift_up 0 49 (grid f)"
    and "\<exists>h. run_all (fire_scroll 2) [1, 0] f = Inr h \<and> grid h x 23 = grid f x 25"
proof -
  let ?R = "\<lambda>j. run_all (scroll_pixel j) [0..<FIRE_W]"
  have s: "fire_scroll 2 0 = run_all ?R [1..<25]" "fire_scroll 2 1 = run_all ?R [25..<50]"
    by (simp_all add: fire_scroll_def FIRE_H_def Let_def del: upt_Suc upt_rec_numeral)
  obtain g where g: "run_all ?R [1..<25] f = Inr g" "length g = 4000" "grid g = shift_up 0 24 (grid f)"
    using scroll_rows [of 1 25 f] assms by auto
  obtain h where h: "run_all ?R [25..<50] g = Inr h" "grid h = shift_up 24 49 (grid g)"
    using scroll_rows [of 25 50 g] g(2) by auto
  have "grid h = shift_up 0 49 (grid f)" unfolding h(2) g(3) by (auto simp: shift_up_def fun_eq_iff)
  then show "\<exists>h. run_all (fire_scroll 2) [0, 1] f = Inr h \<and> grid h = shift_up 0 49 (grid f)"
    using g(1) h(1) by (simp only: run_all.simps s sum.case) blast
  obtain g where g: "run_all ?R [25..<50] f = Inr g" "length g = 4000" "grid g = shift_up 24 49 (grid f)"
    using scroll_rows [of 25 50 f] assms by auto
  obtain h where h: "run_all ?R [1..<25] g = Inr h" "grid h = shift_up 0 24 (grid g)"
    using scroll_rows [of 1 25 g] g(2) by auto
  have "grid h x 23 = grid f x 25" unfolding h(2) g(3) by (simp add: shift_up_def)
  then show "\<exists>h. run_all (fire_scroll 2) [1, 0] f = Inr h \<and> grid h x 23 = grid f x 25"
    using g(1) h(1) by (simp only: run_all.simps s sum.case) blast
qed

subsection \<open>Two seeds for four harts\<close>

text \<open>A third hart has no seed of its own: its first draw is outside the array.\<close>

theorem fire_seed_missing:
  assumes "2 \<le> cid" "cid < nc" "nc \<le> 4000" "length seed = 2"
  shows "fire_cool nc cid (fire, seed) = Inl ReadPastEnd"
proof -
  have d: "0 < 4000 div nc" using assms by (simp add: div_greater_zero_iff)
  have "(cid + 1) * (4000 div nc) \<le> nc * (4000 div nc)" using assms(2) by (intro mult_le_mono1) simp
  then have "cid * (4000 div nc) < 4000"
    using d times_div_less_eq_dividend [of nc 4000] unfolding distrib_right by linarith
  then have "cid * (4000 div nc) \<in> set (share 4000 nc cid)" using in_share [OF assms(2), of _ 4000] d by simp
  then obtain i js where "share 4000 nc cid = i # js" by (cases "share 4000 nc cid") auto
  then show ?thesis using assms(1,4) by (simp add: fire_cool_def FIRE_W_def FIRE_H_def cool_pixel_def myrand_def)
qed

end
