(* ===== verification/Lockstep_Single.thy ===== *)
theory Lockstep_Single
  imports Lockstep_Correct Harness_Common
begin

text \<open>
  The single-core lock-step programs, \<^verbatim>\<open>src/sim/harness/lockstep.cpp\<close> for benchmarks and
  \<^verbatim>\<open>src/sim/harness/lockstep_isa.cpp\<close> for the ISA tests, which share all but the test at the end of the
  loop. The loop takes one entry of the list of keys per iteration, what \<open>kbhit\<close> and \<open>getchar\<close> gave, and
  \<open>None\<close> is its result when the list ends first. The window of CSR instructions is bounded as in the
  four-hart harnesses. Messages and log files are left out, but not the fetches of the golden model
  that they cause.
\<close>

unbundle bit_operations_syntax

subsection \<open>State\<close>

record keystroke_buffer =
  ks_reader :: u8
  ks_writer :: u8
  ks_chars :: "u8 list"

record 'v single =
  sg_golden :: emulator
  sg_bench :: "'v simulator"
  sg_keys :: keystroke_buffer
  count_start :: u64
  count_stop :: u64

text \<open>An error is an abort of the golden model, a run of CSRs past the bound, or a key stored past the buffer.\<close>

datatype sg_error = Stepping ls_error | KeyOverrun

datatype sg_end = SgPass "u64 option" | SgPcMismatch | SgRegMismatch int | SgTimeout | SgIrqTimeout | SgIsaFail

definition PROBE_DOUBLE :: u64 where
  "PROBE_DOUBLE = (0xCA3BF0 + (- 136)) AND NOT 7"

definition trying :: "ls_error + 'a \<Rightarrow> ('a \<Rightarrow> sg_error + 'b) \<Rightarrow> sg_error + 'b" where
  "trying m f = (case m of Inl x \<Rightarrow> Inl (Stepping x) | Inr x \<Rightarrow> f x)"

definition calling :: "abort + 'a \<Rightarrow> ('a \<Rightarrow> sg_error + 'b) \<Rightarrow> sg_error + 'b" where
  "calling m f = (case m of Inl x \<Rightarrow> Inl (Stepping (Golden x)) | Inr x \<Rightarrow> f x)"

definition sg_begin :: "'v vsystem \<Rightarrow> nat \<Rightarrow> emulator \<Rightarrow> 'v simulator \<Rightarrow> 'v single" where
  "sg_begin V step_timeout e b =
     \<lparr>sg_golden = e,
      sg_bench = snd (run_until_commit V False False step_timeout (set_probe V PROBE_DOUBLE b)),
      sg_keys = \<lparr>ks_reader = 0, ks_writer = 0, ks_chars = replicate 128 0\<rparr>, count_start = 0, count_stop = 0\<rparr>"

subsection \<open>One iteration\<close>

definition key_in :: "u8 \<Rightarrow> keystroke_buffer \<Rightarrow> sg_error + keystroke_buffer" where
  "key_in c k =
     (if unat (ks_writer k) < length (ks_chars k) then
        (let k = k\<lparr>ks_chars := (ks_chars k)[unat (ks_writer k) := c], ks_writer := ks_writer k + 1\<rparr> in
         Inr (k\<lparr>ks_reader := ks_reader k + of_bool (ks_reader k = ks_writer k)\<rparr>))
      else Inl KeyOverrun)"

definition poll_key :: "u8 option \<Rightarrow> 'v single \<Rightarrow> sg_error + 'v single" where
  "poll_key kbd st =
     (case kbd of
        None \<Rightarrow> Inr st
      | Some c \<Rightarrow> (case key_in c (sg_keys st) of Inl x \<Rightarrow> Inl x | Inr k \<Rightarrow> Inr (st\<lparr>sg_keys := k\<rparr>)))"

text \<open>After a register mismatch the harness runs five more commits for the waveform.\<close>

definition sg_compare :: "'v vsystem \<Rightarrow> nat \<Rightarrow> 'v single \<Rightarrow> sg_error + sg_end option \<times> 'v single" where
  "sg_compare V step_timeout st =
     (let g = harts (sg_golden st) ! 0; b = sg_bench st in
      if prev_pc b \<noteq> PC g then
        calling (emu_get_instruction 0 (sg_golden st)) (\<lambda>(_, e). Inr (Some SgPcMismatch, st\<lparr>sg_golden := e\<rparr>))
      else
        (let bad = check_registers V 0 (reg_file g) (mstatus_read_reg (mstatus g)) b in
         if bad \<noteq> 0 then
           Inr (Some (SgRegMismatch bad), st\<lparr>sg_bench := ((\<lambda>b. snd (run_until_commit V False True step_timeout b)) ^^ 5) b\<rparr>)
         else Inr (None, st)))"

fun golden_csrs :: "nat \<Rightarrow> emulator \<Rightarrow> ls_error + emulator" where
  "golden_csrs 0 e = Inl CsrRunaway"
| "golden_csrs (Suc n) e =
     attempt (emu_get_instruction 0 e) (\<lambda>(w, e).
       if w AND 0x7f \<noteq> 0x73 then Inr e
       else attempt (emu_get_instruction 0 e) (\<lambda>(w, e).
         if w AND 0x7000 = 0 then Inr e
         else attempt (Emulator.step True e) (golden_csrs n)))"

definition golden_advance :: "nat \<Rightarrow> 'v single \<Rightarrow> sg_error + 'v single" where
  "golden_advance n st =
     trying (attempt (Emulator.step True (sg_golden st)) (golden_csrs n)) (\<lambda>e. Inr (st\<lparr>sg_golden := e\<rparr>))"

definition sg_advance :: "'v vsystem \<Rightarrow> nat \<Rightarrow> nat \<Rightarrow> bool \<Rightarrow> 'v single \<Rightarrow> sg_error + sg_end option \<times> 'v single" where
  "sg_advance V step_timeout n dump_waves st =
     (case run_until_commit V False dump_waves step_timeout (sg_bench st) of
        (x, b) \<Rightarrow>
          let st = st\<lparr>sg_bench := b\<rparr> in
          if x = 1 then Inr (Some SgTimeout, st)
          else if x = 0 then map_sum id (Pair None) (golden_advance n st)
          else
            (case run_until_commit V False dump_waves step_timeout b of
               (x, b) \<Rightarrow>
                 let st = st\<lparr>sg_bench := b\<rparr> in
                 if x = 1 then Inr (Some SgIrqTimeout, st) else map_sum id (Pair None) (golden_advance n st)))"

definition sg_round :: "'v vsystem \<Rightarrow> nat \<Rightarrow> nat \<Rightarrow> bool \<Rightarrow> ('v single \<Rightarrow> sg_end option \<times> 'v single) \<Rightarrow> u8 option \<Rightarrow> 'v single \<Rightarrow>
    sg_error + sg_end option \<times> 'v single" where
  "sg_round V step_timeout n dump_waves fin kbd st =
     (case poll_key kbd st of Inl x \<Rightarrow> Inl x | Inr st \<Rightarrow>
      calling (log_fetches [0, 0] (sg_golden st)) (\<lambda>e.
        case sg_compare V step_timeout (st\<lparr>sg_golden := e\<rparr>) of
          Inl x \<Rightarrow> Inl x
        | Inr (Some oc, st) \<Rightarrow> Inr (Some oc, st)
        | Inr (None, st) \<Rightarrow>
            (case sg_advance V step_timeout n dump_waves st of
               Inl x \<Rightarrow> Inl x
             | Inr (Some oc, st) \<Rightarrow> Inr (Some oc, st)
             | Inr (None, st) \<Rightarrow> Inr (fin st))))"

text \<open>A \<open>break\<close> steps the golden model twice for the log; the other exits return at once.\<close>

definition sg_leave :: "sg_end \<Rightarrow> 'v single \<Rightarrow> sg_error + 'v single" where
  "sg_leave oc st =
     (case oc of
        SgPass _ \<Rightarrow> Inr st
      | SgIrqTimeout \<Rightarrow> Inr st
      | SgIsaFail \<Rightarrow> Inr st
      | _ \<Rightarrow>
          calling (Emulator.step True (sg_golden st)) (\<lambda>e.
          calling (emu_get_instruction 0 e) (\<lambda>(_, e).
          calling (Emulator.step True e) (\<lambda>e.
          calling (emu_get_instruction 0 e) (\<lambda>(_, e). Inr (st\<lparr>sg_golden := e\<rparr>))))))"

fun sg_main :: "'v vsystem \<Rightarrow> nat \<Rightarrow> nat \<Rightarrow> bool \<Rightarrow> ('v single \<Rightarrow> sg_end option \<times> 'v single) \<Rightarrow> u8 option list \<Rightarrow> 'v single \<Rightarrow>
    (sg_error + sg_end \<times> 'v single) option" where
  "sg_main V step_timeout n dump_waves fin [] st = None"
| "sg_main V step_timeout n dump_waves fin (kbd # kbds) st =
     (case sg_round V step_timeout n dump_waves fin kbd st of
        Inl x \<Rightarrow> Some (Inl x)
      | Inr (Some oc, st) \<Rightarrow> Some (map_sum id (Pair oc) (sg_leave oc st))
      | Inr (None, st) \<Rightarrow> sg_main V step_timeout n dump_waves fin kbds st)"

definition sg_exit :: "sg_end \<Rightarrow> int" where
  "sg_exit oc = (case oc of SgPass _ \<Rightarrow> 0 | _ \<Rightarrow> 1)"

subsection \<open>The two ends of the loop\<close>

definition bench_fin :: "'v vsystem \<Rightarrow> Completion \<Rightarrow> u64 \<Rightarrow> u64 \<Rightarrow> 'v single \<Rightarrow> sg_end option \<times> 'v single" where
  "bench_fin V completion count_start_pc count_stop_pc st =
     (let b = sg_bench st;
          st = (if count_start_pc \<noteq> 0 \<and> prev_pc b = count_start_pc then st\<lparr>count_start := ucast (dump_tick b)\<rparr>
                else if count_stop_pc \<noteq> 0 \<and> prev_pc b = count_stop_pc then st\<lparr>count_stop := ucast (dump_tick b)\<rparr>
                else st) in
      if hit completion (prev_pc b) (reg V 0 10 b) then
        (Some (SgPass (if count_start_pc \<noteq> 0 \<and> count_stop_pc \<noteq> 0 \<and> count_start st \<le> count_stop st
                       then Some (count_stop st - count_start st) else None)), st)
      else (None, st))"

definition isa_fin :: "'v vsystem \<Rightarrow> 'v single \<Rightarrow> sg_end option \<times> 'v single" where
  "isa_fin V st =
     (case isa_test_status (reg V 0 3 (sg_bench st)) (reg V 0 17 (sg_bench st)) of
        Pass \<Rightarrow> (Some (SgPass None), st)
      | Fail \<Rightarrow> (Some SgIsaFail, st)
      | Running \<Rightarrow> (None, st))"

definition pc_arg :: "string list \<Rightarrow> string \<Rightarrow> u64" where
  "pc_arg argv name = strtoull (the (find_arg argv name (Some ''0'')))"

definition single_fin :: "'v vsystem \<Rightarrow> string list \<Rightarrow> 'v single \<Rightarrow> sg_end option \<times> 'v single" where
  "single_fin V argv = bench_fin V (parse argv) (pc_arg argv ''--count-start-pc'') (pc_arg argv ''--count-stop-pc'')"

definition single_main :: "'v vsystem \<Rightarrow> nat \<Rightarrow> nat \<Rightarrow> string list \<Rightarrow> u8 option list \<Rightarrow> emulator \<Rightarrow> 'v simulator \<Rightarrow>
    (sg_error + sg_end \<times> 'v single) option" where
  "single_main V step_timeout n argv kbds e b =
     sg_main V step_timeout n (has_flag argv ''--dump-waves'') (single_fin V argv) kbds (sg_begin V step_timeout e b)"

definition isa_main :: "'v vsystem \<Rightarrow> nat \<Rightarrow> nat \<Rightarrow> string list \<Rightarrow> u8 option list \<Rightarrow> emulator \<Rightarrow> 'v simulator \<Rightarrow>
    (sg_error + sg_end \<times> 'v single) option" where
  "isa_main V step_timeout n argv kbds e b =
     sg_main V step_timeout n (has_flag argv ''--dump-waves'') (isa_fin V) kbds (sg_begin V step_timeout e b)"

subsection \<open>What the exit code means\<close>

text \<open>The golden hart 0 agrees with the core in the committed PC, 31 registers and \<open>mstatus\<close>.\<close>

definition sg_agree :: "'v vsystem \<Rightarrow> 'v single \<Rightarrow> bool" where
  "sg_agree V st \<longleftrightarrow>
     (let g = harts (sg_golden st) ! 0; b = sg_bench st in
      prev_pc b = PC g \<and> (\<forall>i. 0 < i \<longrightarrow> i < 32 \<longrightarrow> reg_file g ! i = reg V 0 (int i) b) \<and>
      mstatus_read_reg (mstatus g) = reg V 0 32 b)"

definition mismatch :: "sg_end \<Rightarrow> bool" where
  "mismatch oc = (case oc of SgPcMismatch \<Rightarrow> True | SgRegMismatch _ \<Rightarrow> True | _ \<Rightarrow> False)"

definition ends_ok :: "('v single \<Rightarrow> sg_end option \<times> 'v single) \<Rightarrow> bool" where
  "ends_ok fin \<longleftrightarrow> (\<forall>s oc s'. fin s = (Some oc, s') \<longrightarrow> \<not> mismatch oc)"

text \<open>Iterations that each started in agreement and went on.\<close>

inductive sg_agreed :: "'v vsystem \<Rightarrow> nat \<Rightarrow> nat \<Rightarrow> bool \<Rightarrow> ('v single \<Rightarrow> sg_end option \<times> 'v single) \<Rightarrow> u8 option list \<Rightarrow>
    'v single \<Rightarrow> 'v single \<Rightarrow> bool" for V step_timeout n dump_waves fin where
  agreed_Nil: "sg_agreed V step_timeout n dump_waves fin [] st st"
| agreed_Cons: "sg_agree V st \<Longrightarrow> sg_round V step_timeout n dump_waves fin k st = Inr (None, st1) \<Longrightarrow>
    sg_agreed V step_timeout n dump_waves fin ks st1 st2 \<Longrightarrow> sg_agreed V step_timeout n dump_waves fin (k # ks) st st2"

inductive_cases agreed_NilE: "sg_agreed V step_timeout n dump_waves fin [] st st'"

lemma poll_keeps: "poll_key k st = Inr st1 \<Longrightarrow> sg_golden st1 = sg_golden st \<and> sg_bench st1 = sg_bench st"
  by (auto simp: poll_key_def split: option.splits sum.splits)

lemma calling_Inr: "calling m f = Inr y \<Longrightarrow> \<exists>x. m = Inr x \<and> f x = Inr y"
  by (auto simp: calling_def split: sum.splits)

lemma log_keeps:
  assumes "log_fetches [0, 0] e = Inr e'"
  shows "reg_file (harts e' ! 0) = reg_file (harts e ! 0) \<and> mstatus (harts e' ! 0) = mstatus (harts e ! 0) \<and> PC (harts e' ! 0) = PC (harts e ! 0)"
proof -
  obtain v e1 w e2 where "emu_get_instruction 0 e = Inr (v, e1)" "emu_get_instruction 0 e1 = Inr (w, e2)" "e' = e2"
    using assms by (auto split: sum.splits)
  then show ?thesis using fetch_registers by metis
qed

lemma compare_agree:
  assumes "sg_compare V t st = Inr (r, st')"
  shows "if sg_agree V st then r = None \<and> st' = st else \<exists>oc. r = Some oc \<and> mismatch oc"
proof -
  let ?g = "harts (sg_golden st) ! 0" and ?b = "sg_bench st"
  have "sg_agree V st \<longleftrightarrow> prev_pc ?b = PC ?g \<and> check_registers V 0 (reg_file ?g) (mstatus_read_reg (mstatus ?g)) ?b = 0"
    unfolding sg_agree_def check_registers_0 Let_def by metis
  then show ?thesis using assms
    by (auto simp: sg_compare_def Let_def mismatch_def split: if_splits dest!: calling_Inr)
qed

lemma advance_end: "sg_advance V t n d st = Inr (Some oc, st') \<Longrightarrow> oc = SgTimeout \<or> oc = SgIrqTimeout"
  by (auto simp: sg_advance_def Let_def golden_advance_def trying_def split: prod.splits if_splits sum.splits)

lemma round_parts:
  assumes "sg_round V t n d fin k st = Inr (r, st')"
  obtains st1 e q st2 where "poll_key k st = Inr st1" "log_fetches [0, 0] (sg_golden st1) = Inr e"
    "sg_compare V t (st1\<lparr>sg_golden := e\<rparr>) = Inr (q, st2)"
    "(case q of Some oc \<Rightarrow> Inr (Some oc, st2)
      | None \<Rightarrow> (case sg_advance V t n d st2 of
               Inl x \<Rightarrow> Inl x | Inr (Some oc, st) \<Rightarrow> Inr (Some oc, st) | Inr (None, st) \<Rightarrow> Inr (fin st))) = Inr (r, st')"
proof -
  obtain st1 e where p: "poll_key k st = Inr st1" "log_fetches [0, 0] (sg_golden st1) = Inr e"
    using assms unfolding sg_round_def by (auto split: sum.splits dest!: calling_Inr)
  obtain q st2 where c: "sg_compare V t (st1\<lparr>sg_golden := e\<rparr>) = Inr (q, st2)"
    using assms p unfolding sg_round_def by (auto simp: calling_def split: sum.splits)
  have "(case q of Some oc \<Rightarrow> Inr (Some oc, st2)
      | None \<Rightarrow> (case sg_advance V t n d st2 of
               Inl x \<Rightarrow> Inl x | Inr (Some oc, st) \<Rightarrow> Inr (Some oc, st) | Inr (None, st) \<Rightarrow> Inr (fin st))) = Inr (r, st')"
    using assms unfolding sg_round_def p(1) sum.case calling_def p(2) c by (cases q) auto
  then show thesis using that p c by blast
qed

lemma round_verdict:
  assumes "sg_round V t n d fin k st = Inr (r, st')" "ends_ok fin"
  shows "sg_agree V st \<longleftrightarrow> \<not> (\<exists>oc. r = Some oc \<and> mismatch oc)"
    and "r = Some (SgPass c) \<Longrightarrow> \<exists>u. fin u = (r, st')"
proof -
  from round_parts [OF assms(1)] obtain st1 e q st2 where
    p: "poll_key k st = Inr st1" "log_fetches [0, 0] (sg_golden st1) = Inr e"
    and c: "sg_compare V t (st1\<lparr>sg_golden := e\<rparr>) = Inr (q, st2)"
    and r: "(case q of Some oc \<Rightarrow> Inr (Some oc, st2)
      | None \<Rightarrow> (case sg_advance V t n d st2 of
               Inl x \<Rightarrow> Inl x | Inr (Some oc, st) \<Rightarrow> Inr (Some oc, st) | Inr (None, st) \<Rightarrow> Inr (fin st))) = Inr (r, st')" .
  have a: "sg_agree V (st1\<lparr>sg_golden := e\<rparr>) \<longleftrightarrow> sg_agree V st"
    using poll_keeps [OF p(1)] log_keeps [OF p(2)] by (simp add: sg_agree_def Let_def)
  show "sg_agree V st \<longleftrightarrow> \<not> (\<exists>oc. r = Some oc \<and> mismatch oc)"
    using compare_agree [OF c] r assms(2) unfolding a ends_ok_def
    by (auto simp: mismatch_def split: if_splits option.splits sum.splits prod.splits dest!: advance_end)
  show "\<exists>u. fin u = (r, st')" if "r = Some (SgPass c)"
    using compare_agree [OF c] r that
    by (auto simp: mismatch_def split: if_splits option.splits sum.splits prod.splits dest!: advance_end)
qed

lemma main_verdict:
  assumes "sg_main V t n d fin kbds st = Some (Inr (oc, st'))" "ends_ok fin"
  shows "\<exists>ks k rest s u. kbds = ks @ k # rest \<and> sg_agreed V t n d fin ks st s \<and> sg_round V t n d fin k s = Inr (Some oc, u) \<and>
    (sg_agree V s \<longleftrightarrow> \<not> mismatch oc) \<and> (\<forall>c. oc = SgPass c \<longrightarrow> (\<exists>v. fin v = (Some oc, u)))"
  using assms(1)
proof (induction kbds arbitrary: st)
  case (Cons k kbds)
  obtain r st1 where r: "sg_round V t n d fin k st = Inr (r, st1)"
    using Cons.prems by (auto split: sum.splits)
  note v = round_verdict [OF r assms(2)]
  show ?case
  proof (cases r)
    case None
    then have a: "sg_agree V st" using v(1) by simp
    from None r Cons.prems have "sg_main V t n d fin kbds st1 = Some (Inr (oc, st'))" by simp
    from Cons.IH [OF this] obtain ks j rest s u where
      i: "kbds = ks @ j # rest" "sg_agreed V t n d fin ks st1 s" "sg_round V t n d fin j s = Inr (Some oc, u)"
        "sg_agree V s \<longleftrightarrow> \<not> mismatch oc" "\<forall>c. oc = SgPass c \<longrightarrow> (\<exists>v. fin v = (Some oc, u))" by blast
    have "sg_agreed V t n d fin (k # ks) st s" using agreed_Cons [OF a _ i(2)] r None by simp
    then show ?thesis using i by (intro exI [of _ "k # ks"]) auto
  next
    case (Some oc')
    then have "oc' = oc" using Cons.prems r by (cases "sg_leave oc' st1") auto
    then show ?thesis
      using r v Some agreed_Nil [of V t n d fin st]
      by (intro exI [of _ "[]"] exI [of _ k] exI [of _ kbds] exI [of _ st] exI [of _ st1]) auto
  qed
qed simp

lemma bench_fin_ends:
  assumes "bench_fin V c p q s = (Some oc, s')"
  shows "\<not> mismatch oc \<and> hit c (prev_pc (sg_bench s')) (reg V 0 10 (sg_bench s'))"
proof -
  have "sg_bench s' = sg_bench s" using assms by (auto simp: bench_fin_def Let_def split: if_splits)
  then show ?thesis using assms by (auto simp: bench_fin_def Let_def mismatch_def split: if_splits)
qed

lemma isa_fin_ends: "ends_ok (isa_fin V)"
  by (auto simp: ends_ok_def isa_fin_def mismatch_def split: IsaResult.splits)

text \<open>
  C26: the single-core lock-step reports faithfully. When it ends, every iteration before the last began
  with the golden model and the core in agreement on the committed PC, 31 registers and \<open>mstatus\<close>; the
  last one did so unless the result is a mismatch, and then it did not; and exit code 0 means moreover
  that the completion condition of the command line held.
\<close>

theorem single_verdict:
  assumes "single_main V step_timeout n argv kbds e b = Some (Inr (oc, st'))"
  shows "\<exists>ks k rest t u. kbds = ks @ k # rest \<and>
    sg_agreed V step_timeout n (has_flag argv ''--dump-waves'') (single_fin V argv) ks (sg_begin V step_timeout e b) t \<and>
    sg_round V step_timeout n (has_flag argv ''--dump-waves'') (single_fin V argv) k t = Inr (Some oc, u) \<and>
    (sg_agree V t \<longleftrightarrow> \<not> mismatch oc) \<and>
    (sg_exit oc = 0 \<longrightarrow> hit (parse argv) (prev_pc (sg_bench u)) (reg V 0 10 (sg_bench u)))"
proof -
  have f: "\<not> mismatch oc \<and> hit (parse argv) (prev_pc (sg_bench s')) (reg V 0 10 (sg_bench s'))"
    if "single_fin V argv s = (Some oc, s')" for s oc s'
    using that bench_fin_ends unfolding single_fin_def by blast
  then have "ends_ok (single_fin V argv)" by (auto simp: ends_ok_def)
  from main_verdict [OF assms [unfolded single_main_def] this] obtain ks k rest t u where
    v: "kbds = ks @ k # rest"
      "sg_agreed V step_timeout n (has_flag argv ''--dump-waves'') (single_fin V argv) ks (sg_begin V step_timeout e b) t"
      "sg_round V step_timeout n (has_flag argv ''--dump-waves'') (single_fin V argv) k t = Inr (Some oc, u)"
      "sg_agree V t \<longleftrightarrow> \<not> mismatch oc" "\<forall>c. oc = SgPass c \<longrightarrow> (\<exists>v. single_fin V argv v = (Some oc, u))" by blast
  have "hit (parse argv) (prev_pc (sg_bench u)) (reg V 0 10 (sg_bench u))" if "sg_exit oc = 0"
    using that v(5) f by (cases oc) (auto simp: sg_exit_def)
  then show ?thesis using v by blast
qed

text \<open>The same for the ISA tests, where a pass is \<open>gp = 1\<close> and \<open>a7 = 93\<close>.\<close>

theorem isa_verdict:
  assumes "isa_main V step_timeout n argv kbds e b = Some (Inr (oc, st'))"
  shows "\<exists>ks k rest t u. kbds = ks @ k # rest \<and>
    sg_agreed V step_timeout n (has_flag argv ''--dump-waves'') (isa_fin V) ks (sg_begin V step_timeout e b) t \<and>
    sg_round V step_timeout n (has_flag argv ''--dump-waves'') (isa_fin V) k t = Inr (Some oc, u) \<and>
    (sg_agree V t \<longleftrightarrow> \<not> mismatch oc) \<and>
    (sg_exit oc = 0 \<longrightarrow> reg V 0 3 (sg_bench u) = 1 \<and> reg V 0 17 (sg_bench u) = 93)"
proof -
  from main_verdict [OF assms [unfolded isa_main_def] isa_fin_ends] obtain ks k rest t u where
    v: "kbds = ks @ k # rest"
      "sg_agreed V step_timeout n (has_flag argv ''--dump-waves'') (isa_fin V) ks (sg_begin V step_timeout e b) t"
      "sg_round V step_timeout n (has_flag argv ''--dump-waves'') (isa_fin V) k t = Inr (Some oc, u)"
      "sg_agree V t \<longleftrightarrow> \<not> mismatch oc" "\<forall>c. oc = SgPass c \<longrightarrow> (\<exists>v. isa_fin V v = (Some oc, u))" by blast
  have "reg V 0 3 (sg_bench u) = 1 \<and> reg V 0 17 (sg_bench u) = 93" if "sg_exit oc = 0"
    using that v(5) by (cases oc) (auto simp: sg_exit_def isa_fin_def isa_test_status_def split: if_splits IsaResult.splits)
  then show ?thesis using v by blast
qed

text \<open>A core that mirrors the reset state and then retires an interrupt and nothing more.\<close>

definition irq_v :: "nat vsystem" where
  "irq_v = (mirror_v (reg_file (harts reset_emu ! 0) ! 5))\<lparr>v_commitFired := (\<lambda>h v. v = 6), v_interrupt := (\<lambda>h v. True),
     v_pc := (\<lambda>h v. PC (harts reset_emu ! 0))\<rparr>"

lemma irq_agree: "sg_agree irq_v (sg_begin irq_v 0 reset_emu (sample_sim 0))"
  by (auto simp: sg_agree_def sg_begin_def run_until_commit_def irq_v_def mirror_v_def sample_v_def reg_def Let_def)

lemma irq_run: "\<exists>st. single_main irq_v 0 1 [''lockstep''] [None] reset_emu (sample_sim 0) = Some (Inr (SgIrqTimeout, st))"
proof -
  let ?st = "sg_begin irq_v 0 reset_emu (sample_sim 0)"
  have g: "sg_golden ?st = reset_emu" by (simp add: sg_begin_def)
  have s: "?st\<lparr>sg_golden := reset_emu\<rparr> = ?st" using g by (cases ?st) simp
  have c: "sg_compare irq_v 0 ?st = Inr (None, ?st)"
  proof (cases "sg_compare irq_v 0 ?st")
    case (Inl x)
    then show ?thesis using irq_agree unfolding sg_agree_def sg_compare_def Let_def by (auto simp: split: if_splits)
  next
    case (Inr p)
    then show ?thesis using compare_agree [of irq_v 0 ?st "fst p" "snd p"] irq_agree by (cases p) simp
  qed
  have "tb (sg_bench ?st) = 3"
    by (simp add: sg_begin_def set_probe_def run_until_commit_def Let_def irq_v_def mirror_v_def sample_v_def sample_sim_def advance_def tick_nodump_def)
  then have "\<exists>st. sg_advance irq_v 0 1 False ?st = Inr (Some SgIrqTimeout, st)"
    by (simp add: sg_advance_def run_until_commit_def Let_def advance_def tick_nodump_def)
      (simp add: irq_v_def mirror_v_def sample_v_def)
  then show ?thesis
    by (auto simp: single_main_def sg_round_def poll_key_def calling_def g s c reset_fetch has_flag_def sg_leave_def)
qed

theorem single_verdict_witness: "sg_agree irq_v (sg_begin irq_v 0 reset_emu (sample_sim 0))"
proof -
  obtain st where "single_main irq_v 0 1 [''lockstep''] [None] reset_emu (sample_sim 0) = Some (Inr (SgIrqTimeout, st))"
    using irq_run by blast
  from single_verdict [OF this] show ?thesis
    by (auto simp: Cons_eq_append_conv mismatch_def elim: agreed_NilE)
qed

text \<open>The key buffer has 128 places and an index of eight bits that is never taken modulo 128.\<close>

theorem keys_overrun: "length (ks_chars k) = 128 \<Longrightarrow> ks_writer k = 128 \<Longrightarrow> key_in c k = Inl KeyOverrun"
  by (simp add: key_in_def)

subsection \<open>The cycle window\<close>

text \<open>
  The window reads the counter of the clocks with waveforms, which stands still without
  \<^verbatim>\<open>--dump-waves\<close>: the program cycles reported are then 0.
\<close>

lemma run_dump_tick: "dump_tick (snd (run_until_commit V False False t s)) = dump_tick s"
proof -
  have a: "dump_tick (advance V False False s) = dump_tick s" for s by (simp add: advance_def Let_def)
  have "dump_tick (commit_loop V False False t s) = dump_tick s" for s
    by (induction t arbitrary: s) (simp_all add: a)
  then show ?thesis by (simp add: run_until_commit_def Let_def a)
qed

definition no_window :: "'v single \<Rightarrow> bool" where
  "no_window st \<longleftrightarrow> dump_tick (sg_bench st) = 0 \<and> count_start st = 0 \<and> count_stop st = 0"

lemma advance_no_window:
  assumes "sg_advance V t n False st = Inr (r, st')" "no_window st"
  shows "no_window st'"
proof -
  have g: "no_window s'" if "map_sum id (Pair None) (golden_advance n s) = Inr (r, s')" "no_window s" for s s' :: "'a single"
    using that by (auto simp: golden_advance_def trying_def no_window_def split: sum.splits)
  obtain x b where b: "run_until_commit V False False t (sg_bench st) = (x, b)" by (cases "run_until_commit V False False t (sg_bench st)")
  obtain y c where c: "run_until_commit V False False t b = (y, c)" by (cases "run_until_commit V False False t b")
  have "dump_tick b = 0" "dump_tick c = 0"
    using run_dump_tick [of V t "sg_bench st"] run_dump_tick [of V t b] assms(2) b c by (auto simp: no_window_def)
  then have "no_window (st\<lparr>sg_bench := b\<rparr>)" "no_window (st\<lparr>sg_bench := c\<rparr>)" using assms(2) by (auto simp: no_window_def)
  then show ?thesis
    using assms(1) by (cases "x = 1"; cases "x = 0"; cases "y = 1") (auto simp: sg_advance_def b c Let_def dest: g split: sum.splits)
qed

lemma fin_no_window:
  "no_window st \<Longrightarrow> single_fin V argv st = (r, st') \<Longrightarrow> no_window st' \<and> (r = Some (SgPass (Some c)) \<longrightarrow> c = 0)"
  by (auto simp: single_fin_def bench_fin_def no_window_def Let_def split: if_splits)

lemma round_no_window:
  assumes "sg_round V t n False (single_fin V argv) k st = Inr (r, st')" "no_window st"
  shows "(r = None \<longrightarrow> no_window st') \<and> (r = Some (SgPass (Some c)) \<longrightarrow> c = 0)"
proof -
  from round_parts [OF assms(1)] obtain st1 e q st2 where
    p: "poll_key k st = Inr st1" and q: "sg_compare V t (st1\<lparr>sg_golden := e\<rparr>) = Inr (q, st2)"
    and r: "(case q of Some oc \<Rightarrow> Inr (Some oc, st2)
      | None \<Rightarrow> (case sg_advance V t n False st2 of
               Inl x \<Rightarrow> Inl x | Inr (Some oc, st) \<Rightarrow> Inr (Some oc, st) | Inr (None, st) \<Rightarrow> Inr (single_fin V argv st))) = Inr (r, st')" .
  have "no_window (st1\<lparr>sg_golden := e\<rparr>)"
    using p assms(2) by (auto simp: poll_key_def no_window_def split: option.splits sum.splits)
  note c = compare_agree [OF q] this
  show ?thesis
  proof (cases q)
    case None
    then have w: "no_window st2" using c by (auto split: if_splits)
    obtain a st3 where a: "sg_advance V t n False st2 = Inr (a, st3)" using r None by (auto split: sum.splits)
    show ?thesis
    proof (cases a)
      case None
      then have "single_fin V argv st3 = (r, st')" using r \<open>q = None\<close> a by simp
      then show ?thesis using fin_no_window [OF advance_no_window [OF a w]] by simp
    next
      case (Some oc)
      then show ?thesis using r \<open>q = None\<close> a advance_end [of V t n False st2 oc st3] by auto
    qed
  qed (use r c in \<open>auto simp: mismatch_def split: if_splits\<close>)
qed

theorem cycle_window_zero:
  assumes "single_main V t n argv kbds e b = Some (Inr (SgPass (Some c), st'))"
    "\<not> has_flag argv ''--dump-waves''" "dump_tick b = 0"
  shows "c = 0"
proof -
  have "c = 0" if "sg_main V t n False (single_fin V argv) kbds st = Some (Inr (SgPass (Some c), st'))" "no_window st" for st
    using that
  proof (induction kbds arbitrary: st)
    case (Cons k kbds)
    obtain r st1 where r: "sg_round V t n False (single_fin V argv) k st = Inr (r, st1)"
      using Cons.prems(1) by (auto split: sum.splits)
    note w = round_no_window [OF r Cons.prems(2), of c]
    show ?case
    proof (cases r)
      case None
      then show ?thesis using Cons w r by simp
    next
      case (Some oc)
      then have "oc = SgPass (Some c)" using Cons.prems(1) r by (cases "sg_leave oc st1") auto
      then show ?thesis using w Some by simp
    qed
  qed simp
  moreover have "no_window (sg_begin V t e b)"
    using assms(3) run_dump_tick [of V t] by (simp add: no_window_def sg_begin_def set_probe_def)
  ultimately show ?thesis using assms(1,2) by (simp add: single_main_def)
qed

end
