(* ===== verification/Linux_Sim.thy ===== *)
theory Linux_Sim
  imports Harness_Common
begin

text \<open>
  Booting Linux on the RTL alone, \<^verbatim>\<open>src/sim/harness/linux_sim.cpp\<close>: the main loop with the console
  input handshake, the heartbeat that looks for pinned harts, and the checkpoints with their
  retention and their restore. An iteration takes what the host gave it as an event: whether a signal
  came, what \<open>read\<close> on the standard input returned, and whether a checkpoint file could be opened. A
  checkpoint file is known by the cycle in its name. Text output, rates and the profiler's reports are
  left out.
\<close>

unbundle bit_operations_syntax

subsection \<open>Host input port and state\<close>

record 'v hostport =
  h_valid :: "'v \<Rightarrow> bool"
  h_char :: "'v \<Rightarrow> u8"
  h_consumed :: "'v \<Rightarrow> bool"
  h_set_valid :: "bool \<Rightarrow> 'v \<Rightarrow> 'v"
  h_set_char :: "u8 \<Rightarrow> 'v \<Rightarrow> 'v"

record host_event =
  ev_signal :: bool
  ev_read :: "u8 option"
  ev_open :: bool

record boot_options =
  op_debug :: bool
  op_ckpt_on :: bool
  op_ckpt_every :: u64
  op_ckpt_keep :: u64
  op_hb_every :: u64
  op_max_cycles :: u64
  op_profile_every :: u64

definition kCkptMagic :: u64 where "kCkptMagic = 0x434849524F4E4C58"
definition kCkptVersion :: u64 where "kCkptVersion = 1"
definition kInputPoll :: u64 where "kInputPoll = 4096"

record 'v checkpoint =
  ck_magic :: u64
  ck_version :: u64
  ck_cyc :: u64
  ck_steps :: u64
  ck_model :: 'v

record 'v linux_sim =
  bt_bench :: "'v simulator"
  bt_steps :: u64
  bt_input_tick :: u64
  bt_typed :: "u8 list"
  bt_last_pc :: "u64 list"
  bt_band_lo :: "u64 list"
  bt_band_hi :: "u64 list"
  bt_prev_lo :: "u64 list"
  bt_prev_hi :: "u64 list"
  bt_next_hb :: u64
  bt_next_prof :: u64
  bt_next_ckpt :: u64
  bt_ckpts :: "u64 list"
  bt_files :: "u64 \<rightharpoonup> 'v checkpoint"
  bt_beats :: "(string \<times> nat) list"

subsection \<open>Command line\<close>

definition positional :: "string list \<Rightarrow> nat \<Rightarrow> string \<Rightarrow> string" where
  "positional argv i dflt = (if i < length argv \<and> take 1 (argv ! i) \<noteq> ''-'' then argv ! i else dflt)"

definition boot_files :: "string list \<Rightarrow> string \<times> string \<times> string" where
  "boot_files argv = (positional argv 1 ''sim/data/Image'', positional argv 2 ''sim/data/qemu.dtb'', positional argv 3 ''sim/data/boot.bin'')"

definition num_arg :: "string list \<Rightarrow> string \<Rightarrow> string \<Rightarrow> u64" where
  "num_arg argv name dflt = strtoull (the (find_arg argv name (Some dflt)))"

definition parse_options :: "string list \<Rightarrow> boot_options" where
  "parse_options argv =
     (let debug = has_flag argv ''--debug''; every = num_arg argv ''--ckpt-every'' ''20000000'';
          max_cycles = (case find_arg argv ''--max-cycles'' None of Some s \<Rightarrow> strtoull s | None \<Rightarrow> 0) in
      \<lparr>op_debug = debug, op_ckpt_on = (debug \<and> \<not> has_flag argv ''--no-ckpt'' \<and> every > 0), op_ckpt_every = every,
       op_ckpt_keep = num_arg argv ''--ckpt-keep'' ''16'', op_hb_every = num_arg argv ''--hb'' ''100000'',
       op_max_cycles = max_cycles,
       op_profile_every = (case find_arg argv ''--profile-every'' None of
          Some s \<Rightarrow> strtoull s | None \<Rightarrow> if max_cycles \<noteq> 0 then 5000000 else 0)\<rparr>)"

subsection \<open>Start and restore\<close>

definition bt_begin :: "'v hostport \<Rightarrow> boot_options \<Rightarrow> (u64 \<rightharpoonup> 'v checkpoint) \<Rightarrow> 'v simulator \<Rightarrow> u64 \<Rightarrow> 'v linux_sim" where
  "bt_begin P op files b steps =
     (let b = b\<lparr>tb := h_set_char P 0 (h_set_valid P False (tb b))\<rparr> in
      \<lparr>bt_bench = b, bt_steps = steps, bt_input_tick = 0, bt_typed = [], bt_last_pc = replicate 4 0,
       bt_band_lo = replicate 4 (- 1), bt_band_hi = replicate 4 0, bt_prev_lo = replicate 4 0, bt_prev_hi = replicate 4 0,
       bt_next_hb = tickcount b + op_hb_every op,
       bt_next_prof = (if op_profile_every op \<noteq> 0 then tickcount b + op_profile_every op else - 1),
       bt_next_ckpt = (if op_ckpt_on op then (tickcount b div op_ckpt_every op + 1) * op_ckpt_every op else - 1),
       bt_ckpts = [], bt_files = files, bt_beats = []\<rparr>)"

definition bt_restore :: "'v checkpoint \<Rightarrow> ('v simulator \<times> u64) option" where
  "bt_restore c =
     (if ck_magic c \<noteq> kCkptMagic \<or> ck_version c \<noteq> kCkptVersion then None
      else Some ((init_no_image (ck_model c))\<lparr>tickcount := ck_cyc c\<rparr>, ck_steps c))"

subsection \<open>One iteration\<close>

text \<open>The result has the poll counter, the bytes taken from the standard input (none or one) and the model.\<close>

definition console_input :: "'v hostport \<Rightarrow> u8 option \<Rightarrow> u64 \<Rightarrow> 'v \<Rightarrow> u64 \<times> u8 list \<times> 'v" where
  "console_input P got tick v =
     (let v = (if h_consumed P v then h_set_valid P False v else v) in
      if \<not> h_valid P v \<and> \<not> h_consumed P v then
        (let tick = tick + 1 in
         if tick \<ge> kInputPoll then
           (case got of Some ch \<Rightarrow> (0, [ch], h_set_valid P True (h_set_char P ch v)) | None \<Rightarrow> (0, [], v))
         else (tick, [], v))
      else (tick, [], v))"

definition band_at :: "'v vsystem \<Rightarrow> nat \<Rightarrow> 'v linux_sim \<Rightarrow> 'v linux_sim" where
  "band_at V i st =
     (let p = core_pc V (int i) (bt_bench st);
          st = (if p < bt_band_lo st ! i then st\<lparr>bt_band_lo := (bt_band_lo st)[i := p]\<rparr> else st) in
      if p > bt_band_hi st ! i then st\<lparr>bt_band_hi := (bt_band_hi st)[i := p]\<rparr> else st)"

definition fold_bands :: "'v vsystem \<Rightarrow> 'v linux_sim \<Rightarrow> 'v linux_sim" where
  "fold_bands V st = fold (band_at V) [0..<4] st"

definition pinned_at :: "'v linux_sim \<Rightarrow> nat \<Rightarrow> bool" where
  "pinned_at st i \<longleftrightarrow>
     bt_band_hi st ! i \<ge> bt_band_lo st ! i \<and> bt_band_hi st ! i - bt_band_lo st ! i < 0x1000 \<and>
     bt_band_lo st ! i = bt_prev_lo st ! i \<and> bt_band_hi st ! i = bt_prev_hi st ! i"

definition heartbeat :: "'v vsystem \<Rightarrow> boot_options \<Rightarrow> 'v linux_sim \<Rightarrow> 'v linux_sim" where
  "heartbeat V op st =
     (if tickcount (bt_bench st) \<ge> bt_next_hb st then
        (let pc = map (\<lambda>i. core_pc V (int i) (bt_bench st)) [0..<4];
             flags = map (\<lambda>i. if pinned_at st i then CHR ''#'' else if pc ! i = bt_last_pc st ! i then CHR ''*'' else CHR '' '') [0..<4];
             pinned = length (filter (pinned_at st) [0..<4]) in
         st\<lparr>bt_next_hb := tickcount (bt_bench st) + op_hb_every op, bt_beats := bt_beats st @ [(flags, pinned)],
            bt_last_pc := pc, bt_prev_lo := bt_band_lo st, bt_prev_hi := bt_band_hi st,
            bt_band_lo := replicate 4 (- 1), bt_band_hi := replicate 4 0\<rparr>)
      else st)"

text \<open>The oldest files go while more than \<open>keep\<close> are left; \<open>0\<close> keeps all.\<close>

fun prune :: "u64 \<Rightarrow> u64 list \<Rightarrow> (u64 \<rightharpoonup> 'v checkpoint) \<Rightarrow> u64 list \<times> (u64 \<rightharpoonup> 'v checkpoint)" where
  "prune keep [] files = ([], files)"
| "prune keep (c # cs) files =
     (if keep \<noteq> 0 \<and> length (c # cs) > unat keep then prune keep cs (files(c := None)) else (c # cs, files))"

definition make_checkpoint :: "'v linux_sim \<Rightarrow> 'v checkpoint" where
  "make_checkpoint st = \<lparr>ck_magic = kCkptMagic, ck_version = kCkptVersion, ck_cyc = tickcount (bt_bench st),
     ck_steps = bt_steps st, ck_model = tb (bt_bench st)\<rparr>"

definition save_checkpoint :: "boot_options \<Rightarrow> bool \<Rightarrow> 'v linux_sim \<Rightarrow> 'v linux_sim" where
  "save_checkpoint op opened st =
     (let cyc = tickcount (bt_bench st) in
      if cyc \<ge> bt_next_ckpt st then
        (let st = st\<lparr>bt_next_ckpt := cyc + op_ckpt_every op\<rparr> in
         if \<not> opened then st\<lparr>bt_next_ckpt := - 1\<rparr>
         else
           (case prune (op_ckpt_keep op) (bt_ckpts st @ [cyc]) ((bt_files st)(cyc \<mapsto> make_checkpoint st)) of
              (cs, files) \<Rightarrow> st\<lparr>bt_ckpts := cs, bt_files := files\<rparr>))
      else st)"

text \<open>The copy of the guest console in the log: the line under construction and the lines written.\<close>

definition console_mirror :: "u8 \<Rightarrow> u8 list \<times> u8 list list \<Rightarrow> u8 list \<times> u8 list list" where
  "console_mirror c = (\<lambda>(line, out).
     if c = 10 then ([], out @ [line])
     else if c \<noteq> 13 then (if length (line @ [c]) \<ge> 512 then ([], out @ [line @ [c]]) else (line @ [c], out))
     else (line, out))"

datatype bt_exit = Wedge | MaxCycles | Signalled

definition bt_iter :: "'v vsystem \<Rightarrow> 'v hostport \<Rightarrow> nat \<Rightarrow> boot_options \<Rightarrow> host_event \<Rightarrow> 'v linux_sim \<Rightarrow> bt_exit option \<times> 'v linux_sim" where
  "bt_iter V P step_timeout op ev st =
     (case step_any V True False step_timeout (bt_bench st) of
        (rc, b) \<Rightarrow>
          let st = st\<lparr>bt_bench := b\<rparr> in
          if rc = 1 then (Some Wedge, st)
          else
            (let st = st\<lparr>bt_steps := bt_steps st + 1\<rparr>;
                 st = (if op_profile_every op \<noteq> 0 \<and> tickcount b \<ge> bt_next_prof st
                       then st\<lparr>bt_next_prof := tickcount b + op_profile_every op\<rparr> else st) in
             if op_max_cycles op \<noteq> 0 \<and> tickcount b \<ge> op_max_cycles op then (Some MaxCycles, st)
             else if ev_signal ev then (Some Signalled, st)
             else
               (case console_input P (ev_read ev) (bt_input_tick st) (tb b) of
                  (tick, bytes, v) \<Rightarrow>
                    let st = st\<lparr>bt_input_tick := tick, bt_typed := bt_typed st @ bytes, bt_bench := b\<lparr>tb := v\<rparr>\<rparr> in
                    if \<not> op_debug op then (None, st)
                    else (None, save_checkpoint op (ev_open ev) (heartbeat V op (fold_bands V st))))))"

fun bt_run :: "'v vsystem \<Rightarrow> 'v hostport \<Rightarrow> nat \<Rightarrow> boot_options \<Rightarrow> host_event list \<Rightarrow> 'v linux_sim \<Rightarrow> bt_exit option \<times> 'v linux_sim" where
  "bt_run V P step_timeout op [] st = (None, st)"
| "bt_run V P step_timeout op (ev # evs) st =
     (case bt_iter V P step_timeout op ev st of
        (Some x, st) \<Rightarrow> (Some x, st) | (None, st) \<Rightarrow> bt_run V P step_timeout op evs st)"

definition bt_code :: "bt_exit \<Rightarrow> int" where
  "bt_code x = (case x of Wedge \<Rightarrow> 1 | _ \<Rightarrow> 0)"

subsection \<open>The clocks of a step\<close>

lemma tb_port: "tb (show_port V p s) = tb s" "tickcount (show_port V p s) = tickcount s"
  by (simp_all add: show_port_def Let_def)

lemma advance_clock: "tb (advance V show False s) = tick_nodump V (tb s)" "tickcount (advance V show False s) = tickcount s + 1"
  by (simp_all add: advance_def Let_def tb_port)

lemma tb_note: "fold (note_commit V) hs (m, i, s) = (m', i', s') \<Longrightarrow> tb s' = tb s \<and> tickcount s' = tickcount s"
  by (induction hs arbitrary: m i s) (auto simp: note_commit_def split: if_splits)

lemma tb_lowest: "tb (lowest m hs s) = tb s" "tickcount (lowest m hs s) = tickcount s"
  by (induction hs) simp_all

lemma commits_clocks:
  "step_until_commits V show False t s = (rc, m, s') \<Longrightarrow>
     \<exists>k\<le>t. tb s' = (tick_nodump V ^^ k) (tb s) \<and> tickcount s' = tickcount s + of_nat k \<and> (rc = 1 \<or> 0 < k)"
proof (induction t arbitrary: s)
  case (Suc t)
  let ?a = "advance V show False s"
  obtain m1 i s1 where n: "fold (note_commit V) [0, 1, 2, 3] (0, False, ?a) = (m1, i, s1)" by (metis prod_cases3)
  have e: "tb s1 = tick_nodump V (tb s)" "tickcount s1 = tickcount s + 1"
    using tb_note [OF n] by (simp_all add: advance_clock)
  show ?case
  proof (cases "m1 = 0")
    case True
    then have "step_until_commits V show False t s1 = (rc, m, s')" using Suc.prems unfolding step_until_commits.simps n by simp
    from Suc.IH [OF this] obtain k where
      k: "k \<le> t" "tb s' = (tick_nodump V ^^ k) (tb s1)" "tickcount s' = tickcount s1 + of_nat k" "rc = 1 \<or> 0 < k" by blast
    then show ?thesis using e by (intro exI [of _ "Suc k"]) (simp add: funpow_swap1 add.assoc)
  next
    case False
    then have "s' = lowest m1 [0, 1, 2, 3] s1"
      using Suc.prems unfolding step_until_commits.simps n by (auto simp del: lowest.simps)
    then show ?thesis using e by (intro exI [of _ 1]) (simp add: tb_lowest del: lowest.simps)
  qed
qed auto

lemma step_any_clocks:
  "step_any V show False t s = (rc, s') \<Longrightarrow>
     \<exists>k\<le>t. tb s' = (tick_nodump V ^^ k) (tb s) \<and> tickcount s' = tickcount s + of_nat k \<and> (rc = 1 \<or> 0 < k)"
  by (auto simp: step_any_def split: prod.splits dest: commits_clocks)

lemma bookkeeping:
  "bt_bench (fold_bands V st) = bt_bench st" "bt_typed (fold_bands V st) = bt_typed st"
  "bt_ckpts (fold_bands V st) = bt_ckpts st" "bt_files (fold_bands V st) = bt_files st"
  "bt_bench (heartbeat V op st) = bt_bench st" "bt_typed (heartbeat V op st) = bt_typed st"
  "bt_ckpts (heartbeat V op st) = bt_ckpts st" "bt_files (heartbeat V op st) = bt_files st"
  "bt_bench (save_checkpoint op opened st) = bt_bench st" "bt_typed (save_checkpoint op opened st) = bt_typed st"
proof -
  have "bt_bench (fold (band_at V) is st) = bt_bench st \<and> bt_typed (fold (band_at V) is st) = bt_typed st \<and>
    bt_ckpts (fold (band_at V) is st) = bt_ckpts st \<and> bt_files (fold (band_at V) is st) = bt_files st" for "is" st
    by (induction "is" arbitrary: st) (simp_all add: band_at_def Let_def)
  then show "bt_bench (fold_bands V st) = bt_bench st" "bt_typed (fold_bands V st) = bt_typed st"
    "bt_ckpts (fold_bands V st) = bt_ckpts st" "bt_files (fold_bands V st) = bt_files st"
    unfolding fold_bands_def by blast+
qed (auto simp: heartbeat_def save_checkpoint_def Let_def split: prod.splits)

subsection \<open>Typed characters arrive in order\<close>

text \<open>
  What the harness relies on in the UART's input latch: it takes an offered byte once, says so, and
  goes on saying so until the offer is withdrawn; \<open>acc\<close> is the list of bytes it has taken.
\<close>

definition host_latch :: "'v vsystem \<Rightarrow> 'v hostport \<Rightarrow> ('v \<Rightarrow> u8 list) \<Rightarrow> bool" where
  "host_latch V P acc \<longleftrightarrow>
     (\<forall>b v. h_valid P (h_set_valid P b v) = b \<and> h_char P (h_set_valid P b v) = h_char P v \<and>
        h_consumed P (h_set_valid P b v) = h_consumed P v \<and> acc (h_set_valid P b v) = acc v) \<and>
     (\<forall>c v. h_char P (h_set_char P c v) = c \<and> h_valid P (h_set_char P c v) = h_valid P v \<and>
        h_consumed P (h_set_char P c v) = h_consumed P v \<and> acc (h_set_char P c v) = acc v) \<and>
     (\<forall>v. let v' = tick_nodump V v in h_valid P v' = h_valid P v \<and> h_char P v' = h_char P v \<and>
        (if h_consumed P v then acc v' = acc v \<and> (h_valid P v \<longrightarrow> h_consumed P v')
         else if h_valid P v then acc v' = acc v \<and> \<not> h_consumed P v' \<or> acc v' = acc v @ [h_char P v] \<and> h_consumed P v'
         else acc v' = acc v \<and> \<not> h_consumed P v'))"

text \<open>The bytes typed are those taken, and the one on offer.\<close>

definition delivered :: "'v hostport \<Rightarrow> ('v \<Rightarrow> u8 list) \<Rightarrow> u8 list \<Rightarrow> 'v \<Rightarrow> bool" where
  "delivered P acc R v \<longleftrightarrow> R = acc v @ (if h_valid P v \<and> \<not> h_consumed P v then [h_char P v] else [])"

lemma tick_delivered: "host_latch V P acc \<Longrightarrow> delivered P acc R v \<Longrightarrow> delivered P acc R ((tick_nodump V ^^ k) v)"
proof (induction k)
  case (Suc k)
  let ?v = "(tick_nodump V ^^ k) v"
  have d: "delivered P acc R ?v" using Suc by blast
  have "let v' = tick_nodump V ?v in h_valid P v' = h_valid P ?v \<and> h_char P v' = h_char P ?v \<and>
        (if h_consumed P ?v then acc v' = acc ?v \<and> (h_valid P ?v \<longrightarrow> h_consumed P v')
         else if h_valid P ?v then acc v' = acc ?v \<and> \<not> h_consumed P v' \<or> acc v' = acc ?v @ [h_char P ?v] \<and> h_consumed P v'
         else acc v' = acc ?v \<and> \<not> h_consumed P v')"
    using Suc.prems(1) unfolding host_latch_def by blast
  then show ?case using d by (auto simp: delivered_def Let_def split: if_splits)
qed simp

lemma input_delivered:
  assumes "host_latch V P acc" "delivered P acc R v" "console_input P got tick v = (tick', bytes, v')"
  shows "delivered P acc (R @ bytes) v'"
proof -
  let ?v = "if h_consumed P v then h_set_valid P False v else v"
  have l: "h_valid P (h_set_valid P b v) = b" "h_char P (h_set_valid P b v) = h_char P v"
    "h_consumed P (h_set_valid P b v) = h_consumed P v" "acc (h_set_valid P b v) = acc v"
    "h_char P (h_set_char P c v) = c" "h_valid P (h_set_char P c v) = h_valid P v"
    "h_consumed P (h_set_char P c v) = h_consumed P v" "acc (h_set_char P c v) = acc v" for b c v
    using assms(1) unfolding host_latch_def by blast+
  have "delivered P acc R ?v" using assms(2) by (auto simp: delivered_def l)
  then show ?thesis
    using assms(3) by (auto simp: console_input_def delivered_def Let_def l split: if_splits option.splits)
qed

lemma iter_delivered:
  assumes "host_latch V P acc" "delivered P acc (R @ bt_typed st) (tb (bt_bench st))" "bt_iter V P t op ev st = (x, st')"
  shows "delivered P acc (R @ bt_typed st') (tb (bt_bench st'))"
proof -
  obtain rc b where s: "step_any V True False t (bt_bench st) = (rc, b)" by (cases "step_any V True False t (bt_bench st)")
  obtain tick bytes v where c: "console_input P (ev_read ev) (bt_input_tick st) (tb b) = (tick, bytes, v)"
    by (cases "console_input P (ev_read ev) (bt_input_tick st) (tb b)")
  have d: "delivered P acc (R @ bt_typed st) (tb b)"
    using step_any_clocks [OF s] tick_delivered [OF assms(1,2)] by auto
  from input_delivered [OF assms(1) d c] show ?thesis
    using assms(3) d by (auto simp: bt_iter_def s c Let_def bookkeeping split: if_splits)
qed

text \<open>
  C27: what is typed at the simulated console arrives complete and in order: at every moment the bytes
  read from the standard input are the bytes the UART has taken since the start, followed by the one
  still on offer.
\<close>

theorem console_in_order:
  assumes "host_latch V P acc" "\<not> h_consumed P (tb b)" "bt_run V P step_timeout op evs (bt_begin P op files b steps) = (x, st)"
  shows "acc (tb b) @ bt_typed st =
    acc (tb (bt_bench st)) @ (if h_valid P (tb (bt_bench st)) \<and> \<not> h_consumed P (tb (bt_bench st)) then [h_char P (tb (bt_bench st))] else [])"
proof -
  let ?s = "bt_begin P op files b steps"
  have run: "delivered P acc (R @ bt_typed st') (tb (bt_bench st'))"
    if "delivered P acc (R @ bt_typed s) (tb (bt_bench s))" "bt_run V P step_timeout op evs s = (x, st')" for R s st'
    using that
  proof (induction evs arbitrary: s)
    case (Cons ev evs)
    obtain y s1 where i: "bt_iter V P step_timeout op ev s = (y, s1)" by (cases "bt_iter V P step_timeout op ev s")
    show ?case using iter_delivered [OF assms(1) Cons.prems(1) i] Cons i by (cases y) auto
  qed simp
  have "acc (tb (bt_bench ?s)) = acc (tb b)" "\<not> h_valid P (tb (bt_bench ?s))" "bt_typed ?s = []"
    using assms(1) by (simp_all add: bt_begin_def host_latch_def Let_def)
  then have "delivered P acc (acc (tb b) @ bt_typed ?s) (tb (bt_bench ?s))" by (simp add: delivered_def)
  from run [OF this assms(3)] show ?thesis by (simp add: delivered_def)
qed

text \<open>A latch that takes an offered byte at the next clock.\<close>

type_synonym latch = "bool \<times> u8 \<times> bool \<times> u8 list"

definition latch_clock :: "bool \<Rightarrow> latch \<Rightarrow> latch" where
  "latch_clock up = (\<lambda>(va, c, tk, a).
     if up \<and> va \<and> \<not> tk then (va, c, True, a @ [c]) else if up \<and> \<not> va then (va, c, False, a) else (va, c, tk, a))"

definition latch_v :: "latch vsystem" where
  "latch_v = \<lparr>v_eval = (\<lambda>v. v), v_set_clock = latch_clock, v_set_reset = (\<lambda>_ v. v), v_set_finishedProgramming = (\<lambda>_ v. v),
     v_set_programmer_valid = (\<lambda>_ v. v), v_set_programmer_byte = (\<lambda>_ v. v), v_set_programmer_offset = (\<lambda>_ v. v),
     v_set_prober_offset = (\<lambda>_ v. v), v_prober_accessLong = (\<lambda>_. 0), v_commitFired = (\<lambda>h _. h = 0), v_interrupt = (\<lambda>_ _. False),
     v_pc = (\<lambda>_ _. 0), v_registersOut = (\<lambda>_ _ _. 0), v_msipShared = (\<lambda>_ _. 0), v_mtime = (\<lambda>_. 0), v_mtimecmpShared = (\<lambda>_ _. 0),
     v_mepc = (\<lambda>_ _. 0), v_mtvec = (\<lambda>_ _. 0), v_mcause = (\<lambda>_ _. 0), v_outChar_valid = (\<lambda>_ _. False),
     v_outChar_byte = (\<lambda>_ _. 0), v_memory = (\<lambda>_. []), v_set_memory = (\<lambda>_ v. v)\<rparr>"

definition latch_p :: "latch hostport" where
  "latch_p = \<lparr>h_valid = fst, h_char = (\<lambda>v. fst (snd v)), h_consumed = (\<lambda>v. fst (snd (snd v))),
     h_set_valid = (\<lambda>b (_, r). (b, r)), h_set_char = (\<lambda>c (va, _, r). (va, c, r))\<rparr>"

lemma latch_ok: "host_latch latch_v latch_p (\<lambda>v. snd (snd (snd v)))"
  by (auto simp: host_latch_def latch_p_def latch_v_def tick_nodump_def latch_clock_def split: prod.splits)

theorem console_in_order_witness:
  "\<exists>x st. bt_run latch_v latch_p 1 (parse_options [''linux_sim'']) (replicate 9000 \<lparr>ev_signal = False, ev_read = Some 65, ev_open = True\<rparr>)
       (bt_begin latch_p (parse_options [''linux_sim'']) Map.empty (init_no_image (False, 0, False, [])) 0) = (x, st) \<and>
     bt_typed st = snd (snd (snd (tb (bt_bench st)))) @
       (if fst (tb (bt_bench st)) \<and> \<not> fst (snd (snd (tb (bt_bench st)))) then [fst (snd (tb (bt_bench st)))] else [])"
proof -
  let ?op = "parse_options [''linux_sim'']" and ?b = "init_no_image (False, 0, False, []) :: latch simulator"
  obtain x st where r: "bt_run latch_v latch_p 1 ?op (replicate 9000 \<lparr>ev_signal = False, ev_read = Some 65, ev_open = True\<rparr>)
      (bt_begin latch_p ?op Map.empty ?b 0) = (x, st)" by (meson surj_pair)
  have "\<not> h_consumed latch_p (tb ?b)" "snd (snd (snd (tb ?b))) = []" by (simp_all add: latch_p_def init_no_image_def)
  then have "bt_typed st = snd (snd (snd (tb (bt_bench st)))) @
       (if fst (tb (bt_bench st)) \<and> \<not> fst (snd (snd (tb (bt_bench st)))) then [fst (snd (tb (bt_bench st)))] else [])"
    using console_in_order [OF latch_ok _ r] by (simp add: latch_p_def)
  then show ?thesis using r by blast
qed

subsection \<open>Checkpoints\<close>

lemma prune_suffix:
  "prune keep cs files = (cs', files') \<Longrightarrow>
     \<exists>old. cs = old @ cs' \<and> files' = files |` (- set old) \<and> (keep \<noteq> 0 \<longrightarrow> length cs' \<le> unat keep) \<and> (old = [] \<or> length cs' = unat keep)"
proof (induction keep cs files rule: prune.induct)
  case (2 keep c cs files)
  show ?case
  proof (cases "keep \<noteq> 0 \<and> length (c # cs) > unat keep")
    case True
    then have p: "prune keep cs (files(c := None)) = (cs', files')" using 2 by simp
    from "2.IH" [OF True this] obtain old where
      o: "cs = old @ cs'" "files' = (files(c := None)) |` (- set old)" "keep \<noteq> 0 \<longrightarrow> length cs' \<le> unat keep" "old = [] \<or> length cs' = unat keep" by blast
    have "files' = files |` (- set (c # old))" unfolding o(2) by (auto simp: restrict_map_def fun_eq_iff)
    moreover have "length cs' = unat keep" using o True by auto
    ultimately show ?thesis using o by (intro exI [of _ "c # old"]) simp
  qed (use 2 in \<open>auto simp: restrict_map_def\<close>)
qed (auto simp: restrict_map_def)

text \<open>The files on disk are the last ones written, at most \<open>keep\<close>, in the order of their cycles.\<close>

definition ckpts_ok :: "boot_options \<Rightarrow> 'v linux_sim \<Rightarrow> bool" where
  "ckpts_ok op st \<longleftrightarrow>
     sorted_wrt (<) (bt_ckpts st) \<and> (\<forall>c\<in>set (bt_ckpts st). c \<le> tickcount (bt_bench st)) \<and> dom (bt_files st) = set (bt_ckpts st) \<and>
     (\<forall>c ck. bt_files st c = Some ck \<longrightarrow> ck_cyc ck = c \<and> bt_restore ck \<noteq> None) \<and>
     (op_ckpt_keep op \<noteq> 0 \<longrightarrow> length (bt_ckpts st) \<le> unat (op_ckpt_keep op))"

lemma save_ckpts_ok:
  assumes "ckpts_ok op st" "\<forall>c\<in>set (bt_ckpts st). c < tickcount (bt_bench st)"
  shows "ckpts_ok op (save_checkpoint op opened st)"
proof (cases "bt_next_ckpt st \<le> tickcount (bt_bench st) \<and> opened")
  case True
  let ?cyc = "tickcount (bt_bench st)" and ?st = "st\<lparr>bt_next_ckpt := tickcount (bt_bench st) + op_ckpt_every op\<rparr>"
  let ?files = "(bt_files st)(?cyc \<mapsto> make_checkpoint ?st)"
  obtain cs files where p: "prune (op_ckpt_keep op) (bt_ckpts st @ [?cyc]) ?files = (cs, files)" by (meson surj_pair)
  have s: "save_checkpoint op opened st = ?st\<lparr>bt_ckpts := cs, bt_files := files\<rparr>"
    using True p by (simp add: save_checkpoint_def Let_def)
  from prune_suffix [OF p] obtain old where
    o: "bt_ckpts st @ [?cyc] = old @ cs" "files = ?files |` (- set old)" "op_ckpt_keep op \<noteq> 0 \<longrightarrow> length cs \<le> unat (op_ckpt_keep op)" by blast
  have w: "sorted_wrt (<) (old @ cs)" using assms unfolding o(1) [symmetric] by (simp add: sorted_wrt_append ckpts_ok_def)
  then have dis: "set old \<inter> set cs = {}" by (auto simp: sorted_wrt_append)
  have all: "set old \<union> set cs = insert ?cyc (set (bt_ckpts st))" using arg_cong [OF o(1), of set] by auto
  have "dom files = set cs"
    using assms(1) all dis unfolding o(2) by (auto simp: ckpts_ok_def)
  moreover have "ck_cyc ck = c \<and> bt_restore ck \<noteq> None" if "files c = Some ck" for c ck
    using that assms(1) unfolding o(2)
    by (auto simp: ckpts_ok_def restrict_map_def make_checkpoint_def bt_restore_def split: if_splits)
  moreover have "\<forall>c\<in>set cs. c \<le> ?cyc"
  proof
    fix c
    assume "c \<in> set cs"
    then have "c = ?cyc \<or> c \<in> set (bt_ckpts st)" using all by blast
    then show "c \<le> ?cyc" using assms(2) by auto
  qed
  ultimately show ?thesis unfolding s using w o(3) by (simp add: ckpts_ok_def sorted_wrt_append)
qed (use assms in \<open>auto simp: save_checkpoint_def Let_def ckpts_ok_def\<close>)

lemma clocks_no_wrap:
  assumes "step_any V show False t s = (rc, s')" "unat (tickcount s) + t < 2 ^ 64"
  shows "unat (tickcount s') \<le> unat (tickcount s) + t" "tickcount s \<le> tickcount s'" "rc \<noteq> 1 \<Longrightarrow> tickcount s < tickcount s'"
proof -
  obtain k where k: "k \<le> t" "tickcount s' = tickcount s + of_nat k" "rc = 1 \<or> 0 < k" using step_any_clocks [OF assms(1)] by blast
  have "unat (of_nat k :: u64) = k" using k(1) assms(2) by (subst unat_of_nat) simp
  then have "unat (tickcount s') = unat (tickcount s) + k"
    using k assms(2) by (simp add: unat_word_ariths)
  then show "unat (tickcount s') \<le> unat (tickcount s) + t" "tickcount s \<le> tickcount s'" "rc \<noteq> 1 \<Longrightarrow> tickcount s < tickcount s'"
    using k by (auto simp: word_le_nat_alt word_less_nat_alt)
qed

lemma ckpts_ok_later:
  assumes "ckpts_ok op st" "tickcount (bt_bench st) \<le> tickcount (bt_bench st')" "bt_ckpts st' = bt_ckpts st" "bt_files st' = bt_files st"
  shows "ckpts_ok op st'"
  using assms by (auto simp: ckpts_ok_def)

lemma iter_ckpts_ok:
  assumes "ckpts_ok op st" "unat (tickcount (bt_bench st)) + t < 2 ^ 64" "bt_iter V P t op ev st = (x, st')"
  shows "ckpts_ok op st' \<and> unat (tickcount (bt_bench st')) \<le> unat (tickcount (bt_bench st)) + t"
proof -
  obtain rc b where s: "step_any V True False t (bt_bench st) = (rc, b)" by (meson surj_pair)
  obtain tick bytes v where c: "console_input P (ev_read ev) (bt_input_tick st) (tb b) = (tick, bytes, v)" by (meson prod_cases3)
  note clk = clocks_no_wrap [OF s assms(2)]
  have bench: "tickcount (bt_bench st') = tickcount b"
    using assms(3) by (auto simp: bt_iter_def s c Let_def bookkeeping split: if_splits)
  have "ckpts_ok op st'"
  proof (cases "bt_files st' = bt_files st \<and> bt_ckpts st' = bt_ckpts st")
    case True
    then show ?thesis using ckpts_ok_later [OF assms(1)] clk(2) bench by simp
  next
    case False
    then obtain s1 where s1: "rc \<noteq> 1" "st' = save_checkpoint op (ev_open ev) s1" "bt_bench s1 = b\<lparr>tb := v\<rparr>"
      "bt_files s1 = bt_files st" "bt_ckpts s1 = bt_ckpts st"
      using assms(3) by (auto simp: bt_iter_def s c Let_def bookkeeping split: if_splits)
    have "\<forall>c\<in>set (bt_ckpts s1). c < tickcount (bt_bench s1)"
      using clk(3) [OF s1(1)] assms(1) unfolding s1(3,5) ckpts_ok_def by auto
    then show ?thesis
      unfolding s1(2) using clk(2) s1 by (intro save_ckpts_ok ckpts_ok_later [OF assms(1)]) simp_all
  qed
  then show ?thesis using clk(1) bench by simp
qed

text \<open>
  C28: the checkpoint files. As long as the cycle counter does not wrap, after any run from an empty
  directory the files on disk are exactly those of the harness's list, which is in the order of their
  cycles and no longer than the number to keep, and every one of them can be restored to its cycle.
\<close>

theorem checkpoints_kept:
  assumes "bt_run V P step_timeout op evs (bt_begin P op Map.empty b steps) = (x, st)"
    "unat (tickcount b) + length evs * step_timeout < 2 ^ 64"
  shows "ckpts_ok op st"
proof -
  have "ckpts_ok op st" if "ckpts_ok op s" "unat (tickcount (bt_bench s)) + length evs * step_timeout < 2 ^ 64"
    "bt_run V P step_timeout op evs s = (x, st)" for s
    using that
  proof (induction evs arbitrary: s)
    case (Cons ev evs)
    obtain y s1 where i: "bt_iter V P step_timeout op ev s = (y, s1)" by (meson surj_pair)
    have "ckpts_ok op s1 \<and> unat (tickcount (bt_bench s1)) \<le> unat (tickcount (bt_bench s)) + step_timeout"
      by (rule iter_ckpts_ok [OF Cons.prems(1) _ i]) (use Cons.prems(2) in simp)
    then show ?case using Cons i by (cases y) auto
  qed simp
  moreover have "ckpts_ok op (bt_begin P op Map.empty b steps)" by (simp add: bt_begin_def ckpts_ok_def Let_def)
  ultimately show ?thesis using assms by (simp add: bt_begin_def Let_def)
qed

theorem checkpoints_kept_witness:
  "\<exists>x st. bt_run latch_v latch_p 1 (parse_options [''linux_sim'', ''--debug'', ''--ckpt-every'', ''3'']) (replicate 50 \<lparr>ev_signal = False, ev_read = None, ev_open = True\<rparr>)
       (bt_begin latch_p (parse_options [''linux_sim'', ''--debug'', ''--ckpt-every'', ''3'']) Map.empty (init_no_image (False, 0, False, [])) 0) = (x, st) \<and>
     ckpts_ok (parse_options [''linux_sim'', ''--debug'', ''--ckpt-every'', ''3'']) st"
proof -
  let ?op = "parse_options [''linux_sim'', ''--debug'', ''--ckpt-every'', ''3'']" and ?b = "init_no_image (False, 0, False, []) :: latch simulator"
  obtain x st where r: "bt_run latch_v latch_p 1 ?op (replicate 50 \<lparr>ev_signal = False, ev_read = None, ev_open = True\<rparr>)
      (bt_begin latch_p ?op Map.empty ?b 0) = (x, st)" by (meson surj_pair)
  have "ckpts_ok ?op st" by (rule checkpoints_kept [OF r]) (simp add: init_no_image_def)
  then show ?thesis using r by blast
qed

text \<open>A checkpoint restores the model, the cycle and the step count; any other file is refused.\<close>

theorem restore_checkpoint:
  "\<exists>b. bt_restore (make_checkpoint st) = Some (b, bt_steps st) \<and> tb b = tb (bt_bench st) \<and> tickcount b = tickcount (bt_bench st)"
  "ck_magic c \<noteq> kCkptMagic \<or> ck_version c \<noteq> kCkptVersion \<Longrightarrow> bt_restore c = None"
  by (auto simp: bt_restore_def make_checkpoint_def init_no_image_def)

text \<open>
  The start after a restore withdraws the byte on offer, so a byte that was read but not yet taken when
  the checkpoint was written is never delivered.
\<close>

theorem restore_drops_offer:
  assumes "host_latch V P acc" "bt_restore (make_checkpoint st) = Some (b, n)"
  shows "acc (tb (bt_bench (bt_begin P op files b n))) = acc (tb (bt_bench st)) \<and> \<not> h_valid P (tb (bt_bench (bt_begin P op files b n)))"
  using assms by (auto simp: bt_restore_def make_checkpoint_def init_no_image_def bt_begin_def host_latch_def Let_def split: if_splits)

subsection \<open>Pinned harts\<close>

text \<open>A band holds the least and the greatest program counter seen since the last heartbeat.\<close>

lemma band_at_nth:
  assumes "j < length (bt_band_lo st)" "j < length (bt_band_hi st)"
  shows "bt_band_lo (band_at V i st) ! j = (if i = j then min (bt_band_lo st ! j) (core_pc V (int j) (bt_bench st)) else bt_band_lo st ! j)"
    "bt_band_hi (band_at V i st) ! j = (if i = j then max (bt_band_hi st ! j) (core_pc V (int j) (bt_bench st)) else bt_band_hi st ! j)"
    "length (bt_band_lo (band_at V i st)) = length (bt_band_lo st)" "length (bt_band_hi (band_at V i st)) = length (bt_band_hi st)"
    "bt_bench (band_at V i st) = bt_bench st"
  using assms by (auto simp: band_at_def Let_def nth_list_update min_def max_def)

lemma bands_nth:
  assumes "distinct is" "j < length (bt_band_lo st)" "j < length (bt_band_hi st)"
  shows "bt_band_lo (fold (band_at V) is st) ! j = (if j \<in> set is then min (bt_band_lo st ! j) (core_pc V (int j) (bt_bench st)) else bt_band_lo st ! j) \<and>
    bt_band_hi (fold (band_at V) is st) ! j = (if j \<in> set is then max (bt_band_hi st ! j) (core_pc V (int j) (bt_bench st)) else bt_band_hi st ! j)"
  using assms by (induction "is" arbitrary: st) (auto simp: band_at_nth)

lemma fold_bands_nth:
  assumes "j < 4" "length (bt_band_lo st) = 4" "length (bt_band_hi st) = 4"
  shows "bt_band_lo (fold_bands V st) ! j = min (bt_band_lo st ! j) (core_pc V (int j) (bt_bench st))"
    "bt_band_hi (fold_bands V st) ! j = max (bt_band_hi st ! j) (core_pc V (int j) (bt_bench st))"
  using bands_nth [of "[0..<4]" j st V] assms by (simp_all add: fold_bands_def del: upt_rec_numeral)

subsection \<open>The mirrored console\<close>

text \<open>The log has every character of the console but the line ends, in order, in lines of at most 512.\<close>

lemma console_mirror_lines:
  assumes "fold console_mirror cs ([], []) = (line, out)"
  shows "concat out @ line = filter (\<lambda>c. c \<noteq> 10 \<and> c \<noteq> 13) cs \<and> length line < 512 \<and> (\<forall>l\<in>set out. length l \<le> 512)"
proof -
  have "concat out' @ line' = concat out @ line @ filter (\<lambda>c. c \<noteq> 10 \<and> c \<noteq> 13) cs \<and> length line' < 512 \<and> (\<forall>l\<in>set out'. length l \<le> 512)"
    if "fold console_mirror cs (line, out) = (line', out')" "length line < 512" "\<forall>l\<in>set out. length l \<le> 512" for line out line' out'
    using that
  proof (induction cs arbitrary: line out)
    case (Cons c cs)
    obtain l w where m: "console_mirror c (line, out) = (l, w)" by (meson surj_pair)
    have "concat w @ l = concat out @ line @ filter (\<lambda>c. c \<noteq> 10 \<and> c \<noteq> 13) [c]" "length l < 512" "\<forall>l\<in>set w. length l \<le> 512"
      using m Cons.prems(2,3) by (auto simp: console_mirror_def split: if_splits)
    then show ?case using Cons.IH [of l w] Cons.prems(1) m by simp
  qed simp
  from this [OF assms] show ?thesis by simp
qed

end
