(* ===== verification/Watch.thy ===== *)
theory Watch
  imports Chiron_Prelude
begin

text \<open>
  The contract of a run with a cycle budget and a commit watchdog, as the profiling programs have
  it. Every step clocks the design once; a cycle in which the watched core commits clears the stall
  counter and is judged, any other cycle is counted, and too many of them in a row end the run.
  \<open>decided\<close> says the same of the sequence of design states alone, without the counters; the lemma of
  the locale shows that a loop with these steps stops in the first decided cycle.
\<close>

definition MAX_STALL :: u64 where "MAX_STALL = 500000"

definition decided :: "('v \<Rightarrow> bool) \<Rightarrow> ('v \<Rightarrow> int option) \<Rightarrow> (nat \<Rightarrow> 'v) \<Rightarrow> nat \<Rightarrow> int option" where
  "decided fired verdict h i =
     (if fired (h i) then verdict (h i)
      else if 500000 \<le> i \<and> (\<forall>j\<in>{i - 500000<..i}. \<not> fired (h j)) then Some 3 else None)"

definition stops_at :: "('v \<Rightarrow> bool) \<Rightarrow> ('v \<Rightarrow> int option) \<Rightarrow> (nat \<Rightarrow> 'v) \<Rightarrow> nat \<Rightarrow> int \<Rightarrow> nat \<Rightarrow> bool" where
  "stops_at fired verdict h m x k \<longleftrightarrow>
     k \<le> m \<and> (\<forall>i\<in>{0<..<k}. decided fired verdict h i = None) \<and>
     (0 < k \<and> decided fired verdict h k = Some x \<or> x = 2 \<and> k = m \<and> (0 < k \<longrightarrow> decided fired verdict h k = None))"

locale watched_run =
  fixes step :: "'s \<Rightarrow> (int option \<times> 's) option" and loop :: "u64 \<Rightarrow> 's \<Rightarrow> (int \<times> 's) option"
    and core :: "'s \<Rightarrow> 'v" and adv :: "'v \<Rightarrow> 'v" and cycles :: "'s \<Rightarrow> u64" and stall :: "'s \<Rightarrow> u64"
    and fired :: "'v \<Rightarrow> bool" and verdict :: "'v \<Rightarrow> int option" and out :: "'s \<Rightarrow> 'b list" and emit :: "'v \<Rightarrow> 'b list"
  assumes loop_unfold: "loop m st =
      (if cycles st < m then
         (case step st of None \<Rightarrow> None | Some (Some x, st') \<Rightarrow> Some (x, st') | Some (None, st') \<Rightarrow> loop m st')
       else Some (2, st))"
    and step_clock: "step st = Some (r, st') \<Longrightarrow> core st' = adv (core st) \<and> cycles st' = cycles st + 1 \<and> out st' = out st @ emit (core st')"
    and step_commit: "step st = Some (r, st') \<Longrightarrow> fired (core st') \<Longrightarrow> stall st' = 0 \<and> r = verdict (core st')"
    and step_idle: "step st = Some (r, st') \<Longrightarrow> \<not> fired (core st') \<Longrightarrow>
      stall st' = stall st + 1 \<and> r = (if MAX_STALL \<le> stall st' then Some 3 else None)"
begin

text \<open>The counters of a running loop against the sequence of design states.\<close>

definition clocked :: "(nat \<Rightarrow> 'v) \<Rightarrow> nat \<Rightarrow> 's \<Rightarrow> bool" where
  "clocked h i st \<longleftrightarrow> cycles st = of_nat i \<and> core st = h i \<and> out st = concat (map (\<lambda>j. emit (h j)) [1..<Suc i])"

definition tracks :: "(nat \<Rightarrow> 'v) \<Rightarrow> nat \<Rightarrow> nat \<Rightarrow> 's \<Rightarrow> bool" where
  "tracks h i q st \<longleftrightarrow>
     clocked h i st \<and> stall st = of_nat q \<and> q < 500000 \<and> q \<le> i \<and>
     (\<forall>j\<in>{i - q<..i}. \<not> fired (h j)) \<and> (q < i \<longrightarrow> fired (h (i - q)))"

lemma tracks_commit:
  assumes "tracks h i q st" "\<And>i. h (Suc i) = adv (h i)" "step st = Some (r, st')" "fired (h (Suc i))"
  shows "r = decided fired verdict h (Suc i) \<and> clocked h (Suc i) st' \<and> tracks h (Suc i) 0 st'"
proof -
  have c: "clocked h (Suc i) st'" using step_clock [OF assms(3)] assms(1,2) by (simp add: tracks_def clocked_def)
  then have "core st' = h (Suc i)" by (simp add: clocked_def)
  then show ?thesis using step_commit [OF assms(3)] assms(4) c by (simp add: tracks_def decided_def)
qed

lemma tracks_idle:
  assumes "tracks h i q st" "\<And>i. h (Suc i) = adv (h i)" "step st = Some (r, st')" "\<not> fired (h (Suc i))"
  shows "r = decided fired verdict h (Suc i) \<and> clocked h (Suc i) st' \<and>
    (r = None \<longrightarrow> tracks h (Suc i) (Suc q) st')"
proof -
  have c: "clocked h (Suc i) st'" using step_clock [OF assms(3)] assms(1,2) by (simp add: tracks_def clocked_def)
  then have d: "core st' = h (Suc i)" by (simp add: clocked_def)
  have q: "q < 500000" "q \<le> i" "\<forall>j\<in>{i - q<..i}. \<not> fired (h j)" "q < i \<longrightarrow> fired (h (i - q))"
    using assms(1) by (simp_all add: tracks_def)
  have s: "stall st' = of_nat (Suc q)" "r = (if MAX_STALL \<le> stall st' then Some 3 else None)"
    using step_idle [OF assms(3)] assms(1,4) d by (simp_all add: tracks_def)
  have le: "MAX_STALL \<le> stall st' \<longleftrightarrow> q = 499999"
    using q(1) unfolding s(1) MAX_STALL_def word_le_nat_alt by (simp add: unat_of_nat del: of_nat_Suc) linarith
  have run: "\<not> fired (h j)" if "j \<in> {i - q<..Suc i}" for j
    using that q(3) assms(4) by (cases "j = Suc i") auto
  have "(500000 \<le> Suc i \<and> (\<forall>j\<in>{Suc i - 500000<..Suc i}. \<not> fired (h j))) \<longleftrightarrow> q = 499999"
  proof
    assume a: "500000 \<le> Suc i \<and> (\<forall>j\<in>{Suc i - 500000<..Suc i}. \<not> fired (h j))"
    have "i - q \<in> {Suc i - 500000<..Suc i}" if "q < 499999" using that a by auto
    then show "q = 499999" using a q by fastforce
  qed (use run q in auto)
  then have "r = decided fired verdict h (Suc i)" using s(2) le assms(4) by (simp add: decided_def)
  moreover have "tracks h (Suc i) (Suc q) st'" if "r = None"
    using that s le q c run by (auto simp: tracks_def split: if_splits)
  ultimately show ?thesis using c by blast
qed

lemma loop_stops:
  assumes "\<And>i. h (Suc i) = adv (h i)" "loop m st = Some (x, st')" "tracks h i q st" "i \<le> unat m"
    and "\<forall>j\<in>{0<..i}. decided fired verdict h j = None"
  shows "\<exists>k. clocked h k st' \<and> stops_at fired verdict h (unat m) x k"
  using assms(2-)
proof (induction "unat m - i" arbitrary: i q st rule: less_induct)
  case less
  have "unat m < 2 ^ LENGTH(64)" by (rule unsigned_less)
  then have "i < 2 ^ 64" using less.prems(3) by simp
  then have "unat (cycles st) = i" using less.prems(2) by (simp add: tracks_def clocked_def unat_of_nat)
  then have lt: "cycles st < m \<longleftrightarrow> i < unat m" by (simp add: word_less_nat_alt)
  show ?case
  proof (cases "i < unat m")
    case False
    then have "st' = st" "x = 2" "i = unat m" using less.prems lt by (auto simp: loop_unfold [of m st])
    then show ?thesis using less.prems by (intro exI [of _ i]) (auto simp: stops_at_def tracks_def)
  next
    case True
    obtain r st1 where s: "step st = Some (r, st1)" using less.prems(1) True lt by (auto simp: loop_unfold [of m st] split: option.splits)
    have n: "r = decided fired verdict h (Suc i) \<and> clocked h (Suc i) st1 \<and>
        (r = None \<longrightarrow> (\<exists>q. tracks h (Suc i) q st1))"
      using tracks_commit [OF less.prems(2) assms(1) s] tracks_idle [OF less.prems(2) assms(1) s] by (cases "fired (h (Suc i))") blast+
    show ?thesis
    proof (cases r)
      case None
      then obtain q' where t: "tracks h (Suc i) q' st1" using n by blast
      moreover have "loop m st1 = Some (x, st')" using less.prems(1) True lt s None by (simp add: loop_unfold [of m st])
      moreover have "\<forall>j\<in>{0<..Suc i}. decided fired verdict h j = None" using less.prems(4) n None by (auto simp: le_Suc_eq)
      ultimately show ?thesis using less.hyps [of "Suc i" st1 q'] True by simp
    next
      case (Some y)
      then have "st' = st1" "x = y" using less.prems(1) True lt s by (simp_all add: loop_unfold [of m st])
      then show ?thesis using n Some True less.prems(4) by (intro exI [of _ "Suc i"]) (auto simp: stops_at_def)
    qed
  qed
qed

lemma run_stops:
  assumes "loop m st = Some (x, st')" "cycles st = 0" "stall st = 0" "out st = []" "h = (\<lambda>i. (adv ^^ i) (core st))"
  shows "\<exists>k. core st' = h k \<and> cycles st' = of_nat k \<and> out st' = concat (map (\<lambda>j. emit (h j)) [1..<Suc k]) \<and>
    stops_at fired verdict h (unat m) x k"
proof -
  have "h (Suc i) = adv (h i)" for i by (simp add: assms(5))
  moreover have "tracks h 0 0 st" using assms by (simp add: tracks_def clocked_def)
  ultimately have "\<exists>k. clocked h k st' \<and> stops_at fired verdict h (unat m) x k"
    by (intro loop_stops [of h m st x st' 0 0]) (simp_all add: assms(1))
  then show ?thesis unfolding clocked_def by blast
qed

text \<open>An invariant under which every step is defined makes the loop return, in a state of the invariant.\<close>

lemma run_returns:
  assumes "P st" "\<And>st. P st \<Longrightarrow> \<exists>r st'. step st = Some (r, st') \<and> P st'"
  shows "\<exists>x st'. loop m st = Some (x, st') \<and> P st'"
  using assms(1)
proof (induction "unat m - unat (cycles st)" arbitrary: st rule: less_induct)
  case less
  obtain r st1 where s: "step st = Some (r, st1)" "P st1" using assms(2) [OF less.prems] by blast
  show ?case
  proof (cases "cycles st < m")
    case True
    have "unat m < 2 ^ LENGTH(64)" by (rule unsigned_less)
    then have "unat (cycles st) + 1 < 2 ^ 64" using True by (simp add: word_less_nat_alt)
    then have "unat (cycles st1) = Suc (unat (cycles st))" using step_clock [OF s(1)] by (simp add: unat_word_ariths)
    then have "\<exists>x st'. loop m st1 = Some (x, st') \<and> P st'" using less.hyps [of st1] s(2) True by (simp add: word_less_nat_alt)
    then show ?thesis using s True by (cases r) (auto simp: loop_unfold [of m st])
  qed (simp add: loop_unfold [of m st] less.prems)
qed

end

text \<open>At most one cycle and exit code can end a run.\<close>

lemma stops_at_unique:
  assumes "stops_at fired verdict h m x k" "stops_at fired verdict h m y l"
  shows "k = l \<and> x = y"
proof -
  have "k = l" using assms unfolding stops_at_def by (metis greaterThanLessThan_iff linorder_neqE_nat not_le option.distinct(1))
  then show ?thesis using assms by (auto simp: stops_at_def)
qed

end
