(* ===== verification/Profile_Run.thy ===== *)
theory Profile_Run
  imports Harness_Common Invariants Profiler Watch
begin

text \<open>
  The programs that run an image on the RTL alone: \<^verbatim>\<open>src/sim/harness/profile.cpp\<close>,
  \<^verbatim>\<open>src/sim/harness/profile_quad.cpp\<close> and \<^verbatim>\<open>src/sim/harness/fire.cpp\<close>. They compose the loader and the
  completion test of the harness library with the invariant checker and the work windows of the
  profiler. The nets that the checker and the profiler read are arguments (\<open>taps\<close>). Progress lines and
  the text of reports are left out.
\<close>

unbundle bit_operations_syntax

subsection \<open>Arguments\<close>

text \<open>\<open>strtoull\<close> with base 10.\<close>

definition strtoull10 :: "string \<Rightarrow> u64" where
  "strtoull10 s =
     (let s = dropWhile is_space s;
          (neg, s) = (case s of c # cs \<Rightarrow> if c = CHR ''-'' then (True, cs) else if c = CHR ''+'' then (False, cs) else (False, s)
                      | [] \<Rightarrow> (False, []));
          m = digits_value 10 s in
      if 2 ^ 64 \<le> m then -1 else if neg then - of_nat m else of_nat m)"

definition cycles_arg :: "string list \<Rightarrow> string \<Rightarrow> string \<Rightarrow> u64" where
  "cycles_arg argv name dflt = strtoull10 (the (find_arg argv name (Some dflt)))"

definition help_asked :: "string list \<Rightarrow> bool" where
  "help_asked argv \<longleftrightarrow> has_flag argv ''--help'' \<or> has_flag argv ''-h''"

text \<open>The name of the report: the given one, or the image without its directories and its last extension.\<close>

definition strip_dirs :: "string \<Rightarrow> string" where
  "strip_dirs p = rev (takeWhile (\<lambda>c. c \<noteq> CHR ''/'' \<and> c \<noteq> CHR 0x5C) (rev p))"

definition strip_ext :: "string \<Rightarrow> string" where
  "strip_ext p = (if CHR ''.'' \<in> set p then rev (tl (dropWhile (\<lambda>c. c \<noteq> CHR ''.'') (rev p))) else p)"

definition benchmark_name :: "string list \<Rightarrow> string" where
  "benchmark_name argv =
     (case find_arg argv ''--name'' None of
        Some n \<Rightarrow> n
      | None \<Rightarrow> strip_ext (strip_dirs (the (find_arg argv ''--image'' (Some ''sim/data/Image'')))))"

subsection \<open>The single-core profile\<close>

definition PASS_PC_0 :: u64 where "PASS_PC_0 = 0x800009a0"
definition PASS_PC_1 :: u64 where "PASS_PC_1 = 0x800009ac"
definition BENCH_DONE_PC :: u64 where "BENCH_DONE_PC = 0x80000bc8"

record 'v prun =
  pr_tb :: 'v
  pr_tickcount :: u64
  pr_cycles :: u64
  pr_last_print :: u64
  pr_stall :: u64
  pr_out :: "u8 list"

definition prun_init :: "'v \<Rightarrow> u64 \<Rightarrow> 'v prun" where
  "prun_init v t = \<lparr>pr_tb = v, pr_tickcount = t, pr_cycles = 0, pr_last_print = 0, pr_stall = 0, pr_out = []\<rparr>"

definition count_cycle :: "u64 \<Rightarrow> 'v prun \<Rightarrow> 'v prun" where
  "count_cycle interval st =
     (let st = st\<lparr>pr_tickcount := pr_tickcount st + 1, pr_cycles := pr_cycles st + 1\<rparr> in
      if pr_cycles st - pr_last_print st \<ge> interval then st\<lparr>pr_last_print := pr_cycles st\<rparr> else st)"

definition profile_clock :: "'v vsystem \<Rightarrow> 'v prun \<Rightarrow> 'v prun" where
  "profile_clock V st =
     (let v = image_tick V (pr_tb st); st = count_cycle 10000000 (st\<lparr>pr_tb := v\<rparr>) in
      if v_outChar_valid V 0 v then st\<lparr>pr_out := pr_out st @ [v_outChar_byte V 0 v]\<rparr> else st)"

text \<open>The exit test after a commit of core 0, shared by the two profilers.\<close>

definition exit_test :: "'v vsystem \<Rightarrow> Completion \<Rightarrow> 'v \<Rightarrow> int option" where
  "exit_test V c v =
     (if active c \<and> hit c (v_pc V 0 v) (v_registersOut V 0 10 v) then Some 0
      else
        (case (if active c then Running else isa_test_status (v_registersOut V 0 3 v) (v_registersOut V 0 17 v)) of
           Pass \<Rightarrow> Some 0 | Fail \<Rightarrow> Some 1 | Running \<Rightarrow> None))"

definition profile_verdict :: "'v vsystem \<Rightarrow> Completion \<Rightarrow> 'v \<Rightarrow> int option" where
  "profile_verdict V c v =
     (case exit_test V c v of
        Some x \<Rightarrow> Some x
      | None \<Rightarrow>
          if (v_pc V 0 v = PASS_PC_0 \<or> v_pc V 0 v = PASS_PC_1) \<and> (v_registersOut V 0 10 v = 2 \<or> v_registersOut V 0 3 v = 1) then Some 0
          else if v_pc V 0 v = BENCH_DONE_PC then Some 0 else None)"

definition profile_step :: "'v vsystem \<Rightarrow> Completion \<Rightarrow> 'v prun \<Rightarrow> int option \<times> 'v prun" where
  "profile_step V c st =
     (let st = profile_clock V st in
      if \<not> v_commitFired V 0 (pr_tb st) then
        (let st = st\<lparr>pr_stall := pr_stall st + 1\<rparr> in (if pr_stall st \<ge> MAX_STALL then Some 3 else None, st))
      else (let st = st\<lparr>pr_stall := 0\<rparr> in (profile_verdict V c (pr_tb st), st)))"

lemma count_cycle_simps [simp]:
  "pr_tb (count_cycle i st) = pr_tb st" "pr_cycles (count_cycle i st) = pr_cycles st + 1" "pr_stall (count_cycle i st) = pr_stall st"
  "pr_out (count_cycle i st) = pr_out st"
  by (simp_all add: count_cycle_def Let_def)

lemma profile_step_cycles [simp]: "pr_cycles (snd (profile_step V c st)) = pr_cycles st + 1"
  by (simp add: profile_step_def profile_clock_def Let_def)

lemma profile_step_next: "(r, st') = profile_step V c st \<Longrightarrow> pr_cycles st' = pr_cycles st + 1"
  by (metis profile_step_cycles snd_conv)

lemma budget_left: "(a :: u64) < b \<Longrightarrow> unat b - unat (a + 1) < unat b - unat a" "(a :: u64) < b \<Longrightarrow> Suc (unat b - unat (a + 1)) = unat b - unat a"
proof -
  assume l: "a < b"
  have "unat b < 2 ^ LENGTH(64)" by (rule unsigned_less)
  then have "unat a + 1 < 2 ^ 64" using l by (simp add: word_less_nat_alt)
  then have "unat (a + 1) = Suc (unat a)" by (simp add: unat_word_ariths)
  then show "unat b - unat (a + 1) < unat b - unat a" "Suc (unat b - unat (a + 1)) = unat b - unat a"
    using l by (auto simp: word_less_nat_alt)
qed

function profile_loop :: "'v vsystem \<Rightarrow> Completion \<Rightarrow> u64 \<Rightarrow> 'v prun \<Rightarrow> int \<times> 'v prun" where
  "profile_loop V c max_cycles st =
     (if pr_cycles st < max_cycles then
        (case profile_step V c st of (Some x, st) \<Rightarrow> (x, st) | (None, st) \<Rightarrow> profile_loop V c max_cycles st)
      else (2, st))"
  by pat_completeness auto
termination
  by (relation "measure (\<lambda>(V, c, m, st). unat m - unat (pr_cycles st))") (auto dest!: profile_step_next simp: budget_left(1))

declare profile_loop.simps [simp del]

text \<open>The exit code, and the state of the run when the image could be loaded.\<close>

definition profile_main :: "'v vsystem \<Rightarrow> string list \<Rightarrow> u8 list option \<Rightarrow> 'v \<Rightarrow> int \<times> 'v prun option" where
  "profile_main V argv file v =
     (if help_asked argv then (0, None)
      else
        (case image_reset V 0 v of (t, v) \<Rightarrow>
         case load_image V file t v of (ok, t, v) \<Rightarrow>
           if \<not> ok then (2, None)
           else map_prod id Some (profile_loop V (parse argv) (cycles_arg argv ''--timeout'' ''2000000000'') (prun_init v t))))"

subsection \<open>The quad-core profile\<close>

record 'v taps =
  tap_perf :: "'v \<Rightarrow> nat \<Rightarrow> nat \<Rightarrow> u64"
  tap_core :: "'v \<Rightarrow> core_sample list"

record 'v qrun =
  qr_run :: "'v prun"
  qr_uart_log :: "u8 list"
  qr_win :: "WorkWin list"
  qr_inv :: "core_st list"

definition qrun_init :: "'v \<Rightarrow> u64 \<Rightarrow> 'v qrun" where
  "qrun_init v t = \<lparr>qr_run = prun_init v t, qr_uart_log = [], qr_win = replicate 4 win_init, qr_inv = replicate 4 st_init\<rparr>"

text \<open>The checker looks at the settled nets before the clock edge; it is compiled in or not (\<open>inv_on\<close>).\<close>

definition tick_checked :: "'v vsystem \<Rightarrow> 'v taps \<Rightarrow> bool \<Rightarrow> u64 \<Rightarrow> 'v \<Rightarrow> core_st list \<Rightarrow> ('v \<times> core_st list) option" where
  "tick_checked V T inv_on cyc v cs =
     (let v = v_eval V v in
      case (if inv_on then map_option fst (tick_cores (tap_core T v) cyc cs) else Some cs) of
        None \<Rightarrow> None
      | Some cs \<Rightarrow> Some (v_eval V (v_set_clock V False (v_eval V (v_set_clock V True v))), cs))"

definition take_uart :: "u8 \<Rightarrow> 'v qrun \<Rightarrow> 'v qrun" where
  "take_uart b st =
     (let st = st\<lparr>qr_run := (qr_run st)\<lparr>pr_out := pr_out (qr_run st) @ [b]\<rparr>\<rparr> in
      if length (qr_uart_log st) < 2 ^ 20 then st\<lparr>qr_uart_log := qr_uart_log st @ [b]\<rparr> else st)"

definition quad_uart :: "'v vsystem \<Rightarrow> 'v \<Rightarrow> 'v qrun \<Rightarrow> 'v qrun" where
  "quad_uart V v st = fold (\<lambda>p st. if v_outChar_valid V p v then take_uart (v_outChar_byte V p v) st else st) [0..<4] st"

definition quad_clock :: "'v vsystem \<Rightarrow> 'v taps \<Rightarrow> bool \<Rightarrow> u64 \<Rightarrow> 'v qrun \<Rightarrow> 'v qrun option" where
  "quad_clock V T inv_on interval st =
     (case tick_checked V T inv_on (pr_cycles (qr_run st)) (pr_tb (qr_run st)) (qr_inv st) of
        None \<Rightarrow> None
      | Some (v, cs) \<Rightarrow>
          let st = st\<lparr>qr_run := count_cycle interval ((qr_run st)\<lparr>pr_tb := v\<rparr>), qr_inv := cs\<rparr>;
              st = quad_uart V v st in
          Some (st\<lparr>qr_win := sample (tap_perf T v) (\<lambda>i. v_commitFired V i v) (\<lambda>i. v_pc V i v) (pr_cycles (qr_run st)) (qr_win st)\<rparr>))"

definition set_stall :: "u64 \<Rightarrow> 'v qrun \<Rightarrow> 'v qrun" where
  "set_stall n st = st\<lparr>qr_run := (qr_run st)\<lparr>pr_stall := n\<rparr>\<rparr>"

definition quad_step :: "'v vsystem \<Rightarrow> 'v taps \<Rightarrow> bool \<Rightarrow> u64 \<Rightarrow> Completion \<Rightarrow> 'v qrun \<Rightarrow> (int option \<times> 'v qrun) option" where
  "quad_step V T inv_on interval c st =
     (case quad_clock V T inv_on interval st of
        None \<Rightarrow> None
      | Some st \<Rightarrow>
          Some (if \<not> v_commitFired V 0 (pr_tb (qr_run st)) then
                  (let st = set_stall (pr_stall (qr_run st) + 1) st in
                   (if pr_stall (qr_run st) \<ge> MAX_STALL then Some 3 else None, st))
                else (exit_test V c (pr_tb (qr_run st)), set_stall 0 st)))"

lemma take_uart_simps [simp]:
  "pr_tb (qr_run (take_uart b st)) = pr_tb (qr_run st)" "pr_cycles (qr_run (take_uart b st)) = pr_cycles (qr_run st)"
  "pr_stall (qr_run (take_uart b st)) = pr_stall (qr_run st)" "qr_win (take_uart b st) = qr_win st" "qr_inv (take_uart b st) = qr_inv st"
  by (simp_all add: take_uart_def Let_def)

lemma quad_uart_simps [simp]:
  "pr_tb (qr_run (quad_uart V v st)) = pr_tb (qr_run st)" "pr_cycles (qr_run (quad_uart V v st)) = pr_cycles (qr_run st)"
  "pr_stall (qr_run (quad_uart V v st)) = pr_stall (qr_run st)" "qr_win (quad_uart V v st) = qr_win st" "qr_inv (quad_uart V v st) = qr_inv st"
proof -
  let ?f = "\<lambda>p st. if v_outChar_valid V p v then take_uart (v_outChar_byte V p v) st else st"
  have "pr_tb (qr_run (fold ?f ps st)) = pr_tb (qr_run st) \<and> pr_cycles (qr_run (fold ?f ps st)) = pr_cycles (qr_run st) \<and>
    pr_stall (qr_run (fold ?f ps st)) = pr_stall (qr_run st) \<and> qr_win (fold ?f ps st) = qr_win st \<and> qr_inv (fold ?f ps st) = qr_inv st" for ps st
    by (induction ps arbitrary: st) simp_all
  then show "pr_tb (qr_run (quad_uart V v st)) = pr_tb (qr_run st)" "pr_cycles (qr_run (quad_uart V v st)) = pr_cycles (qr_run st)"
    "pr_stall (qr_run (quad_uart V v st)) = pr_stall (qr_run st)" "qr_win (quad_uart V v st) = qr_win st" "qr_inv (quad_uart V v st) = qr_inv st"
    unfolding quad_uart_def by blast+
qed

lemma quad_clock_cycles: "quad_clock V T on i st = Some st' \<Longrightarrow>
    pr_cycles (qr_run st') = pr_cycles (qr_run st) + 1 \<and> pr_stall (qr_run st') = pr_stall (qr_run st)"
  by (auto simp: quad_clock_def Let_def split: option.splits)

lemma quad_step_next: "quad_step V T on i c st = Some (r, st') \<Longrightarrow> pr_cycles (qr_run st') = pr_cycles (qr_run st) + 1"
  by (auto simp: quad_step_def set_stall_def Let_def split: option.splits if_splits dest!: quad_clock_cycles)

function quad_loop :: "'v vsystem \<Rightarrow> 'v taps \<Rightarrow> bool \<Rightarrow> u64 \<Rightarrow> Completion \<Rightarrow> u64 \<Rightarrow> 'v qrun \<Rightarrow> (int \<times> 'v qrun) option" where
  "quad_loop V T inv_on interval c max_cycles st =
     (if pr_cycles (qr_run st) < max_cycles then
        (case quad_step V T inv_on interval c st of
           None \<Rightarrow> None
         | Some (Some x, st) \<Rightarrow> Some (x, st)
         | Some (None, st) \<Rightarrow> quad_loop V T inv_on interval c max_cycles st)
      else Some (2, st))"
  by pat_completeness auto
termination
  by (relation "measure (\<lambda>(V, T, on, i, c, m, st). unat m - unat (pr_cycles (qr_run st)))")
    (auto dest!: quad_step_next simp: budget_left(1))

declare quad_loop.simps [simp del]

subsection \<open>The benchmark's own error code\<close>

text \<open>\<open>atoi\<close>: blanks, a sign, digits; the \<open>long\<close> it reads saturates and is cut to an \<open>int\<close>.\<close>

definition atoi :: "string \<Rightarrow> int" where
  "atoi s =
     (let s = dropWhile is_space s;
          (neg, s) = (case s of c # cs \<Rightarrow> if c = CHR ''-'' then (True, cs) else if c = CHR ''+'' then (False, cs) else (False, s)
                      | [] \<Rightarrow> (False, []));
          m = int (digits_value 10 s);
          l = (if neg then max (- (2 ^ 63)) (- m) else min (2 ^ 63 - 1) m) in
      sint (word_of_int l :: 32 word))"

definition error_key :: string where "error_key = ''error code: ''"

definition matches_at :: "string \<Rightarrow> string \<Rightarrow> nat \<Rightarrow> bool" where
  "matches_at key s i \<longleftrightarrow> take (length key) (drop i s) = key"

definition scrape_error :: "u8 list \<Rightarrow> int" where
  "scrape_error uart_log =
     (let s = map (\<lambda>b. char_of (unat b)) uart_log in
      case filter (matches_at error_key s) (rev [0..<length s]) of
        [] \<Rightarrow> -1
      | pos # _ \<Rightarrow> atoi (drop (pos + length error_key) s))"

subsection \<open>Its exit code\<close>

record 'v qresult =
  qs_exit :: int
  qs_json_exit :: int
  qs_bench_error :: int
  qs_run :: "'v qrun"

text \<open>The report is written before the violations of the checker change the exit code.\<close>

definition quad_finish :: "bool \<Rightarrow> int \<Rightarrow> 'v qrun \<Rightarrow> 'v qresult" where
  "quad_finish inv_on code st =
     (let err = scrape_error (qr_uart_log st); code = (if code = 0 \<and> err > 0 then 4 else code) in
      \<lparr>qs_exit = (if inv_on \<and> report (qr_inv st) \<noteq> 0 \<and> code = 0 then 4 else code), qs_json_exit = code, qs_bench_error = err, qs_run = st\<rparr>)"

definition quad_json :: "(u64 \<Rightarrow> 'f :: {times, inverse}) \<Rightarrow> 'v taps \<Rightarrow> string list \<Rightarrow> 'v qresult \<Rightarrow> 'f json" where
  "quad_json D T argv r =
     print_json_quad D (tap_perf T (pr_tb (qr_run (qs_run r)))) (qr_win (qs_run r)) (benchmark_name argv) (qs_json_exit r) (qs_bench_error r)"

datatype 'v qend = Helped | NoImage | Ran "'v qresult"

definition quad_main :: "'v vsystem \<Rightarrow> 'v taps \<Rightarrow> bool \<Rightarrow> string list \<Rightarrow> u8 list option \<Rightarrow> 'v \<Rightarrow> 'v qend option" where
  "quad_main V T inv_on argv file v =
     (if help_asked argv then Some Helped
      else
        (case image_reset V 0 v of (t, v) \<Rightarrow>
         case load_image V file t v of (ok, t, v) \<Rightarrow>
           if \<not> ok then Some NoImage
           else
             map_option (\<lambda>(x, st). Ran (quad_finish inv_on x st))
               (quad_loop V T inv_on (cycles_arg argv ''--print-interval'' ''10000000'') (parse argv)
                  (cycles_arg argv ''--timeout'' ''4000000000'') (qrun_init v t))))"

definition quad_code :: "'v qend \<Rightarrow> int" where
  "quad_code r = (case r of Helped \<Rightarrow> 0 | NoImage \<Rightarrow> 2 | Ran q \<Rightarrow> qs_exit q)"

subsection \<open>When a profile ends\<close>

definition uart_of :: "'v vsystem \<Rightarrow> nat list \<Rightarrow> 'v \<Rightarrow> u8 list" where
  "uart_of V ps v = concat (map (\<lambda>p. if v_outChar_valid V p v then [v_outChar_byte V p v] else []) ps)"

interpretation single: watched_run "\<lambda>st. Some (profile_step V c st)" "\<lambda>m st. Some (profile_loop V c m st)"
  pr_tb "image_tick V" pr_cycles pr_stall "v_commitFired V 0" "profile_verdict V c" pr_out "uart_of V [0]" for V c
proof (unfold_locales, goal_cases)
  case (1 m st)
  show ?case by (subst profile_loop.simps) (simp split: prod.splits option.splits)
qed (auto simp: profile_step_def profile_clock_def uart_of_def Let_def split: if_splits)

text \<open>A design for the witnesses: a counter that commits in every clock, its value the program counter.\<close>

definition count_v :: "nat vsystem" where
  "count_v = \<lparr>v_eval = id, v_set_clock = (\<lambda>c n. if c then Suc n else n),
     v_set_reset = (\<lambda>_ v. v), v_set_finishedProgramming = (\<lambda>_ v. v), v_set_programmer_valid = (\<lambda>_ v. v),
     v_set_programmer_byte = (\<lambda>_ v. v), v_set_programmer_offset = (\<lambda>_ v. v), v_set_prober_offset = (\<lambda>_ v. v),
     v_prober_accessLong = (\<lambda>_. 0), v_commitFired = (\<lambda>_ _. True), v_interrupt = (\<lambda>_ _. False), v_pc = (\<lambda>_ n. of_nat n),
     v_registersOut = (\<lambda>_ _ _. 0), v_msipShared = (\<lambda>_ _. 0), v_mtime = (\<lambda>_. 0), v_mtimecmpShared = (\<lambda>_ _. 0),
     v_mepc = (\<lambda>_ _. 0), v_mtvec = (\<lambda>_ _. 0), v_mcause = (\<lambda>_ _. 0), v_outChar_valid = (\<lambda>_ n. n = 44),
     v_outChar_byte = (\<lambda>p _. of_nat p + 65), v_memory = (\<lambda>_. []), v_set_memory = (\<lambda>_ v. v)\<rparr>"

lemma count_v_tick: "(image_tick count_v ^^ i) n = n + i"
  by (induction i) (simp_all add: image_tick_def count_v_def)

lemma count_v_boot:
  "image_reset count_v 0 0 = (40, 40)" "load_image count_v (Some []) 40 40 = (True, 42, 42)"
  using count_v_tick [of 1] count_v_tick [of 20]
  by (simp_all add: image_reset_def load_image_def pad8_def Let_def load_words.simps) (simp_all add: count_v_def)

abbreviation count_args :: "string list" where
  "count_args \<equiv> [''profile'', ''--timeout'', ''100'', ''--done-pc'', ''45'']"

lemma count_args_parsed:
  "\<not> help_asked count_args" "parse count_args = \<lparr>done_pcs = [45], have_a0 = False, a0_val = 0\<rparr>"
  "cycles_arg count_args ''--timeout'' d = 100" "cycles_arg count_args ''--print-interval'' ''10000000'' = 10000000"
  by (simp_all add: help_asked_def has_flag_def parse_def find_arg_def collect_hex_args_def cycles_arg_def strtoull_def strtoull10_def
      magnitude_def digits_value_def is_space_def digit_of_def of_char_def)

lemma count_v_stops:
  assumes "verdict 43 = None" "verdict 44 = None" "verdict 45 = Some 0"
  shows "stops_at (v_commitFired count_v 0) verdict (\<lambda>i. (image_tick count_v ^^ i) 42) 100 0 3"
proof -
  have "{0<..<3} = {1, 2 :: nat}" by auto
  then show ?thesis using assms by (simp add: stops_at_def decided_def count_v_tick) (simp add: count_v_def)
qed

text \<open>
  The single-core profile program, from its arguments to its exit code. When the image loads, the
  program stops in the first cycle after loading that is decided by the states of the design alone:
  core 0 commits and the exit test gives a code, or no instruction of core 0 has committed in the last
  500000 cycles (code 3). Without such a cycle it stops with code 2 after exactly the budget of
  \<open>--timeout\<close>. What it prints is the sequence of the bytes that core 0 presented, cycle by cycle.
\<close>

theorem profile_run_outcome:
  assumes "\<not> help_asked argv" "image_reset V 0 v0 = (t0, v1)" "load_image V file t0 v1 = (True, t, v)"
    and "h = (\<lambda>i. (image_tick V ^^ i) v)"
  shows "\<exists>x st k. profile_main V argv file v0 = (x, Some st) \<and> pr_tb st = h k \<and> pr_cycles st = of_nat k \<and>
    pr_out st = concat (map (\<lambda>j. uart_of V [0] (h j)) [1..<Suc k]) \<and>
    stops_at (v_commitFired V 0) (profile_verdict V (parse argv)) h (unat (cycles_arg argv ''--timeout'' ''2000000000'')) x k"
proof -
  let ?m = "cycles_arg argv ''--timeout'' ''2000000000''"
  obtain x st where l: "profile_loop V (parse argv) ?m (prun_init v t) = (x, st)" by (metis prod.exhaust)
  then have "profile_main V argv file v0 = (x, Some st)" using assms(1-3) by (simp add: profile_main_def)
  then show ?thesis using single.run_stops [of V "parse argv" ?m "prun_init v t" x st h] l assms(4) by (simp add: prun_init_def)
qed

theorem profile_run_outcome_witness:
  "\<exists>st. profile_main count_v count_args (Some []) 0 = (0, Some st) \<and> pr_cycles st = 3 \<and> pr_out st = [65]"
proof -
  let ?h = "\<lambda>i. (image_tick count_v ^^ i) 42" let ?C = "parse count_args"
  from profile_run_outcome [OF count_args_parsed(1) count_v_boot refl] obtain x st k where
    r: "profile_main count_v count_args (Some []) 0 = (x, Some st)" "pr_cycles st = of_nat k"
      "pr_out st = concat (map (\<lambda>j. uart_of count_v [0] (?h j)) [1..<Suc k])"
      "stops_at (v_commitFired count_v 0) (profile_verdict count_v ?C) ?h 100 x k"
    by (auto simp: count_args_parsed)
  have "stops_at (v_commitFired count_v 0) (profile_verdict count_v ?C) ?h 100 0 3"
    by (rule count_v_stops) (simp_all add: count_args_parsed profile_verdict_def exit_test_def active_def hit_def
        isa_test_status_def BENCH_DONE_PC_def PASS_PC_0_def PASS_PC_1_def, simp_all add: count_v_def)
  from stops_at_unique [OF r(4) this] have "k = 3" "x = 0" by simp_all
  moreover have "[1..<Suc 3] = [1, 2, 3 :: nat]" by code_simp
  ultimately show ?thesis using r by (simp add: count_v_tick uart_of_def) (simp add: count_v_def)
qed

text \<open>Four cores are sampled, and the pointers that the checker walks over are within the buffer.\<close>

definition ptrs_ok :: "'v taps \<Rightarrow> bool" where
  "ptrs_ok T \<longleftrightarrow> (\<forall>v. length (tap_core T v) = 4 \<and> (\<forall>s\<in>set (tap_core T v). readPtr s < of_nat CHIRON_ROB_DEPTH))"

definition cores_ok :: "core_st list \<Rightarrow> bool" where
  "cores_ok xs \<longleftrightarrow> (\<forall>x\<in>set xs. prevRead x = 0xffff \<or> prevRead x < of_nat CHIRON_ROB_DEPTH)"

fun walk_ends :: "nat \<Rightarrow> u32 \<Rightarrow> u32 \<Rightarrow> bool" where
  "walk_ends 0 r rp \<longleftrightarrow> r = rp"
| "walk_ends (Suc n) r rp \<longleftrightarrow> r = rp \<or> walk_ends n ((r + 1) AND 15) rp"

lemma retire_walk_ends: "walk_ends n r rp \<Longrightarrow> \<exists>l'. retire_walk n cyc r rp l = Some l'"
  by (induction n arbitrary: r l) (auto simp: CHIRON_ROB_DEPTH_def)

lemma walk_ends_all: "\<forall>r\<in>set [0..<16]. \<forall>rp\<in>set [0..<16]. walk_ends 16 (of_nat r) (of_nat rp)"
  by code_simp

lemma walk_ends_16:
  assumes "r < 16" "rp < 16"
  shows "walk_ends 16 r rp"
proof -
  have "unat r < 16" "unat rp < 16" using assms by (simp_all add: word_less_nat_alt)
  then show ?thesis using walk_ends_all [THEN bspec, of "unat r", THEN bspec, of "unat rp"] by simp
qed

lemma check_defined:
  assumes "prevRead x = 0xffff \<or> prevRead x < 16" "readPtr s < 16"
  shows "\<exists>x' ev. check s cyc x = Some (x', ev) \<and> prevRead x' = readPtr s"
proof -
  obtain x1 ev1 where 1: "check_progress s cyc (x\<lparr>seen := True\<rparr>) = (x1, ev1)" by (metis prod.exhaust)
  then have "prevRead x1 = prevRead x" by (auto simp: check_progress_def Let_def split: if_splits)
  moreover have "\<exists>l. prevRead x \<noteq> 0xffff \<longrightarrow> retire_walk 16 cyc (prevRead x) (readPtr s) (lastRetireCyc x1) = Some l"
    using assms walk_ends_16 [of "prevRead x" "readPtr s"] retire_walk_ends by blast
  ultimately have "\<exists>x2. note_history s cyc x1 = Some x2"
    by (auto simp: note_history_def Let_def CHIRON_ROB_DEPTH_def)
  then obtain x2 where "note_history s cyc x1 = Some x2" by blast
  then have "\<exists>x' ev. check s cyc x = Some (x', ev)" by (simp add: check_def 1 split: prod.splits)
  then show ?thesis using check_progress_parts(1) by blast
qed

lemma tick_cores_defined:
  "\<forall>s\<in>set ss. readPtr s < of_nat CHIRON_ROB_DEPTH \<Longrightarrow> cores_ok xs \<Longrightarrow>
     \<exists>xs' ev. tick_cores ss cyc xs = Some (xs', ev) \<and> cores_ok xs'"
proof (induction ss cyc xs rule: tick_cores.induct)
  case (1 s ss cyc x xs)
  obtain x' ev where c: "check s cyc x = Some (x', ev)" "prevRead x' = readPtr s"
    using check_defined [of x s cyc] 1(2,3) by (auto simp: cores_ok_def CHIRON_ROB_DEPTH_def)
  have "cores_ok xs" using 1(3) by (simp add: cores_ok_def)
  then obtain xs' ev' where "tick_cores ss cyc xs = Some (xs', ev')" "cores_ok xs'"
    using 1(1) [OF c(1)] 1(2) by fastforce
  then show ?case using c 1(2) by (simp add: cores_ok_def)
qed (simp_all add: cores_ok_def)

subsection \<open>When a quad-core profile ends\<close>

lemma take_uart_log:
  "qr_uart_log st = take (2 ^ 20) (pr_out (qr_run st)) \<Longrightarrow> qr_uart_log (take_uart b st) = take (2 ^ 20) (pr_out (qr_run (take_uart b st)))"
  by (simp add: take_uart_def Let_def)

lemma take_uart_out [simp]: "pr_out (qr_run (take_uart b st)) = pr_out (qr_run st) @ [b]"
  by (simp add: take_uart_def Let_def)

lemma quad_uart_out [simp]: "pr_out (qr_run (quad_uart V v st)) = pr_out (qr_run st) @ uart_of V [0..<4] v"
proof -
  let ?f = "\<lambda>p st. if v_outChar_valid V p v then take_uart (v_outChar_byte V p v) st else st"
  have "pr_out (qr_run (fold ?f ps st)) = pr_out (qr_run st) @ uart_of V ps v" for ps st
    by (induction ps arbitrary: st) (simp_all add: uart_of_def)
  then show ?thesis by (simp only: quad_uart_def)
qed

lemma quad_uart_log:
  assumes "qr_uart_log st = take (2 ^ 20) (pr_out (qr_run st))"
  shows "qr_uart_log (quad_uart V v st) = take (2 ^ 20) (pr_out (qr_run (quad_uart V v st)))"
proof -
  let ?f = "\<lambda>p st. if v_outChar_valid V p v then take_uart (v_outChar_byte V p v) st else st"
  have "qr_uart_log st = take (2 ^ 20) (pr_out (qr_run st)) \<Longrightarrow>
    qr_uart_log (fold ?f ps st) = take (2 ^ 20) (pr_out (qr_run (fold ?f ps st)))" for ps st
  proof (induction ps arbitrary: st)
    case (Cons p ps)
    have "qr_uart_log (?f p st) = take (2 ^ 20) (pr_out (qr_run (?f p st)))" using Cons.prems take_uart_log [of st] by auto
    from Cons.IH [OF this] show ?case by simp
  qed simp
  then show ?thesis using assms by (simp only: quad_uart_def)
qed

definition quad_inv :: "'v qrun \<Rightarrow> bool" where
  "quad_inv st \<longleftrightarrow> cores_ok (qr_inv st) \<and> qr_uart_log st = take (2 ^ 20) (pr_out (qr_run st))"

lemma quad_step_inv:
  assumes "ptrs_ok T" "quad_inv st"
  shows "\<exists>r st'. quad_step V T on i c st = Some (r, st') \<and> quad_inv st'"
proof -
  let ?v = "pr_tb (qr_run st)" let ?cyc = "pr_cycles (qr_run st)"
  have "\<exists>xs ev. tick_cores (tap_core T (v_eval V ?v)) ?cyc (qr_inv st) = Some (xs, ev) \<and> cores_ok xs"
    using assms by (intro tick_cores_defined) (auto simp: ptrs_ok_def quad_inv_def)
  then obtain v xs where t: "tick_checked V T on ?cyc ?v (qr_inv st) = Some (v, xs)" "cores_ok xs"
    using assms(2) by (cases "on") (auto simp: tick_checked_def quad_inv_def)
  have "\<exists>st'. quad_clock V T on i st = Some st' \<and> quad_inv st'"
    using t assms(2) quad_uart_log [of "st\<lparr>qr_run := count_cycle i ((qr_run st)\<lparr>pr_tb := v\<rparr>), qr_inv := xs\<rparr>"]
    by (auto simp: quad_clock_def quad_inv_def Let_def)
  then show ?thesis by (auto simp: quad_step_def quad_inv_def set_stall_def Let_def)
qed

lemma tick_checked_clock: "tick_checked V T on cyc v xs = Some (v', xs') \<Longrightarrow> v' = image_tick V v"
  by (auto simp: tick_checked_def image_tick_def Let_def split: option.splits)

lemma quad_clock_run: "quad_clock V T on i st = Some st' \<Longrightarrow>
    pr_tb (qr_run st') = image_tick V (pr_tb (qr_run st)) \<and> pr_cycles (qr_run st') = pr_cycles (qr_run st) + 1 \<and>
    pr_stall (qr_run st') = pr_stall (qr_run st) \<and> pr_out (qr_run st') = pr_out (qr_run st) @ uart_of V [0..<4] (pr_tb (qr_run st'))"
  by (auto simp: quad_clock_def Let_def split: option.splits dest!: tick_checked_clock)

interpretation quad: watched_run "quad_step V T on i c" "quad_loop V T on i c"
  "\<lambda>st. pr_tb (qr_run st)" "image_tick V" "\<lambda>st. pr_cycles (qr_run st)" "\<lambda>st. pr_stall (qr_run st)"
  "v_commitFired V 0" "exit_test V c" "\<lambda>st. pr_out (qr_run st)" "uart_of V [0..<4]" for V T on i c
proof (unfold_locales, goal_cases)
  case (1 m st)
  show ?case by (subst quad_loop.simps) (simp split: prod.splits option.splits)
qed (auto simp: quad_step_def set_stall_def Let_def split: option.splits if_splits dest!: quad_clock_run)

text \<open>
  C29: the quad-core profile program. As long as the read pointers the checker walks over are within the
  buffer, the program returns; it stops in the first decided cycle, its output is that of the four
  ports in order, and its exit code is 0 exactly when the run ended with code 0, the last error code in
  the first mebibyte of output is absent or not positive, and the checker counted no violation.
\<close>

theorem quad_run_outcome:
  assumes "ptrs_ok T" "\<not> help_asked argv" "image_reset V 0 v0 = (t0, v1)" "load_image V file t0 v1 = (True, t, v)"
    and "h = (\<lambda>i. (image_tick V ^^ i) v)"
  shows "\<exists>q x k. quad_main V T on argv file v0 = Some (Ran q) \<and> pr_tb (qr_run (qs_run q)) = h k \<and>
    pr_out (qr_run (qs_run q)) = concat (map (\<lambda>j. uart_of V [0..<4] (h j)) [1..<Suc k]) \<and>
    stops_at (v_commitFired V 0) (exit_test V (parse argv)) h (unat (cycles_arg argv ''--timeout'' ''4000000000'')) x k \<and>
    (qs_exit q = 0 \<longleftrightarrow> x = 0 \<and> scrape_error (take (2 ^ 20) (pr_out (qr_run (qs_run q)))) \<le> 0 \<and>
       (on \<longrightarrow> violations (qr_inv (qs_run q)) = 0)) \<and>
    (qs_exit q \<noteq> x \<longrightarrow> x = 0 \<and> qs_exit q = 4)"
proof -
  let ?m = "cycles_arg argv ''--timeout'' ''4000000000''" let ?i = "cycles_arg argv ''--print-interval'' ''10000000''"
  have "quad_inv (qrun_init v t)" by (simp add: quad_inv_def qrun_init_def prun_init_def cores_ok_def st_init_def)
  then obtain x st where l: "quad_loop V T on ?i (parse argv) ?m (qrun_init v t) = Some (x, st)" "quad_inv st"
    using quad.run_returns [of quad_inv "qrun_init v t" V T "on" ?i "parse argv" ?m] quad_step_inv [OF assms(1)] by blast
  then have m: "quad_main V T on argv file v0 = Some (Ran (quad_finish on x st))" using assms(2-4) by (simp add: quad_main_def)
  obtain k where "pr_tb (qr_run st) = h k" "pr_out (qr_run st) = concat (map (\<lambda>j. uart_of V [0..<4] (h j)) [1..<Suc k])"
    "stops_at (v_commitFired V 0) (exit_test V (parse argv)) h (unat ?m) x k"
    using quad.run_stops [OF l(1), of h] assms(5) by (auto simp: qrun_init_def prun_init_def)
  moreover have "qs_run (quad_finish on x st) = st" by (simp add: quad_finish_def Let_def)
  moreover have "qr_uart_log st = take (2 ^ 20) (pr_out (qr_run st))" using l(2) by (simp add: quad_inv_def)
  ultimately show ?thesis using m
    by (intro exI [of _ "quad_finish on x st"] exI [of _ x] exI [of _ k]) (auto simp: quad_finish_def report_def Let_def)
qed

text \<open>Taps for the witnesses: four cores with an empty buffer.\<close>

definition count_taps :: "nat taps" where
  "count_taps = \<lparr>tap_perf = \<lambda>_ _ _. 0, tap_core = \<lambda>_. replicate 4 (idle 0)\<rparr>"

lemma count_taps_ok: "ptrs_ok count_taps"
  by (simp add: ptrs_ok_def count_taps_def idle_def CHIRON_ROB_DEPTH_def)

theorem quad_run_outcome_witness:
  "\<exists>q. quad_main count_v count_taps True count_args (Some []) 0 = Some (Ran q) \<and>
     pr_tb (qr_run (qs_run q)) = 45 \<and> pr_out (qr_run (qs_run q)) = [65, 66, 67, 68] \<and> qs_exit q \<in> {0, 4}"
proof -
  let ?h = "\<lambda>i. (image_tick count_v ^^ i) 42" let ?C = "parse count_args"
  from quad_run_outcome [OF count_taps_ok count_args_parsed(1) count_v_boot refl, of True] obtain q x k where
    r: "quad_main count_v count_taps True count_args (Some []) 0 = Some (Ran q)" "pr_tb (qr_run (qs_run q)) = ?h k"
      "pr_out (qr_run (qs_run q)) = concat (map (\<lambda>j. uart_of count_v [0..<4] (?h j)) [1..<Suc k])"
      "stops_at (v_commitFired count_v 0) (exit_test count_v ?C) ?h 100 x k" "qs_exit q \<noteq> x \<longrightarrow> x = 0 \<and> qs_exit q = 4"
    by (auto simp: count_args_parsed)
  have "stops_at (v_commitFired count_v 0) (exit_test count_v ?C) ?h 100 0 3"
    by (rule count_v_stops) (simp_all add: count_args_parsed exit_test_def active_def hit_def isa_test_status_def, simp_all add: count_v_def)
  from stops_at_unique [OF r(4) this] have "k = 3" "x = 0" by simp_all
  moreover have "[1..<Suc 3] = [1, 2, 3 :: nat]" "[0..<4] = [0, 1, 2, 3 :: nat]" by code_simp+
  ultimately show ?thesis using r by (simp add: count_v_tick uart_of_def) (auto simp: count_v_def)
qed

end
