(* ===== verification/Fire_Run.thy ===== *)
theory Fire_Run
  imports Profile_Run
begin

text \<open>
  The program that streams the UART of a bare-metal image, \<^verbatim>\<open>src/sim/harness/fire.cpp\<close>: it runs the
  design, copies every byte of core 0 to the output, counts the frames by their ``cursor home''
  sequence and stops after a number of frames, at a program counter or at the cycle budget.
\<close>

record fire_args =
  fa_max_frames :: u64
  fa_max_cycles :: u64
  fa_done_pc :: "u64 option"

definition fire_parse :: "string list \<Rightarrow> fire_args" where
  "fire_parse argv =
     \<lparr>fa_max_frames = strtoull (the (find_arg argv ''--frames'' (Some ''0''))),
      fa_max_cycles = cycles_arg argv ''--timeout'' ''2000000000'',
      fa_done_pc = map_option strtoull (find_arg argv ''--done-pc'' None)\<rparr>"

record 'v frun =
  fe_tb :: 'v
  fe_tickcount :: u64
  fe_cycles :: u64
  fe_frames :: u64
  fe_w0 :: u8
  fe_w1 :: u8
  fe_out :: "u8 list"

definition frun_init :: "'v \<Rightarrow> u64 \<Rightarrow> 'v frun" where
  "frun_init v t = \<lparr>fe_tb = v, fe_tickcount = t, fe_cycles = 0, fe_frames = 0, fe_w0 = 0, fe_w1 = 0, fe_out = []\<rparr>"

text \<open>One byte of output; the result says whether the frame budget is reached.\<close>

definition fire_byte :: "fire_args \<Rightarrow> u8 \<Rightarrow> 'v frun \<Rightarrow> bool \<times> 'v frun" where
  "fire_byte a c st =
     (let st = st\<lparr>fe_out := fe_out st @ [c]\<rparr>;
          home = (fe_w0 st = 0x1b \<and> fe_w1 st = 0x5b \<and> c = 0x48);
          st = (if home \<and> fa_max_frames a \<noteq> 0 then st\<lparr>fe_frames := fe_frames st + 1\<rparr> else st) in
      if home \<and> fa_max_frames a \<noteq> 0 \<and> fe_frames st \<ge> fa_max_frames a then (True, st)
      else (False, st\<lparr>fe_w0 := fe_w1 st, fe_w1 := c\<rparr>))"

definition fire_step :: "'v vsystem \<Rightarrow> fire_args \<Rightarrow> 'v frun \<Rightarrow> bool \<times> 'v frun" where
  "fire_step V a st =
     (let v = image_tick V (fe_tb st);
          st = st\<lparr>fe_tb := v, fe_tickcount := fe_tickcount st + 1, fe_cycles := fe_cycles st + 1\<rparr>;
          (stop, st) = (if v_outChar_valid V 0 v then fire_byte a (v_outChar_byte V 0 v) st else (False, st)) in
      if stop then (True, st)
      else (case fa_done_pc a of None \<Rightarrow> False | Some d \<Rightarrow> v_commitFired V 0 v \<and> v_pc V 0 v = d, st))"

lemma fire_byte_simps [simp]:
  "fe_tb (snd (fire_byte a c st)) = fe_tb st" "fe_cycles (snd (fire_byte a c st)) = fe_cycles st"
  "fe_out (snd (fire_byte a c st)) = fe_out st @ [c]"
  by (simp_all add: fire_byte_def Let_def)

lemma fire_step_simps [simp]:
  "fe_cycles (snd (fire_step V a st)) = fe_cycles st + 1" "fe_tb (snd (fire_step V a st)) = image_tick V (fe_tb st)"
  "fe_out (snd (fire_step V a st)) = fe_out st @ uart_of V [0] (image_tick V (fe_tb st))"
  by (simp_all add: fire_step_def uart_of_def Let_def case_prod_beta)

function fire_loop :: "'v vsystem \<Rightarrow> fire_args \<Rightarrow> 'v frun \<Rightarrow> int \<times> 'v frun" where
  "fire_loop V a st =
     (if fe_cycles st < fa_max_cycles a then
        (case fire_step V a st of (True, st) \<Rightarrow> (0, st) | (False, st) \<Rightarrow> fire_loop V a st)
      else (2, st))"
  by pat_completeness auto
termination
proof (relation "measure (\<lambda>(V, a, st). unat (fa_max_cycles a) - unat (fe_cycles st))", goal_cases)
  case (2 V a st x y)
  then have "fe_cycles y = fe_cycles st + 1" by (metis fire_step_simps(1) snd_conv)
  then show ?case using 2(1) by (simp add: budget_left(1))
qed simp

declare fire_loop.simps [simp del]

definition fire_main :: "'v vsystem \<Rightarrow> string list \<Rightarrow> u8 list option \<Rightarrow> 'v \<Rightarrow> int \<times> 'v frun option" where
  "fire_main V argv file v =
     (case image_reset V 0 v of (t, v) \<Rightarrow>
      case load_image V file t v of (ok, t, v) \<Rightarrow>
        if \<not> ok then (2, None) else map_prod id Some (fire_loop V (fire_parse argv) (frun_init v t)))"

subsection \<open>Frames\<close>

text \<open>The occurrences of ESC, bracket, H in what was printed.\<close>

definition homes :: "u8 list \<Rightarrow> nat" where
  "homes xs = length (filter (\<lambda>i. take 3 (drop i xs) = [0x1b, 0x5b, 0x48]) [0..<length xs])"

lemma homes_snoc: "homes (xs @ [c]) = homes xs + (if 2 \<le> length xs \<and> drop (length xs - 2) xs @ [c] = [0x1b, 0x5b, 0x48] then 1 else 0)"
proof -
  let ?H = "[0x1b, 0x5b, 0x48 :: u8]" and ?n = "length xs"
  let ?p = "\<lambda>ys i. take 3 (drop i ys) = ?H" and ?q = "2 \<le> ?n \<and> drop (?n - 2) xs @ [c] = ?H"
  have e: "?p (xs @ [c]) i \<longleftrightarrow> ?p xs i \<or> i = ?n - 2 \<and> ?q" if b: "i < ?n" for i
  proof -
    consider "i + 3 \<le> ?n" | "i + 2 = ?n" | "i + 1 = ?n" using b by linarith
    then show ?thesis
    proof cases
      case 1
      then show ?thesis by auto
    next
      case 2
      then have "length (take 3 (drop i xs)) \<noteq> length ?H" by simp
      then have "\<not> ?p xs i" by metis
      moreover have "take 3 (drop i (xs @ [c])) = drop i xs @ [c]" "i = ?n - 2" using 2 by simp_all
      ultimately show ?thesis using 2 by auto
    next
      case 3
      then have "length (take 3 (drop i xs)) \<noteq> length ?H" "length (take 3 (drop i (xs @ [c]))) \<noteq> length ?H" by simp_all
      then have "\<not> ?p xs i" "\<not> ?p (xs @ [c]) i" by (metis+)
      then show ?thesis using 3 by auto
    qed
  qed
  have n: "\<not> ?p xs (?n - 2)" if "2 \<le> ?n"
  proof -
    have "length (take 3 (drop (?n - 2) xs)) \<noteq> length ?H" using that by simp
    then show ?thesis by metis
  qed
  have last: "\<not> ?p (xs @ [c]) ?n" by simp
  have "homes (xs @ [c]) = length (filter (?p (xs @ [c])) [0..<?n])" using last by (simp add: homes_def)
  also have "filter (?p (xs @ [c])) [0..<?n] = filter (\<lambda>i. ?p xs i \<or> i = ?n - 2 \<and> ?q) [0..<?n]"
    using e by (intro filter_cong) auto
  also have "length \<dots> = homes xs + (if ?q then 1 else 0)"
  proof (cases ?q)
    case True
    then have "{i. i < ?n \<and> (?p xs i \<or> i = ?n - 2)} = insert (?n - 2) {i. i < ?n \<and> ?p xs i}" by auto
    moreover have "length (filter P [0..<?n]) = card {i. i < ?n \<and> P i}" for P by (simp add: length_filter_conv_card cong: conj_cong)
    ultimately show ?thesis using True n by (simp add: homes_def)
  next
    case False
    show ?thesis by (simp only: homes_def False simp_thms if_False add_0_right)
  qed
  finally show ?thesis .
qed

text \<open>The window holds the last two bytes; the counter holds the frames and stays below the budget.\<close>

definition window_ok :: "'v frun \<Rightarrow> bool" where
  "window_ok st \<longleftrightarrow> (\<exists>ys. [0, 0] @ fe_out st = ys @ [fe_w0 st, fe_w1 st])"

definition frames_ok :: "fire_args \<Rightarrow> 'v frun \<Rightarrow> bool" where
  "frames_ok a st \<longleftrightarrow> unat (fe_frames st) = (if fa_max_frames a = 0 then 0 else homes (fe_out st))"

lemma window_home:
  assumes "window_ok st"
  shows "(fe_w0 st = 0x1b \<and> fe_w1 st = 0x5b \<and> c = 0x48) \<longleftrightarrow>
    2 \<le> length (fe_out st) \<and> drop (length (fe_out st) - 2) (fe_out st) @ [c] = [0x1b, 0x5b, 0x48]"
proof -
  obtain ys where y: "[0, 0] @ fe_out st = ys @ [fe_w0 st, fe_w1 st]" using assms by (auto simp: window_ok_def)
  show ?thesis
  proof (cases ys rule: remdups_adj.cases)
    case (3 x y zs)
    then have "fe_out st = zs @ [fe_w0 st, fe_w1 st]" using y by simp
    then show ?thesis by simp
  qed (use y in auto)
qed

lemma window_shift: "window_ok st \<Longrightarrow> fe_out st' = fe_out st @ [c] \<Longrightarrow> fe_w0 st' = fe_w1 st \<Longrightarrow> fe_w1 st' = c \<Longrightarrow> window_ok st'"
  unfolding window_ok_def by (metis append_Cons append_Nil append_assoc)

lemma fire_byte_inv:
  assumes "fire_byte a c st = (stop, st')" "window_ok st" "frames_ok a st" "fa_max_frames a \<noteq> 0 \<longrightarrow> fe_frames st < fa_max_frames a"
  shows "frames_ok a st'" "stop \<longleftrightarrow> fa_max_frames a \<noteq> 0 \<and> fe_frames st' = fa_max_frames a"
    "\<not> stop \<Longrightarrow> window_ok st' \<and> (fa_max_frames a \<noteq> 0 \<longrightarrow> fe_frames st' < fa_max_frames a)"
proof -
  let ?home = "fe_w0 st = 0x1b \<and> fe_w1 st = 0x5b \<and> c = 0x48" and ?m = "fa_max_frames a"
  have h: "homes (fe_out st @ [c]) = homes (fe_out st) + (if ?home then 1 else 0)"
    unfolding homes_snoc window_home [OF assms(2)] ..
  have f: "fe_frames st' = fe_frames st + (if ?home \<and> ?m \<noteq> 0 then 1 else 0)" "fe_out st' = fe_out st @ [c]"
    using assms(1) by (auto simp: fire_byte_def Let_def split: if_splits)
  have s: "stop \<longleftrightarrow> ?home \<and> ?m \<noteq> 0 \<and> ?m \<le> fe_frames st'" using assms(1) by (auto simp: fire_byte_def Let_def split: if_splits)
  have u: "unat (fe_frames st + 1) = Suc (unat (fe_frames st))" "Suc (unat (fe_frames st)) \<le> unat ?m" if "?m \<noteq> 0"
  proof -
    have l: "unat (fe_frames st) < unat ?m" using that assms(4) by (simp add: word_less_nat_alt)
    moreover have "unat ?m < 2 ^ LENGTH(64)" by (rule unsigned_less)
    ultimately have "unat (fe_frames st) + 1 < 2 ^ 64" by simp
    then show "unat (fe_frames st + 1) = Suc (unat (fe_frames st))" by (simp add: unat_word_ariths)
    show "Suc (unat (fe_frames st)) \<le> unat ?m" using l by simp
  qed
  show "frames_ok a st'" using assms(3) f h u by (auto simp: frames_ok_def)
  show "stop \<longleftrightarrow> ?m \<noteq> 0 \<and> fe_frames st' = ?m"
    using s f(1) u assms(4) by (auto simp: word_le_nat_alt word_less_nat_alt word_unat_eq_iff)
  show "window_ok st' \<and> (?m \<noteq> 0 \<longrightarrow> fe_frames st' < ?m)" if "\<not> stop"
  proof -
    have "fe_w0 st' = fe_w1 st" "fe_w1 st' = c" using that assms(1) by (auto simp: fire_byte_def Let_def split: if_splits)
    then show ?thesis using window_shift [OF assms(2) f(2)] that s f(1) assms(4) by (auto simp: not_le)
  qed
qed

subsection \<open>When the stream ends\<close>

definition printed :: "'v vsystem \<Rightarrow> (nat \<Rightarrow> 'v) \<Rightarrow> nat \<Rightarrow> u8 list" where
  "printed V h i = concat (map (\<lambda>j. uart_of V [0] (h j)) [1..<Suc i])"

text \<open>Cycle \<open>i\<close> completes the wanted number of frames, or core 0 commits the wanted instruction.\<close>

definition fire_ends :: "'v vsystem \<Rightarrow> fire_args \<Rightarrow> (nat \<Rightarrow> 'v) \<Rightarrow> nat \<Rightarrow> bool" where
  "fire_ends V a h i \<longleftrightarrow>
     0 < i \<and> (fa_max_frames a \<noteq> 0 \<and> homes (printed V h i) = unat (fa_max_frames a) \<or>
              (\<exists>d. fa_done_pc a = Some d \<and> v_commitFired V 0 (h i) \<and> v_pc V 0 (h i) = d))"

definition fire_at :: "'v vsystem \<Rightarrow> fire_args \<Rightarrow> (nat \<Rightarrow> 'v) \<Rightarrow> nat \<Rightarrow> 'v frun \<Rightarrow> bool" where
  "fire_at V a h i st \<longleftrightarrow> fe_cycles st = of_nat i \<and> fe_tb st = h i \<and> fe_out st = printed V h i \<and> frames_ok a st"

definition fire_runs :: "fire_args \<Rightarrow> 'v frun \<Rightarrow> bool" where
  "fire_runs a st \<longleftrightarrow> window_ok st \<and> (fa_max_frames a \<noteq> 0 \<longrightarrow> fe_frames st < fa_max_frames a)"

lemma fire_step_at:
  assumes "fire_at V a h i st" "fire_runs a st" "\<And>i. h (Suc i) = image_tick V (h i)" "fire_step V a st = (stop, st')"
  shows "fire_at V a h (Suc i) st'" "stop \<longleftrightarrow> fire_ends V a h (Suc i)" "\<not> stop \<Longrightarrow> fire_runs a st'"
proof -
  let ?v = "image_tick V (fe_tb st)"
  let ?st = "st\<lparr>fe_tb := ?v, fe_tickcount := fe_tickcount st + 1, fe_cycles := fe_cycles st + 1\<rparr>"
  let ?done = "\<exists>d. fa_done_pc a = Some d \<and> v_commitFired V 0 ?v \<and> v_pc V 0 ?v = d"
  have v: "h (Suc i) = ?v" using assms(1,3) by (simp add: fire_at_def)
  have st': "st' = snd (fire_step V a st)" using assms(4) by simp
  have i: "window_ok ?st" "frames_ok a ?st" "fa_max_frames a \<noteq> 0 \<longrightarrow> fe_frames ?st < fa_max_frames a"
    using assms(1,2) by (simp_all add: fire_at_def fire_runs_def window_ok_def frames_ok_def)
  obtain b st1 where b: "(if v_outChar_valid V 0 ?v then fire_byte a (v_outChar_byte V 0 ?v) ?st else (False, ?st)) = (b, st1)"
    by (metis prod.exhaust)
  then have s: "st' = st1" "stop \<longleftrightarrow> b \<or> ?done" using assms(4) by (auto simp: fire_step_def Let_def split: if_splits option.splits)
  have f: "frames_ok a st1" "b \<longleftrightarrow> fa_max_frames a \<noteq> 0 \<and> fe_frames st1 = fa_max_frames a" "\<not> b \<Longrightarrow> fire_runs a st1"
    using b i fire_byte_inv [OF _ i] by (auto simp: fire_runs_def split: if_splits)
  show at: "fire_at V a h (Suc i) st'"
    using assms(1) f(1) v unfolding s(1) [symmetric] by (simp add: fire_at_def st' printed_def)
  then show "stop \<longleftrightarrow> fire_ends V a h (Suc i)"
    using f(1,2) s v by (auto simp: fire_ends_def fire_at_def frames_ok_def word_unat_eq_iff)
  show "\<not> stop \<Longrightarrow> fire_runs a st'" using f(3) s by blast
qed

lemma fire_loop_ends:
  assumes "fire_at V a h i st" "fire_runs a st" "\<And>i. h (Suc i) = image_tick V (h i)" "i \<le> unat (fa_max_cycles a)"
    and "\<forall>j\<le>i. \<not> fire_ends V a h j" "fire_loop V a st = (x, st')"
  shows "\<exists>k. fire_at V a h k st' \<and> k \<le> unat (fa_max_cycles a) \<and> (\<forall>j<k. \<not> fire_ends V a h j) \<and>
    (x = 0 \<and> fire_ends V a h k \<or> x = 2 \<and> k = unat (fa_max_cycles a) \<and> \<not> fire_ends V a h k)"
  using assms(1,2,4-)
proof (induction "unat (fa_max_cycles a) - i" arbitrary: i st rule: less_induct)
  case less
  let ?m = "fa_max_cycles a"
  have "unat ?m < 2 ^ LENGTH(64)" by (rule unsigned_less)
  then have "unat (fe_cycles st) = i" using less.prems(1,3) by (simp add: fire_at_def unat_of_nat)
  then have lt: "fe_cycles st < ?m \<longleftrightarrow> i < unat ?m" by (simp add: word_less_nat_alt)
  show ?case
  proof (cases "i < unat ?m")
    case False
    then have "st' = st" "x = 2" "i = unat ?m" using less.prems lt by (auto simp: fire_loop.simps [of V a st])
    then show ?thesis using less.prems(1,4) by (intro exI [of _ i]) auto
  next
    case True
    obtain stop st1 where s: "fire_step V a st = (stop, st1)" by (metis prod.exhaust)
    note n = fire_step_at [OF less.prems(1,2) assms(3) s]
    have l: "(if stop then (0, st1) else fire_loop V a st1) = (x, st')"
      using less.prems(5) True lt s by (simp add: fire_loop.simps [of V a st] split: bool.splits)
    show ?thesis
    proof (cases stop)
      case True
      then show ?thesis using l n(1,2) less.prems(4) \<open>i < unat ?m\<close> by (intro exI [of _ "Suc i"]) (auto simp: less_Suc_eq_le)
    next
      case False
      then have "\<forall>j\<le>Suc i. \<not> fire_ends V a h j" using n(2) less.prems(4) by (auto simp: le_Suc_eq)
      then show ?thesis using less.hyps [of "Suc i" st1] n(1,3) l False True by simp
    qed
  qed
qed

text \<open>
  The UART streamer. When the image loads, it prints the bytes of core 0 in order and stops with
  code 0 in the first cycle in which the output holds the wanted number of ``cursor home'' sequences,
  or in which core 0 commits the \<open>--done-pc\<close>; without such a cycle it stops with code 2 after exactly
  the cycle budget. The frame counter equals the number of sequences printed, or 0 without a frame
  budget.
\<close>

theorem fire_run_outcome:
  assumes "image_reset V 0 v0 = (t0, v1)" "load_image V file t0 v1 = (True, t, v)" "h = (\<lambda>i. (image_tick V ^^ i) v)"
    and "a = fire_parse argv"
  shows "\<exists>x st k. fire_main V argv file v0 = (x, Some st) \<and> fe_tb st = h k \<and> fe_out st = printed V h k \<and>
    unat (fe_frames st) = (if fa_max_frames a = 0 then 0 else homes (fe_out st)) \<and>
    k \<le> unat (fa_max_cycles a) \<and> (\<forall>j<k. \<not> fire_ends V a h j) \<and>
    (x = 0 \<and> fire_ends V a h k \<or> x = 2 \<and> k = unat (fa_max_cycles a) \<and> \<not> fire_ends V a h k)"
proof -
  let ?st = "frun_init v t"
  obtain x st where l: "fire_loop V a ?st = (x, st)" by (metis prod.exhaust)
  then have "fire_main V argv file v0 = (x, Some st)" using assms(1,2,4) by (simp add: fire_main_def)
  moreover have "fire_at V a h 0 ?st" by (simp add: fire_at_def frun_init_def frames_ok_def printed_def homes_def assms(3))
  moreover have "fire_runs a ?st" by (simp add: fire_runs_def frun_init_def window_ok_def word_gt_0)
  moreover have "h (Suc i) = image_tick V (h i)" for i by (simp add: assms(3))
  ultimately show ?thesis using fire_loop_ends [of V a h 0 ?st x st] l by (fastforce simp: fire_at_def frames_ok_def fire_ends_def)
qed

theorem fire_run_outcome_witness:
  "\<exists>st. fire_main count_v [''fire'', ''--done-pc'', ''45''] (Some []) 0 = (0, Some st) \<and> fe_tb st = 45 \<and> fe_out st = [65]"
proof -
  let ?h = "\<lambda>i. (image_tick count_v ^^ i) 42" and ?argv = "[''fire'', ''--done-pc'', ''45'']"
  have a: "fire_parse ?argv = \<lparr>fa_max_frames = 0, fa_max_cycles = 2000000000, fa_done_pc = Some 45\<rparr>"
    by (simp add: fire_parse_def find_arg_def cycles_arg_def strtoull_def strtoull10_def magnitude_def digits_value_def
        is_space_def digit_of_def of_char_def)
  have e: "fire_ends count_v (fire_parse ?argv) ?h i \<longleftrightarrow> i > 0 \<and> (of_nat (42 + i) :: u64) = 45" for i
    unfolding fire_ends_def count_v_tick a by (simp add: count_v_def)
  from fire_run_outcome [OF count_v_boot refl refl, of ?argv] obtain x st k where
    r: "fire_main count_v ?argv (Some []) 0 = (x, Some st)" "fe_tb st = ?h k" "fe_out st = printed count_v ?h k"
      "k \<le> 2000000000" "\<forall>j<k. \<not> (j > 0 \<and> (of_nat (42 + j) :: u64) = 45)"
      "x = 0 \<and> (of_nat (42 + k) :: u64) = 45 \<or> x = 2 \<and> k = 2000000000"
    unfolding e by (auto simp: a)
  have "k \<le> 3" using r(5) [rule_format, of 3] by (cases "3 < k") simp_all
  then have c: "x = 0" "of_nat (42 + k) = (45 :: u64)" "k = 0 \<or> k = 1 \<or> k = 2 \<or> k = 3" using r(6) by auto
  then have "k = 3" by auto
  moreover have "[1..<Suc 3] = [1, 2, 3 :: nat]" by code_simp
  ultimately show ?thesis using r c by (simp add: printed_def count_v_tick uart_of_def) (simp add: count_v_def)
qed

end
