(* ===== verification/Emulator_Main.thy ===== *)
theory Emulator_Main
  imports Machine_Inv Harness_Common
begin

text \<open>
  The stand-alone driver of the golden model, \<^verbatim>\<open>src/sim/emulator/emulator_linux.cpp\<close>, with the terminal
  mode of \<^verbatim>\<open>src/sim/emulator/terminal.h\<close>. The main loop may run for ever, so its value is \<open>None\<close> when it
  does; a failure of the machine ends the process and is an \<open>Inl\<close>.
\<close>

unbundle bit_operations_syntax

subsection \<open>Terminal\<close>

text \<open>The local flags of the terminal; the result of the \<open>ioctl\<close> and its count are arguments.\<close>

type_synonym lflag = u32

definition ICANON :: lflag where "ICANON = 2"
definition ECHO :: lflag where "ECHO = 8"

definition kbhit :: "int \<Rightarrow> int \<Rightarrow> int" where
  "kbhit rc byteswaiting = (if rc < 0 then 0 else if byteswaiting > 0 then 1 else 0)"

definition enable_raw_mode :: "lflag \<Rightarrow> lflag" where
  "enable_raw_mode t = t AND NOT (ICANON OR ECHO)"

definition disable_raw_mode :: "lflag \<Rightarrow> lflag" where
  "disable_raw_mode t = t OR (ICANON OR ECHO)"

text \<open>Control-C: cooked mode, the waiting input dropped, the signal number as exit code.\<close>

definition signal_callback_handler :: "int \<Rightarrow> lflag \<times> u8 list \<Rightarrow> int \<times> lflag \<times> u8 list" where
  "signal_callback_handler signum = (\<lambda>(t, input). (signum, disable_raw_mode t, []))"

subsection \<open>The main loop\<close>

definition image_arg :: "string list \<Rightarrow> string" where
  "image_arg argv = (if length argv > 1 \<and> take 1 (argv ! 1) \<noteq> ''-'' then argv ! 1 else ''sim/data/Image'')"

definition in_stop_region :: "u64 \<Rightarrow> bool" where
  "in_stop_region pc \<longleftrightarrow> 0x802aa000 \<le> pc \<and> pc < 0x802ab000"

definition get_pc :: "emulator \<Rightarrow> nat \<Rightarrow> u64" where
  "get_pc e i = PC (harts e ! i)"

fun stop_region :: "nat \<Rightarrow> nat \<Rightarrow> emulator \<Rightarrow> abort + emulator" where
  "stop_region 0 i e = Inr e"
| "stop_region (Suc k) i e =
     (case step_hart_only False i e of
        Inl x \<Rightarrow> Inl x
      | Inr e \<Rightarrow> if \<not> in_stop_region (get_pc e i) then Inr e else stop_region k i e)"

definition hart_turn :: "Completion \<Rightarrow> nat \<Rightarrow> emulator \<Rightarrow> abort + bool \<times> emulator" where
  "hart_turn c i e =
     (case step_hart_only False i e of
        Inl x \<Rightarrow> Inl x
      | Inr e \<Rightarrow>
          if active c \<and> hit c (get_pc e i) (reg_file (harts e ! i) ! 10) then Inr (True, e)
          else if in_stop_region (get_pc e i) then map_sum id (Pair False) (stop_region 1023 i e)
          else Inr (False, e))"

fun hart_turns :: "Completion \<Rightarrow> nat list \<Rightarrow> emulator \<Rightarrow> abort + bool \<times> emulator" where
  "hart_turns c [] e = Inr (False, e)"
| "hart_turns c (i # is) e =
     (case hart_turn c i e of
        Inl x \<Rightarrow> Inl x
      | Inr (fin, e) \<Rightarrow> if fin then Inr (True, e) else hart_turns c is e)"

definition emu_round :: "Completion \<Rightarrow> emulator \<Rightarrow> abort + bool \<times> emulator" where
  "emu_round c e =
     (case hart_turns c [0..<unat NUM_HARTS] (tick_only e) of
        Inl x \<Rightarrow> Inl x
      | Inr (fin, e) \<Rightarrow> if fin then Inr (True, e) else map_sum id (Pair False) (deliver_interrupts False e))"

partial_function (option) emu_loop :: "Completion \<Rightarrow> emulator \<Rightarrow> (abort + emulator) option" where
  "emu_loop c e =
     (case emu_round c e of
        Inl x \<Rightarrow> Some (Inl x)
      | Inr (fin, e) \<Rightarrow> if fin then Some (Inr e) else emu_loop c e)"

text \<open>The exit code, the terminal flags after the run and the machine.\<close>

definition emu_main :: "string list \<Rightarrow> u8 list \<Rightarrow> lflag \<Rightarrow> emulator \<Rightarrow> (abort + int \<times> lflag \<times> emulator) option" where
  "emu_main argv file t e =
     (case init file e of
        Inl x \<Rightarrow> Some (Inl x)
      | Inr e \<Rightarrow> map_option (map_sum id (\<lambda>e. (0, disable_raw_mode (enable_raw_mode t), e))) (emu_loop (parse argv) e))"

subsection \<open>What a round does\<close>

lemma raw_mode_restored: "disable_raw_mode (enable_raw_mode t) = t \<longleftrightarrow> t AND (ICANON OR ECHO) = ICANON OR ECHO"
  by (auto simp: disable_raw_mode_def enable_raw_mode_def bit_eq_iff bit_simps)

lemma moves_trans:
  assumes "moves ls m e1 e2"
  shows "moves ls n e0 e1 \<Longrightarrow> moves ls (n + m) e0 e2"
  using assms by (induction rule: moves.induct) (auto intro: moves.intros)

lemma moves_step: "step_hart_only ls i e = Inr e' \<Longrightarrow> moves ls 1 e e'"
  using moves_hart [OF moves_refl] by simp

lemma unfinished_Inr [simp]: "map_sum id (Pair False) r = Inr (fin, e) \<longleftrightarrow> \<not> fin \<and> r = Inr e"
  by (cases r) auto

lemma stop_region_moves: "stop_region k i e = Inr e' \<Longrightarrow> \<exists>n\<le>k. moves False n e e'"
proof (induction k arbitrary: e)
  case (Suc k)
  obtain e1 where s: "step_hart_only False i e = Inr e1" using Suc.prems by (auto split: sum.splits)
  show ?case
  proof (cases "in_stop_region (get_pc e1 i)")
    case True
    then obtain n where "n \<le> k" "moves False n e1 e'" using Suc s by auto
    then show ?thesis using moves_trans [OF _ moves_step [OF s]] by (intro exI [of _ "1 + n"]) auto
  next
    case False
    then show ?thesis using Suc.prems s moves_step [OF s] by (intro exI [of _ 1]) auto
  qed
qed (auto intro: moves_refl)

lemma hart_turn_moves:
  assumes "hart_turn c i e = Inr (fin, e')"
  shows "\<exists>n. 1 \<le> n \<and> n \<le> 1024 \<and> moves False n e e'"
    "fin \<longleftrightarrow> (\<exists>e1. step_hart_only False i e = Inr e1 \<and> active c \<and> hit c (get_pc e1 i) (reg_file (harts e1 ! i) ! 10))"
    "fin \<Longrightarrow> active c \<and> hit c (get_pc e' i) (reg_file (harts e' ! i) ! 10)"
proof -
  obtain e1 where s: "step_hart_only False i e = Inr e1" using assms by (auto simp: hart_turn_def split: sum.splits)
  let ?h = "active c \<and> hit c (get_pc e1 i) (reg_file (harts e1 ! i) ! 10)"
  have t: "fin \<longleftrightarrow> ?h" "fin \<Longrightarrow> e' = e1" "e' = e1 \<or> stop_region 1023 i e1 = Inr e'"
    using assms s by (auto simp: hart_turn_def split: if_splits sum.splits)
  show "fin \<longleftrightarrow> (\<exists>e1. step_hart_only False i e = Inr e1 \<and> active c \<and> hit c (get_pc e1 i) (reg_file (harts e1 ! i) ! 10))"
    using s t(1) by auto
  show "fin \<Longrightarrow> active c \<and> hit c (get_pc e' i) (reg_file (harts e' ! i) ! 10)" using t by auto
  have "\<exists>n\<le>1023. moves False n e1 e'" using t(3) stop_region_moves moves_refl by blast
  then obtain n where "n \<le> 1023" "moves False n e1 e'" by blast
  then show "\<exists>n. 1 \<le> n \<and> n \<le> 1024 \<and> moves False n e e'"
    using moves_trans [OF _ moves_step [OF s]] by (intro exI [of _ "1 + n"]) auto
qed

lemma hart_turns_moves:
  assumes "hart_turns c is e = Inr (fin, e')"
  shows "\<exists>n. n \<le> 1024 * length is \<and> moves False n e e' \<and> (\<not> fin \<longrightarrow> length is \<le> n)"
    "fin \<Longrightarrow> active c \<and> (\<exists>i\<in>set is. hit c (get_pc e' i) (reg_file (harts e' ! i) ! 10))"
proof -
  have "(\<exists>n. n \<le> 1024 * length is \<and> moves False n e e' \<and> (\<not> fin \<longrightarrow> length is \<le> n)) \<and>
    (fin \<longrightarrow> active c \<and> (\<exists>i\<in>set is. hit c (get_pc e' i) (reg_file (harts e' ! i) ! 10)))"
    using assms
  proof (induction "is" arbitrary: e)
    case Nil
    then show ?case using moves_refl by force
  next
    case (Cons i "is")
    obtain f1 e1 where t: "hart_turn c i e = Inr (f1, e1)" using Cons.prems by (auto split: sum.splits)
    obtain m where m: "1 \<le> m" "m \<le> 1024" "moves False m e e1" using hart_turn_moves(1) [OF t] by blast
    show ?case
    proof (cases f1)
      case True
      then show ?thesis using Cons.prems t m hart_turn_moves(3) [OF t] by (auto intro!: exI [of _ m])
    next
      case False
      then have "hart_turns c is e1 = Inr (fin, e')" using Cons.prems t by simp
      from Cons.IH [OF this] obtain n where n: "n \<le> 1024 * length is" "moves False n e1 e'" "\<not> fin \<longrightarrow> length is \<le> n"
        "fin \<longrightarrow> active c \<and> (\<exists>i\<in>set is. hit c (get_pc e' i) (reg_file (harts e' ! i) ! 10))" by blast
      moreover have "moves False (m + n) e e'" using moves_trans [OF n(2) m(3)] .
      ultimately show ?thesis using m by (auto intro!: exI [of _ "m + n"])
    qed
  qed
  then show "\<exists>n. n \<le> 1024 * length is \<and> moves False n e e' \<and> (\<not> fin \<longrightarrow> length is \<le> n)"
    "fin \<Longrightarrow> active c \<and> (\<exists>i\<in>set is. hit c (get_pc e' i) (reg_file (harts e' ! i) ! 10))" by blast+
qed

lemma set_interrupts_range_moves: "set_interrupts_range ls is e = Inr e' \<Longrightarrow> moves ls (length is) e e'"
proof (induction "is" arbitrary: e)
  case Nil
  then show ?case by (simp add: moves_refl)
next
  case (Cons i "is")
  obtain e1 where s: "set_interrupts_one ls i e = Inr e1" "set_interrupts_range ls is e1 = Inr e'"
    using Cons.prems by (auto split: sum.splits)
  have "moves ls 1 e e1" using moves_irq [OF moves_refl s(1)] by simp
  from moves_trans [OF Cons.IH [OF s(2)] this] show ?case by simp
qed

lemma emu_round_moves:
  assumes "emu_round c e = Inr (fin, e')" "emu_wf e"
  shows "\<exists>n\<le>4101. moves False n e e' \<and> (\<not> fin \<longrightarrow> 9 \<le> n)" "emu_wf e'"
    "fin \<Longrightarrow> active c \<and> (\<exists>i<4. hit c (get_pc e' i) (reg_file (harts e' ! i) ! 10))"
proof -
  obtain f1 e1 where t: "hart_turns c [0..<4] (tick_only e) = Inr (f1, e1)"
    "if f1 then fin \<and> e' = e1 else \<not> fin \<and> deliver_interrupts False e1 = Inr e'"
    using assms(1) by (auto simp: emu_round_def NUM_HARTS_def split: sum.splits if_splits)
  obtain n where n: "n \<le> 4096" "moves False n (tick_only e) e1" "\<not> f1 \<longrightarrow> 4 \<le> n" using hart_turns_moves(1) [OF t(1)] by auto
  have "moves False 1 e (tick_only e)" using moves_tick [OF moves_refl] by simp
  then have m: "moves False (1 + n) e e1" using moves_trans [OF n(2)] by blast
  then have "length (harts e1) = 4" using emu_wf_moves [OF _ assms(2)] by (simp add: emu_wf_def)
  then have "\<not> f1 \<Longrightarrow> moves False 4 e1 e'"
    using t(2) set_interrupts_range_moves [of False "[0..<4]" e1 e'] by (simp add: deliver_interrupts_def)
  then have "\<not> f1 \<Longrightarrow> moves False (1 + n + 4) e e'" using moves_trans m by blast
  then show w: "\<exists>n\<le>4101. moves False n e e' \<and> (\<not> fin \<longrightarrow> 9 \<le> n)"
    using m n(1,3) t(2) by (cases f1) (auto intro: exI [of _ "Suc n"] exI [of _ "5 + n"])
  then show "emu_wf e'" using emu_wf_moves assms(2) by blast
  show "fin \<Longrightarrow> active c \<and> (\<exists>i<4. hit c (get_pc e' i) (reg_file (harts e' ! i) ! 10))"
    using t(2) hart_turns_moves(2) [OF t(1)] by (auto split: if_splits)
qed

subsection \<open>When the loop ends\<close>

fun emu_rounds :: "Completion \<Rightarrow> nat \<Rightarrow> emulator \<Rightarrow> emulator option" where
  "emu_rounds c 0 e = Some e"
| "emu_rounds c (Suc n) e = (case emu_round c e of Inr (fin, e) \<Rightarrow> if fin then None else emu_rounds c n e | Inl _ \<Rightarrow> None)"

definition round_result :: "Completion \<Rightarrow> emulator \<Rightarrow> (abort + emulator) option" where
  "round_result c e = (case emu_round c e of Inl x \<Rightarrow> Some (Inl x) | Inr (fin, e) \<Rightarrow> if fin then Some (Inr e) else None)"

lemma emu_loop_rounds: "emu_rounds c n e = Some e1 \<Longrightarrow> emu_loop c e = emu_loop c e1"
proof (induction n arbitrary: e)
  case (Suc n)
  then show ?case by (subst emu_loop.simps) (auto split: sum.splits if_splits)
qed simp

lemma emu_loop_result:
  "emu_loop c e = Some r \<longleftrightarrow> (\<exists>n e1. emu_rounds c n e = Some e1 \<and> round_result c e1 = Some r)"
proof
  show "\<exists>n e1. emu_rounds c n e = Some e1 \<and> round_result c e1 = Some r" if "emu_loop c e = Some r"
  proof (rule emu_loop.raw_induct [OF _ that])
    fix f c e r
    assume ih: "\<And>c e r. f c e = Some r \<Longrightarrow> \<exists>n e1. emu_rounds c n e = Some e1 \<and> round_result c e1 = Some r"
      and f: "(case emu_round c e of Inl x \<Rightarrow> Some (Inl x) | Inr (fin, e) \<Rightarrow> if fin then Some (Inr e) else f c e) = Some r"
    show "\<exists>n e1. emu_rounds c n e = Some e1 \<and> round_result c e1 = Some r"
    proof (cases "round_result c e")
      case None
      then obtain e2 where e2: "emu_round c e = Inr (False, e2)" by (auto simp: round_result_def split: sum.splits if_splits)
      then have "f c e2 = Some r" using f by simp
      from ih [OF this] obtain n e1 where "emu_rounds c n e2 = Some e1" "round_result c e1 = Some r" by blast
      then show ?thesis using e2 by (intro exI [of _ "Suc n"]) auto
    next
      case (Some q)
      then have "q = r" using f by (auto simp: round_result_def split: sum.splits if_splits)
      then show ?thesis using Some by (intro exI [of _ 0]) auto
    qed
  qed
next
  assume "\<exists>n e1. emu_rounds c n e = Some e1 \<and> round_result c e1 = Some r"
  then obtain n e1 where e: "emu_loop c e = emu_loop c e1" "round_result c e1 = Some r" using emu_loop_rounds by blast
  then show "emu_loop c e = Some r" unfolding e(1) by (subst emu_loop.simps) (auto simp: round_result_def split: sum.splits if_splits)
qed

lemma emu_rounds_moves:
  assumes "emu_rounds c n e = Some e1" "emu_wf e"
  shows "emu_wf e1 \<and> (\<exists>m. 9 * n \<le> m \<and> m \<le> 4101 * n \<and> moves False m e e1)"
  using assms
proof (induction n arbitrary: e)
  case 0
  then show ?case using moves_refl by auto
next
  case (Suc n)
  obtain e2 where r: "emu_round c e = Inr (False, e2)" "emu_rounds c n e2 = Some e1"
    using Suc.prems(1) by (auto split: sum.splits if_splits)
  obtain k where k: "9 \<le> k" "k \<le> 4101" "moves False k e e2" using emu_round_moves(1) [OF r(1) Suc.prems(2)] by auto
  obtain m where m: "emu_wf e1" "9 * n \<le> m" "m \<le> 4101 * n" "moves False m e2 e1"
    using Suc.IH [OF r(2) emu_round_moves(2) [OF r(1) Suc.prems(2)]] by blast
  show ?case using m(1-3) k(1,2) moves_trans [OF m(4) k(3)] by (intro conjI exI [of _ "k + m"]) auto
qed

text \<open>
  C17: the stand-alone driver. The program returns from its loop exactly when some number of rounds
  completes and the next one ends; when it exits with code 0, a completion was asked for, one of the
  four harts is at a done PC with the wanted \<open>a0\<close>, the machine invariant holds, and the state was
  reached by hart steps, clock ticks and interrupt deliveries, at least 9 and at most 4101 for each
  complete round (every hart steps once, or up to 1024 times in the stop region).
\<close>

theorem emu_main_exits:
  assumes "init file (emulator_new False t u input) = Inr e0"
  shows "(emu_main argv file lf (emulator_new False t u input) = Some (Inr (x, lf', e)) \<longleftrightarrow>
      x = 0 \<and> lf' = disable_raw_mode (enable_raw_mode lf) \<and>
      (\<exists>n e1. emu_rounds (parse argv) n e0 = Some e1 \<and> emu_round (parse argv) e1 = Inr (True, e))) \<and>
    (emu_main argv file lf (emulator_new False t u input) = Some (Inr (x, lf', e)) \<longrightarrow>
      active (parse argv) \<and> (\<exists>i<4. hit (parse argv) (get_pc e i) (reg_file (harts e ! i) ! 10)) \<and> emu_wf e \<and>
      (\<exists>n m. 9 * n \<le> m \<and> m \<le> 4101 * (n + 1) \<and> moves False m e0 e))"
proof -
  let ?c = "parse argv"
  have m: "emu_main argv file lf (emulator_new False t u input) = Some (Inr (x, lf', e)) \<longleftrightarrow>
      x = 0 \<and> lf' = disable_raw_mode (enable_raw_mode lf) \<and> emu_loop ?c e0 = Some (Inr e)"
    using assms by (cases "emu_loop ?c e0"; cases "the (emu_loop ?c e0)") (auto simp: emu_main_def)
  have r: "round_result ?c e1 = Some (Inr e) \<longleftrightarrow> emu_round ?c e1 = Inr (True, e)" for e1
    by (auto simp: round_result_def split: sum.splits)
  have w: "emu_wf e0" using emu_wf_init [OF emu_wf_new assms] .
  have "active ?c \<and> (\<exists>i<4. hit ?c (get_pc e i) (reg_file (harts e ! i) ! 10)) \<and> emu_wf e \<and>
      (\<exists>n m. 9 * n \<le> m \<and> m \<le> 4101 * (n + 1) \<and> moves False m e0 e)"
    if e: "emu_rounds ?c n e0 = Some e1" "emu_round ?c e1 = Inr (True, e)" for n e1
  proof -
    obtain k where k: "emu_wf e1" "9 * n \<le> k" "k \<le> 4101 * n" "moves False k e0 e1" using emu_rounds_moves [OF e(1) w] by blast
    obtain l where "l \<le> 4101" "moves False l e1 e" using emu_round_moves(1) [OF e(2) k(1)] by blast
    then have "9 * n \<le> k + l" "k + l \<le> 4101 * (n + 1)" "moves False (k + l) e0 e" using k moves_trans [OF _ k(4)] by auto
    then show ?thesis using emu_round_moves(2,3) [OF e(2) k(1)] by blast
  qed
  then show ?thesis unfolding m emu_loop_result r by blast
qed

lemma idle_step:
  assumes "memory s = (\<lambda>_. 0)" "PC h = 0x80000000" "running (h, s)" "ms_mie (mstatus h) = 0"
  shows "\<exists>h'. hart_step False (h, s) = Inr (h', s) \<and> PC h' = 0x80000004"
proof -
  let ?h = "refresh_mip (clint_dev s) (set_reg 0 0 h)"
  have "step_interrupts ?h = ?h" using assms(4) by (simp add: step_interrupts_def)
  then have "hart_step False (h, s) = run_instruction False (?h, s)"
    using assms(3) by (simp add: hart_step_def running_def hart_in_range_def Let_def split: if_splits)
  moreover have "hart_fetch_instruction (PC ?h) (?h, s) = Inr (0, ?h)"
    using assms(1,2) by (simp add: hart_fetch_instruction_def DRAM_BASE_def getINST_def MEM_WORDS_def)
  ultimately show ?thesis
    using assms(2,3) by (simp add: run_instruction_def running_def execute_def decode_def Let_def)
qed

theorem emu_main_exits_witness:
  "\<exists>e. emu_main [''emu'', ''Image'', ''--done-pc'', ''0x80000004''] [] 0x1a (emulator_new False 0 0 []) = Some (Inr (0, 0x1a, e)) \<and>
     emu_wf e \<and> (\<exists>i<4. get_pc e i = 0x80000004)"
proof -
  let ?argv = "[''emu'', ''Image'', ''--done-pc'', ''0x80000004'']" let ?e0 = "emulator_new False 0 0 []"
  let ?w = "world (tick_only ?e0)" let ?h = "hart_init False 0 hart_fresh"
  have c: "parse ?argv = \<lparr>done_pcs = [0x80000004], have_a0 = False, a0_val = 0\<rparr>"
    by (simp add: parse_def find_arg_def collect_hex_args_def strtoull_def magnitude_def digits_value_def
        is_space_def digit_of_def of_char_def)
  have i: "init [] ?e0 = Inr ?e0" by (simp add: init_def byte_vector_def)
  have "memory ?w = (\<lambda>_. 0)" by (simp add: tick_only_def emulator_new_def shared_init_def)
  moreover have "PC ?h = 0x80000000" "ms_mie (mstatus ?h) = 0" by (simp_all add: hart_init_def hart_fresh_def DRAM_BASE_def mstatus_init_def)
  moreover have "running (?h, ?w)"
    by (simp add: running_def hart_in_range_def hart_init_def hart_fresh_def emulator_new_def tick_only_def shared_init_def
        clint_init_def clint_advance_def NUM_HARTS_def)
  ultimately obtain h where h: "hart_step False (?h, ?w) = Inr (h, ?w)" "PC h = 0x80000004" using idle_step by blast
  have u: "[0..<4] = 0 # [Suc 0..<4]" by (simp add: upt_conv_Cons)
  have "harts (tick_only ?e0) ! 0 = ?h" "0 < length (harts (tick_only ?e0))"
    by (simp_all add: tick_only_def emulator_new_def NUM_HARTS_def u)
  then have "\<exists>e. emu_round (parse ?argv) ?e0 = Inr (True, e)"
    using h by (simp add: emu_round_def NUM_HARTS_def u hart_turn_def step_hart_only_def c active_def hit_def get_pc_def)
  then obtain e where "emu_round (parse ?argv) ?e0 = Inr (True, e)" by blast
  then have "\<exists>n e1. emu_rounds (parse ?argv) n ?e0 = Some e1 \<and> emu_round (parse ?argv) e1 = Inr (True, e)"
    by (intro exI [of _ 0]) simp
  moreover have "disable_raw_mode (enable_raw_mode 0x1a) = 0x1a" by (simp add: disable_raw_mode_def enable_raw_mode_def ICANON_def ECHO_def)
  ultimately show ?thesis
    using emu_main_exits [OF i, of ?argv "0x1a" 0 "0x1a" e] by (auto simp: c hit_iff)
qed

end
