(* ===== verification/Uart_Rx.thy ===== *)
theory Uart_Rx
  imports Linux_Sim
begin

text \<open>
  The console input test, \<^verbatim>\<open>src/sim/harness/uartrx_test.cpp\<close>: it types a text on the host input pins with a
  four-phase handshake, collects what the ports send, and compares the echo between the brackets with
  the text. The environment variables are arguments; a string is the list of its bytes. Progress lines
  are left out.
\<close>

unbundle bit_operations_syntax

subsection \<open>State and one cycle\<close>

record 'v rxrun =
  rx_tb :: 'v
  rx_sent :: nat
  rx_tx :: "u8 list"
  rx_prev :: "bool list"
  rx_cyc :: u64

definition rx_begin :: "'v hostport \<Rightarrow> 'v \<Rightarrow> 'v rxrun" where
  "rx_begin P v = \<lparr>rx_tb = h_set_char P 0 (h_set_valid P False v), rx_sent = 0, rx_tx = [], rx_prev = replicate 4 False, rx_cyc = 0\<rparr>"

definition rx_text :: "string option \<Rightarrow> u8 list" where
  "rx_text env = map (\<lambda>c. of_nat (of_char c)) (case env of Some s \<Rightarrow> s | None \<Rightarrow> ''Ab3!xY z_9'' @ [CHR 10])"

definition env_num :: "string option \<Rightarrow> u64 \<Rightarrow> u64" where
  "env_num env dflt = (case env of Some s \<Rightarrow> strtoull s | None \<Rightarrow> dflt)"

definition rx_handshake :: "'v hostport \<Rightarrow> u8 list \<Rightarrow> bool \<Rightarrow> nat \<Rightarrow> 'v \<Rightarrow> nat \<times> 'v" where
  "rx_handshake P text service sent v =
     (if service \<and> h_valid P v then
        (if h_consumed P v then (sent + 1, h_set_valid P False v) else (sent, v))
      else if service \<and> \<not> h_consumed P v \<and> sent < length text then
        (sent, h_set_valid P True (h_set_char P (text ! sent) v))
      else (sent, v))"

definition rx_port :: "'v vsystem \<Rightarrow> 'v \<Rightarrow> nat \<Rightarrow> u8 list \<times> bool list \<Rightarrow> u8 list \<times> bool list" where
  "rx_port V v p = (\<lambda>(tx, prev).
     (if v_outChar_valid V p v \<and> \<not> prev ! p then tx @ [v_outChar_byte V p v] else tx, prev[p := v_outChar_valid V p v]))"

text \<open>\<open>None\<close> is the division by a poll interval of 0.\<close>

definition rx_cycle :: "'v vsystem \<Rightarrow> 'v hostport \<Rightarrow> u8 list \<Rightarrow> u64 \<Rightarrow> 'v rxrun \<Rightarrow> 'v rxrun option" where
  "rx_cycle V P text poll st =
     (if poll = 0 then None
      else
        (case rx_handshake P text (rx_cyc st mod poll = 0) (rx_sent st) (v_eval V (rx_tb st)) of
           (sent, v) \<Rightarrow>
             let v = v_eval V (v_set_clock V False (v_eval V (v_set_clock V True v))) in
             (case fold (rx_port V v) [0..<4] (rx_tx st, rx_prev st) of
                (tx, prev) \<Rightarrow> Some (st\<lparr>rx_tb := v, rx_sent := sent, rx_tx := tx, rx_prev := prev\<rparr>))))"

definition contains :: "u8 list \<Rightarrow> u8 list \<Rightarrow> bool" where
  "contains key xs \<longleftrightarrow> list_ex (\<lambda>i. take (length key) (drop i xs) = key) [0..<Suc (length xs)]"

definition RXFAIL :: "u8 list" where "RXFAIL = [0x52, 0x58, 0x46, 0x41, 0x49, 0x4c]"

function rx_loop :: "'v vsystem \<Rightarrow> 'v hostport \<Rightarrow> u8 list \<Rightarrow> u64 \<Rightarrow> u64 \<Rightarrow> 'v rxrun \<Rightarrow> 'v rxrun option" where
  "rx_loop V P text poll maxcyc st =
     (if rx_cyc st < maxcyc then
        (case rx_cycle V P text poll st of
           None \<Rightarrow> None
         | Some st \<Rightarrow>
             if 0x3e \<in> set (rx_tx st) \<or> contains RXFAIL (rx_tx st) then Some st
             else rx_loop V P text poll maxcyc (st\<lparr>rx_cyc := rx_cyc st + 1\<rparr>))
      else Some st)"
  by pat_completeness auto
termination
proof (relation "measure (\<lambda>(V, P, text, poll, m, st). unat m - unat (rx_cyc st))", goal_cases)
  case (2 V P t poll m st st')
  have "rx_cyc st' = rx_cyc st" using 2(2) by (auto simp: rx_cycle_def Let_def split: if_splits prod.splits)
  moreover have "unat m < 2 ^ LENGTH(64)" by (rule unsigned_less)
  moreover have "unat (rx_cyc st) < unat m" using 2(1) by (simp add: word_less_nat_alt)
  ultimately have "unat (rx_cyc st' + 1) = Suc (unat (rx_cyc st))" by (simp add: unat_word_ariths)
  then show ?case using \<open>unat (rx_cyc st) < unat m\<close> by simp
qed simp

declare rx_loop.simps [simp del]

subsection \<open>Verdict\<close>

definition rx_verdict :: "u8 list \<Rightarrow> u8 list \<Rightarrow> int" where
  "rx_verdict text tx =
     (if contains RXFAIL tx then 1
      else
        (let lo = length (takeWhile (\<lambda>c. c \<noteq> 0x3c) tx); hi = length (takeWhile (\<lambda>c. c \<noteq> 0x3e) tx) in
         if lo = length tx \<or> hi = length tx \<or> hi < lo then 1
         else if take (hi - lo - 1) (drop (lo + 1) tx) \<noteq> text then 1 else 0))"

definition rx_main :: "'v vsystem \<Rightarrow> 'v hostport \<Rightarrow> string option \<Rightarrow> string option \<Rightarrow> string option \<Rightarrow> 'v \<Rightarrow> (int \<times> 'v rxrun) option" where
  "rx_main V P env_text env_maxcyc env_poll v =
     (let text = rx_text env_text in
      map_option (\<lambda>st. (rx_verdict text (rx_tx st), st)) (rx_loop V P text (env_num env_poll 1) (env_num env_maxcyc 5000000) (rx_begin P v)))"

lemma contains_iff: "contains key xs \<longleftrightarrow> (\<exists>ys zs. xs = ys @ key @ zs)"
proof
  assume "contains key xs"
  then have "\<exists>i\<in>set [0..<Suc (length xs)]. take (length key) (drop i xs) = key" by (simp only: contains_def list_ex_iff)
  then obtain i where i: "take (length key) (drop i xs) = key" by blast
  have "xs = take i xs @ key @ drop (length key) (drop i xs)" by (metis i append_take_drop_id)
  then show "\<exists>ys zs. xs = ys @ key @ zs" by blast
next
  assume "\<exists>ys zs. xs = ys @ key @ zs"
  then obtain ys zs where "xs = ys @ key @ zs" by blast
  then have "take (length key) (drop (length ys) xs) = key" "length ys \<in> set [0..<Suc (length xs)]" by simp_all
  then show "contains key xs" unfolding contains_def list_ex_iff by blast
qed

lemma takeWhile_first: "length (takeWhile (\<lambda>c. c \<noteq> a) xs) < length xs \<Longrightarrow>
    xs = takeWhile (\<lambda>c. c \<noteq> a) xs @ a # drop (Suc (length (takeWhile (\<lambda>c. c \<noteq> a) xs))) xs"
  by (induction xs) auto

lemma rx_verdict_pass:
  "rx_verdict text tx = 0 \<longleftrightarrow> \<not> contains RXFAIL tx \<and>
     (\<exists>pre post. tx = pre @ 0x3c # text @ 0x3e # post \<and> 0x3c \<notin> set pre \<and> 0x3e \<notin> set pre \<and> 0x3e \<notin> set text)"
proof (intro iffI conjI)
  let ?lt = "takeWhile (\<lambda>c. c \<noteq> 0x3c) tx" let ?gt = "takeWhile (\<lambda>c. c \<noteq> 0x3e) tx"
  assume v: "rx_verdict text tx = 0"
  then show "\<not> contains RXFAIL tx" by (auto simp: rx_verdict_def)
  have l: "length ?lt < length tx" "length ?gt < length tx" "length ?lt \<le> length ?gt"
    "take (length ?gt - length ?lt - 1) (drop (length ?lt + 1) tx) = text"
    using v length_takeWhile_le [of "\<lambda>c. c \<noteq> 0x3c" tx] length_takeWhile_le [of "\<lambda>c. c \<noteq> 0x3e" tx]
    by (auto simp: rx_verdict_def Let_def split: if_splits)
  have "tx ! length ?lt = 0x3c" "tx ! length ?gt = 0x3e" using l(1,2) nth_length_takeWhile by blast+
  then have "length ?lt \<noteq> length ?gt" by force
  then have lt: "length ?lt < length ?gt" using l(3) by simp
  define a b where "a = length ?lt" and "b = length ?gt"
  have pre: "?lt = take a tx" "?gt = take b tx" unfolding a_def b_def by (rule takeWhile_eq_take)+
  have g: "tx = ?gt @ 0x3e # drop (Suc (length ?gt)) tx" by (rule takeWhile_first [OF l(2)])
  have ab: "a < b" "b \<le> length tx" "tx ! a = 0x3c" "take (b - a - 1) (drop (a + 1) tx) = text"
    using lt l(2,4) \<open>tx ! length ?lt = 0x3c\<close> by (simp_all add: a_def b_def)
  then have "a < length (take b tx)" by simp
  from id_take_nth_drop [OF this] have "take b tx = take a tx @ 0x3c # text"
    using ab by (simp add: drop_take min_def)
  then have "?gt = ?lt @ 0x3c # text" unfolding pre .
  moreover have "0x3e \<notin> set ?gt" "0x3c \<notin> set ?lt" by (auto dest: set_takeWhileD)
  ultimately show "\<exists>pre post. tx = pre @ 0x3c # text @ 0x3e # post \<and> 0x3c \<notin> set pre \<and> 0x3e \<notin> set pre \<and> 0x3e \<notin> set text"
    using g by (intro exI [of _ ?lt] exI [of _ "drop (Suc (length ?gt)) tx"]) auto
next
  assume a: "\<not> contains RXFAIL tx \<and>
     (\<exists>pre post. tx = pre @ 0x3c # text @ 0x3e # post \<and> 0x3c \<notin> set pre \<and> 0x3e \<notin> set pre \<and> 0x3e \<notin> set text)"
  then obtain pre post where t: "tx = pre @ 0x3c # text @ 0x3e # post" "0x3c \<notin> set pre" "0x3e \<notin> set pre" "0x3e \<notin> set text" by blast
  have "takeWhile (\<lambda>c. c \<noteq> 0x3c) tx = pre" using t(1,2) by (auto simp: takeWhile_tail takeWhile_append)
  moreover have "takeWhile (\<lambda>c. c \<noteq> 0x3e) tx = pre @ 0x3c # text" using t by (auto simp: takeWhile_append)
  ultimately show "rx_verdict text tx = 0" using a t(1) by (simp add: rx_verdict_def Let_def)
qed

subsection \<open>The text arrives in order\<close>

text \<open>
  What the test relies on in the UART: settling the nets changes nothing it looks at; at a clock edge an
  offered byte may be taken once, which is then said until the offer is withdrawn.
\<close>

definition rx_latch :: "'v vsystem \<Rightarrow> 'v hostport \<Rightarrow> ('v \<Rightarrow> u8 list) \<Rightarrow> bool" where
  "rx_latch V P acc \<longleftrightarrow>
     (\<forall>b v. h_valid P (h_set_valid P b v) = b \<and> h_char P (h_set_valid P b v) = h_char P v \<and>
        h_consumed P (h_set_valid P b v) = h_consumed P v \<and> acc (h_set_valid P b v) = acc v) \<and>
     (\<forall>c v. h_char P (h_set_char P c v) = c \<and> h_valid P (h_set_char P c v) = h_valid P v \<and>
        h_consumed P (h_set_char P c v) = h_consumed P v \<and> acc (h_set_char P c v) = acc v) \<and>
     (\<forall>v. h_valid P (v_eval V v) = h_valid P v \<and> h_char P (v_eval V v) = h_char P v \<and>
        h_consumed P (v_eval V v) = h_consumed P v \<and> acc (v_eval V v) = acc v) \<and>
     (\<forall>v. let v' = v_eval V (v_set_clock V False (v_eval V (v_set_clock V True v))) in
        h_valid P v' = h_valid P v \<and> h_char P v' = h_char P v \<and>
        (if h_consumed P v then acc v' = acc v \<and> (h_valid P v \<longrightarrow> h_consumed P v')
         else if h_valid P v then acc v' = acc v \<and> \<not> h_consumed P v' \<or> acc v' = acc v @ [h_char P v] \<and> h_consumed P v'
         else acc v' = acc v \<and> \<not> h_consumed P v'))"

definition rx_ok :: "'v hostport \<Rightarrow> ('v \<Rightarrow> u8 list) \<Rightarrow> u8 list \<Rightarrow> u8 list \<Rightarrow> nat \<Rightarrow> 'v \<Rightarrow> bool" where
  "rx_ok P acc old text sent v \<longleftrightarrow>
     acc v = old @ take (if h_valid P v \<and> h_consumed P v then sent + 1 else sent) text \<and>
     (h_valid P v \<longrightarrow> sent < length text \<and> h_char P v = text ! sent) \<and> sent \<le> length text"

lemma rx_cycle_ok:
  assumes "rx_latch V P acc" "rx_ok P acc old text (rx_sent st) (rx_tb st)" "rx_cycle V P text poll st = Some st'"
  shows "rx_ok P acc old text (rx_sent st') (rx_tb st')"
proof -
  let ?u = "v_eval V (rx_tb st)"
  have l: "h_valid P (h_set_valid P b v) = b" "h_char P (h_set_valid P b v) = h_char P v"
    "h_consumed P (h_set_valid P b v) = h_consumed P v" "acc (h_set_valid P b v) = acc v"
    "h_char P (h_set_char P c v) = c" "h_valid P (h_set_char P c v) = h_valid P v"
    "h_consumed P (h_set_char P c v) = h_consumed P v" "acc (h_set_char P c v) = acc v" for b c v
    using assms(1) unfolding rx_latch_def by blast+
  have "h_valid P ?u = h_valid P (rx_tb st)" "h_char P ?u = h_char P (rx_tb st)" "h_consumed P ?u = h_consumed P (rx_tb st)"
    "acc ?u = acc (rx_tb st)" using assms(1) unfolding rx_latch_def by blast+
  then have 1: "rx_ok P acc old text (rx_sent st) ?u" using assms(2) by (simp add: rx_ok_def)
  obtain n v where h: "rx_handshake P text (rx_cyc st mod poll = 0) (rx_sent st) ?u = (n, v)" by (meson surj_pair)
  have 2: "rx_ok P acc old text n v"
    using 1 h by (auto simp: rx_handshake_def rx_ok_def l split: if_splits)
  let ?w = "v_eval V (v_set_clock V False (v_eval V (v_set_clock V True v)))"
  have "let v' = ?w in
        h_valid P v' = h_valid P v \<and> h_char P v' = h_char P v \<and>
        (if h_consumed P v then acc v' = acc v \<and> (h_valid P v \<longrightarrow> h_consumed P v')
         else if h_valid P v then acc v' = acc v \<and> \<not> h_consumed P v' \<or> acc v' = acc v @ [h_char P v] \<and> h_consumed P v'
         else acc v' = acc v \<and> \<not> h_consumed P v')" using assms(1) unfolding rx_latch_def by blast
  then have "rx_ok P acc old text n ?w"
    using 2 by (auto simp: rx_ok_def Let_def take_Suc_conv_app_nth split: if_splits)
  then show ?thesis using assms(3) h by (auto simp: rx_cycle_def Let_def split: if_splits prod.splits)
qed

lemma rx_loop_ok:
  assumes "rx_latch V P acc" "poll \<noteq> 0" "rx_ok P acc old text (rx_sent st) (rx_tb st)"
  shows "\<exists>st'. rx_loop V P text poll m st = Some st' \<and> rx_ok P acc old text (rx_sent st') (rx_tb st')"
  using assms
proof (induction V P "text" poll m st rule: rx_loop.induct)
  case (1 V P t poll m st)
  show ?case
  proof (cases "rx_cyc st < m")
    case True
    obtain st1 where c: "rx_cycle V P t poll st = Some st1" using "1.prems"(2) by (simp add: rx_cycle_def Let_def case_prod_beta)
    have k: "rx_ok P acc old t (rx_sent st1) (rx_tb st1)" by (rule rx_cycle_ok [OF "1.prems"(1,3) c])
    show ?thesis
    proof (cases "0x3e \<in> set (rx_tx st1) \<or> contains RXFAIL (rx_tx st1)")
      case False
      show ?thesis using "1.IH" [OF True c False "1.prems"(1,2)] k True c False by (subst rx_loop.simps) simp
    qed (use True c k in \<open>simp add: rx_loop.simps [of V P t poll m st]\<close>)
  qed (use "1.prems" in \<open>simp add: rx_loop.simps [of V P t poll m st]\<close>)
qed

text \<open>
  C32: the console input test. With a poll interval other than 0 it returns; the UART has then taken a
  prefix of the text, complete and in order, as long as the test's count says (one more when the last
  offer is not yet withdrawn); and it passes exactly when the first angle bracket sent opens a payload
  that is the text, closed by the first closing bracket, and the program has not reported a failure.
\<close>

theorem rx_round_trip:
  assumes "rx_latch V P acc" "env_num env_poll 1 \<noteq> 0"
  shows "\<exists>x st. rx_main V P env_text env_maxcyc env_poll v = Some (x, st) \<and>
    acc (rx_tb st) = acc v @ take (if h_valid P (rx_tb st) \<and> h_consumed P (rx_tb st) then rx_sent st + 1 else rx_sent st) (rx_text env_text) \<and>
    rx_sent st \<le> length (rx_text env_text) \<and>
    (x = 0 \<longleftrightarrow> \<not> (\<exists>ys zs. rx_tx st = ys @ RXFAIL @ zs) \<and>
       (\<exists>pre post. rx_tx st = pre @ 0x3c # rx_text env_text @ 0x3e # post \<and> 0x3c \<notin> set pre \<and> 0x3e \<notin> set pre \<and> 0x3e \<notin> set (rx_text env_text)))"
proof -
  let ?t = "rx_text env_text"
  have "rx_ok P acc (acc v) ?t (rx_sent (rx_begin P v)) (rx_tb (rx_begin P v))"
    using assms(1) by (simp add: rx_ok_def rx_begin_def rx_latch_def)
  from rx_loop_ok [OF assms this, of "env_num env_maxcyc 5000000"] obtain st where
    l: "rx_loop V P ?t (env_num env_poll 1) (env_num env_maxcyc 5000000) (rx_begin P v) = Some st"
    and k: "rx_ok P acc (acc v) ?t (rx_sent st) (rx_tb st)" by blast
  have "rx_main V P env_text env_maxcyc env_poll v = Some (rx_verdict ?t (rx_tx st), st)" using l by (simp add: rx_main_def Let_def)
  then show ?thesis using k unfolding rx_ok_def contains_iff [symmetric] by (metis rx_verdict_pass)
qed

lemma latch_rx: "rx_latch latch_v latch_p (\<lambda>v. snd (snd (snd v)))"
  by (auto simp: rx_latch_def latch_p_def latch_v_def latch_clock_def split: prod.splits)

theorem rx_round_trip_witness:
  "\<exists>x st. rx_main latch_v latch_p (Some ''ok'') (Some ''5'') None (False, 0, False, []) = Some (x, st) \<and> rx_sent st \<le> 2 \<and>
     (\<exists>n. snd (snd (snd (rx_tb st))) = take n [111, 107])"
proof -
  have t: "rx_text (Some ''ok'') = [111, 107]" by (simp add: rx_text_def of_char_def)
  have "env_num None 1 \<noteq> 0" by (simp add: env_num_def)
  from rx_round_trip [OF latch_rx this, of "Some ''ok''" "Some ''5''" "(False, 0, False, [])"] obtain x st where
    r: "rx_main latch_v latch_p (Some ''ok'') (Some ''5'') None (False, 0, False, []) = Some (x, st)"
      "snd (snd (snd (rx_tb st))) = [] @ take (if h_valid latch_p (rx_tb st) \<and> h_consumed latch_p (rx_tb st) then rx_sent st + 1 else rx_sent st) (rx_text (Some ''ok''))"
      "rx_sent st \<le> length (rx_text (Some ''ok''))"
    unfolding snd_conv by blast
  then show ?thesis unfolding t append_Nil by (intro exI [of _ x] exI [of _ st]) (auto simp del: take_Suc_Cons)
qed

end
