(* ===== verification/Wedge_Trace.thy ===== *)
theory Wedge_Trace
  imports Profile_Run Linux_Sim
begin

text \<open>
  The programs that wait for a hart to get stuck and then record a bounded window:
  \<^verbatim>\<open>src/sim/harness/linux_sim_trace.cpp\<close>, which watches two kernel functions during a Linux boot, and
  \<^verbatim>\<open>src/sim/harness/seqlock_wedge_trace.cpp\<close>, which watches for a program counter that does not move.
  Waveforms have no effect on the design and are left out; of the register log, what is written is kept.
\<close>

unbundle bit_operations_syntax

subsection \<open>The Linux boot tracer\<close>

definition kWatched :: "(u64 \<times> u64 \<times> string) list" where
  "kWatched = [(0x802820d0, 0x8028220c, ''ktime_get''), (0x80283870, 0x80283a10, ''ktime_get_update_offsets_now'')]"

definition kWedgeThresholdCycles :: u64 where "kWedgeThresholdCycles = 2000000"
definition kTraceWindowCycles :: u64 where "kTraceWindowCycles = 2000000"

fun watched_from :: "(u64 \<times> u64 \<times> string) list \<Rightarrow> u64 \<Rightarrow> string option" where
  "watched_from [] pc = None"
| "watched_from ((lo, hi, name) # ws) pc = (if lo \<le> pc \<and> pc < hi then Some name else watched_from ws pc)"

definition watched_name :: "u64 \<Rightarrow> string option" where
  "watched_name pc = watched_from kWatched pc"

record 'v ltrace =
  lt_bench :: "'v simulator"
  lt_streak :: "u64 list"
  lt_last_pc :: "u64 list"
  lt_trigger :: "(nat \<times> u64) option"

definition ltrace_init :: "'v simulator \<Rightarrow> 'v ltrace" where
  "ltrace_init b = \<lparr>lt_bench = b, lt_streak = replicate 4 0, lt_last_pc = replicate 4 0, lt_trigger = None\<rparr>"

definition trace_pc :: "'v vsystem \<Rightarrow> u64 \<Rightarrow> nat \<Rightarrow> 'v ltrace \<Rightarrow> 'v ltrace" where
  "trace_pc V elapsed i st =
     (let pc = core_pc V (int i) (lt_bench st) in
      st\<lparr>lt_streak := (lt_streak st)[i := if watched_name pc \<noteq> None then lt_streak st ! i + elapsed else 0],
         lt_last_pc := (lt_last_pc st)[i := pc]\<rparr>)"

datatype trace_end = Stalled | WindowComplete

text \<open>\<open>lt_trigger\<close> holds the hart that was found and the cycle of the trigger.\<close>

definition ltrace_iter :: "'v vsystem \<Rightarrow> bool \<Rightarrow> nat \<Rightarrow> 'v ltrace \<Rightarrow> trace_end option \<times> 'v ltrace" where
  "ltrace_iter V show step_timeout st =
     (let before = tickcount (lt_bench st) in
      case step_any V show (lt_trigger st \<noteq> None) step_timeout (lt_bench st) of
        (rc, b) \<Rightarrow>
          let elapsed = tickcount b - before; st = st\<lparr>lt_bench := b\<rparr> in
          if rc = 1 then (Some Stalled, st)
          else
            (let st = fold (trace_pc V elapsed) [0..<4] st in
             case lt_trigger st of
               None \<Rightarrow>
                 (case filter (\<lambda>i. lt_streak st ! i \<ge> kWedgeThresholdCycles) [0..<4] of
                    [] \<Rightarrow> (None, st)
                  | i # _ \<Rightarrow> (None, st\<lparr>lt_trigger := Some (i, tickcount b)\<rparr>))
             | Some (_, t) \<Rightarrow> (if tickcount b - t \<ge> kTraceWindowCycles then Some WindowComplete else None, st)))"

partial_function (option) ltrace_loop :: "'v vsystem \<Rightarrow> bool \<Rightarrow> nat \<Rightarrow> 'v ltrace \<Rightarrow> (trace_end \<times> 'v ltrace) option" where
  "ltrace_loop V show step_timeout st =
     (case ltrace_iter V show step_timeout st of (r, st) \<Rightarrow>
        (case r of Some x \<Rightarrow> Some (x, st) | None \<Rightarrow> ltrace_loop V show step_timeout st))"

subsection \<open>The seqlock tracer\<close>

record seq_args =
  sa_threshold :: u64
  sa_window :: u64
  sa_max_cycles :: u64

definition seq_parse :: "string list \<Rightarrow> seq_args" where
  "seq_parse argv = \<lparr>sa_threshold = cycles_arg argv ''--threshold'' ''20000'', sa_window = cycles_arg argv ''--window'' ''50000'',
     sa_max_cycles = cycles_arg argv ''--max-cycles'' ''45000000''\<rparr>"

definition kRegDumpStride :: u64 where "kRegDumpStride = 200"

datatype log_entry =
  WedgeLog nat "u64 list" u64
| RegsLog u64 "u64 list list"
| CycleLog u64 "u64 list" "bool list"

record 'v strace =
  ss_tb :: 'v
  ss_tickcount :: u64
  ss_cycle :: u64
  ss_prev_pc :: "u64 list"
  ss_streak :: "u64 list"
  ss_trigger :: "u64 option"
  ss_dump_tick :: u32
  ss_log :: "log_entry list"

definition strace_init :: "'v vsystem \<Rightarrow> 'v \<Rightarrow> u64 \<Rightarrow> 'v strace" where
  "strace_init V v t = \<lparr>ss_tb = v, ss_tickcount = t, ss_cycle = 0, ss_prev_pc = map (\<lambda>c. v_pc V c v) [0..<4],
     ss_streak = replicate 4 0, ss_trigger = None, ss_dump_tick = 0, ss_log = []\<rparr>"

definition write_regs :: "'v vsystem \<Rightarrow> 'v \<Rightarrow> u64 \<Rightarrow> log_entry" where
  "write_regs V v cycle = RegsLog cycle (map (\<lambda>c. map (\<lambda>i. v_registersOut V c i v) [0..<33]) [0..<4])"

definition note_streak :: "u64 list \<Rightarrow> nat \<Rightarrow> 'v strace \<Rightarrow> 'v strace" where
  "note_streak pc c st =
     (if pc ! c = ss_prev_pc st ! c then st\<lparr>ss_streak := (ss_streak st)[c := ss_streak st ! c + 1]\<rparr>
      else st\<lparr>ss_streak := (ss_streak st)[c := 0], ss_prev_pc := (ss_prev_pc st)[c := pc ! c]\<rparr>)"

definition seq_clock :: "'v vsystem \<Rightarrow> 'v strace \<Rightarrow> 'v strace" where
  "seq_clock V st =
     (let st = st\<lparr>ss_tb := image_tick V (ss_tb st), ss_tickcount := ss_tickcount st + 1\<rparr> in
      if ss_trigger st \<noteq> None then st\<lparr>ss_dump_tick := ss_dump_tick st + 1\<rparr> else st)"

text \<open>\<open>None\<close> is the use of a log file that could not be opened.\<close>

definition seq_trigger :: "'v vsystem \<Rightarrow> seq_args \<Rightarrow> bool \<Rightarrow> u64 list \<Rightarrow> 'v strace \<Rightarrow> 'v strace option" where
  "seq_trigger V a opened pc st =
     (if ss_trigger st \<noteq> None then Some st
      else
        (case filter (\<lambda>c. ss_streak st ! c \<ge> sa_threshold a) [0..<4] of
           [] \<Rightarrow> Some st
         | c # _ \<Rightarrow>
             if \<not> opened then None
             else Some (st\<lparr>ss_trigger := Some (ss_cycle st),
                           ss_log := ss_log st @ [WedgeLog c pc (ss_cycle st), write_regs V (ss_tb st) (ss_cycle st)]\<rparr>)))"

definition seq_record :: "'v vsystem \<Rightarrow> seq_args \<Rightarrow> u64 list \<Rightarrow> 'v strace \<Rightarrow> bool \<times> 'v strace" where
  "seq_record V a pc st =
     (case ss_trigger st of
        None \<Rightarrow> (False, st)
      | Some t \<Rightarrow>
          let n = ss_cycle st - t;
              entries = [CycleLog (ss_cycle st) pc (map (\<lambda>c. v_commitFired V c (ss_tb st)) [0..<4])] @
                (if n mod kRegDumpStride = 0 then [write_regs V (ss_tb st) (ss_cycle st)] else []) in
          (n \<ge> sa_window a, st\<lparr>ss_log := ss_log st @ entries\<rparr>))"

definition seq_cycle :: "'v vsystem \<Rightarrow> seq_args \<Rightarrow> bool \<Rightarrow> 'v strace \<Rightarrow> (bool \<times> 'v strace) option" where
  "seq_cycle V a opened st =
     (let st = seq_clock V st; pc = map (\<lambda>c. v_pc V c (ss_tb st)) [0..<4];
          st = fold (note_streak pc) [0..<4] st in
      map_option (seq_record V a pc) (seq_trigger V a opened pc st))"

lemma note_streaks_cycle: "ss_cycle (fold (note_streak pc) cs st) = ss_cycle st"
  by (induction cs arbitrary: st) (simp_all add: note_streak_def)

lemma seq_cycle_keeps: "seq_cycle V a opened st = Some (stop, st') \<Longrightarrow> ss_cycle st' = ss_cycle st"
  by (auto simp: seq_cycle_def seq_record_def seq_trigger_def seq_clock_def note_streaks_cycle Let_def
      split: if_splits list.splits option.splits)

function seq_loop :: "'v vsystem \<Rightarrow> seq_args \<Rightarrow> bool \<Rightarrow> 'v strace \<Rightarrow> 'v strace option" where
  "seq_loop V a opened st =
     (if ss_cycle st < sa_max_cycles a then
        (case seq_cycle V a opened st of
           None \<Rightarrow> None
         | Some (stop, st) \<Rightarrow> if stop then Some st else seq_loop V a opened (st\<lparr>ss_cycle := ss_cycle st + 1\<rparr>))
      else Some st)"
  by pat_completeness auto
termination
  by (relation "measure (\<lambda>(V, a, w, st). unat (sa_max_cycles a) - unat (ss_cycle st))")
    (auto dest!: seq_cycle_keeps simp: budget_left(1))

declare seq_loop.simps [simp del]

definition seq_main :: "'v vsystem \<Rightarrow> string list \<Rightarrow> u8 list option \<Rightarrow> bool \<Rightarrow> 'v \<Rightarrow> (int \<times> 'v strace option) option" where
  "seq_main V argv file opened v =
     (case image_reset V 0 v of (t, v) \<Rightarrow>
      case load_image V file t v of (ok, t, v) \<Rightarrow>
        if \<not> ok then Some (2, None)
        else map_option (\<lambda>st. (if ss_trigger st \<noteq> None then 0 else 1, Some st)) (seq_loop V (seq_parse argv) opened (strace_init V v t)))"

subsection \<open>The Linux tracer never completes its window\<close>

lemma show_ports_tick: "tickcount (fold (show_port V) ps s) = tickcount s"
  by (induction ps arbitrary: s) (simp_all add: tb_port)

lemma dump_commits_tick: "step_until_commits V show True t s = (rc, m, s') \<Longrightarrow> tickcount s' = tickcount s"
proof (induction t arbitrary: s)
  case (Suc t)
  let ?a = "advance V show True s"
  obtain m1 i s1 where n: "fold (note_commit V) [0, 1, 2, 3] (0, False, ?a) = (m1, i, s1)" by (metis prod_cases3)
  have "tickcount ?a = tickcount s" by (simp add: advance_def Let_def show_ports_tick del: fold.simps)
  then have e: "tickcount s1 = tickcount s" using tb_note [OF n] by simp
  show ?case
  proof (cases "m1 = 0")
    case True
    then have "step_until_commits V show True t s1 = (rc, m, s')" using Suc.prems unfolding step_until_commits.simps n by simp
    then show ?thesis using Suc.IH e by simp
  next
    case False
    then have "s' = lowest m1 [0, 1, 2, 3] s1" using Suc.prems unfolding step_until_commits.simps n by (auto simp del: lowest.simps)
    then show ?thesis using e by (simp add: tb_lowest del: lowest.simps)
  qed
qed auto

lemma dump_step_tick: "step_any V show True t s = (rc, s') \<Longrightarrow> tickcount s' = tickcount s"
  by (auto simp: step_any_def split: prod.splits dest: dump_commits_tick)

definition trigger_now :: "'v ltrace \<Rightarrow> bool" where
  "trigger_now st \<longleftrightarrow> (\<forall>i t. lt_trigger st = Some (i, t) \<longrightarrow> tickcount (lt_bench st) = t)"

lemma trace_pcs_frame: "lt_trigger (fold (trace_pc V n) is st) = lt_trigger st \<and> lt_bench (fold (trace_pc V n) is st) = lt_bench st"
  by (induction "is" arbitrary: st) (simp_all add: trace_pc_def Let_def)

lemma ltrace_iter_trigger:
  assumes "trigger_now st" "ltrace_iter V show t st = (r, st')"
  shows "trigger_now st' \<and> r \<noteq> Some WindowComplete"
proof -
  obtain rc b where s: "step_any V show (lt_trigger st \<noteq> None) t (lt_bench st) = (rc, b)" by (meson surj_pair)
  have k: "lt_trigger st \<noteq> None \<Longrightarrow> tickcount b = tickcount (lt_bench st)" using s dump_step_tick by (cases "lt_trigger st") auto
  define st1 where "st1 = fold (trace_pc V (tickcount b - tickcount (lt_bench st))) [0..<4] (st\<lparr>lt_bench := b\<rparr>)"
  have f: "lt_trigger st1 = lt_trigger st" "lt_bench st1 = b"
    using trace_pcs_frame [of V "tickcount b - tickcount (lt_bench st)" "[0..<4]" "st\<lparr>lt_bench := b\<rparr>"] by (simp_all add: st1_def del: upt_rec_numeral)
  have e: "(if rc = 1 then (Some Stalled, st\<lparr>lt_bench := b\<rparr>)
      else case lt_trigger st1 of
               None \<Rightarrow>
                 (case filter (\<lambda>i. lt_streak st1 ! i \<ge> kWedgeThresholdCycles) [0..<4] of
                    [] \<Rightarrow> (None, st1)
                  | i # _ \<Rightarrow> (None, st1\<lparr>lt_trigger := Some (i, tickcount b)\<rparr>))
             | Some (_, t) \<Rightarrow> (if tickcount b - t \<ge> kTraceWindowCycles then Some WindowComplete else None, st1)) = (r, st')"
    using assms(2) unfolding st1_def ltrace_iter_def s Let_def by simp
  show ?thesis
    using e f assms(1) k by (auto simp: trigger_now_def kTraceWindowCycles_def simp del: upt_rec_numeral split: if_splits option.splits list.splits)
qed

text \<open>\<open>n\<close> iterations, none of which ends the loop.\<close>

fun ltrace_runs :: "'v vsystem \<Rightarrow> bool \<Rightarrow> nat \<Rightarrow> nat \<Rightarrow> 'v ltrace \<Rightarrow> 'v ltrace option" where
  "ltrace_runs V show t 0 st = Some st"
| "ltrace_runs V show t (Suc n) st = (case ltrace_iter V show t st of (r, st) \<Rightarrow> if r = None then ltrace_runs V show t n st else None)"

lemma ltrace_runs_trigger: "ltrace_runs V show t n st = Some st' \<Longrightarrow> trigger_now st \<Longrightarrow> trigger_now st'"
  by (induction n arbitrary: st) (auto split: prod.splits if_splits dest: ltrace_iter_trigger)

lemma ltrace_loop_runs: "ltrace_runs V show t n st = Some st' \<Longrightarrow> ltrace_loop V show t st = ltrace_loop V show t st'"
proof (induction n arbitrary: st)
  case (Suc n)
  then show ?case by (subst ltrace_loop.simps) (auto split: prod.splits if_splits)
qed simp

lemma ltrace_loop_result:
  "ltrace_loop V sh t st = Some (x, st2) \<longleftrightarrow> (\<exists>n st1. ltrace_runs V sh t n st = Some st1 \<and> ltrace_iter V sh t st1 = (Some x, st2))"
proof
  assume l: "ltrace_loop V sh t st = Some (x, st2)"
  have "\<exists>n st1. ltrace_runs V sh t n st = Some st1 \<and> ltrace_iter V sh t st1 = (Some (fst r), snd r)"
    if "ltrace_loop V sh t st = Some r" for V sh t st r
  proof (rule ltrace_loop.raw_induct [OF _ that])
    fix f V sh t st r
    assume ih: "\<And>V sh t st r. f V sh t st = Some r \<Longrightarrow>
        \<exists>n st1. ltrace_runs V sh t n st = Some st1 \<and> ltrace_iter V sh t st1 = (Some (fst r), snd r)"
      and e: "(case ltrace_iter V sh t st of (r, st) \<Rightarrow> (case r of Some x \<Rightarrow> Some (x, st) | None \<Rightarrow> f V sh t st)) = Some r"
    obtain q st' where i: "ltrace_iter V sh t st = (q, st')" by (meson surj_pair)
    show "\<exists>n st1. ltrace_runs V sh t n st = Some st1 \<and> ltrace_iter V sh t st1 = (Some (fst r), snd r)"
    proof (cases q)
      case None
      then have "f V sh t st' = Some r" using e i by simp
      from ih [OF this] obtain n st1 where "ltrace_runs V sh t n st' = Some st1" "ltrace_iter V sh t st1 = (Some (fst r), snd r)" by blast
      then show ?thesis using i None by (intro exI [of _ "Suc n"]) auto
    next
      case (Some y)
      then have "r = (y, st')" using e i by simp
      then show ?thesis using i Some by (intro exI [of _ 0]) auto
    qed
  qed
  from this [OF l] show "\<exists>n st1. ltrace_runs V sh t n st = Some st1 \<and> ltrace_iter V sh t st1 = (Some x, st2)" by simp
next
  assume "\<exists>n st1. ltrace_runs V sh t n st = Some st1 \<and> ltrace_iter V sh t st1 = (Some x, st2)"
  then obtain st1 where e: "ltrace_loop V sh t st = ltrace_loop V sh t st1" "ltrace_iter V sh t st1 = (Some x, st2)"
    using ltrace_loop_runs by blast
  then show "ltrace_loop V sh t st = Some (x, st2)" unfolding e(1) by (subst ltrace_loop.simps) simp
qed

text \<open>
  C30: the Linux boot tracer never reaches the end of its recording window. Once it has triggered, the
  clocks it advances are counted by the waveform's own counter and not by the one that the window is
  measured with. So the program returns exactly when, after some number of iterations, a step meets a
  stall of all cores; otherwise it runs for ever.
\<close>

theorem linux_trace_window_open:
  "ltrace_loop V show step_timeout (ltrace_init b) = Some (x, st) \<longleftrightarrow>
     x = Stalled \<and> (\<exists>n st1. ltrace_runs V show step_timeout n (ltrace_init b) = Some st1 \<and>
       ltrace_iter V show step_timeout st1 = (Some Stalled, st))"
proof -
  have "x = Stalled" if "ltrace_runs V show step_timeout n (ltrace_init b) = Some st1"
    "ltrace_iter V show step_timeout st1 = (Some x, st)" for n st1
  proof -
    have "trigger_now (ltrace_init b)" by (simp add: trigger_now_def ltrace_init_def)
    then have "x \<noteq> WindowComplete" using ltrace_iter_trigger [OF ltrace_runs_trigger [OF that(1)] that(2)] by simp
    then show ?thesis by (cases x) simp_all
  qed
  then show ?thesis unfolding ltrace_loop_result by blast
qed

subsection \<open>When the seqlock tracer triggers\<close>

text \<open>For how many cycles the program counter of a core has not moved, from the states of the design alone.\<close>

fun stood :: "'v vsystem \<Rightarrow> nat \<Rightarrow> (nat \<Rightarrow> 'v) \<Rightarrow> nat \<Rightarrow> nat" where
  "stood V c h 0 = 0"
| "stood V c h (Suc i) = (if v_pc V c (h (Suc i)) = v_pc V c (h i) then stood V c h i + 1 else 0)"

lemma stood_le: "stood V c h i \<le> i"
  by (induction i) auto

lemma stood_iff: "n \<le> stood V c h i \<longleftrightarrow> n \<le> i \<and> (\<forall>j\<in>{i - n..i}. v_pc V c (h j) = v_pc V c (h i))"
proof (induction i arbitrary: n)
  case (Suc i)
  show ?case
  proof (cases n)
    case (Suc m)
    have "{Suc i - n..Suc i} = insert (Suc i) {i - m..i}" if "m \<le> i" using that Suc by auto
    then have r: "(n \<le> Suc i \<and> (\<forall>j\<in>{Suc i - n..Suc i}. v_pc V c (h j) = v_pc V c (h (Suc i)))) \<longleftrightarrow>
        m \<le> i \<and> (\<forall>j\<in>{i - m..i}. v_pc V c (h j) = v_pc V c (h (Suc i)))" using Suc by auto
    show ?thesis
    proof (cases "v_pc V c (h (Suc i)) = v_pc V c (h i)")
      case True
      then show ?thesis unfolding r using Suc.IH [of m] Suc by simp
    next
      case False
      then have "\<not> (\<forall>j\<in>{i - m..i}. v_pc V c (h j) = v_pc V c (h (Suc i)))" by (auto intro!: bexI [of _ i])
      then show ?thesis unfolding r using False Suc by simp
    qed
  qed simp
qed simp

definition stuck :: "'v vsystem \<Rightarrow> seq_args \<Rightarrow> (nat \<Rightarrow> 'v) \<Rightarrow> nat \<Rightarrow> bool" where
  "stuck V a h i \<longleftrightarrow> (\<exists>c<4. unat (sa_threshold a) \<le> i \<and> (\<forall>j\<in>{i - unat (sa_threshold a)..i}. v_pc V c (h j) = v_pc V c (h i)))"

definition streaks_ok :: "'v vsystem \<Rightarrow> (nat \<Rightarrow> 'v) \<Rightarrow> nat \<Rightarrow> 'v strace \<Rightarrow> bool" where
  "streaks_ok V h i st \<longleftrightarrow>
     ss_tb st = h i \<and> length (ss_prev_pc st) = 4 \<and> length (ss_streak st) = 4 \<and>
     (\<forall>c<4. ss_prev_pc st ! c = v_pc V c (h i) \<and> ss_streak st ! c = of_nat (stood V c h i))"

lemma note_streak_nth:
  assumes "d < length (ss_prev_pc st)" "d < length (ss_streak st)"
  shows "ss_streak (note_streak pc c st) ! d = (if c = d then if pc ! d = ss_prev_pc st ! d then ss_streak st ! d + 1 else 0 else ss_streak st ! d)"
    "ss_prev_pc (note_streak pc c st) ! d = (if c = d then pc ! d else ss_prev_pc st ! d)"
  using assms by (auto simp: note_streak_def nth_list_update)

lemma note_streak_frame [simp]:
  "length (ss_prev_pc (note_streak pc c st)) = length (ss_prev_pc st)" "length (ss_streak (note_streak pc c st)) = length (ss_streak st)"
  "ss_tb (note_streak pc c st) = ss_tb st" "ss_trigger (note_streak pc c st) = ss_trigger st" "ss_cycle (note_streak pc c st) = ss_cycle st"
  by (simp_all add: note_streak_def)

lemma note_streaks_frame [simp]:
  "length (ss_prev_pc (fold (note_streak pc) cs st)) = length (ss_prev_pc st)" "length (ss_streak (fold (note_streak pc) cs st)) = length (ss_streak st)"
  "ss_tb (fold (note_streak pc) cs st) = ss_tb st" "ss_trigger (fold (note_streak pc) cs st) = ss_trigger st"
  "ss_cycle (fold (note_streak pc) cs st) = ss_cycle st"
  by (induction cs arbitrary: st) simp_all

lemma note_streaks_nth:
  assumes "distinct cs" "d < length (ss_prev_pc st)" "d < length (ss_streak st)"
  shows "ss_streak (fold (note_streak pc) cs st) ! d =
      (if d \<in> set cs then if pc ! d = ss_prev_pc st ! d then ss_streak st ! d + 1 else 0 else ss_streak st ! d) \<and>
    ss_prev_pc (fold (note_streak pc) cs st) ! d = (if d \<in> set cs then pc ! d else ss_prev_pc st ! d)"
  using assms by (induction cs arbitrary: st) (auto simp: note_streak_nth)

lemma streaks_step:
  assumes "streaks_ok V h i st" "h (Suc i) = image_tick V (h i)" "pc = map (\<lambda>c. v_pc V c (h (Suc i))) [0..<4]"
  shows "streaks_ok V h (Suc i) (fold (note_streak pc) [0..<4] (seq_clock V st))"
proof -
  have c: "ss_tb (seq_clock V st) = h (Suc i)" "ss_prev_pc (seq_clock V st) = ss_prev_pc st" "ss_streak (seq_clock V st) = ss_streak st"
    using assms(1,2) by (simp_all add: seq_clock_def Let_def streaks_ok_def)
  have "pc ! d = v_pc V d (h (Suc i))" if "d < 4" for d using that by (simp add: assms(3) del: upt_rec_numeral)
  then show ?thesis
    using assms(1) c note_streaks_nth [of "[0..<4]" _ "seq_clock V st" pc]
    by (simp add: streaks_ok_def del: upt_rec_numeral)
qed

lemma streak_stuck:
  assumes "streaks_ok V h i st" "i < 2 ^ 64"
  shows "filter (\<lambda>c. ss_streak st ! c \<ge> sa_threshold a) [0..<4] \<noteq> [] \<longleftrightarrow> stuck V a h i"
proof -
  have "sa_threshold a \<le> ss_streak st ! c \<longleftrightarrow> unat (sa_threshold a) \<le> stood V c h i" if "c < 4" for c
  proof -
    have "stood V c h i < 2 ^ 64" using stood_le [of V c h i] assms(2) by simp
    then show ?thesis using assms(1) that by (simp add: streaks_ok_def word_le_nat_alt unat_of_nat)
  qed
  then show ?thesis by (auto simp: stuck_def stood_iff filter_empty_conv simp del: upt_rec_numeral)
qed

definition first_stuck :: "'v vsystem \<Rightarrow> seq_args \<Rightarrow> (nat \<Rightarrow> 'v) \<Rightarrow> nat \<Rightarrow> bool" where
  "first_stuck V a h i \<longleftrightarrow> 0 < i \<and> stuck V a h i \<and> (\<forall>j\<in>{0<..<i}. \<not> stuck V a h j)"

definition trig_ok :: "'v vsystem \<Rightarrow> seq_args \<Rightarrow> (nat \<Rightarrow> 'v) \<Rightarrow> nat \<Rightarrow> 'v strace \<Rightarrow> bool" where
  "trig_ok V a h i st \<longleftrightarrow>
     (case ss_trigger st of None \<Rightarrow> \<forall>j\<in>{0<..i}. \<not> stuck V a h j
      | Some t \<Rightarrow> unat t < i \<and> first_stuck V a h (Suc (unat t)))"

definition window_open :: "seq_args \<Rightarrow> nat \<Rightarrow> 'v strace \<Rightarrow> bool" where
  "window_open a i st \<longleftrightarrow> (\<forall>t. ss_trigger st = Some t \<longrightarrow> i - Suc (unat t) < unat (sa_window a))"

lemma seq_trigger_ok:
  assumes "streaks_ok V h (Suc i) st" "trig_ok V a h i st" "ss_cycle st = of_nat i" "Suc i < 2 ^ 64"
  shows "\<exists>st'. seq_trigger V a True pc st = Some st' \<and> streaks_ok V h (Suc i) st' \<and> trig_ok V a h (Suc i) st' \<and> ss_cycle st' = of_nat i \<and>
    (\<forall>t. ss_trigger st' = Some t \<longrightarrow> ss_trigger st = Some t \<or> t = of_nat i)"
proof (cases "ss_trigger st")
  case (Some t)
  then show ?thesis using assms by (auto simp: seq_trigger_def trig_ok_def)
next
  case None
  then have n: "\<forall>j\<in>{0<..i}. \<not> stuck V a h j" using assms(2) by (simp add: trig_ok_def)
  have u: "unat (of_nat i :: u64) = i" using assms(4) by (simp add: unat_of_nat)
  show ?thesis
  proof (cases "filter (\<lambda>c. ss_streak st ! c \<ge> sa_threshold a) [0..<4]")
    case Nil
    then have "\<not> stuck V a h (Suc i)" using streak_stuck [OF assms(1,4), of a] by simp
    then have "\<forall>j\<in>{0<..Suc i}. \<not> stuck V a h j" using n by (auto simp: le_Suc_eq)
    then show ?thesis using Nil None assms by (simp add: seq_trigger_def trig_ok_def del: upt_rec_numeral)
  next
    case (Cons c cs)
    then have "stuck V a h (Suc i)" using streak_stuck [OF assms(1,4), of a] by (simp del: upt_rec_numeral)
    then have "first_stuck V a h (Suc i)" using n by (auto simp: first_stuck_def)
    then show ?thesis using Cons None assms u by (simp add: seq_trigger_def trig_ok_def streaks_ok_def del: upt_rec_numeral)
  qed
qed

lemma seq_cycle_step:
  assumes "streaks_ok V h i st" "trig_ok V a h i st" "window_open a i st" "ss_cycle st = of_nat i" "Suc i < 2 ^ 64"
    and "h (Suc i) = image_tick V (h i)"
  shows "\<exists>stop st'. seq_cycle V a True st = Some (stop, st') \<and> streaks_ok V h (Suc i) st' \<and> trig_ok V a h (Suc i) st' \<and>
    ss_cycle st' = of_nat i \<and> (stop \<longleftrightarrow> \<not> window_open a (Suc i) st') \<and>
    (\<forall>t. stop \<longrightarrow> ss_trigger st' = Some t \<longrightarrow> Suc i - Suc (unat t) = unat (sa_window a))"
proof -
  define pc where "pc = map (\<lambda>c. v_pc V c (h (Suc i))) [0..<4]"
  define st1 where "st1 = fold (note_streak pc) [0..<4] (seq_clock V st)"
  have s1: "streaks_ok V h (Suc i) st1" unfolding st1_def by (rule streaks_step [OF assms(1,6) pc_def])
  have f1: "ss_trigger st1 = ss_trigger st" "ss_cycle st1 = of_nat i"
    using assms(4) by (simp_all add: st1_def seq_clock_def Let_def del: upt_rec_numeral)
  have "trig_ok V a h i st1" using assms(2) f1(1) by (simp add: trig_ok_def)
  note seq_trigger_ok [OF s1 this f1(2) assms(5), of pc]
  then obtain st2 where t: "seq_trigger V a True pc st1 = Some st2" "streaks_ok V h (Suc i) st2" "trig_ok V a h (Suc i) st2"
    "ss_cycle st2 = of_nat i" "\<forall>t. ss_trigger st2 = Some t \<longrightarrow> ss_trigger st = Some t \<or> t = of_nat i" unfolding f1(1) by blast
  obtain stop st' where r: "seq_record V a pc st2 = (stop, st')" by (meson surj_pair)
  have f2: "ss_tb st' = ss_tb st2" "ss_prev_pc st' = ss_prev_pc st2" "ss_streak st' = ss_streak st2" "ss_trigger st' = ss_trigger st2"
    "ss_cycle st' = ss_cycle st2" using r by (auto simp: seq_record_def Let_def split: option.splits)
  have d: "unat ((of_nat i :: u64) - t) = i - unat t" "Suc i - Suc (unat t) = i - unat t" if "ss_trigger st2 = Some t" for t
  proof -
    have "unat t \<le> i" using t(3) that by (simp add: trig_ok_def)
    moreover have "unat (of_nat i :: u64) = i" using assms(5) by (simp add: unat_of_nat)
    ultimately show "unat ((of_nat i :: u64) - t) = i - unat t" by (simp add: unat_sub word_le_nat_alt)
  qed simp
  have stop: "stop \<longleftrightarrow> (\<exists>t. ss_trigger st2 = Some t \<and> unat (sa_window a) \<le> i - unat t)"
    using r d t(4) by (auto simp: seq_record_def Let_def word_le_nat_alt split: option.splits)
  have "Suc i - Suc (unat t) = unat (sa_window a)" if "stop" "ss_trigger st' = Some t" for t
  proof -
    have w: "unat (sa_window a) \<le> i - unat t" using that stop f2(4) by auto
    have u: "unat (of_nat i :: u64) = i" using assms(5) by (simp add: unat_of_nat)
    have "ss_trigger st = Some t \<or> t = of_nat i" using t(5) that f2(4) by simp
    then show ?thesis
    proof
      assume "ss_trigger st = Some t"
      then have "i - Suc (unat t) < unat (sa_window a)" using assms(3) by (simp add: window_open_def)
      then show ?thesis using w by simp
    qed (use w u in simp)
  qed
  moreover have "ss_tb st1 = h (Suc i)" using s1 by (simp add: streaks_ok_def)
  then have "seq_cycle V a True st = Some (stop, st')"
    using t(1) r by (simp add: seq_cycle_def Let_def st1_def pc_def del: upt_rec_numeral)
  moreover have "stop \<longleftrightarrow> \<not> window_open a (Suc i) st'" using stop f2(4) by (auto simp: window_open_def not_less)
  ultimately show ?thesis using t f2 by (auto simp: streaks_ok_def trig_ok_def)
qed

lemma seq_loop_ends:
  assumes "streaks_ok V h i st" "trig_ok V a h i st" "window_open a i st" "ss_cycle st = of_nat i" "i \<le> unat (sa_max_cycles a)"
    and "\<And>i. h (Suc i) = image_tick V (h i)"
  shows "\<exists>st' k. seq_loop V a True st = Some st' \<and> streaks_ok V h k st' \<and> trig_ok V a h k st' \<and> k \<le> unat (sa_max_cycles a) \<and>
    (k = unat (sa_max_cycles a) \<and> window_open a k st' \<or>
     (\<exists>t. ss_trigger st' = Some t \<and> k - Suc (unat t) = unat (sa_window a)))"
  using assms(1-5)
proof (induction "unat (sa_max_cycles a) - i" arbitrary: i st rule: less_induct)
  case less
  let ?m = "sa_max_cycles a"
  have m: "unat ?m < 2 ^ LENGTH(64)" by (rule unsigned_less)
  then have "unat (ss_cycle st) = i" using less.prems(4,5) by (simp add: unat_of_nat)
  then have lt: "ss_cycle st < ?m \<longleftrightarrow> i < unat ?m" by (simp add: word_less_nat_alt)
  show ?case
  proof (cases "i < unat ?m")
    case False
    then show ?thesis using less.prems lt by (intro exI [of _ st] exI [of _ i]) (simp add: seq_loop.simps [of V a True st])
  next
    case True
    then have "Suc i < 2 ^ 64" using m by simp
    from seq_cycle_step [OF less.prems(1-4) this assms(6)] obtain stop st1 where
      c: "seq_cycle V a True st = Some (stop, st1)" "streaks_ok V h (Suc i) st1" "trig_ok V a h (Suc i) st1" "ss_cycle st1 = of_nat i"
        "stop \<longleftrightarrow> \<not> window_open a (Suc i) st1" "\<forall>t. stop \<longrightarrow> ss_trigger st1 = Some t \<longrightarrow> Suc i - Suc (unat t) = unat (sa_window a)"
      by blast
    show ?thesis
    proof (cases stop)
      case stop: True
      then obtain t where "ss_trigger st1 = Some t" using c(5) by (auto simp: window_open_def)
      then have "\<exists>t. ss_trigger st1 = Some t \<and> Suc i - Suc (unat t) = unat (sa_window a)" using c(6) stop by blast
      then show ?thesis using c(1-3) stop True lt
        by (intro exI [of _ st1] exI [of _ "Suc i"]) (simp add: seq_loop.simps [of V a True st])
    next
      case False
      let ?st = "st1\<lparr>ss_cycle := ss_cycle st1 + 1\<rparr>"
      have "streaks_ok V h (Suc i) ?st" "trig_ok V a h (Suc i) ?st" "window_open a (Suc i) ?st" "ss_cycle ?st = of_nat (Suc i)"
        using c False by (simp_all add: streaks_ok_def trig_ok_def window_open_def)
      moreover have "seq_loop V a True st = seq_loop V a True ?st" using True lt c(1) False by (simp add: seq_loop.simps [of V a True st])
      ultimately show ?thesis using less.hyps [of "Suc i" ?st] True by simp
    qed
  qed
qed



end
