(* ===== verification/Probes.thy ===== *)
theory Probes
  imports Profile_Run Linux_Sim
begin

text \<open>
  Three of the probes of \<^verbatim>\<open>src/sim/harness/probes\<close> that check the machine rather than print its nets:
  \<^verbatim>\<open>image_load_probe.cpp\<close> compares the memory with the image after loading, \<^verbatim>\<open>linux_invariants_probe.cpp\<close>
  runs the invariant checker over a Linux boot, and \<^verbatim>\<open>tty_scan_probe.cpp\<close> searches the memory for console
  text. The memory array of the Verilated model is an argument.
\<close>

unbundle bit_operations_syntax

subsection \<open>The image load probe\<close>

record load_diff =
  ld_bad :: nat
  ld_first :: nat
  ld_last :: nat
  ld_lines :: "(nat \<times> u8 \<times> u8) list"

definition compare_byte :: "int \<Rightarrow> (nat \<Rightarrow> u8) \<Rightarrow> u8 list \<Rightarrow> nat \<Rightarrow> load_diff \<Rightarrow> load_diff" where
  "compare_byte max_report dram want i d =
     (if dram i = want ! i then d
      else
        (let d = (if ld_bad d = 0 then d\<lparr>ld_first := i\<rparr> else d); d = d\<lparr>ld_last := i\<rparr>;
             d = (if int (ld_bad d) < max_report then d\<lparr>ld_lines := ld_lines d @ [(i, dram i, want ! i)]\<rparr> else d) in
         d\<lparr>ld_bad := ld_bad d + 1\<rparr>))"

definition compare_image :: "int \<Rightarrow> (nat \<Rightarrow> u8) \<Rightarrow> u8 list \<Rightarrow> load_diff" where
  "compare_image max_report dram want =
     fold (compare_byte max_report dram want) [0..<length want] \<lparr>ld_bad = 0, ld_first = 0, ld_last = 0, ld_lines = []\<rparr>"

definition image_probe :: "'v vsystem \<Rightarrow> ('v \<Rightarrow> nat \<Rightarrow> u8) \<Rightarrow> int \<Rightarrow> u8 list option \<Rightarrow> 'v \<Rightarrow> int \<times> load_diff option" where
  "image_probe V dram max_report file v =
     (case file of
        None \<Rightarrow> (2, None)
      | Some want \<Rightarrow>
          case image_reset V 0 v of (t, v) \<Rightarrow>
          case load_image V file t v of (ok, t, v) \<Rightarrow>
            if \<not> ok then (2, None)
            else (let d = compare_image max_report (dram v) want in (if ld_bad d \<noteq> 0 then 1 else 0, Some d)))"

subsection \<open>The invariants over a Linux boot\<close>

function inv_loop :: "'v vsystem \<Rightarrow> 'v taps \<Rightarrow> u64 \<Rightarrow> u64 \<Rightarrow> 'v \<Rightarrow> core_st list \<Rightarrow> ('v \<times> core_st list) option" where
  "inv_loop V T END cyc v cs =
     (if cyc < END then
        (case tick_checked V T True cyc v cs of None \<Rightarrow> None | Some (v, cs) \<Rightarrow> inv_loop V T END (cyc + 1) v cs)
      else Some (v, cs))"
  by pat_completeness auto
termination
  by (relation "measure (\<lambda>(V, T, e, c, v, cs). unat e - unat c)") (auto simp: budget_left(1))

declare inv_loop.simps [simp del]

definition inv_probe :: "'v vsystem \<Rightarrow> 'v taps \<Rightarrow> u64 \<Rightarrow> 'v simulator \<Rightarrow> int option" where
  "inv_probe V T END b = map_option (\<lambda>(v, cs). report cs) (inv_loop V T END 0 (tb b) (replicate 4 st_init))"

subsection \<open>The console text scan\<close>

definition needles :: "string list" where
  "needles = [''mounting sysfs'', ''mounting devpts'', ''can'' @ [CHR 39] @ ''t read '' @ [CHR 39] @ ''/proc/mounts'' @ [CHR 39],
     ''Starting syslogd'', ''Starting network'', ''Welcome to Buildroot'', ''buildroot login'', ''seedrng'']"

definition bytes_of :: "string \<Rightarrow> u8 list" where
  "bytes_of s = map (\<lambda>c. of_nat (of_char c)) s"

text \<open>The state of the line buffer and the lines printed.\<close>

definition tty_char :: "u8 \<Rightarrow> u8 list \<times> u8 list list \<Rightarrow> u8 list \<times> u8 list list" where
  "tty_char c = (\<lambda>(line, out).
     if c = 10 \<or> length line \<ge> 512 - 2 then ([], out @ [line])
     else if c \<noteq> 13 then (line @ [c], out) else (line, out))"

function scan_from :: "u8 list \<Rightarrow> u8 list \<Rightarrow> nat \<Rightarrow> nat \<Rightarrow> nat list" where
  "scan_from dram nd hits off =
     (if off + length nd < length dram then
        (if take (length nd) (drop off dram) = nd then
           off # (if hits + 1 \<ge> 4 then [] else scan_from dram nd (hits + 1) (off + length nd + 1))
         else scan_from dram nd hits (off + 1))
      else [])"
  by pat_completeness auto
termination by (relation "measure (\<lambda>(dram, nd, hits, off). length dram - off)") auto

declare scan_from.simps [simp del]

definition scan_all :: "u8 list \<Rightarrow> (string \<times> nat list) list" where
  "scan_all dram = map (\<lambda>nd. (nd, scan_from dram (bytes_of nd) 0 0)) needles"

record 'v ttyscan =
  ts_tb :: 'v
  ts_cyc :: u64
  ts_next :: u64
  ts_prev :: "bool list"
  ts_line :: "u8 list \<times> u8 list list"
  ts_scans :: "(u64 \<times> (string \<times> nat list) list) list"

definition tty_port :: "'v vsystem \<Rightarrow> nat \<Rightarrow> 'v ttyscan \<Rightarrow> 'v ttyscan" where
  "tty_port V p st =
     (let valid = v_outChar_valid V p (ts_tb st);
          st = (if valid \<and> \<not> ts_prev st ! p then st\<lparr>ts_line := tty_char (v_outChar_byte V p (ts_tb st)) (ts_line st)\<rparr> else st) in
      st\<lparr>ts_prev := (ts_prev st)[p := valid]\<rparr>)"

definition tty_cycle :: "'v vsystem \<Rightarrow> u64 \<Rightarrow> 'v ttyscan \<Rightarrow> 'v ttyscan" where
  "tty_cycle V SCAN_STEP st =
     (let st = st\<lparr>ts_tb := tick_nodump V (ts_tb st), ts_cyc := ts_cyc st + 1\<rparr>;
          st = fold (tty_port V) [0..<4] st in
      if ts_cyc st < ts_next st then st
      else st\<lparr>ts_next := ts_next st + SCAN_STEP, ts_scans := ts_scans st @ [(ts_cyc st, scan_all (v_memory V (ts_tb st)))]\<rparr>)"

definition tty_probe :: "'v vsystem \<Rightarrow> u64 \<Rightarrow> u64 \<Rightarrow> u64 \<Rightarrow> 'v simulator \<Rightarrow> 'v ttyscan" where
  "tty_probe V END SCAN_FROM SCAN_STEP b =
     (tty_cycle V SCAN_STEP ^^ unat END)
       \<lparr>ts_tb = tb b, ts_cyc = 0, ts_next = SCAN_FROM, ts_prev = replicate 4 False, ts_line = ([], []), ts_scans = []\<rparr>"

subsection \<open>The load probe finds every difference and reports none\<close>

lemma compare_image_diffs:
  assumes "ds = filter (\<lambda>i. dram i \<noteq> want ! i) [0..<length want]" "d = compare_image max_report dram want"
  shows "ld_bad d = length ds \<and> (ds \<noteq> [] \<longrightarrow> ld_first d = hd ds \<and> ld_last d = last ds) \<and>
    ld_lines d = map (\<lambda>i. (i, dram i, want ! i)) (take (nat max_report) ds)"
proof -
  let ?d = "\<lambda>n. fold (compare_byte max_report dram want) [0..<n] \<lparr>ld_bad = 0, ld_first = 0, ld_last = 0, ld_lines = []\<rparr>"
  let ?ds = "\<lambda>n. filter (\<lambda>i. dram i \<noteq> want ! i) [0..<n]"
  have "ld_bad (?d n) = length (?ds n) \<and> (?ds n \<noteq> [] \<longrightarrow> ld_first (?d n) = hd (?ds n) \<and> ld_last (?d n) = last (?ds n)) \<and>
    ld_lines (?d n) = map (\<lambda>i. (i, dram i, want ! i)) (take (nat max_report) (?ds n))" for n
  proof (induction n)
    case (Suc n)
    show ?case
    proof (cases "dram n = want ! n")
      case False
      have "int (length (?ds n)) < max_report \<longleftrightarrow> length (?ds n) < nat max_report" by linarith
      then show ?thesis using Suc False by (auto simp: compare_byte_def Let_def hd_append)
    qed (use Suc in \<open>simp add: compare_byte_def\<close>)
  qed simp
  then show ?thesis using assms by (simp add: compare_image_def)
qed

text \<open>
  Loading and the load probe together. Under the documented behaviour of the programmer port the probe
  finds no difference and exits with 0; whatever the memory holds, it counts exactly the bytes that
  differ and reports the first of them.
\<close>

theorem image_probe_passes:
  assumes "programmer_port V up dram" "length file + 7 < 2 ^ 64"
  shows "\<exists>d. image_probe V dram max_report (Some file) v = (0, Some d) \<and> ld_bad d = 0 \<and> ld_lines d = [] \<and>
    (\<forall>m. let ds = filter (\<lambda>i. m i \<noteq> file ! i) [0..<length file]; e = compare_image max_report m file in
       ld_bad e = length ds \<and> (ds \<noteq> [] \<longrightarrow> ld_first e = hd ds \<and> ld_last e = last ds) \<and>
       ld_lines e = map (\<lambda>i. (i, m i, file ! i)) (take (nat max_report) ds))"
proof -
  obtain t1 v1 where r: "image_reset V 0 v = (t1, v1)" by (meson surj_pair)
  obtain ok t2 v2 where l: "load_image V (Some file) t1 v1 = (ok, t2, v2)" by (meson prod_cases3)
  from load_image_bytes [OF assms l] have ok: "ok" and d: "dram v2 i = file ! i" if "i < length file" for i using that by auto
  have "ok" using load_image_bytes [OF assms l] by simp
  moreover have "filter (\<lambda>i. dram v2 i \<noteq> file ! i) [0..<length file] = []" using d by (simp add: filter_empty_conv)
  then have "ld_bad (compare_image max_report (dram v2) file) = 0 \<and> ld_lines (compare_image max_report (dram v2) file) = []"
    using compare_image_diffs [OF refl refl, where dram = "dram v2" and want = "file" and max_report = max_report] by simp
  ultimately show ?thesis using r l compare_image_diffs [OF refl refl] by (auto simp: image_probe_def Let_def)
qed

theorem image_probe_passes_witness:
  "\<exists>d. image_probe port_v (\<lambda>(_, _, _, m). m) 20 (Some [7, 8, 9]) (False, 0, 0, \<lambda>_. 1) = (0, Some d) \<and> ld_bad d = 0"
  using image_probe_passes [OF port_v_programmer, of "[7, 8, 9]" 20 "(False, 0, 0, \<lambda>_. 1)"] by auto

subsection \<open>The invariants probe is the checker over the boot\<close>

definition boot_samples :: "'v vsystem \<Rightarrow> 'v taps \<Rightarrow> 'v \<Rightarrow> nat \<Rightarrow> nat \<Rightarrow> (u64 \<times> core_sample list) list" where
  "boot_samples V T v i n = map (\<lambda>j. (of_nat j, tap_core T (v_eval V ((image_tick V ^^ (j - i)) v)))) [i..<n]"

lemma boot_samples_step:
  "i < n \<Longrightarrow> boot_samples V T v i n = (of_nat i, tap_core T (v_eval V v)) # boot_samples V T (image_tick V v) (Suc i) n"
proof -
  assume "i < n"
  moreover have "(image_tick V ^^ (j - i)) v = (image_tick V ^^ (j - Suc i)) (image_tick V v)" if "Suc i \<le> j" for j
    using that by (metis Suc_diff_le diff_Suc_Suc funpow_swap1 funpow.simps(2) comp_apply)
  ultimately show ?thesis by (auto simp: boot_samples_def upt_conv_Cons)
qed

lemma inv_loop_run:
  "i \<le> unat END \<Longrightarrow>
     map_option snd (inv_loop V T END (of_nat i) v cs) = map_option fst (run_cores (boot_samples V T v i (unat END)) cs)"
proof (induction "unat END - i" arbitrary: i v cs)
  case 0
  then have "i = unat END" by simp
  then have "of_nat i = END" by simp
  then show ?case using 0 by (subst inv_loop.simps) (simp add: boot_samples_def)
next
  case (Suc k)
  have "unat END < 2 ^ LENGTH(64)" by (rule unsigned_less)
  then have "unat (of_nat i :: u64) = i" using Suc.hyps(2) by (simp add: unat_of_nat)
  then have lt: "(of_nat i :: u64) < END" using Suc.hyps(2) by (simp add: word_less_nat_alt)
  have s: "boot_samples V T v i (unat END) = (of_nat i, tap_core T (v_eval V v)) # boot_samples V T (image_tick V v) (Suc i) (unat END)"
    using Suc.hyps(2) by (intro boot_samples_step) simp
  show ?case
  proof (cases "tick_cores (tap_core T (v_eval V v)) (of_nat i) cs")
    case None
    then show ?thesis using lt by (subst inv_loop.simps) (simp add: s tick_checked_def Let_def)
  next
    case (Some p)
    obtain cs1 ev where p: "tick_cores (tap_core T (v_eval V v)) (of_nat i) cs = Some (cs1, ev)" using Some by (cases p) auto
    then have t: "tick_checked V T True (of_nat i) v cs = Some (image_tick V v, cs1)"
      by (simp add: tick_checked_def image_tick_def Let_def)
    have "k = unat END - Suc i" "Suc i \<le> unat END" using Suc.hyps(2) by simp_all
    from Suc.hyps(1) [OF this, of "image_tick V v" cs1] show ?thesis
      using lt t p by (subst inv_loop.simps) (auto simp: s add.commute split: option.splits)
  qed
qed

text \<open>
  The invariants probe exits as the checker's report over the whole boot: with the pointers within
  the buffer it returns, and its exit code is the report after the checker has seen the settled nets of
  every cycle from 0 to the end, each with its own cycle number.
\<close>

theorem inv_probe_reports:
  assumes "ptrs_ok T"
  shows "\<exists>cs ev. run_cores (boot_samples V T (tb b) 0 (unat END)) (replicate 4 st_init) = Some (cs, ev) \<and>
    inv_probe V T END b = Some (report cs)"
proof -
  have "\<exists>cs' ev. run_cores tr cs = Some (cs', ev)"
    if "\<forall>(c, ss)\<in>set tr. \<forall>s\<in>set ss. readPtr s < of_nat CHIRON_ROB_DEPTH" "cores_ok cs" for tr cs
    using that
  proof (induction tr cs rule: run_cores.induct)
    case (2 cyc ss rest st)
    obtain st1 ev where "tick_cores ss cyc st = Some (st1, ev)" "cores_ok st1" using tick_cores_defined [of ss st cyc] 2(2,3) by auto
    then show ?case using 2(1) [of "(st1, ev)" st1 ev] 2(2) by fastforce
  qed simp
  moreover have "\<forall>(c, ss)\<in>set (boot_samples V T (tb b) 0 (unat END)). \<forall>s\<in>set ss. readPtr s < of_nat CHIRON_ROB_DEPTH"
    using assms by (auto simp: boot_samples_def ptrs_ok_def)
  moreover have "cores_ok (replicate 4 st_init)" by (simp add: cores_ok_def st_init_def)
  ultimately obtain cs ev where r: "run_cores (boot_samples V T (tb b) 0 (unat END)) (replicate 4 st_init) = Some (cs, ev)" by blast
  then have "map_option snd (inv_loop V T END 0 (tb b) (replicate 4 st_init)) = Some cs"
    using inv_loop_run [of 0 END V T "tb b" "replicate 4 st_init"] by simp
  then show ?thesis using r by (auto simp: inv_probe_def)
qed

theorem inv_probe_reports_witness:
  "\<exists>cs ev. run_cores (boot_samples count_v count_taps 0 0 100) (replicate 4 st_init) = Some (cs, ev) \<and>
     inv_probe count_v count_taps 100 (init_no_image 0) = Some (report cs)"
  using inv_probe_reports [OF count_taps_ok, of count_v "init_no_image 0" 100] by (simp add: init_no_image_def)

subsection \<open>The line buffer and the scan\<close>

text \<open>The line buffer has room for the closing zero; but the character that finds it full is lost.\<close>

lemma tty_line_bound: "length (fst l) \<le> 510 \<Longrightarrow> length (fst (tty_char c l)) \<le> 510"
  by (auto simp: tty_char_def split: prod.splits)

lemma tty_char_lost: "length line = 510 \<Longrightarrow> c \<noteq> 10 \<Longrightarrow> tty_char c (line, out) = ([], out @ [line])"
  by (simp add: tty_char_def)

lemma tty_lines_kept:
  assumes "fold tty_char cs ([], []) = (line, out)" "\<forall>l\<in>set out. length l < 510" "length line < 510"
  shows "concat out @ line = filter (\<lambda>c. c \<noteq> 10 \<and> c \<noteq> 13) cs"
  using assms
proof (induction cs arbitrary: line out rule: rev_induct)
  case (snoc c cs)
  obtain line' out' where p: "fold tty_char cs ([], []) = (line', out')" by (meson surj_pair)
  then have c: "tty_char c (line', out') = (line, out)" using snoc.prems(1) by simp
  then have "length line' < 510" "\<forall>l\<in>set out'. length l < 510" using snoc.prems(2,3) by (auto simp: tty_char_def split: if_splits)
  then have "concat out' @ line' = filter (\<lambda>c. c \<noteq> 10 \<and> c \<noteq> 13) cs" using snoc.IH [OF p] by blast
  then show ?case using c \<open>length line' < 510\<close> by (auto simp: tty_char_def split: if_splits)
qed simp

lemma scan_from_hits:
  "i \<in> set (scan_from dram nd hits off) \<Longrightarrow> off \<le> i \<and> i + length nd < length dram \<and> take (length nd) (drop i dram) = nd"
  by (induction dram nd hits off rule: scan_from.induct) (subst (asm) (2) scan_from.simps, fastforce split: if_splits)

lemma scan_from_few: "hits < 4 \<Longrightarrow> length (scan_from dram nd hits off) \<le> 4 - hits"
proof (induction dram nd hits off rule: scan_from.induct)
  case (1 dram nd hits off)
  then show ?case by (subst scan_from.simps) (cases "hits = 3", auto)
qed

lemma scan_from_none: "scan_from dram nd hits off = [] \<longleftrightarrow> (\<forall>i\<ge>off. i + length nd < length dram \<longrightarrow> take (length nd) (drop i dram) \<noteq> nd)"
proof (induction dram nd hits off rule: scan_from.induct)
  case (1 dram nd hits off)
  show ?case
  proof (cases "off + length nd < length dram \<and> take (length nd) (drop off dram) \<noteq> nd")
    case True
    then have r: "scan_from dram nd hits off = scan_from dram nd hits (off + 1)" by (simp add: scan_from.simps [of dram nd hits off])
    show ?thesis
      unfolding r "1.IH"(2) [OF conjunct1 [OF True] conjunct2 [OF True]]
    proof (intro iffI allI impI)
      fix i
      assume a: "\<forall>i\<ge>off + 1. i + length nd < length dram \<longrightarrow> take (length nd) (drop i dram) \<noteq> nd"
        and "off \<le> i" "i + length nd < length dram"
      then show "take (length nd) (drop i dram) \<noteq> nd" using True by (cases "i = off") simp_all
    qed simp
  next
    case False
    then show ?thesis by (subst scan_from.simps) auto
  qed
qed

end
