(* ===== verification/Interleaving.thy ===== *)
theory Interleaving
  imports Chiron_Prelude "HOL-Library.Multiset"
begin

text \<open>
  The parallel loops of the benchmark programs between two barriers. Every hart runs its loop; a schedule
  names, iteration by iteration, the hart that goes on.
\<close>

text \<open>
  A phase as seen by its proof: an invariant over the number of iterations that each hart has done, kept
  by every iteration of a hart that is not at its end. Any schedule that gives each hart its iterations
  then reaches the invariant at the end of all loops.
\<close>

locale interleaved =
  fixes step :: "nat \<Rightarrow> 's \<Rightarrow> 's" and n :: "nat \<Rightarrow> nat" and J :: "(nat \<Rightarrow> nat) \<Rightarrow> 's \<Rightarrow> bool"
  assumes step_inv: "J c st \<Longrightarrow> c p < n p \<Longrightarrow> J (c(p := Suc (c p))) (step p st)"
begin

lemma run_inv:
  "J c st \<Longrightarrow> \<forall>p. c p + count_list sched p \<le> n p \<Longrightarrow> J (\<lambda>p. c p + count_list sched p) (fold step sched st)"
proof (induction sched arbitrary: c st)
  case (Cons p sched)
  have "c p < n p" using Cons.prems(2) [rule_format, of p] by simp
  then have "J (c(p := Suc (c p))) (step p st)" using step_inv Cons.prems(1) by blast
  moreover have "\<forall>q. (c(p := Suc (c p))) q + count_list sched q \<le> n q"
  proof
    fix q
    show "(c(p := Suc (c p))) q + count_list sched q \<le> n q" using Cons.prems(2) [rule_format, of q] by (auto split: if_splits)
  qed
  ultimately have "J (\<lambda>q. (c(p := Suc (c p))) q + count_list sched q) (fold step sched (step p st))" using Cons.IH by blast
  moreover have "(\<lambda>q. (c(p := Suc (c p))) q + count_list sched q) = (\<lambda>q. c q + count_list (p # sched) q)" by auto
  ultimately show ?case by simp
qed simp

lemma phase_inv:
  assumes "J (\<lambda>_. 0) st" "\<forall>p. count_list sched p = n p"
  shows "J n (fold step sched st)"
  using run_inv [OF assms(1), of sched] assms(2) by simp

end

text \<open>A schedule of a phase that gives every hart its iterations.\<close>

definition full :: "nat \<Rightarrow> (nat \<Rightarrow> nat) \<Rightarrow> nat list \<Rightarrow> bool" where
  "full nc n sched \<longleftrightarrow> list_all (\<lambda>p. p < nc) sched \<and> list_all (\<lambda>p. count_list sched p = n p) [0..<nc]"

lemma full_count:
  assumes "full nc n sched" "\<And>p. nc \<le> p \<Longrightarrow> n p = 0"
  shows "\<forall>p. count_list sched p = n p"
proof
  fix p
  show "count_list sched p = n p"
  proof (cases "p < nc")
    case False
    then have "p \<notin> set sched" using assms(1) by (auto simp: full_def list_all_iff)
    then show ?thesis using False assms(2) by (simp add: count_list_0_iff)
  qed (use assms(1) in \<open>simp add: full_def list_all_iff\<close>)
qed

lemma full_rounds: "(\<And>p. p < nc \<Longrightarrow> n p = k) \<Longrightarrow> full nc n (concat (replicate k [0..<nc]))"
proof -
  assume n: "\<And>p. p < nc \<Longrightarrow> n p = k"
  have c: "count_list [0..<m] p = (if p < m then 1 else 0)" for p m by (induction m) auto
  have "count_list (concat (replicate k [0..<nc])) p = k" if "p < nc" for p using that by (induction k) (simp_all add: c)
  then show ?thesis using n by (auto simp: full_def list_all_iff)
qed

subsection \<open>Loops over work lists\<close>

text \<open>The loop of a hart runs through its list of iterations; the state is the counter of each hart and the shared data.\<close>

definition par_step :: "(nat \<Rightarrow> 'i list) \<Rightarrow> ('i \<Rightarrow> 's \<Rightarrow> 's) \<Rightarrow> nat \<Rightarrow> nat list \<times> 's \<Rightarrow> nat list \<times> 's" where
  "par_step work upd p = (\<lambda>(c, x). (c[p := c ! p + 1], upd (work p ! (c ! p)) x))"

definition par_run :: "nat \<Rightarrow> (nat \<Rightarrow> 'i list) \<Rightarrow> ('i \<Rightarrow> 's \<Rightarrow> 's) \<Rightarrow> nat list \<Rightarrow> 's \<Rightarrow> 's" where
  "par_run nc work upd sched x = snd (fold (par_step work upd) sched (replicate nc 0, x))"

definition par_iters :: "nat \<Rightarrow> (nat \<Rightarrow> 'i list) \<Rightarrow> nat \<Rightarrow> nat" where
  "par_iters nc work p = (if p < nc then length (work p) else 0)"

definition par_done :: "nat \<Rightarrow> (nat \<Rightarrow> 'i list) \<Rightarrow> (nat \<Rightarrow> nat) \<Rightarrow> 'i list" where
  "par_done nc work c = concat (map (\<lambda>p. take (c p) (work p)) [0..<nc])"

definition par_inv :: "nat \<Rightarrow> 'i set \<Rightarrow> (nat \<Rightarrow> 'i list) \<Rightarrow> ('i \<Rightarrow> 's \<Rightarrow> 's) \<Rightarrow> 's \<Rightarrow> (nat \<Rightarrow> nat) \<Rightarrow> nat list \<times> 's \<Rightarrow> bool" where
  "par_inv nc W work upd x c = (\<lambda>(cs, y). (\<forall>p<nc. set (work p) \<subseteq> W) \<and> length cs = nc \<and> (\<forall>p<nc. cs ! p = c p) \<and> y = fold upd (par_done nc work c) x)"

lemma par_done_step:
  assumes "c p < par_iters nc work p"
  shows "mset (par_done nc work (c(p := Suc (c p)))) = mset (par_done nc work c @ [work p ! c p])"
proof -
  have p: "p < nc" "c p < length (work p)" using assms by (simp_all add: par_iters_def split: if_splits)
  have m: "mset (par_done nc work f) = (\<Sum>q<nc. mset (take (f q) (work q)))" for f :: "nat \<Rightarrow> nat"
    by (simp add: par_done_def mset_concat sum_list_sum_nth atLeast0LessThan)
  have "(\<Sum>q<nc. mset (take ((c(p := Suc (c p))) q) (work q))) =
      (\<Sum>q<nc. mset (take (c q) (work q)) + (if q = p then {#work p ! c p#} else {#}))"
    using p(2) by (intro sum.cong) (auto simp: take_Suc_conv_app_nth)
  also have "\<dots> = (\<Sum>q<nc. mset (take (c q) (work q))) + {#work p ! c p#}" using p(1) by (simp add: sum.distrib)
  finally show ?thesis by (simp add: m)
qed

text \<open>
  When the updates of the shared data commute, every interleaving gives what one hart gives that runs the
  loops one after the other.
\<close>

locale commuting =
  fixes upd :: "'i \<Rightarrow> 's \<Rightarrow> 's" and W :: "'i set"
  assumes comm: "i \<in> W \<Longrightarrow> j \<in> W \<Longrightarrow> upd i (upd j x) = upd j (upd i x)"
begin

lemma fold_mset: "set is \<subseteq> W \<Longrightarrow> mset is = mset js \<Longrightarrow> fold upd is x = fold upd js x"
  using fold_multiset_equiv [of "is" upd js] comm by (auto simp: fun_eq_iff subset_iff)

end

sublocale commuting \<subseteq> par: interleaved "par_step work upd" "par_iters nc work" "par_inv nc W work upd start" for work nc start
proof unfold_locales
  fix c p st
  assume J: "par_inv nc W work upd start c st" and lt: "c p < par_iters nc work p"
  have p: "p < nc" using lt by (simp add: par_iters_def split: if_splits)
  have "set (par_done nc work (c(p := Suc (c p)))) \<subseteq> W"
    using J unfolding par_inv_def par_done_def by (auto dest!: in_set_takeD)
  then have "upd (work p ! c p) (fold upd (par_done nc work c) start) = fold upd (par_done nc work (c(p := Suc (c p)))) start"
    using fold_mset [OF _ par_done_step [of c p nc work, OF lt], of start] by simp
  then show "par_inv nc W work upd start (c(p := Suc (c p))) (par_step work upd p st)"
    using J p by (auto simp: par_inv_def par_step_def nth_list_update split: prod.splits)
qed

context commuting
begin

lemma par_run_seq:
  assumes "full nc (par_iters nc work) sched" "\<And>p. p < nc \<Longrightarrow> set (work p) \<subseteq> W"
  shows "par_run nc work upd sched x = fold upd (concat (map work [0..<nc])) x"
proof -
  have "par_inv nc W work upd x (\<lambda>_. 0) (replicate nc 0, x)" using assms(2) by (simp add: par_inv_def par_done_def map_replicate_const)
  then have "par_inv nc W work upd x (par_iters nc work) (fold (par_step work upd) sched (replicate nc 0, x))"
    by (rule par.phase_inv) (rule full_count [OF assms(1)], simp add: par_iters_def)
  moreover have "map (\<lambda>p. take (par_iters nc work p) (work p)) [0..<nc] = map work [0..<nc]" by (simp add: par_iters_def)
  ultimately show ?thesis by (auto simp: par_run_def par_inv_def par_done_def split: prod.splits)
qed

end

end
