(* ===== verification/Radix.thy ===== *)
theory Radix
  imports Workload_Lib Interleaving "HOL-Library.Multiset"
begin

text \<open>
  The parallel radix sort, \<^verbatim>\<open>src/workloads/benchmarks/mt-radix/mt-radix.c\<close>. Between two barriers every
  hart runs a loop; a schedule names the hart that runs its next iteration, so a phase is any
  interleaving of the iterations of the harts. The \<open>long\<close> counters stay within the number of keys and
  are \<open>int\<close>; the keys are 64-bit words.
\<close>

unbundle bit_operations_syntax

subsection \<open>State and arithmetic\<close>

definition MAX_CORES :: nat where "MAX_CORES = 4"
definition NUM_KEYS :: nat where "NUM_KEYS = 2048"
definition RADIX_BITS :: nat where "RADIX_BITS = 8"
definition RADIX :: nat where "RADIX = 256"
definition MAX_KEY :: u64 where "MAX_KEY = 65536"
definition NUM_PASSES :: nat where "NUM_PASSES = 2"

text \<open>\<open>rx_iter\<close> and \<open>rx_seed\<close> are the loop counter and the seed local to each hart.\<close>

record radix =
  key :: "u64 list list"
  hist :: "int list list"
  pfx :: "int list list"
  rx_iter :: "nat list"
  rx_seed :: "u64 list"

definition splitmix64 :: "u64 \<Rightarrow> u64 \<times> u64" where
  "splitmix64 state =
     (let state = state + 0x9E3779B97F4A7C15; z = state;
          z = (z XOR drop_bit 30 z) * 0xBF58476D1CE4E5B9;
          z = (z XOR drop_bit 27 z) * 0x94D049BB133111EB in
      (z XOR drop_bit 31 z, state))"

definition verify_sorted :: "nat \<Rightarrow> u64 list \<Rightarrow> nat" where
  "verify_sorted n arr = (case filter (\<lambda>i. sint (arr ! (i - 1)) > sint (arr ! i)) [1..<n] of [] \<Rightarrow> 0 | i # _ \<Rightarrow> i)"

definition chunk_start :: "nat \<Rightarrow> nat \<Rightarrow> nat" where
  "chunk_start nc cid = cid * (NUM_KEYS div nc)"

definition chunk_end :: "nat \<Rightarrow> nat \<Rightarrow> nat" where
  "chunk_end nc cid = (if cid = nc - 1 then NUM_KEYS else chunk_start nc cid + NUM_KEYS div nc)"

definition digit :: "nat \<Rightarrow> u64 \<Rightarrow> nat" where
  "digit shift k = unat (signed_drop_bit shift k AND (of_nat RADIX - 1))"

subsection \<open>The phases\<close>

definition radix_start :: "nat \<Rightarrow> radix" where
  "radix_start nc =
     \<lparr>key = replicate 2 (replicate NUM_KEYS 0), hist = replicate MAX_CORES (replicate RADIX 0), pfx = replicate MAX_CORES (replicate RADIX 0),
      rx_iter = replicate nc 0, rx_seed = map (\<lambda>cid. 0x9E3779B9 + of_nat cid) [0..<nc]\<rparr>"

definition count_iter :: "nat \<Rightarrow> radix \<Rightarrow> radix" where
  "count_iter cid st = st\<lparr>rx_iter := (rx_iter st)[cid := rx_iter st ! cid + 1]\<rparr>"

definition gen_step :: "nat \<Rightarrow> nat \<Rightarrow> radix \<Rightarrow> radix" where
  "gen_step nc cid st =
     (case splitmix64 (rx_seed st ! cid) of (z, seed) \<Rightarrow>
        let i = chunk_start nc cid + rx_iter st ! cid in
        count_iter cid (st\<lparr>key := (key st)[0 := (key st ! 0)[i := z AND (MAX_KEY - 1)]], rx_seed := (rx_seed st)[cid := seed]\<rparr>))"

text \<open>The first \<open>RADIX\<close> iterations clear the hart's histogram, the others count its keys.\<close>

definition hist_step :: "nat \<Rightarrow> nat \<Rightarrow> nat \<Rightarrow> nat \<Rightarrow> radix \<Rightarrow> radix" where
  "hist_step nc from shift cid st =
     (let k = rx_iter st ! cid; row = hist st ! cid;
          d = digit shift (key st ! from ! (chunk_start nc cid + (k - RADIX)));
          row = (if k < RADIX then row[k := 0] else row[d := row ! d + 1]) in
      count_iter cid (st\<lparr>hist := (hist st)[cid := row]\<rparr>))"

definition prefix_cell :: "nat \<times> nat \<Rightarrow> int \<times> radix \<Rightarrow> int \<times> radix" where
  "prefix_cell = (\<lambda>(d, p) (sum, st).
     (sum + hist st ! p ! d, st\<lparr>pfx := (pfx st)[p := (pfx st ! p)[d := sum]]\<rparr>))"

definition prefix_phase :: "nat \<Rightarrow> radix \<Rightarrow> radix" where
  "prefix_phase nc st = snd (fold prefix_cell (concat (map (\<lambda>d. map (\<lambda>p. (d, p)) [0..<nc]) [0..<RADIX])) (0, st))"

definition permute_step :: "nat \<Rightarrow> nat \<Rightarrow> nat \<Rightarrow> nat \<Rightarrow> nat \<Rightarrow> radix \<Rightarrow> radix" where
  "permute_step nc from to shift cid st =
     (let i = chunk_start nc cid + rx_iter st ! cid; v = key st ! from ! i; d = digit shift v; pos = pfx st ! cid ! d in
      count_iter cid (st\<lparr>pfx := (pfx st)[cid := (pfx st ! cid)[d := pos + 1]], key := (key st)[to := (key st ! to)[nat pos := v]]\<rparr>))"

text \<open>A barrier: every hart starts the next loop at its beginning.\<close>

definition next_phase :: "nat \<Rightarrow> radix \<Rightarrow> radix" where
  "next_phase nc st = st\<lparr>rx_iter := replicate nc 0\<rparr>"

definition radix_pass :: "nat \<Rightarrow> nat \<Rightarrow> nat list \<times> nat list \<Rightarrow> radix \<Rightarrow> radix" where
  "radix_pass nc pass = (\<lambda>(sched1, sched2) st.
     let from = pass mod 2; to = 1 - from; shift = pass * RADIX_BITS;
         st = fold (hist_step nc from shift) sched1 (next_phase nc st);
         st = prefix_phase nc (next_phase nc st) in
     fold (permute_step nc from to shift) sched2 (next_phase nc st))"

definition radix_run :: "nat \<Rightarrow> nat list \<Rightarrow> (nat list \<times> nat list) list \<Rightarrow> radix" where
  "radix_run nc sched0 scheds =
     fold (\<lambda>(pass, s). radix_pass nc pass s) (enumerate 0 (take NUM_PASSES scheds)) (fold (gen_step nc) sched0 (radix_start nc))"

text \<open>The verdict of hart 0 and the exit codes.\<close>

definition radix_end :: "nat \<Rightarrow> radix \<Rightarrow> uart \<Rightarrow> lib_error + uart \<times> int" where
  "radix_end cid st u =
     (if cid = 0 then
        let err = verify_sorted NUM_KEYS (key st ! (NUM_PASSES mod 2));
            r = (if err \<noteq> 0 then
                   and_then (and_then (uart_send_string (ascii ''mt-radix: FAIL at index '') u) (uart_send_integer (int err)))
                     (uart_send_string [10])
                 else uart_send_string (ascii ''mt-radix: ALL SORTED OK'' @ [10]) u) in
        map_sum id (\<lambda>u. (u, if err \<noteq> 0 then 1 else 0)) r
      else Inr (u, 2))"

subsection \<open>Ranks\<close>

text \<open>How many keys of a range have a digit, and the place of a key: after the keys of smaller digits and the earlier ones of its own.\<close>

definition cnt :: "(nat \<Rightarrow> nat) \<Rightarrow> nat \<Rightarrow> nat \<Rightarrow> nat \<Rightarrow> nat" where
  "cnt dg lo hi d = card {j \<in> {lo..<hi}. dg j = d}"

definition rank :: "(nat \<Rightarrow> nat) \<Rightarrow> nat \<Rightarrow> nat \<Rightarrow> nat" where
  "rank dg n i = card {j. j < n \<and> (dg j < dg i \<or> dg j = dg i \<and> j < i)}"

lemma cnt_empty [simp]: "cnt dg lo lo d = 0"
  by (simp add: cnt_def)

lemma cnt_Suc: "lo \<le> hi \<Longrightarrow> cnt dg lo (Suc hi) d = cnt dg lo hi d + (if dg hi = d then 1 else 0)"
proof -
  assume "lo \<le> hi"
  then have "{j \<in> {lo..<Suc hi}. dg j = d} = {j \<in> {lo..<hi}. dg j = d} \<union> (if dg hi = d then {hi} else {})"
    by (auto simp: less_Suc_eq)
  then show ?thesis by (simp add: cnt_def card_insert_if)
qed

lemma cnt_split: "lo \<le> mid \<Longrightarrow> mid \<le> hi \<Longrightarrow> cnt dg lo hi d = cnt dg lo mid d + cnt dg mid hi d"
proof -
  assume "lo \<le> mid" "mid \<le> hi"
  then have "{j \<in> {lo..<hi}. dg j = d} = {j \<in> {lo..<mid}. dg j = d} \<union> {j \<in> {mid..<hi}. dg j = d}" by auto
  moreover have "{j \<in> {lo..<mid}. dg j = d} \<inter> {j \<in> {mid..<hi}. dg j = d} = {}" by auto
  ultimately show ?thesis by (simp add: cnt_def card_Un_disjoint)
qed

lemma rank_cnt:
  assumes "i < n"
  shows "rank dg n i = (\<Sum>d<dg i. cnt dg 0 n d) + cnt dg 0 i (dg i)"
proof -
  have "{j. j < n \<and> (dg j < dg i \<or> dg j = dg i \<and> j < i)} = (\<Union>d\<in>{..<dg i}. {j \<in> {0..<n}. dg j = d}) \<union> {j \<in> {0..<i}. dg j = dg i}"
    using assms by auto
  moreover have "card (\<Union>d\<in>{..<dg i}. {j \<in> {0..<n}. dg j = d}) = (\<Sum>d<dg i. cnt dg 0 n d)"
    unfolding cnt_def by (rule card_UN_disjoint) auto
  moreover have "(\<Union>d\<in>{..<dg i}. {j \<in> {0..<n}. dg j = d}) \<inter> {j \<in> {0..<i}. dg j = dg i} = {}" by auto
  ultimately show ?thesis by (simp add: rank_def cnt_def card_Un_disjoint)
qed

text \<open>The ranks are the places of the stable sort.\<close>

lemma sorted_place:
  assumes "sorted_wrt R xs" "k < length xs" "\<And>x. \<not> R x x" "\<And>x y. R x y \<Longrightarrow> \<not> R y x"
  shows "card {y \<in> set xs. R y (xs ! k)} = k"
proof -
  have "y \<in> set (take k xs)" if y: "y \<in> set xs" "R y (xs ! k)" for y
  proof -
    obtain j where j: "j < length xs" "y = xs ! j" using y(1) by (auto simp: in_set_conv_nth)
    have "\<not> k \<le> j"
    proof
      assume "k \<le> j"
      then have "j = k \<or> R (xs ! k) (xs ! j)" using assms(1) j(1) by (auto simp: sorted_wrt_iff_nth_less le_less)
      then show False using assms(3,4) y(2) j(2) by blast
    qed
    then show ?thesis using j assms(2) by (auto simp: in_set_conv_nth intro!: exI [of _ j])
  qed
  moreover have "R y (xs ! k)" if "y \<in> set (take k xs)" for y
  proof -
    obtain j where "j < k" "y = xs ! j" using \<open>y \<in> set (take k xs)\<close> assms(2) by (auto simp: in_set_conv_nth)
    then show ?thesis using assms(1,2) by (simp add: sorted_wrt_iff_nth_less)
  qed
  ultimately have "{y \<in> set xs. R y (xs ! k)} = set (take k xs)" by (auto dest: in_set_takeD)
  moreover have "distinct xs"
    unfolding distinct_conv_nth using assms(1,3) by (metis linorder_neqE_nat sorted_wrt_iff_nth_less)
  ultimately show ?thesis using assms(2) by (simp add: distinct_card)
qed

lemma sort_indices:
  fixes dg :: "nat \<Rightarrow> nat"
  assumes "idx = sort_key dg [0..<n]"
  shows "length idx = n" "set idx = {..<n}" "k < n \<Longrightarrow> rank dg n (idx ! k) = k"
proof -
  let ?R = "\<lambda>i j. dg i < dg j \<or> dg i = dg j \<and> i < j"
  show l: "length idx = n" "set idx = {..<n}" using assms by auto
  have "sorted_wrt ?R idx"
    unfolding sorted_wrt_iff_nth_less
  proof (intro allI impI)
    fix a b
    assume ab: "a < b" "b < length idx"
    have le: "dg (idx ! a) \<le> dg (idx ! b)"
      using sorted_sort_key [of dg "[0..<n]"] ab unfolding assms [symmetric] by (simp add: sorted_iff_nth_mono)
    show "?R (idx ! a) (idx ! b)"
    proof (cases "dg (idx ! a) = dg (idx ! b)")
      case True
      let ?P = "\<lambda>y. dg y = dg (idx ! b)"
      have "filter ?P idx = filter ?P [0..<n]" unfolding assms by (rule sort_key_stable)
      then have s: "sorted_wrt (<) (filter ?P idx)" by (simp add: sorted_wrt_filter)
      have "idx = take b idx @ idx ! b # drop (Suc b) idx" by (rule id_take_nth_drop [OF ab(2)])
      then have "filter ?P idx = filter ?P (take b idx) @ idx ! b # filter ?P (drop (Suc b) idx)" by (metis (mono_tags) filter.simps(2) filter_append)
      moreover have "idx ! a \<in> set (filter ?P (take b idx))" using ab True by (auto simp: in_set_conv_nth intro: exI [of _ a])
      ultimately have "idx ! a < idx ! b" using s by (auto simp: sorted_wrt_append)
      then show ?thesis using True by simp
    qed (use le in simp)
  qed
  then have "card {y \<in> set idx. ?R y (idx ! k)} = k" if "k < n" using that l(1) by (intro sorted_place) auto
  moreover have "{j. j < n \<and> ?R j (idx ! k)} = {y \<in> set idx. ?R y (idx ! k)}" unfolding l(2) by blast
  ultimately show "rank dg n (idx ! k) = k" if "k < n" using that unfolding rank_def by simp
qed

lemma rank_bij:
  assumes "i < n"
  shows "\<exists>k<n. sort_key dg [0..<n] ! k = i \<and> rank dg n i = k"
proof -
  note x = sort_indices [where dg = dg and n = n, OF refl]
  have "i \<in> set (sort_key dg [0..<n])" using x(2) assms by simp
  then show ?thesis using x(1,3) by (metis in_set_conv_nth)
qed

lemma rank_less: "i < n \<Longrightarrow> rank dg n i < n"
  using rank_bij by blast

lemma rank_inj: "i < n \<Longrightarrow> j < n \<Longrightarrow> rank dg n i = rank dg n j \<Longrightarrow> i = j"
  using rank_bij by metis

lemma placed_sort:
  assumes "length out = length ks" "\<forall>i<length ks. out ! rank (\<lambda>j. f (ks ! j)) (length ks) i = ks ! i"
  shows "out = sort_key f ks"
proof -
  let ?n = "length ks" and ?dg = "\<lambda>j. f (ks ! j)"
  let ?idx = "sort_key ?dg [0..<?n]"
  note x = sort_indices [where dg = ?dg and n = ?n, OF refl]
  have "out ! k = ks ! (?idx ! k)" if "k < ?n" for k
  proof -
    have "?idx ! k < ?n" using x(1,2) that by (metis lessThan_iff nth_mem)
    then show ?thesis using assms(2) x(3) [OF that] by metis
  qed
  then have o: "out = map ((!) ks) ?idx" using assms(1) x(1) by (intro nth_equalityI) simp_all
  have m: "map ((!) ks) [0..<?n] = ks" by (simp add: map_nth)
  have "mset out = mset ks" unfolding o by (metis m mset_map mset_sort)
  moreover have "filter (\<lambda>y. f k = f y) out = filter (\<lambda>y. f k = f y) ks" for k
  proof -
    have c: "(\<lambda>y. f k = f y) = (\<lambda>y. f y = f k)" by auto
    have "filter (\<lambda>y. f k = f y) out = map ((!) ks) (filter (\<lambda>j. ?dg j = f k) ?idx)" unfolding o c by (simp add: filter_map o_def)
    also have "filter (\<lambda>j. ?dg j = f k) ?idx = filter (\<lambda>j. ?dg j = f k) [0..<?n]" by (rule sort_key_stable)
    also have "map ((!) ks) \<dots> = filter (\<lambda>y. f k = f y) (map ((!) ks) [0..<?n])" unfolding c by (simp add: filter_map o_def)
    finally show ?thesis unfolding m .
  qed
  moreover have "sorted (map f out)" unfolding o using sorted_sort_key [of ?dg "[0..<?n]"] by (simp add: o_def)
  ultimately show ?thesis by (intro properties_for_sort_key [symmetric]) auto
qed

text \<open>Sorting by the low digit and then, stably, by the high digit sorts by the key.\<close>

lemma sort_two_digits:
  fixes ks :: "'a::linorder list" and f g :: "'a \<Rightarrow> nat"
  assumes "\<And>x y. x \<in> set ks \<Longrightarrow> y \<in> set ks \<Longrightarrow> g x < g y \<or> g x = g y \<and> f x \<le> f y \<Longrightarrow> x \<le> y"
  shows "sort_key g (sort_key f ks) = sort ks"
proof -
  let ?a = "sort_key f ks" let ?b = "sort_key g ?a"
  have "?b ! i \<le> ?b ! j" if ij: "i < j" "j < length ?b" for i j
  proof -
    have le: "g (?b ! i) \<le> g (?b ! j)" using sorted_sort_key [of g ?a] ij by (simp add: sorted_iff_nth_mono)
    have mem: "?b ! i \<in> set ks" "?b ! j \<in> set ks" using ij nth_mem [of _ ?b] by auto
    have "f (?b ! i) \<le> f (?b ! j)" if e: "g (?b ! i) = g (?b ! j)"
    proof -
      let ?P = "\<lambda>y. g y = g (?b ! j)"
      have "filter ?P ?b = filter ?P ?a" by (rule sort_key_stable)
      then have s: "sorted (map f (filter ?P ?b))" using sorted_sort_key [of f ks] by (simp add: sorted_filter)
      have "?b = take j ?b @ ?b ! j # drop (Suc j) ?b" by (rule id_take_nth_drop [OF ij(2)])
      then have "filter ?P ?b = filter ?P (take j ?b) @ ?b ! j # filter ?P (drop (Suc j) ?b)" by (metis (mono_tags) filter.simps(2) filter_append)
      moreover have "?b ! i \<in> set (filter ?P (take j ?b))" using ij e by (auto simp: in_set_conv_nth intro: exI [of _ i])
      ultimately show ?thesis using s by (auto simp: sorted_append)
    qed
    then show ?thesis using assms [OF mem] le by (cases "g (?b ! i) = g (?b ! j)") auto
  qed
  then have "sorted ?b" by (simp add: sorted_iff_nth_mono_less)
  moreover have "mset ?b = mset ks" by simp
  ultimately show ?thesis by (metis properties_for_sort)
qed

subsection \<open>Shares\<close>

definition iters :: "nat \<Rightarrow> nat \<Rightarrow> nat" where
  "iters nc p = (if p < nc then chunk_end nc p - chunk_start nc p else 0)"

lemma chunk_bounds:
  assumes "p < nc"
  shows "chunk_start nc p \<le> chunk_end nc p" "chunk_end nc p \<le> NUM_KEYS" "chunk_start nc 0 = 0"
    "Suc p < nc \<Longrightarrow> chunk_end nc p = chunk_start nc (Suc p)" "Suc p = nc \<Longrightarrow> chunk_end nc p = NUM_KEYS"
proof -
  have "Suc p * (NUM_KEYS div nc) \<le> nc * (NUM_KEYS div nc)" using assms by (intro mult_le_mono1) simp
  also have "\<dots> \<le> NUM_KEYS" by simp
  finally show "chunk_start nc p \<le> chunk_end nc p" "chunk_end nc p \<le> NUM_KEYS" by (auto simp: chunk_start_def chunk_end_def)
qed (use assms in \<open>auto simp: chunk_start_def chunk_end_def\<close>)

lemma chunk_split: "p < nc \<Longrightarrow> cnt dg 0 (chunk_start nc p) d = (\<Sum>q<p. cnt dg (chunk_start nc q) (chunk_end nc q) d)"
proof (induction p)
  case (Suc p)
  then have "chunk_end nc p = chunk_start nc (Suc p)" "chunk_start nc p \<le> chunk_end nc p" using chunk_bounds [of p nc] by simp_all
  then show ?case using Suc cnt_split [of 0 "chunk_start nc p" "chunk_end nc p" dg d] by simp
qed (simp add: chunk_start_def)

lemma chunk_total: "0 < nc \<Longrightarrow> (\<Sum>q<nc. cnt dg (chunk_start nc q) (chunk_end nc q) d) = cnt dg 0 NUM_KEYS d"
proof -
  assume "0 < nc"
  then obtain p where p: "nc = Suc p" by (cases nc) auto
  then have b: "p < nc" "Suc p = nc" by simp_all
  have e: "chunk_end nc p = NUM_KEYS" "chunk_start nc p \<le> NUM_KEYS" using chunk_bounds(1,5) [OF b(1)] b(2) by simp_all
  have "(\<Sum>q<nc. cnt dg (chunk_start nc q) (chunk_end nc q) d) =
      (\<Sum>q<p. cnt dg (chunk_start nc q) (chunk_end nc q) d) + cnt dg (chunk_start nc p) (chunk_end nc p) d"
    using b(2) [symmetric] by simp
  then show ?thesis using chunk_split [OF b(1), of dg d] cnt_split [OF le0 e(2), of dg d] e(1) by simp
qed

lemma chunk_owner: "0 < nc \<Longrightarrow> i < NUM_KEYS \<Longrightarrow> \<exists>p<nc. \<exists>k<iters nc p. i = chunk_start nc p + k"
proof -
  assume nc: "0 < nc" "i < NUM_KEYS"
  define p where "p = (GREATEST p. p < nc \<and> chunk_start nc p \<le> i)"
  have ex: "0 < nc \<and> chunk_start nc 0 \<le> i" using nc by (simp add: chunk_start_def)
  have p: "p < nc" "chunk_start nc p \<le> i"
    using GreatestI_nat [of "\<lambda>p. p < nc \<and> chunk_start nc p \<le> i" 0 nc] ex by (auto simp: p_def)
  have "i < chunk_end nc p"
  proof (cases "Suc p < nc")
    case True
    have "\<not> chunk_start nc (Suc p) \<le> i"
    proof
      assume "chunk_start nc (Suc p) \<le> i"
      then have "Suc p \<le> p" unfolding p_def using True by (intro Greatest_le_nat [where b = nc]) (auto simp flip: p_def)
      then show False by simp
    qed
    then show ?thesis using chunk_bounds(4) [OF p(1) True] by simp
  qed (use p nc(2) chunk_bounds(5) [of p nc] in auto)
  then show ?thesis using p by (intro exI [of _ p]) (auto simp: iters_def intro!: exI [of _ "i - chunk_start nc p"])
qed

lemma chunk_in: "k < iters nc p \<Longrightarrow> p < nc \<and> chunk_start nc p + k < NUM_KEYS"
  using chunk_bounds(1,2) [of p nc] by (auto simp: iters_def split: if_splits)

lemma chunk_inj:
  assumes "k < iters nc p" "l < iters nc q" "chunk_start nc p + k = chunk_start nc q + l"
  shows "p = q \<and> k = l"
proof -
  have lt: "chunk_end nc a \<le> chunk_start nc b" if "a < b" "b < nc" for a b
  proof -
    have "Suc a * (NUM_KEYS div nc) \<le> b * (NUM_KEYS div nc)" using that(1) by (intro mult_le_mono1) simp
    moreover have "a \<noteq> nc - 1" using that by simp
    ultimately show ?thesis by (simp add: chunk_end_def chunk_start_def)
  qed
  have "p < nc" "q < nc" using assms(1,2) chunk_in by blast+
  then have "p = q" using lt [of p q] lt [of q p] assms by (cases p q rule: linorder_cases) (auto simp: iters_def)
  then show ?thesis using assms(3) by simp
qed

subsection \<open>Key generation\<close>

definition shape :: "nat \<Rightarrow> radix \<Rightarrow> bool" where
  "shape nc st \<longleftrightarrow> nc \<le> MAX_CORES \<and> length (key st) = 2 \<and> (\<forall>a<2. length (key st ! a) = NUM_KEYS) \<and> length (hist st) = MAX_CORES \<and> length (pfx st) = MAX_CORES \<and>
     (\<forall>p<MAX_CORES. length (hist st ! p) = RADIX \<and> length (pfx st ! p) = RADIX) \<and> length (rx_iter st) = nc"

definition gen_seed :: "nat \<Rightarrow> nat \<Rightarrow> u64" where
  "gen_seed p k = 0x9E3779B9 + of_nat p + of_nat k * 0x9E3779B97F4A7C15"

definition gen_key :: "nat \<Rightarrow> nat \<Rightarrow> u64" where
  "gen_key p k = fst (splitmix64 (gen_seed p k)) AND (MAX_KEY - 1)"

definition gen_inv :: "nat \<Rightarrow> (nat \<Rightarrow> nat) \<Rightarrow> radix \<Rightarrow> bool" where
  "gen_inv nc c st \<longleftrightarrow> shape nc st \<and> length (rx_seed st) = nc \<and>
     (\<forall>p<nc. rx_iter st ! p = c p \<and> rx_seed st ! p = gen_seed p (c p) \<and>
        (\<forall>k<c p. k < iters nc p \<longrightarrow> key st ! 0 ! (chunk_start nc p + k) = gen_key p k))"

lemma splitmix_seed: "splitmix64 (gen_seed p k) = (fst (splitmix64 (gen_seed p k)), gen_seed p (Suc k))"
  by (simp add: splitmix64_def gen_seed_def Let_def algebra_simps)

interpretation gen: interleaved "gen_step nc" "iters nc" "gen_inv nc" for nc
proof unfold_locales
  fix c p and st :: radix
  assume J: "gen_inv nc c st" and lt: "c p < iters nc p"
  have p: "p < nc" "chunk_start nc p + c p < NUM_KEYS" using chunk_in [OF lt] by blast+
  have sh: "shape nc st" "length (rx_seed st) = nc" "rx_iter st ! p = c p" "rx_seed st ! p = gen_seed p (c p)"
    using J p(1) by (simp_all add: gen_inv_def)
  let ?i = "chunk_start nc p + c p"
  have e: "gen_step nc p st = count_iter p (st\<lparr>key := (key st)[0 := (key st ! 0)[?i := gen_key p (c p)]],
      rx_seed := (rx_seed st)[p := gen_seed p (Suc (c p))]\<rparr>)"
    unfolding gen_step_def sh(3,4) by (subst splitmix_seed) (simp add: gen_key_def Let_def)
  have "(key st ! 0)[?i := gen_key p (c p)] ! (chunk_start nc q + k) = gen_key q k"
    if "q < nc" "k < (c(p := Suc (c p))) q" "k < iters nc q" for q k
  proof (cases "chunk_start nc q + k = ?i")
    case True
    then have "q = p \<and> k = c p" using chunk_inj [OF that(3) lt] by blast
    then show ?thesis using sh(1) p(2) by (simp add: shape_def)
  next
    case False
    then have "k < c q" using that(2) by (auto split: if_splits simp: less_Suc_eq)
    then show ?thesis using J that False by (simp add: gen_inv_def)
  qed
  then show "gen_inv nc (c(p := Suc (c p))) (gen_step nc p st)"
    using J sh p unfolding e by (auto simp: gen_inv_def shape_def count_iter_def nth_list_update less_2_cases_iff)
qed

lemma gen_start: "nc \<le> MAX_CORES \<Longrightarrow> gen_inv nc (\<lambda>_. 0) (radix_start nc)"
  by (auto simp: gen_inv_def radix_start_def shape_def gen_seed_def less_2_cases_iff)

subsection \<open>Histogram\<close>

definition hist_inv :: "nat \<Rightarrow> nat \<Rightarrow> nat \<Rightarrow> u64 list list \<Rightarrow> (nat \<Rightarrow> nat) \<Rightarrow> radix \<Rightarrow> bool" where
  "hist_inv nc from shift K c st \<longleftrightarrow> shape nc st \<and> key st = K \<and>
     (\<forall>p<nc. rx_iter st ! p = c p \<and>
        (\<forall>d<RADIX. if c p \<le> RADIX then d < c p \<longrightarrow> hist st ! p ! d = 0
           else hist st ! p ! d = int (cnt (\<lambda>j. digit shift (K ! from ! j)) (chunk_start nc p) (chunk_start nc p + (c p - RADIX)) d)))"

definition hist_iters :: "nat \<Rightarrow> nat \<Rightarrow> nat" where
  "hist_iters nc p = (if p < nc then RADIX + iters nc p else 0)"

lemma digit_less: "digit shift k < RADIX"
proof -
  have "digit shift k = unat (take_bit 8 (signed_drop_bit shift k))" by (simp add: digit_def RADIX_def word_mask)
  then show ?thesis using unat_take_bit_less [of 8 "signed_drop_bit shift k"] by (simp add: RADIX_def)
qed

lemma hist_row:
  assumes "hist_inv nc from shift K c st" "p < nc" "d < RADIX"
    and "dg = (\<lambda>j. digit shift (K ! from ! j))" "a = chunk_start nc p"
    and "row = hist st ! p" "row' = (if c p < RADIX then row[c p := 0] else row[dg (a + (c p - RADIX)) := row ! dg (a + (c p - RADIX)) + 1])"
  shows "if Suc (c p) \<le> RADIX then d < Suc (c p) \<longrightarrow> row' ! d = 0 else row' ! d = int (cnt dg a (a + (Suc (c p) - RADIX)) d)"
proof -
  have l: "length row = RADIX" using assms(1,2) by (simp add: hist_inv_def shape_def assms(6))
  have old: "if c p \<le> RADIX then d < c p \<longrightarrow> row ! d = 0 else row ! d = int (cnt dg a (a + (c p - RADIX)) d)"
    if "d < RADIX" for d using assms(1,2) that by (simp add: hist_inv_def assms(4-6))
  show ?thesis
  proof (cases "c p < RADIX")
    case True
    then show ?thesis using old [OF assms(3)] l by (auto simp: assms(7) nth_list_update less_Suc_eq)
  next
    case False
    let ?x = "a + (c p - RADIX)"
    have c: "row ! d = int (cnt dg a ?x d)"
      using old [OF assms(3)] False assms(3) by (cases "c p = RADIX") auto
    have "dg ?x < RADIX" by (simp add: assms(4) digit_less)
    moreover have "Suc (c p) - RADIX = Suc (c p - RADIX)" using False by simp
    ultimately show ?thesis using c l False assms(3) cnt_Suc [of a ?x dg d] by (auto simp: assms(7) nth_list_update)
  qed
qed

interpretation histo: interleaved "hist_step nc src shift" "hist_iters nc" "hist_inv nc src shift K" for nc src shift K
proof unfold_locales
  fix c p and st :: radix
  assume J: "hist_inv nc src shift K c st" and lt: "c p < hist_iters nc p"
  let ?dg = "\<lambda>j. digit shift (K ! src ! j)" and ?a = "chunk_start nc p" and ?row = "hist st ! p"
  let ?row' = "if c p < RADIX then ?row[c p := 0] else ?row[?dg (?a + (c p - RADIX)) := ?row ! ?dg (?a + (c p - RADIX)) + 1]"
  have p: "p < nc" using lt by (simp add: hist_iters_def split: if_splits)
  have sh: "shape nc st" "key st = K" "rx_iter st ! p = c p" using J p by (simp_all add: hist_inv_def)
  have e: "hist_step nc src shift p st = count_iter p (st\<lparr>hist := (hist st)[p := ?row']\<rparr>)"
    by (simp add: hist_step_def Let_def sh)
  have "shape nc (hist_step nc src shift p st)"
    using sh(1) p unfolding e by (auto simp: shape_def count_iter_def nth_list_update)
  moreover have "\<forall>d<RADIX. if Suc (c p) \<le> RADIX then d < Suc (c p) \<longrightarrow> ?row' ! d = 0
      else ?row' ! d = int (cnt ?dg ?a (?a + (Suc (c p) - RADIX)) d)"
    using hist_row [OF J p _ refl refl refl refl] by blast
  ultimately show "hist_inv nc src shift K (c(p := Suc (c p))) (hist_step nc src shift p st)"
    using J sh p unfolding e by (auto simp: hist_inv_def shape_def count_iter_def nth_list_update)
qed

subsection \<open>Prefix sums\<close>

text \<open>The place of the first key with digit \<open>e\<close> of hart \<open>p\<close>, from the histograms.\<close>

definition base :: "nat \<Rightarrow> int list list \<Rightarrow> nat \<Rightarrow> nat \<Rightarrow> int" where
  "base nc H p e = (\<Sum>d<e. \<Sum>q<nc. H ! q ! d) + (\<Sum>q<p. H ! q ! e)"

definition prefixed :: "nat \<Rightarrow> radix \<Rightarrow> nat \<Rightarrow> nat \<Rightarrow> int \<times> radix \<Rightarrow> bool" where
  "prefixed nc st0 d m r \<longleftrightarrow> fst r = base nc (hist st0) m d \<and> shape nc (snd r) \<and> hist (snd r) = hist st0 \<and> key (snd r) = key st0 \<and>
     rx_iter (snd r) = rx_iter st0 \<and> (\<forall>p<nc. \<forall>e<RADIX. e < d \<or> e = d \<and> p < m \<longrightarrow> pfx (snd r) ! p ! e = base nc (hist st0) p e)"

lemma prefixed_cell: "prefixed nc st0 d m r \<Longrightarrow> d < RADIX \<Longrightarrow> m < nc \<Longrightarrow> prefixed nc st0 d (Suc m) (prefix_cell (d, m) r)"
  by (cases r) (auto simp: prefixed_def prefix_cell_def shape_def base_def nth_list_update less_Suc_eq)

lemma prefixed_row:
  assumes "prefixed nc st0 d 0 r" "d < RADIX"
  shows "prefixed nc st0 (Suc d) 0 (fold prefix_cell (map (Pair d) [0..<nc]) r)"
proof -
  have "m \<le> nc \<Longrightarrow> prefixed nc st0 d m (fold prefix_cell (map (Pair d) [0..<m]) r)" for m
    by (induction m) (use assms in \<open>auto intro: prefixed_cell\<close>)
  from this [of nc] show ?thesis by (auto simp: prefixed_def base_def less_Suc_eq)
qed

lemma prefix_phase_base:
  assumes "shape nc st" "st' = prefix_phase nc st"
  shows "shape nc st'" "key st' = key st" "rx_iter st' = rx_iter st" "p < nc \<Longrightarrow> e < RADIX \<Longrightarrow> pfx st' ! p ! e = base nc (hist st) p e"
proof -
  let ?r = "\<lambda>d. fold prefix_cell (concat (map (\<lambda>d. map (\<lambda>p. (d, p)) [0..<nc]) [0..<d])) (0, st)"
  have "d \<le> RADIX \<Longrightarrow> prefixed nc st d 0 (?r d)" for d
  proof (induction d)
    case 0
    then show ?case using assms(1) by (simp add: prefixed_def base_def)
  next
    case (Suc d)
    then show ?case using prefixed_row [of nc st d "?r d"] by simp
  qed
  then have "prefixed nc st RADIX 0 (?r RADIX)" by simp
  then show "shape nc st'" "key st' = key st" "rx_iter st' = rx_iter st" "p < nc \<Longrightarrow> e < RADIX \<Longrightarrow> pfx st' ! p ! e = base nc (hist st) p e"
    by (simp_all add: prefixed_def prefix_phase_def assms(2))
qed

lemma base_cnt:
  assumes "p < nc" "e < RADIX" "\<And>q d. q < nc \<Longrightarrow> d < RADIX \<Longrightarrow> H ! q ! d = int (cnt dg (chunk_start nc q) (chunk_end nc q) d)"
  shows "base nc H p e = int ((\<Sum>d<e. cnt dg 0 NUM_KEYS d) + cnt dg 0 (chunk_start nc p) e)"
proof -
  have "(\<Sum>q<nc. H ! q ! d) = int (cnt dg 0 NUM_KEYS d)" if "d < e" for d
    using chunk_total [of nc dg d] assms that by (simp flip: of_nat_sum)
  moreover have "(\<Sum>q<p. H ! q ! e) = int (cnt dg 0 (chunk_start nc p) e)"
    using chunk_split [OF assms(1), of dg e] assms by (simp flip: of_nat_sum)
  ultimately show ?thesis by (simp add: base_def)
qed

subsection \<open>Permutation\<close>

definition perm_inv :: "nat \<Rightarrow> nat \<Rightarrow> nat \<Rightarrow> u64 list \<Rightarrow> (nat \<Rightarrow> nat) \<Rightarrow> radix \<Rightarrow> bool" where
  "perm_inv nc src shift K c st \<longleftrightarrow> (let dg = \<lambda>j. digit shift (K ! j) in
     shape nc st \<and> src < 2 \<and> key st ! src = K \<and>
     (\<forall>p<nc. rx_iter st ! p = c p \<and>
        (\<forall>d<RADIX. pfx st ! p ! d = int ((\<Sum>e<d. cnt dg 0 NUM_KEYS e) + cnt dg 0 (chunk_start nc p + c p) d)) \<and>
        (\<forall>k<c p. k < iters nc p \<longrightarrow> key st ! (1 - src) ! rank dg NUM_KEYS (chunk_start nc p + k) = K ! (chunk_start nc p + k))))"

interpretation permute: interleaved "permute_step nc src (1 - src) shift" "iters nc" "perm_inv nc src shift K" for nc src shift K
proof unfold_locales
  fix c p and st :: radix
  assume J: "perm_inv nc src shift K c st" and lt: "c p < iters nc p"
  define dg where "dg = (\<lambda>j. digit shift (K ! j))"
  let ?i = "chunk_start nc p + c p"
  let ?r = "rank dg NUM_KEYS ?i"
  have p: "p < nc" "?i < NUM_KEYS" using chunk_in [OF lt] by blast+
  have dR: "dg j < RADIX" for j by (simp add: dg_def digit_less)
  have sh: "shape nc st" "src < 2" "key st ! src = K" "rx_iter st ! p = c p" using J p(1) by (simp_all add: perm_inv_def Let_def)
  have pos: "pfx st ! p ! dg ?i = int ?r"
    using J p dR [of ?i] rank_cnt [OF p(2), of dg] by (simp add: perm_inv_def Let_def flip: dg_def)
  have e: "permute_step nc src (1 - src) shift p st = count_iter p (st\<lparr>pfx := (pfx st)[p := (pfx st ! p)[dg ?i := int ?r + 1]],
      key := (key st)[1 - src := (key st ! (1 - src))[?r := K ! ?i]]\<rparr>)"
    using pos by (simp add: permute_step_def Let_def sh(3,4) dg_def)
  have "(key st ! (1 - src))[?r := K ! ?i] ! rank dg NUM_KEYS (chunk_start nc q + k) = K ! (chunk_start nc q + k)"
    if q: "q < nc" "k < (c(p := Suc (c p))) q" "k < iters nc q" for q k
  proof (cases "chunk_start nc q + k = ?i")
    case True
    then show ?thesis using sh(1,2) rank_less [OF p(2), of dg] by (simp add: shape_def)
  next
    case False
    then have "k < c q" using q(2) by (auto split: if_splits simp: less_Suc_eq)
    moreover have "rank dg NUM_KEYS (chunk_start nc q + k) \<noteq> ?r" using rank_inj [OF _ p(2)] chunk_in [OF q(3)] False by blast
    ultimately show ?thesis using J q(1,3) by (simp add: perm_inv_def Let_def flip: dg_def)
  qed
  moreover have "(pfx st)[p := (pfx st ! p)[dg ?i := int ?r + 1]] ! q ! d =
      int ((\<Sum>e<d. cnt dg 0 NUM_KEYS e) + cnt dg 0 (chunk_start nc q + (c(p := Suc (c p))) q) d)" if "q < nc" "d < RADIX" for q d
    using J sh(1) that p pos dR [of ?i] cnt_Suc [of 0 ?i dg d]
    by (auto simp: perm_inv_def Let_def shape_def nth_list_update simp flip: dg_def)
  moreover have "shape nc (permute_step nc src (1 - src) shift p st)"
    using sh(1,2) p(1) unfolding e by (auto simp: shape_def count_iter_def nth_list_update)
  moreover have "key (permute_step nc src (1 - src) shift p st) ! src = K"
      "key (permute_step nc src (1 - src) shift p st) ! (1 - src) = (key st ! (1 - src))[?r := K ! ?i]"
      "pfx (permute_step nc src (1 - src) shift p st) = (pfx st)[p := (pfx st ! p)[dg ?i := int ?r + 1]]"
    using sh(1-3) unfolding e by (auto simp: count_iter_def shape_def less_2_cases_iff)
  moreover have "rx_iter (permute_step nc src (1 - src) shift p st) ! q = (c(p := Suc (c p))) q" if "q < nc" for q
    using J sh(1,4) that unfolding e by (simp add: count_iter_def perm_inv_def Let_def shape_def nth_list_update)
  ultimately show "perm_inv nc src shift K (c(p := Suc (c p))) (permute_step nc src (1 - src) shift p st)"
    using sh(2) unfolding perm_inv_def Let_def dg_def [symmetric] by simp
qed

subsection \<open>Sorting\<close>

lemma hist_end:
  assumes "hist_inv nc src shift K (hist_iters nc) st" "q < nc" "d < RADIX"
  shows "hist st ! q ! d = int (cnt (\<lambda>j. digit shift (K ! src ! j)) (chunk_start nc q) (chunk_end nc q) d)"
proof -
  have e: "chunk_start nc q + iters nc q = chunk_end nc q" using chunk_bounds(1) [OF assms(2)] assms(2) by (simp add: iters_def)
  then show ?thesis using assms by (cases "iters nc q = 0") (auto simp: hist_inv_def hist_iters_def)
qed

lemma radix_pass_sorts:
  assumes "shape nc st" "0 < nc" "src = pass mod 2" "shift = pass * RADIX_BITS" "full nc (hist_iters nc) s1" "full nc (iters nc) s2"
  shows "shape nc (radix_pass nc pass (s1, s2) st) \<and> key (radix_pass nc pass (s1, s2) st) ! (1 - src) = sort_key (digit shift) (key st ! src)"
proof -
  let ?K = "key st" and ?out = "radix_pass nc pass (s1, s2) st"
  let ?k = "?K ! src" let ?dg = "\<lambda>j. digit shift (?k ! j)"
  define st1 where "st1 = fold (hist_step nc src shift) s1 (next_phase nc st)"
  define st2 where "st2 = prefix_phase nc (next_phase nc st1)"
  have out: "?out = fold (permute_step nc src (1 - src) shift) s2 (next_phase nc st2)"
    by (simp add: radix_pass_def Let_def st1_def st2_def assms(3,4))
  have "hist_inv nc src shift ?K (\<lambda>_. 0) (next_phase nc st)" using assms(1) by (simp add: hist_inv_def shape_def next_phase_def)
  then have h: "hist_inv nc src shift ?K (hist_iters nc) st1"
    unfolding st1_def by (rule histo.phase_inv) (rule full_count [OF assms(5)], simp add: hist_iters_def)
  have sh1: "shape nc (next_phase nc st1)" "key (next_phase nc st1) = ?K" "hist (next_phase nc st1) = hist st1"
    using h by (auto simp: hist_inv_def next_phase_def shape_def)
  note pre = prefix_phase_base [OF sh1(1) st2_def]
  have b: "pfx st2 ! p ! d = int ((\<Sum>e<d. cnt ?dg 0 NUM_KEYS e) + cnt ?dg 0 (chunk_start nc p) d)" if "p < nc" "d < RADIX" for p d
    using pre(4) [OF that] base_cnt [OF that hist_end [OF h]] sh1(3) by simp
  have "perm_inv nc src shift ?k (\<lambda>_. 0) (next_phase nc st2)"
    using pre(1,2) sh1(2) b assms(3) by (simp add: perm_inv_def Let_def next_phase_def shape_def)
  then have J: "perm_inv nc src shift ?k (iters nc) ?out"
    unfolding out by (rule permute.phase_inv) (rule full_count [OF assms(6)], simp add: iters_def)
  have l: "length ?k = NUM_KEYS" "length (key ?out ! (1 - src)) = NUM_KEYS" using assms(1,3) J by (auto simp: perm_inv_def Let_def shape_def)
  have "key ?out ! (1 - src) ! rank ?dg NUM_KEYS i = ?k ! i" if "i < NUM_KEYS" for i
    using chunk_owner [OF assms(2) that] J by (auto simp: perm_inv_def Let_def)
  then have "key ?out ! (1 - src) = sort_key (digit shift) ?k" using l by (intro placed_sort) simp_all
  then show ?thesis using J by (simp add: perm_inv_def Let_def)
qed

text \<open>The keys in the order of the harts.\<close>

definition radix_keys :: "nat \<Rightarrow> u64 list" where
  "radix_keys nc = concat (map (\<lambda>p. map (gen_key p) [0..<iters nc p]) [0..<nc])"

lemma gen_keys:
  assumes "gen_inv nc (iters nc) st" "0 < nc"
  shows "key st ! 0 = radix_keys nc"
proof -
  let ?K = "key st ! 0"
  have l: "length ?K = NUM_KEYS" using assms(1) by (simp add: gen_inv_def shape_def)
  have share: "take (chunk_start nc p) ?K @ map (gen_key p) [0..<iters nc p] = take (chunk_end nc p) ?K" if p: "p < nc" for p
  proof -
    have e: "chunk_end nc p = chunk_start nc p + iters nc p" "chunk_start nc p + iters nc p \<le> NUM_KEYS"
      using chunk_bounds(1,2) [OF p] p by (simp_all add: iters_def)
    have "map (gen_key p) [0..<iters nc p] = take (iters nc p) (drop (chunk_start nc p) ?K)"
      using assms(1) p e(2) l by (intro nth_equalityI) (auto simp: gen_inv_def)
    then show ?thesis by (simp add: e(1) take_add)
  qed
  have upto: "p < nc \<Longrightarrow> concat (map (\<lambda>p. map (gen_key p) [0..<iters nc p]) [0..<p]) = take (chunk_start nc p) ?K" for p
  proof (induction p)
    case (Suc p)
    then show ?case using share [of p] chunk_bounds(4) [of p nc] by simp
  qed (simp add: chunk_start_def)
  define p where "p = nc - 1"
  have p: "p < nc" "[0..<nc] = [0..<p] @ [p]" using assms(2) by (simp_all add: p_def flip: upt_Suc_append)
  have "chunk_end nc p = NUM_KEYS" using chunk_bounds(5) [OF p(1)] assms(2) by (simp add: p_def)
  then have "radix_keys nc = take NUM_KEYS ?K" using share [OF p(1)] upto [OF p(1)] by (simp add: radix_keys_def p(2))
  then show ?thesis using l by simp
qed

definition small :: "u64 \<Rightarrow> bool" where
  "small x \<longleftrightarrow> unat x < 65536"

lemma small_sint: "small x \<Longrightarrow> sint x = int (unat x)"
proof -
  assume "small x"
  then have "int (unat x) < int 65536" by (simp only: small_def of_nat_less_iff)
  then have "signed_take_bit 63 (uint x) = uint x" by (intro signed_take_bit_int_eq_self) (simp_all add: order.trans [OF _ unsigned_greater_eq])
  then show ?thesis by (simp add: sint_uint)
qed

lemma gen_key_small: "small (gen_key p k)"
proof -
  have "gen_key p k = take_bit 16 (fst (splitmix64 (gen_seed p k)))" by (simp add: gen_key_def MAX_KEY_def word_mask)
  then show ?thesis using unat_take_bit_less [of 16 "fst (splitmix64 (gen_seed p k))"] by (simp add: small_def)
qed

lemma digit_small:
  assumes "small x"
  shows "digit s x = unat x div 2 ^ s mod 256"
proof -
  have "int (digit s x) = uint (take_bit 8 (signed_drop_bit s x))" by (simp add: digit_def RADIX_def word_mask)
  also have "\<dots> = take_bit 8 (sint (signed_drop_bit s x))" by (simp add: unsigned_take_bit_eq sint_uint [of "signed_drop_bit s x"] take_bit_signed_take_bit)
  also have "\<dots> = int (unat x div 2 ^ s mod 256)"
    by (simp add: sint_signed_drop_bit_eq small_sint [OF assms] drop_bit_eq_div take_bit_eq_mod zdiv_int zmod_int)
  finally show ?thesis by simp
qed

lemma two_digits:
  assumes "small x" "small y" "digit 8 x < digit 8 y \<or> digit 8 x = digit 8 y \<and> digit 0 x \<le> digit 0 y"
  shows "x \<le> y"
proof -
  have "digit 8 z = unat z div 256" "digit 0 z = unat z mod 256" if "small z" for z
    using digit_small [OF that, of 8] digit_small [OF that, of 0] that by (simp_all add: small_def)
  then show ?thesis
    using assms div_le_mono [of "unat y" "unat x" 256] unfolding word_le_nat_alt
    by (metis div_mult_mod_eq linorder_not_less nat_le_linear add_le_cancel_left)
qed

lemma verify_sorted_zero:
  assumes "sorted arr" "\<forall>x\<in>set arr. small x" "n \<le> length arr"
  shows "verify_sorted n arr = 0"
proof -
  have "\<not> sint (arr ! (i - 1)) > sint (arr ! i)" if "i \<in> set [1..<n]" for i
  proof -
    have "arr ! (i - 1) \<le> arr ! i" using assms(1,3) that by (intro sorted_nth_mono) auto
    moreover have "small (arr ! (i - 1))" "small (arr ! i)" using assms(2,3) that by auto
    ultimately show ?thesis by (simp add: small_sint word_le_def)
  qed
  then have "filter (\<lambda>i. sint (arr ! (i - 1)) > sint (arr ! i)) [1..<n] = []" by (simp add: filter_empty_conv)
  then show ?thesis by (simp add: verify_sorted_def)
qed

text \<open>
  C19: the parallel radix sort is correct under every interleaving. For any number of harts up to four
  and any schedules of the five parallel loops that give every hart its iterations, the array that ends
  up in \<open>key[0]\<close> is the sort of the generated keys, hart 0 prints the success line and exits with 0.
\<close>

theorem radix_sorts:
  assumes "0 < nc" "nc \<le> MAX_CORES" "full nc (iters nc) s0"
    and "full nc (hist_iters nc) h0" "full nc (iters nc) p0" "full nc (hist_iters nc) h1" "full nc (iters nc) p1"
    and "ready 24 u" "st = radix_run nc s0 [(h0, p0), (h1, p1)]"
  shows "key st ! 0 = sort (radix_keys nc) \<and>
     (\<exists>u'. radix_end 0 st u = Inr (u', 0) \<and> sent u' = sent u @ ascii ''mt-radix: ALL SORTED OK'' @ [10])"
proof -
  define st0 where "st0 = fold (gen_step nc) s0 (radix_start nc)"
  define st1 where "st1 = radix_pass nc 0 (h0, p0) st0"
  have "gen_inv nc (iters nc) st0"
    unfolding st0_def by (rule gen.phase_inv [OF gen_start [OF assms(2)]]) (rule full_count [OF assms(3)], simp add: iters_def)
  then have k0: "key st0 ! 0 = radix_keys nc" "shape nc st0" using gen_keys [OF _ assms(1)] by (auto simp: gen_inv_def)
  have k1: "shape nc st1" "key st1 ! 1 = sort_key (digit 0) (radix_keys nc)"
    using radix_pass_sorts [of nc st0 0 0 0 h0 p0] k0 assms(1,4,5) by (simp_all add: st1_def)
  have st: "st = radix_pass nc 1 (h1, p1) st1"
    by (simp add: assms(9) radix_run_def NUM_PASSES_def st0_def st1_def numeral_2_eq_2)
  have sm: "\<forall>x\<in>set (radix_keys nc). small x" by (auto simp: radix_keys_def gen_key_small)
  have k2: "shape nc st" "key st ! 0 = sort_key (digit 8) (sort_key (digit 0) (radix_keys nc))"
    using radix_pass_sorts [of nc st1 1 1 8 h1 p1] k1 assms(1,6,7) by (simp_all add: st RADIX_BITS_def)
  then have sorted: "key st ! 0 = sort (radix_keys nc)"
    using sort_two_digits [of "radix_keys nc" "digit 8" "digit 0"] two_digits sm by simp
  have "length (key st ! 0) = NUM_KEYS" using k2(1) by (simp add: shape_def)
  then have "verify_sorted NUM_KEYS (key st ! (NUM_PASSES mod 2)) = 0"
    using verify_sorted_zero [of "key st ! 0" NUM_KEYS] sm by (simp add: NUM_PASSES_def sorted)
  moreover have "length (ascii ''mt-radix: ALL SORTED OK'' @ [10]) + 0 = 24" by (simp add: ascii_def)
  then have "\<exists>u'. uart_send_string (ascii ''mt-radix: ALL SORTED OK'' @ [10]) u = Inr u' \<and>
      sent u' = sent u @ ascii ''mt-radix: ALL SORTED OK'' @ [10] \<and> ready 0 u'"
    using send_string_ready assms(8) by metis
  ultimately show ?thesis using sorted by (auto simp: radix_end_def)
qed

theorem radix_sorts_witness:
  "key (radix_run 4 (concat (replicate 512 [0..<4])) (replicate 2 (concat (replicate 768 [0..<4]), concat (replicate 512 [0..<4])))) ! 0 =
     sort (radix_keys 4)"
proof -
  let ?u = "\<lparr>sts = replicate 24 4, sent = []\<rparr>"
  have it: "iters 4 p = 512" "hist_iters 4 p = 768" if "p < 4" for p
    using that by (auto simp: iters_def hist_iters_def chunk_start_def chunk_end_def NUM_KEYS_def RADIX_def)
  have f: "full 4 (iters 4) (concat (replicate 512 [0..<4]))" "full 4 (hist_iters 4) (concat (replicate 768 [0..<4]))"
    using it by (auto intro: full_rounds)
  have "ready 24 ?u" by (simp add: ready_def UART_STS_TX_FULL_def)
  then show ?thesis
    using radix_sorts [OF _ _ f(1) f(2) f(1) f(2) f(1) _ refl, of ?u] by (simp add: MAX_CORES_def numeral_2_eq_2)
qed

end
