(* ===== verification/Kernels.thy ===== *)
theory Kernels
  imports Workload_Lib Interleaving
begin

text \<open>
  The data-parallel benchmark kernels under \<^verbatim>\<open>src/workloads/benchmarks\<close>: vector addition, conditional
  saxpy, matrix product, masked filter and histogram. The iterations of a hart are a list, those of
  different harts interleave; \<open>int\<close> arithmetic wraps at 32 bits, and an access outside an array makes the
  result \<open>None\<close>.
\<close>

subsection \<open>Arrays\<close>

definition elem :: "'a list \<Rightarrow> nat \<Rightarrow> 'a option" where
  "elem xs i = (if i < length xs then Some (xs ! i) else None)"

definition put_at :: "nat \<Rightarrow> 'a \<Rightarrow> 'a list option \<Rightarrow> 'a list option" where
  "put_at i v z = (case z of Some xs \<Rightarrow> if i < length xs then Some (xs[i := v]) else None | None \<Rightarrow> None)"

definition add_at :: "nat \<Rightarrow> u32 \<Rightarrow> u32 list option \<Rightarrow> u32 list option" where
  "add_at i v z = (case z of Some xs \<Rightarrow> if i < length xs then Some (xs[i := xs ! i + v]) else None | None \<Rightarrow> None)"

subsection \<open>The kernels\<close>

definition vvadd_work :: "nat \<Rightarrow> nat \<Rightarrow> nat \<Rightarrow> nat list" where
  "vvadd_work ncores n coreid =
     (let chunksize = n div ncores; base = coreid * chunksize; chunk_end = min (base + chunksize) n;
          end = (if chunk_end + chunksize > n then n else chunk_end) in
      [base..<end])"

definition vvadd_elem :: "u32 list \<Rightarrow> u32 list \<Rightarrow> nat \<Rightarrow> u32 list option \<Rightarrow> u32 list option" where
  "vvadd_elem x y i z = (case (elem x i, elem y i) of (Some a, Some b) \<Rightarrow> put_at i (a + b) z | _ \<Rightarrow> None)"

definition vvadd :: "nat \<Rightarrow> nat \<Rightarrow> u32 list \<Rightarrow> u32 list \<Rightarrow> nat list \<Rightarrow> u32 list option \<Rightarrow> u32 list option" where
  "vvadd ncores n x y = par_run ncores (vvadd_work ncores n) (vvadd_elem x y)"

definition csaxpy_work :: "nat \<Rightarrow> nat \<Rightarrow> nat \<Rightarrow> nat list" where
  "csaxpy_work nc n cid = (let chunk_sz = n div nc; chunk = cid * chunk_sz in [chunk..<min (chunk + chunk_sz) n])"

definition csaxpy_elem :: "u32 \<Rightarrow> u32 list \<Rightarrow> u8 list \<Rightarrow> nat \<Rightarrow> u32 list option \<Rightarrow> u32 list option" where
  "csaxpy_elem a x cond i y =
     (case elem cond i of
        None \<Rightarrow> None
      | Some c \<Rightarrow> if c \<noteq> 0 then (case elem x i of Some v \<Rightarrow> add_at i (a * v) y | None \<Rightarrow> None) else y)"

definition mt_csaxpy :: "nat \<Rightarrow> nat \<Rightarrow> u32 \<Rightarrow> u32 list \<Rightarrow> u8 list \<Rightarrow> nat list \<Rightarrow> u32 list option \<Rightarrow> u32 list option" where
  "mt_csaxpy nc n a x cond = par_run nc (csaxpy_work nc n) (csaxpy_elem a x cond)"

definition matmul_work :: "nat \<Rightarrow> nat \<Rightarrow> nat \<Rightarrow> (nat \<times> nat \<times> nat) list" where
  "matmul_work ncores lda coreid =
     (let block = lda div ncores; start = block * coreid in
      concat (map (\<lambda>j. concat (map (\<lambda>k. map (\<lambda>i. (j, k, i)) [0..<lda]) [0..<lda])) [start..<start + block]))"

definition matmul_elem :: "nat \<Rightarrow> u32 list \<Rightarrow> u32 list \<Rightarrow> nat \<times> nat \<times> nat \<Rightarrow> u32 list option \<Rightarrow> u32 list option" where
  "matmul_elem lda A B = (\<lambda>(j, k, i) C.
     case (elem A (j * lda + k), elem B (k * lda + i)) of (Some a, Some b) \<Rightarrow> add_at (i + j * lda) (a * b) C | _ \<Rightarrow> None)"

definition matmul :: "nat \<Rightarrow> nat \<Rightarrow> u32 list \<Rightarrow> u32 list \<Rightarrow> nat list \<Rightarrow> u32 list option \<Rightarrow> u32 list option" where
  "matmul ncores lda A B = par_run ncores (matmul_work ncores lda) (matmul_elem lda A B)"

definition sfilter_work :: "nat \<Rightarrow> nat \<Rightarrow> nat \<Rightarrow> (nat \<times> nat) list" where
  "sfilter_work ncores input_sz coreid =
     (let rows = input_sz div ncores in
      concat (map (\<lambda>j. if j = input_sz - 1 \<or> j = 0 then [] else map (\<lambda>i. (j, i)) [1..<input_sz - 1])
        [coreid * rows..<(coreid + 1) * rows]))"

definition neighbours :: "nat \<Rightarrow> nat \<Rightarrow> nat \<Rightarrow> nat list" where
  "neighbours sz j i = concat (map (\<lambda>r. [i - 1 + r * sz, i + r * sz, i + 1 + r * sz]) [j - 1, j, j + 1])"

definition sfilter_value :: "u32 list \<Rightarrow> u16 list \<Rightarrow> nat \<Rightarrow> u32 list \<Rightarrow> nat \<times> nat \<Rightarrow> u32 option" where
  "sfilter_value inp msk sz ms = (\<lambda>(j, i).
     case elem msk (i + j * sz) of
       None \<Rightarrow> None
     | Some b \<Rightarrow>
         if b \<noteq> 0 then
           (if list_all (\<lambda>k. k < length inp) (neighbours sz j i) then Some (\<Sum>(k, m)\<leftarrow>zip (neighbours sz j i) ms. inp ! k * m) else None)
         else elem inp (i + j * sz))"

definition sfilter_elem :: "u32 list \<Rightarrow> u16 list \<Rightarrow> nat \<Rightarrow> u32 list \<Rightarrow> nat \<times> nat \<Rightarrow> u32 list option \<Rightarrow> u32 list option" where
  "sfilter_elem inp msk sz ms = (\<lambda>(j, i) out.
     case sfilter_value inp msk sz ms (j, i) of Some v \<Rightarrow> put_at (i + j * sz) v out | None \<Rightarrow> None)"

definition mask_sfilter :: "nat \<Rightarrow> u32 list \<Rightarrow> u16 list \<Rightarrow> nat \<Rightarrow> u32 list \<Rightarrow> nat list \<Rightarrow> u32 list option \<Rightarrow> u32 list option" where
  "mask_sfilter ncores inp msk input_sz ms = par_run ncores (sfilter_work ncores input_sz) (sfilter_elem inp msk input_sz ms)"

text \<open>
  The histogram. A hart counts its share of the data in its own part of \<open>temp_bins\<close> and then adds the
  non-empty counters to the shared bins with an atomic add. A negative or too large datum is an index
  outside the array.
\<close>

datatype histo_iter = Count nat nat | Flush nat nat

definition histo_share :: "nat \<Rightarrow> nat \<Rightarrow> nat \<Rightarrow> nat list" where
  "histo_share nc data_size cid =
     (let local_data_size = (data_size - 1) div nc + 1; start = cid * local_data_size; end = min (start + local_data_size) data_size in
      [start..<end])"

definition histo_work :: "nat \<Rightarrow> nat \<Rightarrow> nat \<Rightarrow> nat \<Rightarrow> histo_iter list" where
  "histo_work nc data_size num_bins cid = map (Count cid) (histo_share nc data_size cid) @ map (Flush cid) [0..<num_bins]"

fun histo_kernel :: "u32 list \<Rightarrow> nat \<Rightarrow> histo_iter \<Rightarrow> (u32 list \<times> u32 list) option \<Rightarrow> (u32 list \<times> u32 list) option" where
  "histo_kernel data num_bins it None = None"
| "histo_kernel data num_bins (Count cid i) (Some (temp_bins, out_bins)) =
     (case elem data i of
        None \<Rightarrow> None
      | Some pos \<Rightarrow>
          let k = int (cid * num_bins) + sint pos in
          if k < 0 then None else map_option (\<lambda>t. (t, out_bins)) (add_at (nat k) 1 (Some temp_bins)))"
| "histo_kernel data num_bins (Flush cid i) (Some (temp_bins, out_bins)) =
     (case elem temp_bins (cid * num_bins + i) of
        None \<Rightarrow> None
      | Some v \<Rightarrow> if v = 0 then Some (temp_bins, out_bins) else map_option (Pair temp_bins) (add_at i v (Some out_bins)))"

definition histo :: "nat \<Rightarrow> u32 list \<Rightarrow> nat \<Rightarrow> nat list \<Rightarrow> u32 list option" where
  "histo nc data num_bins sched =
     map_option snd (par_run nc (histo_work nc (length data) num_bins) (histo_kernel data num_bins) sched
       (Some (replicate (num_bins * 16) 0, replicate num_bins 0)))"

text \<open>What hart 0 prints and how the programs end.\<close>

definition kernel_report :: "nat \<Rightarrow> u32 list \<Rightarrow> u32 list \<Rightarrow> uart \<Rightarrow> lib_error + uart" where
  "kernel_report n res ver u =
     and_then (uart_send_string (ascii ''The code is ran with error code: '') u) (\<lambda>u.
       case verify (int n) (map sint res) (map sint ver) of
         None \<Rightarrow> Inl ReadPastEnd
       | Some e \<Rightarrow> and_then (uart_send_integer e u) (uart_send_string [10]))"

subsection \<open>One hart after the other\<close>

lemma put_at_comm: "i \<noteq> j \<or> v = w \<Longrightarrow> put_at i v (put_at j w z) = put_at j w (put_at i v z)"
  by (cases "i = j") (auto simp: put_at_def list_update_swap split: option.splits if_splits)

lemma add_at_comm: "add_at i v (add_at j w z) = add_at j w (add_at i v z)"
  by (cases "i = j") (auto simp: add_at_def list_update_swap add.assoc add.commute [of v w] split: option.splits if_splits)

lemma at_None [simp]: "put_at i v None = None" "add_at i v None = None"
  by (simp_all add: put_at_def add_at_def)

interpretation vv: commuting "vvadd_elem x y" UNIV for x y
proof unfold_locales
  fix i j z
  show "vvadd_elem x y i (vvadd_elem x y j z) = vvadd_elem x y j (vvadd_elem x y i z)"
    by (cases "i = j") (auto simp: vvadd_elem_def put_at_comm split: option.splits)
qed

interpretation cs: commuting "csaxpy_elem a x cond" UNIV for a x cond
  by unfold_locales (auto simp: csaxpy_elem_def add_at_comm split: option.splits)

interpretation mm: commuting "matmul_elem lda A B" UNIV for lda A B
  by unfold_locales (auto simp: matmul_elem_def add_at_comm split: option.splits prod.splits)

text \<open>Two iterations of the filter write one pixel only if they are the same.\<close>

definition pixels :: "nat \<Rightarrow> (nat \<times> nat) set" where
  "pixels sz = {(j, i). i < sz}"

lemma pixel_index: "(j, i) \<in> pixels sz \<Longrightarrow> (ja, ia) \<in> pixels sz \<Longrightarrow> i + j * sz = ia + ja * sz \<Longrightarrow> (j, i) = (ja, ia)"
  by (auto simp: pixels_def) (metis add.commute div_less div_mult_self3 less_zeroE mod_less mod_mult_self3 add_0)+

interpretation sf: commuting "sfilter_elem inp msk sz ms" "pixels sz" for inp msk sz ms
proof unfold_locales
  fix p q and z :: "u32 list option"
  assume pq: "p \<in> pixels sz" "q \<in> pixels sz"
  obtain j i ja ia where e: "p = (j, i)" "q = (ja, ia)" by fastforce
  show "sfilter_elem inp msk sz ms p (sfilter_elem inp msk sz ms q z) = sfilter_elem inp msk sz ms q (sfilter_elem inp msk sz ms p z)"
  proof (cases "p = q")
    case False
    then have "i + j * sz \<noteq> ia + ja * sz" using pixel_index pq unfolding e by blast
    then show ?thesis unfolding e by (auto simp: sfilter_elem_def put_at_comm split: option.splits)
  qed simp
qed

subsection \<open>What the loops compute\<close>

lemma fold_put:
  assumes "\<And>i. i \<in> set ws \<Longrightarrow> upd i = put_at (ix i) (g (ix i)) \<and> ix i < length xs"
  shows "fold upd ws (Some xs) = Some (map (\<lambda>k. if k \<in> ix ` set ws then g k else xs ! k) [0..<length xs])"
  using assms
proof (induction ws arbitrary: xs)
  case (Cons w ws)
  let ?xs = "xs[ix w := g (ix w)]"
  have "upd w (Some xs) = Some ?xs" using Cons.prems [of w] by (simp add: put_at_def)
  moreover have "fold upd ws (Some ?xs) = Some (map (\<lambda>k. if k \<in> ix ` set ws then g k else ?xs ! k) [0..<length ?xs])"
    using Cons.prems by (intro Cons.IH) simp
  ultimately show ?case by (auto simp: nth_list_update)
qed (simp add: map_nth)

lemma fold_add:
  assumes "\<And>i. i \<in> set ws \<Longrightarrow> upd i = add_at (ix i) (v i) \<and> ix i < length xs"
  shows "fold upd ws (Some xs) = Some (map (\<lambda>k. xs ! k + (\<Sum>i\<leftarrow>ws. if ix i = k then v i else 0)) [0..<length xs])"
  using assms
proof (induction ws arbitrary: xs)
  case (Cons w ws)
  let ?xs = "xs[ix w := xs ! ix w + v w]"
  have "upd w (Some xs) = Some ?xs" using Cons.prems [of w] by (simp add: add_at_def)
  moreover have "fold upd ws (Some ?xs) = Some (map (\<lambda>k. ?xs ! k + (\<Sum>i\<leftarrow>ws. if ix i = k then v i else 0)) [0..<length ?xs])"
    using Cons.prems by (intro Cons.IH) simp
  ultimately show ?case by (auto simp: nth_list_update add.assoc)
qed (simp add: map_nth)

lemma shares: "concat (map (\<lambda>p. map f [c * p..<c * p + c]) [0..<nc]) = map f [0..<c * nc]"
proof (induction nc)
  case (Suc nc)
  have "[0..<c * nc + c] = [0..<c * nc] @ [c * nc..<c * nc + c]" by (rule upt_add_eq_append) simp
  then show ?case using Suc by (simp add: add.commute)
qed simp

lemma share_le: "p < nc \<Longrightarrow> n div nc * p + n div nc \<le> (n::nat)"
proof -
  assume "p < nc"
  then have "n div nc * Suc p \<le> n div nc * nc" by (intro mult_le_mono2) simp
  also have "\<dots> \<le> n" by simp
  finally show ?thesis by simp
qed

text \<open>How far the harts get: the last one takes the remainder only when it is smaller than a share.\<close>

definition vvadd_end :: "nat \<Rightarrow> nat \<Rightarrow> nat" where
  "vvadd_end nc n = (if n mod nc < n div nc then n else n div nc * nc)"

lemma vvadd_works:
  assumes "0 < nc"
  shows "set (concat (map (vvadd_work nc n) [0..<nc])) = {..<vvadd_end nc n}"
proof -
  define c r m where "c = n div nc" and "r = n mod nc" and "m = nc - 1"
  have m: "nc = Suc m" using assms by (simp add: m_def)
  have n: "n = c * m + c + r" using div_mult_mod_eq [of n nc] m by (simp add: c_def r_def algebra_simps)
  have e: "vvadd_end nc n = (if r < c then n else c * m + c)" using m by (simp add: vvadd_end_def c_def r_def)
  have w: "vvadd_work nc n p = [c * p..<c * p + c]" if "p < m" for p
  proof -
    have "c * Suc p + c \<le> n" unfolding c_def using that m by (intro share_le) simp
    then show ?thesis unfolding vvadd_work_def Let_def c_def [symmetric] by (simp add: mult.commute [of p])
  qed
  have last: "vvadd_work nc n m = [c * m..<vvadd_end nc n]"
  proof -
    have "vvadd_work nc n m = [c * m..<if min (c * m + c) n + c > n then n else min (c * m + c) n]"
      unfolding vvadd_work_def Let_def c_def [symmetric] by (simp add: mult.commute [of m])
    also have "(if min (c * m + c) n + c > n then n else min (c * m + c) n) = vvadd_end nc n" unfolding e using n by auto
    finally show ?thesis .
  qed
  have "concat (map (vvadd_work nc n) [0..<m]) = concat (map (\<lambda>p. map id [c * p..<c * p + c]) [0..<m])"
    using w by (intro arg_cong [where f = concat] map_cong) simp_all
  also have "\<dots> = [0..<c * m]" using shares [of id c m] by simp
  finally have "set (concat (map (vvadd_work nc n) [0..<nc])) = {0..<c * m} \<union> {c * m..<vvadd_end nc n}"
    using last m by simp
  moreover have "c * m \<le> vvadd_end nc n" using n unfolding e by simp
  ultimately show ?thesis by auto
qed

theorem vvadd_parallel:
  assumes "0 < nc" "length x = n" "length y = n" "length z = n" "full nc (par_iters nc (vvadd_work nc n)) sched"
  shows "vvadd nc n x y sched (Some z) = Some (map (\<lambda>i. if i < vvadd_end nc n then x ! i + y ! i else z ! i) [0..<n])"
proof -
  let ?ws = "concat (map (vvadd_work nc n) [0..<nc])"
  have "vvadd_end nc n \<le> n" by (simp add: vvadd_end_def)
  then have "fold (vvadd_elem x y) ?ws (Some z) = Some (map (\<lambda>k. if k \<in> id ` set ?ws then x ! k + y ! k else z ! k) [0..<length z])"
    using assms(2-4) vvadd_works [OF assms(1), of n]
    by (intro fold_put) (auto simp: vvadd_elem_def elem_def)
  then show ?thesis
    using vv.par_run_seq [OF assms(5)] assms(4) unfolding vvadd_works [OF assms(1)] by (simp add: vvadd_def)
qed

theorem csaxpy_parallel:
  assumes "0 < nc" "length x = n" "length y = n" "length cond = n" "full nc (par_iters nc (csaxpy_work nc n)) sched"
  shows "mt_csaxpy nc n a x cond sched (Some y) =
    Some (map (\<lambda>i. if i < n div nc * nc \<and> cond ! i \<noteq> 0 then y ! i + a * x ! i else y ! i) [0..<n])"
proof -
  let ?c = "n div nc"
  let ?v = "\<lambda>i. if cond ! i \<noteq> 0 then a * x ! i else 0"
  have "csaxpy_work nc n p = map id [?c * p..<?c * p + ?c]" if "p < nc" for p
    using share_le [OF that, of n] by (simp add: csaxpy_work_def Let_def mult.commute [of p])
  then have "concat (map (csaxpy_work nc n) [0..<nc]) = concat (map (\<lambda>p. map id [?c * p..<?c * p + ?c]) [0..<nc])"
    by (intro arg_cong [where f = concat] map_cong) simp_all
  then have ws: "concat (map (csaxpy_work nc n) [0..<nc]) = [0..<?c * nc]" using shares [of id ?c nc] by simp
  have le: "?c * nc \<le> n" by simp
  have run: "mt_csaxpy nc n a x cond sched (Some y) = fold (csaxpy_elem a x cond) [0..<?c * nc] (Some y)"
    using cs.par_run_seq [OF assms(5)] by (simp add: mt_csaxpy_def ws)
  have "fold (csaxpy_elem a x cond) [0..<m] (Some y) = Some (map (\<lambda>k. if k < m \<and> cond ! k \<noteq> 0 then y ! k + a * x ! k else y ! k) [0..<n])"
    if "m \<le> n" for m
    using that
  proof (induction m)
    case 0
    then show ?case using map_nth [of y] assms(3) by simp
  next
    case (Suc m)
    then show ?case using assms(2-4)
      by (auto simp: csaxpy_elem_def elem_def add_at_def less_Suc_eq nth_list_update intro!: nth_equalityI)
  qed
  from this [OF le] show ?thesis unfolding run .
qed

lemma pixel_sum:
  fixes f :: "nat \<Rightarrow> nat \<Rightarrow> 'a::comm_monoid_add"
  assumes "i < sz"
  shows "(\<Sum>ja<m. \<Sum>ia < sz. (if ia + ja * sz = i + j * sz then f ja ia else 0)) = (if j < m then f j i else 0)"
proof -
  have "(\<Sum>ia < sz. (if ia + ja * sz = i + j * sz then f ja ia else 0)) = (if ja = j then f j i else 0)" for ja
  proof -
    have "(if ia + ja * sz = i + j * sz then f ja ia else 0) = (if ia = i then (if ja = j then f j i else 0) else 0)" if "ia < sz" for ia
      using pixel_index [of ja ia sz j i] assms that by (auto simp: pixels_def)
    then have "(\<Sum>ia < sz. (if ia + ja * sz = i + j * sz then f ja ia else 0)) = (\<Sum>ia < sz. (if ia = i then (if ja = j then f j i else 0) else 0))"
      by (intro sum.cong refl) (simp only: lessThan_iff)
    also have "\<dots> = (if ja = j then f j i else 0)" using assms by (simp only: sum.delta finite_lessThan lessThan_iff if_True)
    finally show ?thesis .
  qed
  then show ?thesis by (simp only: sum.delta finite_lessThan lessThan_iff)
qed

lemma concat_shares: "concat (map (\<lambda>p. concat (map f [c * p..<c * p + c])) [0..<nc]) = concat (map f [0..<c * nc])"
proof -
  have "concat (map concat xss) = concat (concat xss)" for xss :: "'a list list list" by (induction xss) simp_all
  from this [of "map (\<lambda>p. map f [c * p..<c * p + c]) [0..<nc]"] show ?thesis using shares [of f c nc] by (simp add: comp_def)
qed

lemma matmul_works:
  "concat (map (matmul_work nc lda) [0..<nc]) =
     concat (map (\<lambda>j. concat (map (\<lambda>k. map (\<lambda>i. (j, k, i)) [0..<lda]) [0..<lda])) [0..<lda div nc * nc])"
  by (simp add: matmul_work_def [abs_def] Let_def concat_shares)

lemma cell_less:
  assumes "a < w" "b < w"
  shows "b + a * w < w * (w::nat)"
proof -
  have "b + a * w < Suc a * w" using assms by simp
  also have "\<dots> \<le> w * w" using assms by (intro mult_le_mono1) simp
  finally show ?thesis .
qed

lemma sum_concat: "(\<Sum>x\<leftarrow>concat xss. f x) = (\<Sum>xs\<leftarrow>xss. \<Sum>x\<leftarrow>xs. (f x :: u32))"
  by (induction xss) simp_all

theorem matmul_parallel:
  assumes "0 < nc" "length A = lda * lda" "length B = lda * lda" "length C = lda * lda"
    and "full nc (par_iters nc (matmul_work nc lda)) sched"
  shows "\<exists>R. matmul nc lda A B sched (Some C) = Some R \<and> length R = lda * lda \<and> (\<forall>i<lda. \<forall>j<lda. R ! (i + j * lda) =
    C ! (i + j * lda) + (if j < lda div nc * nc then (\<Sum>k<lda. A ! (j * lda + k) * B ! (k * lda + i)) else 0))"
proof -
  let ?m = "lda div nc * nc"
  let ?ws = "concat (map (\<lambda>j. concat (map (\<lambda>k. map (\<lambda>i. (j, k, i)) [0..<lda]) [0..<lda])) [0..<?m])"
  let ?ix = "\<lambda>(j, k, i). i + j * lda" and ?v = "\<lambda>(j, k, i). A ! (j * lda + k) * B ! (k * lda + i)"
  have m: "?m \<le> lda" by simp
  define R where "R = map (\<lambda>c. C ! c + (\<Sum>w\<leftarrow>?ws. if ?ix w = c then ?v w else 0)) [0..<lda * lda]"
  have "fold (matmul_elem lda A B) ?ws (Some C) = Some (map (\<lambda>c. C ! c + (\<Sum>w\<leftarrow>?ws. if ?ix w = c then ?v w else 0)) [0..<length C])"
  proof (rule fold_add)
    fix w
    assume "w \<in> set ?ws"
    then obtain j k i where w: "w = (j, k, i)" "j < lda" "k < lda" "i < lda" using less_le_trans [OF _ m] by auto
    then show "matmul_elem lda A B w = add_at (?ix w) (?v w) \<and> ?ix w < length C"
      using cell_less [of j lda k] cell_less [of k lda i] cell_less [of j lda i] assms(2-4) by (auto simp: matmul_elem_def elem_def add.commute)
  qed
  then have "matmul nc lda A B sched (Some C) = Some R"
    using mm.par_run_seq [OF assms(5)] assms(4) by (simp add: matmul_def matmul_works R_def)
  moreover have "R ! (i + j * lda) = C ! (i + j * lda) + (if j < ?m then (\<Sum>k<lda. A ! (j * lda + k) * B ! (k * lda + i)) else 0)"
    if "i < lda" "j < lda" for i j
  proof -
    have "(\<Sum>w\<leftarrow>?ws. if ?ix w = i + j * lda then ?v w else 0) =
        (\<Sum>ja<?m. \<Sum>k<lda. \<Sum>ia<lda. (if ia + ja * lda = i + j * lda then A ! (ja * lda + k) * B ! (k * lda + ia) else 0))"
      by (simp add: sum_concat comp_def interv_sum_list_conv_sum_set_nat atLeast0LessThan cong: if_cong)
    also have "\<dots> = (\<Sum>k<lda. \<Sum>ja<?m. \<Sum>ia<lda. (if ia + ja * lda = i + j * lda then A ! (ja * lda + k) * B ! (k * lda + ia) else 0))"
      by (rule sum.swap)
    also have "\<dots> = (if j < ?m then (\<Sum>k<lda. A ! (j * lda + k) * B ! (k * lda + i)) else 0)"
by (simp add: pixel_sum [OF that(1)])
    finally show ?thesis using cell_less [OF that(2,1)] by (simp add: R_def)
  qed
  ultimately show ?thesis by (auto simp: R_def)
qed

lemma sfilter_works:
  "set (concat (map (sfilter_work nc w) [0..<nc])) = {(j, i). j < w div nc * nc \<and> 0 < j \<and> j \<noteq> w - 1 \<and> 0 < i \<and> i < w - 1}"
proof -
  let ?c = "w div nc" and ?row = "\<lambda>j. if j = w - 1 \<or> j = 0 then [] else map (Pair j) [1..<w - 1]"
  have "sfilter_work nc w = (\<lambda>p. concat (map ?row [?c * p..<?c * p + ?c]))"
    by (rule ext) (simp add: sfilter_work_def Let_def mult.commute add.commute)
  then have "concat (map (sfilter_work nc w) [0..<nc]) = concat (map ?row [0..<?c * nc])" by (simp only: concat_shares)
  then show ?thesis by (auto split: if_splits)
qed

lemma neighbours_inside:
  assumes "0 < j" "j + 1 < w" "0 < i" "i + 1 < w" "k \<in> set (neighbours w j i)"
  shows "k < w * w"
proof -
  have "\<exists>a\<in>{j - 1, j, j + 1}. \<exists>b\<in>{i - 1, i, i + 1}. k = b + a * w"
    using assms(5) unfolding neighbours_def by (simp only: concat.simps list.map append.simps set_simps insert_iff empty_iff) blast
  then obtain a b where k: "a \<in> {j - 1, j, j + 1}" "b \<in> {i - 1, i, i + 1}" "k = b + a * w" by blast
  then have "a < w" "b < w" using assms(1-4) by auto
  then show ?thesis using k(3) by (simp add: cell_less)
qed

theorem sfilter_parallel:
  assumes "0 < nc" "length inp = w * w" "length msk = w * w" "length out = w * w"
    and "full nc (par_iters nc (sfilter_work nc w)) sched"
  shows "\<exists>R. mask_sfilter nc inp msk w ms sched (Some out) = Some R \<and> length R = w * w \<and> (\<forall>i<w. \<forall>j<w. R ! (i + j * w) =
    (if 0 < i \<and> i + 1 < w \<and> 0 < j \<and> j + 1 < w \<and> j < w div nc * nc
     then if msk ! (i + j * w) \<noteq> 0 then \<Sum>(k, m)\<leftarrow>zip (neighbours w j i) ms. inp ! k * m else inp ! (i + j * w)
     else out ! (i + j * w)))"
proof -
  let ?ws = "concat (map (sfilter_work nc w) [0..<nc])" and ?ix = "\<lambda>(j, i). i + j * w"
  let ?v = "\<lambda>j i. if msk ! (i + j * w) \<noteq> 0 then \<Sum>(k, m)\<leftarrow>zip (neighbours w j i) ms. inp ! k * m else inp ! (i + j * w)"
  let ?g = "\<lambda>k. ?v (k div w) (k mod w)"
  define R where "R = map (\<lambda>k. if k \<in> ?ix ` set ?ws then ?g k else out ! k) [0..<w * w]"
  have le: "w div nc * nc \<le> w" by simp
  have inside: "0 < j" "j + 1 < w" "0 < i" "i + 1 < w" if "(j, i) \<in> set ?ws" for i j
    using that less_le_trans [OF _ le, of j] unfolding sfilter_works by auto
  have "fold (sfilter_elem inp msk w ms) ?ws (Some out) = Some (map (\<lambda>k. if k \<in> ?ix ` set ?ws then ?g k else out ! k) [0..<length out])"
  proof (rule fold_put)
    fix q
    assume q: "q \<in> set ?ws"
    obtain j i where e: "q = (j, i)" by fastforce
    note b = inside [of j i, OF q [unfolded e]]
    have lt: "i + j * w < w * w" using b by (intro cell_less) simp_all
    have "sfilter_value inp msk w ms (j, i) = Some (?v j i)"
      using neighbours_inside [OF b] lt assms(2,3) by (auto simp: sfilter_value_def elem_def list_all_iff)
    then show "sfilter_elem inp msk w ms q = put_at (?ix q) (?g (?ix q)) \<and> ?ix q < length out"
      using lt assms(4) b by (auto simp: e sfilter_elem_def)
  qed
  moreover have "set (sfilter_work nc w p) \<subseteq> pixels w" if "p < nc" for p
    using inside that by (fastforce simp: pixels_def)
  ultimately have "mask_sfilter nc inp msk w ms sched (Some out) = Some R"
    using sf.par_run_seq [OF assms(5)] assms(4) by (simp add: mask_sfilter_def R_def)
  moreover have "R ! (i + j * w) = (if 0 < i \<and> i + 1 < w \<and> 0 < j \<and> j + 1 < w \<and> j < w div nc * nc then ?v j i else out ! (i + j * w))"
    if "i < w" "j < w" for i j
  proof -
    have "(j, i) \<in> set ?ws" if y: "i + j * w \<in> ?ix ` set ?ws"
    proof -
      obtain a b where ab: "(a, b) \<in> set ?ws" "i + j * w = b + a * w" using y by (auto simp del: set_concat)
      then have "(a, b) = (j, i)" using pixel_index [of a b w j i] inside [OF ab(1)] \<open>i < w\<close> by (simp add: pixels_def)
      then show ?thesis using ab(1) by simp
    qed
    then have "i + j * w \<in> ?ix ` set ?ws \<longleftrightarrow> (j, i) \<in> set ?ws" by (force simp del: set_concat)
    then show ?thesis using cell_less [OF that(2,1)] that unfolding R_def sfilter_works by (simp add: less_diff_conv) auto
  qed
  ultimately show ?thesis by (auto simp: R_def)
qed

subsection \<open>The histogram\<close>

text \<open>The number of data with a value, over a list of indices.\<close>

definition tally :: "u32 list \<Rightarrow> nat list \<Rightarrow> nat \<Rightarrow> nat" where
  "tally data is b = length (filter (\<lambda>i. unat (data ! i) = b) is)"

definition histo_inv :: "nat \<Rightarrow> u32 list \<Rightarrow> nat \<Rightarrow> (nat \<Rightarrow> nat) \<Rightarrow> nat list \<times> (u32 list \<times> u32 list) option \<Rightarrow> bool" where
  "histo_inv nc data nb c = (\<lambda>(cs, st). \<exists>t b.
     nc \<le> 16 \<and> nb < 2 ^ 31 \<and> (\<forall>v\<in>set data. unat v < nb) \<and>
     st = Some (t, b) \<and> length t = nb * 16 \<and> length b = nb \<and> length cs = nc \<and> (\<forall>p<nc. cs ! p = c p) \<and>
     (\<forall>p<nc. \<forall>k<nb. t ! (p * nb + k) = of_nat (tally data (take (c p) (histo_share nc (length data) p)) k)) \<and>
     (\<forall>k<nb. b ! k = (\<Sum>p<nc. if length (histo_share nc (length data) p) + k < c p
        then of_nat (tally data (histo_share nc (length data) p) k) else 0)))"

lemma tally_snoc: "tally data (is @ [i]) k = tally data is k + (if unat (data ! i) = k then 1 else 0)"
  by (simp add: tally_def)

lemma sint_nonneg32: "unat (v :: u32) < 2 ^ 31 \<Longrightarrow> sint v = int (unat v)"
proof -
  assume "unat v < 2 ^ 31"
  then have "int (unat v) < int (2 ^ 31)" by (simp only: of_nat_less_iff)
  then have "signed_take_bit 31 (uint v) = uint v" by (intro signed_take_bit_int_eq_self) (simp_all add: order.trans [OF _ unsigned_greater_eq])
  then show ?thesis by (simp add: sint_uint)
qed

lemma own_bin: "p < 16 \<Longrightarrow> k < nb \<Longrightarrow> p * nb + k < nb * (16::nat)"
proof -
  assume "p < 16" "k < nb"
  then have "p * nb + k < Suc p * nb" by simp
  also have "\<dots> \<le> 16 * nb" using \<open>p < 16\<close> by (intro mult_le_mono1) simp
  finally show ?thesis by (simp add: mult.commute)
qed

lemma bin_index: "k < nb \<Longrightarrow> l < nb \<Longrightarrow> p * nb + k = q * nb + l \<longleftrightarrow> p = q \<and> k = (l::nat)"
  using pixel_index [of p k nb q l] by (auto simp: pixels_def add.commute)

lemma histo_count:
  assumes "histo_inv nc data nb c (cs, Some (t, b))" "p < nc" "is = histo_share nc (length data) p" "c p < length is" "i = is ! c p"
    and "i < length data"
  shows "histo_kernel data nb (Count p i) (Some (t, b)) = Some (t[p * nb + unat (data ! i) := t ! (p * nb + unat (data ! i)) + 1], b)"
    and "q < nc \<Longrightarrow> k < nb \<Longrightarrow> t[p * nb + unat (data ! i) := t ! (p * nb + unat (data ! i)) + 1] ! (q * nb + k) =
      of_nat (tally data (take ((c(p := Suc (c p))) q) (histo_share nc (length data) q)) k)"
proof -
  have v: "unat (data ! i) < nb" "nb < 2 ^ 31" "nc \<le> 16" "length t = nb * 16" using assms(1,6) by (auto simp: histo_inv_def)
  have lt: "p * nb + unat (data ! i) < length t" using own_bin [of p "unat (data ! i)" nb] assms(2) v by simp
  have "sint (data ! i) = int (unat (data ! i))" using v(1,2) by (intro sint_nonneg32) simp
  then have "int (p * nb) + sint (data ! i) = int (p * nb + unat (data ! i))" by (simp only: of_nat_add)
  then have "nat (int (p * nb) + sint (data ! i)) = p * nb + unat (data ! i)" "\<not> int (p * nb) + sint (data ! i) < 0"
    by (simp_all only: nat_int not_less of_nat_0_le_iff)
  then show "histo_kernel data nb (Count p i) (Some (t, b)) = Some (t[p * nb + unat (data ! i) := t ! (p * nb + unat (data ! i)) + 1], b)"
    using lt assms(6) by (simp add: elem_def add_at_def Let_def)
  show "t[p * nb + unat (data ! i) := t ! (p * nb + unat (data ! i)) + 1] ! (q * nb + k) =
      of_nat (tally data (take ((c(p := Suc (c p))) q) (histo_share nc (length data) q)) k)" if qk: "q < nc" "k < nb"
  proof -
    have old: "t ! (q * nb + k) = of_nat (tally data (take (c q) (histo_share nc (length data) q)) k)" using assms(1) qk by (simp add: histo_inv_def)
    have "take (Suc (c p)) is = take (c p) is @ [i]" using assms(4,5) by (simp add: take_Suc_conv_app_nth)
    then show ?thesis
      using old bin_index [OF v(1) qk(2), of p q] lt assms(3) by (auto simp: nth_list_update tally_snoc add.commute)
  qed
qed

lemma histo_flush:
  assumes "histo_inv nc data nb c (cs, Some (t, b))" "p < nc" "is = histo_share nc (length data) p" "length is \<le> c p" "k = c p - length is" "k < nb"
  shows "histo_kernel data nb (Flush p k) (Some (t, b)) = Some (t, b[k := b ! k + of_nat (tally data is k)])"
    and "l < nb \<Longrightarrow> b[k := b ! k + of_nat (tally data is k)] ! l = (\<Sum>q<nc. if length (histo_share nc (length data) q) + l < (c(p := Suc (c p))) q
      then of_nat (tally data (histo_share nc (length data) q) l) else 0)"
proof -
  have len: "nc \<le> 16" "length t = nb * 16" "length b = nb" using assms(1) by (auto simp: histo_inv_def)
  have "p * nb + k < length t" using own_bin [of p k nb] assms(2,6) len by simp
  moreover have "t ! (p * nb + k) = of_nat (tally data is k)" using assms(1-4,6) by (auto simp: histo_inv_def)
  ultimately show "histo_kernel data nb (Flush p k) (Some (t, b)) = Some (t, b[k := b ! k + of_nat (tally data is k)])"
    using len(3) assms(6) by (auto simp: elem_def add_at_def)
  show "b[k := b ! k + of_nat (tally data is k)] ! l = (\<Sum>q<nc. if length (histo_share nc (length data) q) + l < (c(p := Suc (c p))) q
      then of_nat (tally data (histo_share nc (length data) q) l) else 0)" (is "_ = (\<Sum>q<nc. ?new q)") if l: "l < nb"
  proof -
    let ?old = "\<lambda>q. if length (histo_share nc (length data) q) + l < c q then of_nat (tally data (histo_share nc (length data) q) l) else (0::u32)"
    have "(\<Sum>q<nc. ?new q) = (\<Sum>q<nc. ?old q + (if q = p then (if l = k then of_nat (tally data is k) else 0) else 0))"
      using assms(3-5) by (intro sum.cong refl) auto
    also have "\<dots> = (\<Sum>q<nc. ?old q) + (if l = k then of_nat (tally data is k) else 0)" using assms(2) by (simp add: sum.distrib)
    also have "(\<Sum>q<nc. ?old q) = b ! l" using assms(1) l by (simp add: histo_inv_def)
    finally show ?thesis using len(3) l by (simp add: nth_list_update)
  qed
qed

lemma histo_share_in: "i \<in> set (histo_share nc n p) \<Longrightarrow> i < n"
  by (simp add: histo_share_def Let_def)

interpretation histog: interleaved "par_step (histo_work nc (length data) nb) (histo_kernel data nb)" "par_iters nc (histo_work nc (length data) nb)"
  "histo_inv nc data nb" for nc data nb
proof unfold_locales
  fix c p st
  assume J: "histo_inv nc data nb c st" and lt: "c p < par_iters nc (histo_work nc (length data) nb) p"
  obtain cs t b where st: "st = (cs, Some (t, b))" using J by (auto simp: histo_inv_def)
  note J = J [unfolded st]
  define sh where "sh = histo_share nc (length data) p"
  have p: "p < nc" "c p < length sh + nb" using lt by (simp_all add: par_iters_def histo_work_def sh_def split: if_splits)
  have cs: "cs ! p = c p" "length cs = nc" using J p(1) by (auto simp: histo_inv_def)
  show "histo_inv nc data nb (c(p := Suc (c p))) (par_step (histo_work nc (length data) nb) (histo_kernel data nb) p st)"
  proof (cases "c p < length sh")
    case True
    let ?i = "sh ! c p"
    have i: "?i < length data" using True nth_mem histo_share_in unfolding sh_def by blast
    note k = histo_count [OF J p(1) sh_def True refl i]
    have "par_step (histo_work nc (length data) nb) (histo_kernel data nb) p st =
        (cs[p := Suc (c p)], Some (t[p * nb + unat (data ! ?i) := t ! (p * nb + unat (data ! ?i)) + 1], b))"
      using True cs k(1) by (simp add: par_step_def st histo_work_def nth_append flip: sh_def)
    moreover have "(\<Sum>q<nc. if length (histo_share nc (length data) q) + l < (c(p := Suc (c p))) q then of_nat (tally data (histo_share nc (length data) q) l) else (0::u32)) =
        (\<Sum>q<nc. if length (histo_share nc (length data) q) + l < c q then of_nat (tally data (histo_share nc (length data) q) l) else 0)" for l
      using True by (intro sum.cong refl) (auto simp: sh_def)
    ultimately show ?thesis using J cs k(2) by (auto simp: histo_inv_def nth_list_update simp del: fun_upd_apply) (simp add: fun_upd_def)
  next
    case False
    then have ge: "length sh \<le> c p" "c p - length sh < nb" using p(2) by simp_all
    note k = histo_flush [OF J p(1) sh_def ge(1) refl ge(2)]
    have "par_step (histo_work nc (length data) nb) (histo_kernel data nb) p st =
        (cs[p := Suc (c p)], Some (t, b[c p - length sh := b ! (c p - length sh) + of_nat (tally data sh (c p - length sh))]))"
      using False cs k(1) ge by (simp add: par_step_def st histo_work_def nth_append flip: sh_def)
    moreover have "take ((c(p := Suc (c p))) q) (histo_share nc (length data) q) = take (c q) (histo_share nc (length data) q)" for q
      using ge(1) by (simp add: sh_def)
    ultimately show ?thesis using J cs k(2) by (auto simp: histo_inv_def nth_list_update simp del: fun_upd_apply) (simp add: fun_upd_def)
  qed
qed

lemma histo_shares:
  assumes "0 < nc"
  shows "concat (map (histo_share nc n) [0..<nc]) = [0..<n]"
proof -
  define l where "l = (n - 1) div nc + 1"
  have "concat (map (\<lambda>p. [p * l..<min (p * l + l) n]) [0..<m]) = [0..<min (m * l) n]" for m
  proof (induction m)
    case (Suc m)
    have "[0..<min (m * l) n] @ [m * l..<min (m * l + l) n] = [0..<min (m * l + l) n]"
    proof (cases "m * l \<le> n")
      case True
      then show ?thesis using upt_add_eq_append [of 0 "m * l" "min (m * l + l) n - m * l"] by (simp add: min_def)
    qed (simp add: min_def)
    then show ?case using Suc by (simp add: add.commute)
  qed simp
  moreover have "n \<le> nc * l"
  proof -
    have "n - 1 < nc * l" unfolding l_def using assms dividend_less_times_div [of nc "n - 1"] by (simp add: algebra_simps)
    then show ?thesis by simp
  qed
  moreover have "histo_share nc n = (\<lambda>p. [p * l..<min (p * l + l) n])" by (rule ext) (simp add: histo_share_def Let_def l_def)
  ultimately show ?thesis by (simp add: min_absorb2)
qed

lemma tally_concat: "tally data (concat iss) k = (\<Sum>is\<leftarrow>iss. tally data is k)"
  by (induction iss) (simp_all add: tally_def)

lemma tally_all: "tally data [0..<length data] k = count_list (map unat data) k"
proof -
  have "tally data [0..<length data] k = length (filter ((=) k) (map unat (map ((!) data) [0..<length data])))"
    unfolding tally_def filter_map length_map comp_def by (rule arg_cong [where f = length], rule filter_cong) auto
  then show ?thesis by (simp only: map_nth count_list_eq_length_filter)
qed

text \<open>
  C20: the parallel histogram is exact under every interleaving. For up to sixteen harts, when every datum is a
  bin, any schedule that gives every hart its iterations leaves in each shared bin the number of data with
  that value (modulo \<open>2 ^ 32\<close>): no atomic add is lost and no hart counts in another's private bins.
\<close>

theorem histo_counts:
  assumes "0 < nc" "nc \<le> 16" "num_bins < 2 ^ 31" "\<forall>v\<in>set data. unat v < num_bins"
    and "full nc (par_iters nc (histo_work nc (length data) num_bins)) sched"
  shows "histo nc data num_bins sched = Some (map (\<lambda>k. of_nat (count_list (map unat data) k)) [0..<num_bins])"
proof -
  let ?work = "histo_work nc (length data) num_bins" and ?sh = "histo_share nc (length data)"
  let ?st = "Some (replicate (num_bins * 16) 0, replicate num_bins 0)"
  have "t < nc \<Longrightarrow> k < num_bins \<Longrightarrow> t * num_bins + k < num_bins * 16" for t k using own_bin assms(2) by simp
  then have "histo_inv nc data num_bins (\<lambda>_. 0) (replicate nc 0, ?st)" using assms(2-4) by (simp add: histo_inv_def tally_def)
  then have "histo_inv nc data num_bins (par_iters nc ?work) (fold (par_step ?work (histo_kernel data num_bins)) sched (replicate nc 0, ?st))"
    by (rule histog.phase_inv) (rule full_count [OF assms(5)], simp add: par_iters_def)
  then obtain t b where r: "par_run nc ?work (histo_kernel data num_bins) sched ?st = Some (t, b)" "length b = num_bins"
      "\<forall>k<num_bins. b ! k = (\<Sum>p<nc. if length (?sh p) + k < par_iters nc ?work p then of_nat (tally data (?sh p) k) else 0)"
    by (auto simp: histo_inv_def par_run_def split: prod.splits)
  have "b ! k = of_nat (count_list (map unat data) k)" if "k < num_bins" for k
  proof -
    have "b ! k = of_nat (\<Sum>p<nc. tally data (?sh p) k)"
      using r(3) that by (auto simp: par_iters_def histo_work_def intro!: sum.cong)
    also have "(\<Sum>p<nc. tally data (?sh p) k) = tally data (concat (map ?sh [0..<nc])) k"
      by (simp add: tally_concat comp_def interv_sum_list_conv_sum_set_nat atLeast0LessThan)
    finally show ?thesis by (simp add: histo_shares [OF assms(1)] tally_all)
  qed
  then have "b = map (\<lambda>k. of_nat (count_list (map unat data) k)) [0..<num_bins]" using r(2) by (intro nth_equalityI) simp_all
  then show ?thesis by (simp add: histo_def r(1))
qed

theorem histo_counts_witness: "histo 2 [1, 0, 1] 2 [0, 1, 0, 1, 0, 1, 0] = Some [1, 2]"
proof -
  have "full 2 (par_iters 2 (histo_work 2 (length [1, 0, 1 :: u32]) 2)) [0, 1, 0, 1, 0, 1, 0]"
    by (simp add: full_def par_iters_def histo_work_def histo_share_def Let_def upt_rec)
  then show ?thesis using histo_counts [of 2 2 "[1, 0, 1]" "[0, 1, 0, 1, 0, 1, 0]"] by (simp add: upt_rec)
qed

subsection \<open>The verdict\<close>

lemma first_diff_zero:
  "length xs = length ys \<Longrightarrow> (first_diff xs ys k = 0 \<longleftrightarrow> xs = ys) \<and> 0 \<le> first_diff xs ys k \<and> first_diff xs ys k \<le> int (k + length xs)"
proof (induction xs ys arbitrary: k rule: list_induct2)
  case (Cons x xs y ys)
  show ?case using Cons.IH [of "Suc k"] by (cases "x = y") auto
qed simp

theorem kernel_verdict:
  assumes "length res = n" "length ver = n" "n < 2 ^ 31" "ready 45 u"
  shows "\<exists>u' bs. kernel_report n res ver u = Inr u' \<and> sent u' = sent u @ ascii ''The code is ran with error code: '' @ bs @ [10] \<and>
    (parse_int bs = 0 \<longleftrightarrow> res = ver)"
proof -
  let ?m = "ascii ''The code is ran with error code: ''" and ?e = "first_diff (map sint res) (map sint ver) 0"
  have "length ?m + 12 = 45" by (simp add: ascii_def)
  then obtain u1 where u1: "uart_send_string ?m u = Inr u1" "sent u1 = sent u @ ?m" "ready (11 + 1) u1"
    using send_string_ready [of ?m 12 u] assms(4) by auto
  note d = first_diff_zero [of "map sint res" "map sint ver" 0]
  have "?e \<le> int n" using d assms(1,2) by simp
  also have "\<dots> < 2 ^ 31" using assms(3) by simp
  finally obtain u2 bs where u2: "uart_send_integer ?e u1 = Inr u2" "sent u2 = sent u1 @ bs" "parse_int bs = ?e" "ready 1 u2"
    using send_integer_ready [of ?e 1 u1] u1(3) d assms(1,2) by auto
  obtain u3 where "uart_send_string [10] u2 = Inr u3" "sent u3 = sent u2 @ [10]" using send_string_ready [of "[10]" 0 u2] u2(4) by auto
  moreover have "inj (sint :: u32 \<Rightarrow> int)" by (rule injI) (simp only: signed_word_eqI)
  then have "map sint res = map sint ver \<longleftrightarrow> res = ver" by (rule inj_map_eq_map)
  moreover have "verify (int n) (map sint res) (map sint ver) = Some ?e" using assms(1,2) by (intro verify_first_diff) simp_all
  ultimately show ?thesis using u1 u2 d assms(1,2) by (intro exI [of _ u3] exI [of _ bs]) (auto simp: kernel_report_def and_then_def)
qed

end
