(* ===== verification/Simlog.thy ===== *)
theory Simlog
  imports Chiron_Prelude
begin

text \<open>
  The debug log shared by the harness programs, \<^verbatim>\<open>src/sim/harness/common/simlog.h\<close>. A stream has
  the bytes that reached the file and the bytes still in its buffer; what a killed run leaves
  behind is the former. Whether a path can be opened and the text of the time stamp are
  parameters, and a line is its text after formatting.
\<close>

record stream =
  on_disk :: string
  buffered :: string

record simlog =
  sink :: "nat option"
  streams :: "stream list"
  errors :: "string list"

definition simlog_init :: simlog where
  "simlog_init = \<lparr>sink = None, streams = [], errors = []\<rparr>"

definition on_stream :: "nat \<Rightarrow> (stream \<Rightarrow> stream) \<Rightarrow> simlog \<Rightarrow> simlog" where
  "on_stream i f st = st\<lparr>streams := (streams st)[i := f (streams st ! i)]\<rparr>"

definition fprintf :: "string \<Rightarrow> stream \<Rightarrow> stream" where
  "fprintf s f = f\<lparr>buffered := buffered f @ s\<rparr>"

definition fflush :: "stream \<Rightarrow> stream" where
  "fflush f = f\<lparr>on_disk := on_disk f @ buffered f, buffered := ''''\<rparr>"

definition enabled :: "simlog \<Rightarrow> bool" where
  "enabled st \<longleftrightarrow> sink st \<noteq> None"

text \<open>The dash of the two texts, as the bytes of the source.\<close>

definition dash :: string where
  "dash = [CHR 0xE2, CHR 0x80, CHR 0x94]"

definition log_header :: "string \<Rightarrow> string" where
  "log_header stamp = ''# chiron harness debug log '' @ dash @ '' started '' @ stamp @ [CHR 10]"

definition open_failed :: "string \<Rightarrow> string" where
  "open_failed p = ''[simlog] cannot open '' @ CHR 0x27 # p @ CHR 0x27 # '' '' @ dash @ '' debug logging disabled'' @ [CHR 10]"

definition simlog_open :: "(string \<Rightarrow> bool) \<Rightarrow> string \<Rightarrow> string option \<Rightarrow> simlog \<Rightarrow> bool \<times> simlog" where
  "simlog_open can_open stamp path st =
     (case path of
        None \<Rightarrow> (False, st)
      | Some p \<Rightarrow>
          if p = '''' then (False, st)
          else if \<not> can_open p then (False, st\<lparr>errors := errors st @ [open_failed p]\<rparr>)
          else
            let i = length (streams st);
                st = st\<lparr>streams := streams st @ [\<lparr>on_disk = '''', buffered = ''''\<rparr>], sink := Some i\<rparr> in
            (True, on_stream i fflush (on_stream i (fprintf (log_header stamp)) st)))"

definition logf :: "string \<Rightarrow> simlog \<Rightarrow> simlog" where
  "logf line st = (case sink st of None \<Rightarrow> st | Some i \<Rightarrow> on_stream i fflush (on_stream i (fprintf line) st))"

definition simlog_close :: "simlog \<Rightarrow> simlog" where
  "simlog_close st = (case sink st of None \<Rightarrow> st | Some i \<Rightarrow> (on_stream i fflush st)\<lparr>sink := None\<rparr>)"

subsection \<open>Nothing stays in a buffer\<close>

datatype log_op = Open string "string option" | Line string | Close

definition log_step :: "(string \<Rightarrow> bool) \<Rightarrow> log_op \<Rightarrow> simlog \<Rightarrow> simlog" where
  "log_step can_open x st =
     (case x of Open stamp path \<Rightarrow> snd (simlog_open can_open stamp path st) | Line line \<Rightarrow> logf line st | Close \<Rightarrow> simlog_close st)"

definition durable :: "simlog \<Rightarrow> bool" where
  "durable st \<longleftrightarrow> (\<forall>f\<in>set (streams st). buffered f = '''') \<and> (\<forall>i. sink st = Some i \<longrightarrow> i < length (streams st))"

lemma on_stream_flush: "i < length (streams st) \<Longrightarrow> streams (on_stream i fflush (on_stream i (fprintf s) st)) =
    (streams st)[i := \<lparr>on_disk = on_disk (streams st ! i) @ buffered (streams st ! i) @ s, buffered = ''''\<rparr>]"
  by (cases "streams st ! i") (simp add: on_stream_def fflush_def fprintf_def)

lemma on_stream_simps [simp]: "sink (on_stream i f st) = sink st" "errors (on_stream i f st) = errors st"
    "length (streams (on_stream i f st)) = length (streams st)"
  by (simp_all add: on_stream_def)

text \<open>
  Whatever is opened, logged and closed in whatever order, after every operation each line written is
  in its file: a run that is killed loses none.
\<close>

theorem log_durable: "durable (fold (log_step can_open) ops simlog_init)"
proof -
  have "durable st \<Longrightarrow> durable (log_step can_open x st)" for x st
  proof (cases x)
    case (Open stamp path)
    assume "durable st"
    then show ?thesis unfolding Open
      by (auto simp: log_step_def durable_def simlog_open_def Let_def on_stream_flush split: option.splits)
  next
    case (Line line)
    assume "durable st"
    then show ?thesis unfolding Line
      by (auto simp: log_step_def durable_def logf_def on_stream_flush dest!: set_update_subset_insert [THEN subsetD] split: option.splits)
  next
    case Close
    assume "durable st"
    then show ?thesis unfolding Close
      by (auto simp: log_step_def durable_def simlog_close_def on_stream_def fflush_def dest!: set_update_subset_insert [THEN subsetD] split: option.splits)
  qed
  moreover have "durable simlog_init" by (simp add: durable_def simlog_init_def)
  ultimately show ?thesis by (induction ops rule: rev_induct) simp_all
qed

text \<open>A log that could be opened holds its header and then the lines in order; one that could not leaves every line out.\<close>

lemma logf_lines:
  assumes "durable st" "sink st = Some i"
  shows "sink (fold logf ls st) = Some i \<and> on_disk (streams (fold logf ls st) ! i) = on_disk (streams st ! i) @ concat ls"
  using assms
proof (induction ls arbitrary: st)
  case (Cons l ls)
  have i: "i < length (streams st)" "buffered (streams st ! i) = ''''" using Cons.prems by (auto simp: durable_def)
  have st: "sink (logf l st) = Some i" "on_disk (streams (logf l st) ! i) = on_disk (streams st ! i) @ l"
    using Cons.prems(2) i by (simp_all add: logf_def on_stream_flush)
  have "durable (logf l st)"
    using Cons.prems i by (auto simp: durable_def logf_def on_stream_flush dest!: set_update_subset_insert [THEN subsetD])
  then show ?case using Cons.IH [of "logf l st"] st by simp
qed simp

theorem simlog_records:
  assumes "simlog_open can_open stamp path simlog_init = (ok, st)"
  shows "if ok then on_disk (streams (simlog_close (fold logf ls st)) ! 0) = log_header stamp @ concat ls
    else simlog_close (fold logf ls st) = st \<and> streams st = []"
proof (cases ok)
  case True
  have st: "sink st = Some 0" "durable st" "streams st ! 0 = \<lparr>on_disk = log_header stamp, buffered = ''''\<rparr>"
    using assms True
    by (auto simp: simlog_open_def simlog_init_def Let_def durable_def on_stream_def fflush_def fprintf_def split: option.splits if_splits)
  note r = logf_lines [OF st(2,1), of ls]
  have "on_disk (streams (simlog_close x) ! 0) = on_disk (streams x ! 0)" if "sink x = Some 0" "durable x" for x
    using that by (auto simp: simlog_close_def on_stream_def fflush_def durable_def)
  moreover have "durable (fold logf ls st)"
  proof -
    have "fold logf ls st = fold (log_step can_open) (Open stamp path # map Line ls) simlog_init"
      using assms by (simp add: log_step_def [abs_def] fold_map comp_def)
    then show ?thesis using log_durable by metis
  qed
  ultimately show ?thesis using True r st(3) by simp
next
  case False
  then have "sink st = None" "streams st = []"
    using assms by (auto simp: simlog_open_def simlog_init_def Let_def split: option.splits if_splits)
  moreover from this have "fold logf ls st = st" by (induction ls) (simp_all add: logf_def)
  ultimately show ?thesis using False by (simp add: simlog_close_def)
qed

end
