(* ===== verification/Spec2Isabelle.thy ===== *)
theory Spec2Isabelle
  imports Machine_Inv Image_Correct Device_Correct Util_Barrier Stress G3d_Correct Lockstep_Correct Harness_Common Invariants Profiler Gl_Tty Demos_3d Fire Lockstep_Single Linux_Sim Fire_Run Emulator_Main Uart_Rx Wedge_Trace Probes Radix Kernels Simlog
begin

text \<open>
  Verification library for Chiron, a four-hart RV64IMA machine in Chisel with its simulators, lock-step
  harnesses and bare-metal workloads.

  \<^bold>\<open>The program.\<close> The repository has three layers in C and C++. The golden model
  (\<^verbatim>\<open>src/sim/emulator\<close>) interprets RV64IMA on four harts that share memory, a CLINT and a UART. The
  harnesses (\<^verbatim>\<open>src/sim/harness\<close>, \<^verbatim>\<open>src/sim/rtl\<close>) clock the Verilated RTL, load images into it, compare
  every commit with the golden model, check invariants of the reorder buffer and read performance
  counters. The workloads (\<^verbatim>\<open>src/workloads\<close>) are the multi-hart programs that run on the machine.
  The harnesses call the golden model and the RTL driver; the workloads share a barrier, a console and
  two graphics libraries.

  \<^bold>\<open>Golden model.\<close>
  \<^item> \<^verbatim>\<open>Chiron_Prelude\<close>, \<^verbatim>\<open>Interfaces\<close>: integer types, shared lemmas, and the locale \<open>reg_bank\<close> (a read
    returns the last write of its cell), interpreted on the CLINT's two register vectors, the integer
    register file and the writable CSRs.
  \<^item> \<^verbatim>\<open>Clint\<close> (\<^verbatim>\<open>clint.h\<close>), \<^verbatim>\<open>Csr_Regs\<close> (\<^verbatim>\<open>hart_csr.inc\<close>), \<^verbatim>\<open>Hart_Alu\<close> (\<^verbatim>\<open>hart_alu.inc\<close>), \<^verbatim>\<open>Hart_Mem\<close>
    (\<^verbatim>\<open>hart_memory.inc\<close>), \<^verbatim>\<open>Hart_State\<close> (\<^verbatim>\<open>hart.h\<close>, \<^verbatim>\<open>hart_trap.inc\<close>), \<^verbatim>\<open>Hart_Exec\<close> (\<^verbatim>\<open>hart_execute.inc\<close>),
    \<^verbatim>\<open>Emulator\<close> (\<^verbatim>\<open>emulator.h\<close>). A machine is one hart's record with the shared record; the emulator is
    the list of harts and the shared record. What ends the process is a value of \<open>abort\<close>.
  \<^item> \<^verbatim>\<open>Alu_Correct\<close>, \<^verbatim>\<open>Decode_Correct\<close>, \<^verbatim>\<open>Hart_Correct\<close>, \<^verbatim>\<open>Control_Correct\<close>: a reference semantics after the
    instruction set manual, and that whole instructions from their encodings compute it, on every
    branch and with the exceptions they raise.
  \<^item> \<^verbatim>\<open>Reservation\<close>: atomics; SC.W succeeds only on unchanged memory, SC.D does not look at other
    harts' stores. \<^verbatim>\<open>Step_Correct\<close>: interrupts, fetch, memory bounds and the trap round trip.
    \<^verbatim>\<open>Device_Correct\<close>: CLINT, UART and CSRs as software sees them. \<^verbatim>\<open>Image_Correct\<close>: image loading.
    \<^verbatim>\<open>Machine_Inv\<close>: the invariant of every reachable machine. \<^verbatim>\<open>Emulator_Main\<close> (\<^verbatim>\<open>emulator_linux.cpp\<close>,
    \<^verbatim>\<open>terminal.h\<close>): the stand-alone main loop, a partial function whose value is \<open>None\<close> when it runs for
    ever, and exactly when it returns.

  \<^bold>\<open>Harnesses.\<close>
  \<^item> \<^verbatim>\<open>Rtl_Model\<close> (\<^verbatim>\<open>rtl_model.h\<close>): clocking, commit ports, register read-out and loading. The Verilated
    class is generated code: its state is a type variable and its ports are the record \<open>vsystem\<close>,
    an argument of every definition.
  \<^item> \<^verbatim>\<open>Harness_Common\<close> (\<^verbatim>\<open>common/args.h\<close>, \<^verbatim>\<open>completion.h\<close>, \<^verbatim>\<open>image.h\<close>): every byte of an image reaches the
    programmer port, under the port's documented behaviour. \<^verbatim>\<open>Simlog\<close> (\<^verbatim>\<open>common/simlog.h\<close>): every
    logged line is in the file when the operation returns.
  \<^item> \<^verbatim>\<open>Lockstep\<close> (\<^verbatim>\<open>lockstep_quad.cpp\<close>), \<^verbatim>\<open>Lockstep_Linux\<close> (\<^verbatim>\<open>lockstep_linux.cpp\<close>), \<^verbatim>\<open>Checker\<close> and
    \<^verbatim>\<open>Lockstep_Correct\<close>: the comparison with its repairs of racy loads, atomics and interrupts. The
    locale \<open>hart_checker\<close> states what a comparison promises to the loop that runs it; its two
    interpretations give that a clock passes exactly when every committing hart agreed.
  \<^item> \<^verbatim>\<open>Lockstep_Single\<close> (\<^verbatim>\<open>lockstep.cpp\<close>, \<^verbatim>\<open>lockstep_isa.cpp\<close>): the single-core main loops; a pass means
    that every commit before it agreed.
  \<^item> \<^verbatim>\<open>Linux_Sim\<close> (\<^verbatim>\<open>linux_sim.cpp\<close>): the boot loop; typed bytes arrive in order under the documented
    behaviour of the UART's input latch (\<open>host_latch\<close>), and the checkpoint files are the last ones written.
  \<^item> \<^verbatim>\<open>Watch\<close>: the locale \<open>watched_run\<close>, a run with a cycle budget and a commit watchdog; it stops in the
    first cycle that the states of the design decide. \<^verbatim>\<open>Profile_Run\<close> (\<^verbatim>\<open>profile.cpp\<close>, \<^verbatim>\<open>profile_quad.cpp\<close>)
    interprets it on both profile programs, with the checker and the work windows composed in.
    \<^verbatim>\<open>Fire_Run\<close> (\<^verbatim>\<open>fire.cpp\<close>): the streamer stops at the wanted frame, program counter or budget.
  \<^item> \<^verbatim>\<open>Uart_Rx\<close> (\<^verbatim>\<open>uartrx_test.cpp\<close>): the text is delivered in order, and what a pass means. \<^verbatim>\<open>Wedge_Trace\<close>
    (\<^verbatim>\<open>linux_sim_trace.cpp\<close>, \<^verbatim>\<open>seqlock_wedge_trace.cpp\<close>): when the tracers trigger and what they record; the
    first never ends its window. \<^verbatim>\<open>Probes\<close> (\<^verbatim>\<open>image_load_probe.cpp\<close>, \<^verbatim>\<open>linux_invariants_probe.cpp\<close>,
    \<^verbatim>\<open>tty_scan_probe.cpp\<close>): loading followed by the probe finds no difference; the invariants probe is the
    checker over the whole boot.
  \<^item> \<^verbatim>\<open>Invariants\<close> (\<^verbatim>\<open>invariants.h\<close>): the reorder-buffer checks and what they count. \<^verbatim>\<open>Profiler\<close>
    (\<^verbatim>\<open>profiler.h\<close>, \<^verbatim>\<open>profiler_quad.h\<close>): the two counter readers agree; the type of \<open>double\<close> is a
    parameter with its operations.

  \<^bold>\<open>Workloads.\<close>
  \<^item> \<^verbatim>\<open>Util_Barrier\<close> (\<^verbatim>\<open>util.h\<close>): the sense-reversing barrier as steps of the harts, safe and live.
  \<^item> \<^verbatim>\<open>Workload_Lib\<close> (\<^verbatim>\<open>util.h\<close>, \<^verbatim>\<open>syscalls.c\<close>): verification of arrays and the console. \<^verbatim>\<open>Stress\<close>
    (\<^verbatim>\<open>mt-stress.c\<close>): every block of the program, and that no atomic increment is lost. \<^verbatim>\<open>Radix\<close>
    (\<^verbatim>\<open>mt-radix.c\<close>): the parallel radix sort under every interleaving of the harts between barriers (locale
    \<open>interleaved\<close> of \<^verbatim>\<open>Interleaving\<close>, interpreted on its three parallel loops). \<^verbatim>\<open>Kernels\<close>
    (\<^verbatim>\<open>vvadd.c\<close>, \<^verbatim>\<open>mt-csaxpy.c\<close>, \<^verbatim>\<open>matmul.c\<close>, \<^verbatim>\<open>mask-sfilter.c\<close>, \<^verbatim>\<open>mt_histo.c\<close>): commuting updates give under
    every interleaving what one hart gives (locale \<open>commuting\<close>, a sublocale of \<open>interleaved\<close>), and the
    histogram loses no atomic add.
  \<^item> \<^verbatim>\<open>G3d\<close>, \<^verbatim>\<open>G3d_Correct\<close> (\<^verbatim>\<open>g3d.c\<close>): fixed point, rasteriser, terminal output. \<^verbatim>\<open>Gl_Tty\<close>
    (\<^verbatim>\<open>GL_tty.h\<close>): terminal graphics and line clipping.
  \<^item> \<^verbatim>\<open>Demos_3d\<close> (\<^verbatim>\<open>mt-cube.c\<close>, \<^verbatim>\<open>mt-solid.c\<close>, \<^verbatim>\<open>host_smoke.c\<close>): a frame as phases between barriers; any
    number of harts in any order gives what one hart gives. \<^verbatim>\<open>Fire\<close> (\<^verbatim>\<open>mt-fire.c\<close>): the blur phases are a
    box blur whatever the harts' order (locale \<open>line_pass\<close>, interpreted on rows and columns); the
    scroll is not independent of the order, and a third hart has no random seed.

  \<^bold>\<open>Bounds and fuel.\<close> Machine integers are words of their width, or \<open>int\<close> with \<open>wrap32\<close> written out.
  Loops that the source does not bound take a count: the run through CSR instructions (\<open>csr_skip\<close>,
  reported as \<open>CsrRunaway\<close>), the harness main loops (\<open>None\<close> when the count ends before the run does) and
  the line clipping, for which five rounds are proved to be enough. The simulators' own time-outs are
  their arguments. In a phase of a demo each hart runs its whole share before the next one; the
  barriers between the phases are the subject of \<^verbatim>\<open>Util_Barrier\<close>.

  \<^bold>\<open>Not modelled.\<close> The Chisel RTL (another language; it enters through \<open>vsystem\<close> and the taps); waveforms,
  progress lines and messages, which nothing reads back; the other probes of
  \<^verbatim>\<open>src/sim/harness/probes\<close>, each of which prints internal nets of the generated class around one past
  defect and has no contract of its own; the vendored \<^verbatim>\<open>encoding.h\<close>, a list of constants; the
  benchmark programs that test one mechanism each in inline assembly; the start-up code and
  \<^verbatim>\<open>main\<close> stubs of the workloads. System calls, the environment and files are arguments of the
  models that use them.
\<close>

end
